(* ===== verification/Prelude.thy ===== *)
theory Prelude
  imports Main "HOL-Library.Sublist"
begin

text \<open>
  Shared vocabulary of the development: bytes and strings, the parts of Rust's standard
  library the components use on them (ASCII classification and case folding, searching,
  splitting, decimal parsing), durations and clock values, and generic lemmas on lists.

  A Rust \<open>&[u8]\<close> and a Rust \<open>&str\<close> are both \<open>string\<close>, a list of \<open>char\<close>: a HOL
  \<open>char\<close> is one of 256 values, that is one byte, and a \<open>str\<close> is its UTF-8 bytes.
  \<open>usize\<close> counters of bytes held in memory are \<open>nat\<close>.
\<close>

section \<open>Proof collections\<close>

named_theorems ascii_simps "characteristic equations of the ASCII helpers"
named_theorems clock_simps "characteristic equations of durations and clock values"

section \<open>Types\<close>

type_synonym byte = char
type_synonym bytes = string

text \<open>A duration is its number of nanoseconds; \<open>Duration::MAX\<close> bounds it.\<close>

type_synonym duration = nat

definition nanos_per_sec :: nat where
  "nanos_per_sec = 1000000000"

definition u64_max :: nat where
  "u64_max = 18446744073709551615"

definition duration_max :: duration where
  "duration_max = u64_max * nanos_per_sec + (nanos_per_sec - 1)"

definition from_secs :: "nat \<Rightarrow> duration" where
  "from_secs s = s * nanos_per_sec"

definition from_millis :: "nat \<Rightarrow> duration" where
  "from_millis m = m * 1000000"

definition duration_checked_mul2 :: "duration \<Rightarrow> duration option" where
  "duration_checked_mul2 d = (if 2 * d \<le> duration_max then Some (2 * d) else None)"

definition duration_saturating_add :: "duration \<Rightarrow> duration \<Rightarrow> duration" where
  "duration_saturating_add a b = min (a + b) duration_max"

text \<open>
  A \<open>SystemTime\<close> is its distance from the epoch in nanoseconds. A \<open>SystemTime\<close> of a Unix target holds seconds in an \<open>i64\<close>; \<open>checked_add\<close> answers nothing beyond it.
\<close>

type_synonym system_time = int

definition systime_max :: system_time where
  "systime_max = 9223372036854775807 * 1000000000 + 999999999"

definition checked_add :: "system_time \<Rightarrow> duration \<Rightarrow> system_time option" where
  "checked_add t d = (if t + int d \<le> systime_max then Some (t + int d) else None)"

text \<open>
  A calendar, as the date parsers take it from the \<open>jiff\<close> crate: \<open>Date::new\<close>, \<open>Time::new\<close> and the seconds since the epoch of the two, or nothing
  where one of them does not exist. Arguments are year, month, day, hour, minute and second.
\<close>

type_synonym calendar = "nat \<Rightarrow> nat \<Rightarrow> nat \<Rightarrow> nat \<Rightarrow> nat \<Rightarrow> nat \<Rightarrow> int option"

section \<open>Generic list lemmas\<close>

lemma takeWhile_append_all:
  "(\<And>x. x \<in> set xs \<Longrightarrow> P x) \<Longrightarrow> takeWhile P (xs @ ys) = xs @ takeWhile P ys"
  by (induction xs) auto

lemma dropWhile_append_all:
  "(\<And>x. x \<in> set xs \<Longrightarrow> P x) \<Longrightarrow> dropWhile P (xs @ ys) = dropWhile P ys"
  by (induction xs) auto

lemma dropWhile_hd:
  "dropWhile P xs = y # ys \<Longrightarrow> \<not> P y"
  by (induction xs) (auto split: if_splits)

lemma foldl_append_hom:
  assumes "\<And>s x. f (g s) x = g (f s x)"
  shows "foldl f (g s) xs = g (foldl f s xs)"
  using assms by (induction xs arbitrary: s) auto

section \<open>Loops with an early return\<close>

text \<open>
  \<open>for x in xs { v = f(v, x); if stop(v) { return v; } }\<close>
\<close>

fun fold_until :: "('v \<Rightarrow> bool) \<Rightarrow> ('v \<Rightarrow> 'a \<Rightarrow> 'v) \<Rightarrow> 'v \<Rightarrow> 'a list \<Rightarrow> 'v" where
  "fold_until stop f v [] = v"
| "fold_until stop f v (x # xs) = (let v' = f v x in if stop v' then v' else fold_until stop f v' xs)"

lemma fold_until_foldl:
  assumes "\<And>v x. stop v \<Longrightarrow> f v x = v"
  shows "fold_until stop f v xs = foldl f v xs"
proof (induction xs arbitrary: v)
  case (Cons x xs)
  have "stop w \<Longrightarrow> foldl f w xs = w" for w using assms by (induction xs) auto
  then show ?case using Cons by (simp add: Let_def)
qed simp

end
