(* ===== verification/Line_Splitter.thy ===== *)
theory Line_Splitter
  imports Prelude
begin

text \<open>
  The line splitter of \<open>crates/hclient/src/sansio/sse/lines.rs\<close>: \<open>LineSplitter\<close> with
  \<open>push\<close>, \<open>next_line\<close>, \<open>buffered_len\<close> and \<open>take_unterminated\<close>. The theory shows that
  the splitter, driven the way both of its clients drive it (a push, then \<open>next_line\<close>
  until it answers \<open>None\<close>), is a byte-at-a-time automaton, whatever the chunk boundaries
  are, and that every byte pushed is accounted for exactly once.
\<close>

section \<open>The model\<close>

record line_splitter =
  buf :: bytes
  start :: nat
  bom_seen :: nat
  bom_done :: bool
  pending_cr :: bool
  carried_terminator :: nat

definition BOM :: bytes where
  "BOM = [CHR 0xEF, CHR 0xBB, CHR 0xBF]"

definition ls_new :: line_splitter where
  "ls_new = \<lparr>buf = [], start = 0, bom_seen = 0, bom_done = False, pending_cr = False,
     carried_terminator = 0\<rparr>"

abbreviation LF :: byte where "LF \<equiv> CHR 0x0A"
abbreviation CR :: byte where "CR \<equiv> CHR 0x0D"

text \<open>The compaction at the head of \<open>push\<close>: \<open>buf.drain(..start)\<close>.\<close>

definition compact :: "line_splitter \<Rightarrow> line_splitter" where
  "compact ls = (if start ls > 0 then ls\<lparr>buf := drop (start ls) (buf ls), start := 0\<rparr> else ls)"

text \<open>The BOM phase: bytes are matched against the mark until it is complete or refuted.\<close>

fun bom_phase :: "line_splitter \<Rightarrow> bytes \<Rightarrow> line_splitter \<times> bytes" where
  "bom_phase ls [] = (ls, [])"
| "bom_phase ls (b # rest) =
     (if bom_done ls then (ls, b # rest)
      else if b = BOM ! bom_seen ls then
        bom_phase (ls\<lparr>bom_seen := bom_seen ls + 1, bom_done := (bom_seen ls + 1 = 3)\<rparr>) rest
      else (ls\<lparr>buf := buf ls @ take (bom_seen ls) BOM, bom_done := True\<rparr>, b # rest))"

text \<open>One iteration of the loop over the rest of the chunk.\<close>

definition push_byte :: "line_splitter \<Rightarrow> byte \<Rightarrow> line_splitter" where
  "push_byte ls b =
     (if pending_cr ls then
        (if b = LF
         then ls\<lparr>pending_cr := False, carried_terminator := carried_terminator ls + 1\<rparr>
         else ls\<lparr>pending_cr := False, buf := buf ls @ [b]\<rparr>)
      else ls\<lparr>buf := buf ls @ [b]\<rparr>)"

definition ls_push :: "line_splitter \<Rightarrow> bytes \<Rightarrow> line_splitter" where
  "ls_push ls chunk = (case bom_phase (compact ls) chunk of (ls', rest) \<Rightarrow> foldl push_byte ls' rest)"

definition is_term :: "byte \<Rightarrow> bool" where
  "is_term b \<longleftrightarrow> b = LF \<or> b = CR"

definition next_line :: "line_splitter \<Rightarrow> ((bytes \<times> nat) \<times> line_splitter) option" where
  "next_line ls =
     (let hay = drop (start ls) (buf ls); pos = length (takeWhile (\<lambda>b. \<not> is_term b) hay) in
      if pos = length hay then None
      else
        let term = hay ! pos;
            line = take pos hay;
            consumed = pos + 1 + carried_terminator ls;
            ls1 = ls\<lparr>carried_terminator := 0, start := start ls + pos + 1\<rparr>
        in Some (if term = CR then
               if start ls1 < length (buf ls1) \<and> buf ls1 ! start ls1 = LF
               then ((line, consumed + 1), ls1\<lparr>start := start ls1 + 1\<rparr>)
               else if start ls1 = length (buf ls1)
               then ((line, consumed), ls1\<lparr>pending_cr := True\<rparr>)
               else ((line, consumed), ls1)
             else ((line, consumed), ls1)))"

definition buffered_len :: "line_splitter \<Rightarrow> nat" where
  "buffered_len ls =
     (length (buf ls) - start ls) + (if bom_done ls then 0 else bom_seen ls)
       + carried_terminator ls"

definition take_unterminated :: "line_splitter \<Rightarrow> bytes \<times> line_splitter" where
  "take_unterminated ls =
     (let ls1 = (if bom_done ls then ls
                 else ls\<lparr>buf := buf ls @ take (bom_seen ls) BOM, bom_done := True\<rparr>)
      in (drop (start ls1) (buf ls1),
          ls1\<lparr>buf := [], start := 0, carried_terminator := 0\<rparr>))"


section \<open>Driving the splitter\<close>

lemma next_line_measure:
  assumes "next_line ls = Some (l, ls')"
  shows "length (buf ls') - start ls' < length (buf ls) - start ls"
  using assms length_takeWhile_le [of "\<lambda>b. \<not> is_term b" "drop (start ls) (buf ls)"]
  by (auto simp: next_line_def Let_def split: if_splits)

text \<open>The loop \<open>while let Some((line, consumed)) = lines.next_line()\<close> of both clients.\<close>

function drain :: "line_splitter \<Rightarrow> (bytes \<times> nat) list \<times> line_splitter" where
  "drain ls =
     (case next_line ls of
        None \<Rightarrow> ([], ls)
      | Some (l, ls') \<Rightarrow> (case drain ls' of (ll, ls'') \<Rightarrow> (l # ll, ls'')))"
  by pat_completeness auto
termination
  by (relation "measure (\<lambda>ls. length (buf ls) - start ls)") (auto dest: next_line_measure)

declare drain.simps [simp del]

text \<open>Chunks arrive one after the other, each drained before the next.\<close>

fun feed :: "line_splitter \<Rightarrow> bytes list \<Rightarrow> (bytes \<times> nat) list \<times> line_splitter" where
  "feed ls [] = ([], ls)"
| "feed ls (c # cs) =
     (case drain (ls_push ls c) of (l1, ls1) \<Rightarrow> (case feed ls1 cs of (l2, ls2) \<Rightarrow> (l1 @ l2, ls2)))"

section \<open>The reference: a byte automaton\<close>

text \<open>
  The automaton reads one byte at a time and knows nothing of chunks. Its state is the line
  read so far and whether the previous byte was a CR that ended a line.
\<close>

type_synonym line_state = "bytes \<times> bool"

fun aut_step :: "line_state \<Rightarrow> byte \<Rightarrow> bytes list \<times> line_state" where
  "aut_step (acc, pend) b =
     (if pend \<and> b = LF then ([], (acc, False))
      else if b = LF then ([acc], ([], False))
      else if b = CR then ([acc], ([], True))
      else ([], (acc @ [b], False)))"

fun aut_run :: "line_state \<Rightarrow> bytes \<Rightarrow> bytes list \<times> line_state" where
  "aut_run st [] = ([], st)"
| "aut_run st (b # bs) =
     (case aut_step st b of (l1, st1) \<Rightarrow> (case aut_run st1 bs of (l2, st2) \<Rightarrow> (l1 @ l2, st2)))"

text \<open>One leading byte order mark is not part of the text; a proper prefix of it is undecided.\<close>

definition strip_bom :: "bytes \<Rightarrow> bytes" where
  "strip_bom s = (if take 3 s = BOM then drop 3 s else if s = take (length s) BOM then [] else s)"

definition lines_of :: "bytes \<Rightarrow> bytes list" where
  "lines_of s = fst (aut_run ([], False) (strip_bom s))"

definition line_rest :: "bytes \<Rightarrow> line_state" where
  "line_rest s = snd (aut_run ([], False) (strip_bom s))"

section \<open>Automaton lemmas\<close>

lemma aut_run_append:
  "aut_run st (xs @ ys) =
     (case aut_run st xs of (l1, st1) \<Rightarrow> (case aut_run st1 ys of (l2, st2) \<Rightarrow> (l1 @ l2, st2)))"
  by (induction xs arbitrary: st) (auto split: prod.splits)

lemma aut_run_plain:
  "(\<And>b. b \<in> set xs \<Longrightarrow> \<not> is_term b) \<Longrightarrow> aut_run (acc, False) xs = ([], (acc @ xs, False))"
  by (induction xs arbitrary: acc) (auto simp: is_term_def)

lemma aut_run_pend:
  "aut_run (acc, True) (b # bs) = (if b = LF then aut_run (acc, False) bs else aut_run (acc, False) (b # bs))"
  by auto

lemma aut_run_line:
  assumes "\<And>b. b \<in> set xs \<Longrightarrow> \<not> is_term b" and "is_term t"
  shows "aut_run (acc, False) (xs @ t # ys) =
    (case aut_run ([], t = CR) ys of (ll, st) \<Rightarrow> ((acc @ xs) # ll, st))"
  using assms by (auto simp: aut_run_append aut_run_plain is_term_def split: prod.splits)

section \<open>One drain is one run of the automaton\<close>

abbreviation hay :: "line_splitter \<Rightarrow> bytes" where
  "hay ls \<equiv> drop (start ls) (buf ls)"

lemma hay_split:
  assumes "length (takeWhile (\<lambda>b. \<not> is_term b) h) \<noteq> length h"
  obtains xs t ys where "h = xs @ t # ys" "\<And>b. b \<in> set xs \<Longrightarrow> \<not> is_term b" "is_term t"
    "length (takeWhile (\<lambda>b. \<not> is_term b) h) = length xs"
proof -
  let ?P = "\<lambda>b. \<not> is_term b"
  have "dropWhile ?P h \<noteq> []"
    using assms by (metis append_Nil2 takeWhile_dropWhile_id)
  then obtain t ys where d: "dropWhile ?P h = t # ys" by (cases "dropWhile ?P h") auto
  have "h = takeWhile ?P h @ t # ys" using d by (metis takeWhile_dropWhile_id)
  moreover have "is_term t" using dropWhile_hd [OF d] by simp
  ultimately show ?thesis using that set_takeWhileD by metis
qed

lemma next_line_None: "next_line ls = None \<longleftrightarrow> (\<forall>b \<in> set (hay ls). \<not> is_term b)"
proof -
  have "length (takeWhile P h) = length h \<longleftrightarrow> (\<forall>b \<in> set h. P b)" for P :: "byte \<Rightarrow> bool" and h
    by (metis takeWhile_eq_all_conv takeWhile_eq_take take_all_iff order_refl)
  then show ?thesis by (simp add: next_line_def Let_def del: length_drop)
qed

lemma next_line_Some:
  assumes "hay ls = xs @ t # ys" "\<And>b. b \<in> set xs \<Longrightarrow> \<not> is_term b" "is_term t"
  shows "next_line ls =
    (let ls1 = ls\<lparr>carried_terminator := 0, start := start ls + length xs + 1\<rparr>;
         n = length xs + 1 + carried_terminator ls in
     Some (if t = CR then
         (case ys of [] \<Rightarrow> ((xs, n), ls1\<lparr>pending_cr := True\<rparr>)
          | y # _ \<Rightarrow> if y = LF then ((xs, n + 1), ls1\<lparr>start := start ls1 + 1\<rparr>) else ((xs, n), ls1))
       else ((xs, n), ls1)))"
proof -
  have pos: "length (takeWhile (\<lambda>b. \<not> is_term b) (hay ls)) = length xs"
    using assms by (simp add: takeWhile_append_all)
  have lt: "start ls + length xs < length (buf ls)"
    using arg_cong [OF assms(1), of length] by simp
  have ys: "drop (start ls + length xs + 1) (buf ls) = ys"
    using arg_cong [OF assms(1), of "drop (length xs + 1)"] by (simp add: add.commute)
  have "start ls + length xs + 1 = length (buf ls) \<longleftrightarrow> ys = []"
    using arg_cong [OF ys, of length] lt by auto
  moreover have "ys = y # zs \<Longrightarrow> start ls + length xs + 1 < length (buf ls) \<and>
      buf ls ! (start ls + length xs + 1) = y" for y zs
    using ys by (metis drop_all hd_drop_conv_nth linorder_not_le list.distinct(1) list.sel(1))
  moreover have "length xs \<noteq> length (hay ls)" using assms(1) by simp
  moreover have "hay ls ! length xs = t" "take (length xs) (hay ls) = xs" using assms(1) by simp_all
  ultimately show ?thesis
    unfolding next_line_def Let_def pos by (cases ys) auto
qed

lemma drain_None: "next_line ls = None \<Longrightarrow> drain ls = ([], ls)"
  by (subst drain.simps) simp

lemma drain_Some:
  "next_line ls = Some (l, ls') \<Longrightarrow> drain ls = (l # fst (drain ls'), snd (drain ls'))"
  by (subst drain.simps) (simp split: prod.splits)

lemma next_line_frame:
  assumes "next_line ls = Some (l, ls')"
  shows "buf ls' = buf ls" "bom_done ls' = bom_done ls" "bom_seen ls' = bom_seen ls"
    "carried_terminator ls' = 0"
  using assms by (auto simp: next_line_def Let_def split: if_splits)

lemma drain_frame:
  "buf (snd (drain ls)) = buf ls \<and> bom_done (snd (drain ls)) = bom_done ls \<and>
   bom_seen (snd (drain ls)) = bom_seen ls"
proof (induction ls rule: drain.induct)
  case (1 ls)
  show ?case
  proof (cases "next_line ls")
    case None
    then show ?thesis by (simp add: drain_None)
  next
    case (Some r)
    then obtain l ls' where "next_line ls = Some (l, ls')" by (cases r) auto
    then show ?thesis using "1.IH" [of "(l, ls')" l ls'] next_line_frame [of ls l ls']
      by (simp add: drain_Some)
  qed
qed

text \<open>
  A drain of a splitter with no pending CR runs the automaton over what is buffered: the
  lines are the automaton's, what stays buffered is the automaton's partial line, and the
  pending flag is the automaton's.
\<close>

lemma drain_aut:
  assumes "start ls \<le> length (buf ls)" "\<not> pending_cr ls"
  shows "map fst (fst (drain ls)) = fst (aut_run ([], False) (hay ls)) \<and>
    (hay (snd (drain ls)), pending_cr (snd (drain ls))) = snd (aut_run ([], False) (hay ls)) \<and>
    start (snd (drain ls)) \<le> length (buf ls)"
  using assms
proof (induction ls rule: drain.induct)
  case (1 ls)
  show ?case
  proof (cases "next_line ls")
    case None
    then have "\<forall>b \<in> set (hay ls). \<not> is_term b" by (simp only: next_line_None)
    then show ?thesis using None "1.prems" by (simp add: drain_None aut_run_plain)
  next
    case (Some r)
    then obtain xs t ys where h: "hay ls = xs @ t # ys"
      and xs: "\<And>b. b \<in> set xs \<Longrightarrow> \<not> is_term b" and t: "is_term t"
      using hay_split [of "hay ls"] next_line_None [of ls]
      by (metis (no_types, lifting) option.distinct(1) takeWhile_eq_all_conv takeWhile_eq_take take_all_iff order_refl)
    obtain l ls' where nl: "next_line ls = Some (l, ls')" using Some by (cases r) auto
    note eq = next_line_Some [OF h xs t]
    have dr: "drain ls = (l # fst (drain ls'), snd (drain ls'))" by (rule drain_Some [OF nl])
    have len: "start ls + length xs + 1 \<le> length (buf ls)"
      using arg_cong [OF h, of length] by simp
    have ys: "drop (start ls + length xs + 1) (buf ls) = ys"
      using arg_cong [OF h, of "drop (length xs + 1)"] by (simp add: add.commute)
    show ?thesis
    proof (cases "t = CR \<and> ys = []")
      case True
      then have l': "l = (xs, length xs + 1 + carried_terminator ls)" "hay ls' = []" "pending_cr ls'"
        "start ls' \<le> length (buf ls)"
        using nl eq ys len by (auto simp: Let_def)
      then have "next_line ls' = None" by (simp add: next_line_None)
      moreover have "aut_run ([], False) (hay ls) = ([xs], ([], True))"
        using True h xs by (simp add: aut_run_append aut_run_plain)
      ultimately show ?thesis using l' by (simp add: dr drain_None del: drop_eq_Nil)
    next
      case False
      let ?rest = "if t = CR \<and> hd ys = LF then tl ys else ys"
      have l': "fst l = xs" "hay ls' = ?rest" "\<not> pending_cr ls'" "start ls' \<le> length (buf ls')"
        using nl eq ys len False "1.prems" t
        by (auto simp: Let_def is_term_def split: list.splits if_splits)
          (metis drop_Suc_Cons drop_drop drop_0 plus_1_eq_Suc, metis Suc_leI drop_all linorder_not_le list.distinct(1))+
      have "aut_run ([], t = CR) ys = aut_run ([], False) ?rest"
        using False by (cases ys) (auto simp: aut_run_pend)
      then show ?thesis
        using "1.IH" [OF nl refl l'(4,3)] l' next_line_frame(1) [OF nl]
        by (auto simp: dr h aut_run_line [OF xs t] split: prod.splits)
    qed
  qed
qed

section \<open>The BOM phase and the byte loop\<close>

text \<open>
  The splitter while the mark is undecided: nothing is buffered and the bytes seen are a
  proper prefix of the mark.
\<close>

definition bom_pending :: "line_splitter \<Rightarrow> bool" where
  "bom_pending ls \<longleftrightarrow> \<not> bom_done ls \<and> bom_seen ls < 3 \<and> buf ls = [] \<and> start ls = 0 \<and>
     \<not> pending_cr ls \<and> carried_terminator ls = 0"

lemma length_BOM [simp]: "length BOM = 3"
  by (simp add: BOM_def)

lemma take3_refuted:
  assumes "k < 3" "b \<noteq> BOM ! k"
  shows "take 3 (take k BOM @ b # rest) \<noteq> BOM"
proof -
  let ?s = "take k BOM @ b # rest"
  have "?s ! k = b" using assms(1) by (simp add: nth_append)
  moreover have "take 3 ?s ! k = ?s ! k" using assms(1) by (rule nth_take)
  ultimately show ?thesis using assms(2) by metis
qed

lemma strip_bom_refuted:
  assumes "k < 3" "b \<noteq> BOM ! k"
  shows "strip_bom (take k BOM @ b # rest) = take k BOM @ b # rest"
proof -
  let ?s = "take k BOM @ b # rest"
  have k: "?s ! k = b" using assms(1) by (simp add: nth_append)
  have b: "?s \<noteq> take (length ?s) BOM"
  proof
    assume eq: "?s = take (length ?s) BOM"
    have "take (length ?s) BOM ! k = BOM ! k" using assms(1) by (intro nth_take) simp
    then show False using eq k assms(2) by metis
  qed
  show ?thesis unfolding strip_bom_def by (simp only: take3_refuted [OF assms] b if_False)
qed

lemma strip_bom_found: "strip_bom (BOM @ rest) = rest"
  by (simp add: strip_bom_def)

lemma take_Suc_BOM: "k < 3 \<Longrightarrow> take k BOM @ [BOM ! k] = take (Suc k) BOM"
  by (simp add: take_Suc_conv_app_nth)

lemma bom_phase_done: "bom_done ls \<Longrightarrow> bom_phase ls c = (ls, c)"
  by (cases c) auto

lemma bom_phase_pending:
  assumes "bom_pending ls" "bom_phase ls c = (ls', rest)"
  shows "if bom_done ls'
    then buf ls' @ rest = strip_bom (take (bom_seen ls) BOM @ c) \<and> start ls' = 0 \<and>
      \<not> pending_cr ls' \<and> carried_terminator ls' = 0 \<and> (\<forall>b \<in> set (buf ls'). \<not> is_term b) \<and>
      bom_seen ls' \<le> 3 \<and> (bom_seen ls' = 3) = (take 3 (take (bom_seen ls) BOM @ c) = BOM) \<and>
      length (buf ls') + length rest + (if bom_seen ls' = 3 then 3 else 0) = bom_seen ls + length c
    else bom_pending ls' \<and> rest = [] \<and> take (bom_seen ls) BOM @ c = take (bom_seen ls') BOM \<and>
      bom_seen ls' = bom_seen ls + length c"
  using assms
proof (induction c arbitrary: ls)
  case Nil
  then show ?case by (auto simp: bom_pending_def)
next
  case (Cons b c)
  let ?k = "bom_seen ls"
  have nd: "\<not> bom_done ls" and k: "?k < 3" and e: "buf ls = []" "start ls = 0" "\<not> pending_cr ls" "carried_terminator ls = 0"
    using Cons.prems(1) by (auto simp: bom_pending_def)
  show ?case
  proof (cases "b = BOM ! ?k")
    case False
    have "\<forall>b \<in> set BOM. \<not> is_term b" by (simp add: BOM_def is_term_def)
    then have nt: "\<forall>b \<in> set (take ?k BOM). \<not> is_term b" by (meson in_set_takeD)
    from False have "ls' = ls\<lparr>buf := take ?k BOM, bom_done := True\<rparr>" "rest = b # c"
      using Cons.prems(2) nd e by auto
    then show ?thesis using strip_bom_refuted [OF k False] take3_refuted [OF k False] e k nt by (auto simp: min_def)
  next
    case True
    let ?ls = "ls\<lparr>bom_seen := Suc ?k, bom_done := (Suc ?k = 3)\<rparr>"
    have ph: "bom_phase ?ls c = (ls', rest)" using Cons.prems(2) nd True by simp
    have pre: "take ?k BOM @ b # c = take (Suc ?k) BOM @ c"
      using take_Suc_BOM [OF k] True by (metis append.assoc append_Cons append_Nil)
    show ?thesis
    proof (cases "Suc ?k = 3")
      case True
      then have "ls' = ?ls" "rest = c" using ph bom_phase_done [of ?ls c] by auto
      moreover have "strip_bom (take ?k BOM @ b # c) = c" "take 3 (take ?k BOM @ b # c) = BOM"
        unfolding pre using True by (simp_all add: strip_bom_found)
      ultimately show ?thesis using True e by simp
    next
      case False
      then have "bom_pending ?ls" using k e by (simp add: bom_pending_def)
      from Cons.IH [OF this ph] show ?thesis unfolding pre by (simp split: if_splits)
    qed
  qed
qed

lemma foldl_push_byte_plain:
  "\<not> pending_cr ls \<Longrightarrow> foldl push_byte ls rest = ls\<lparr>buf := buf ls @ rest\<rparr>"
  by (induction rest arbitrary: ls) (auto simp: push_byte_def)

lemma foldl_push_byte:
  "foldl push_byte ls (b # rest) =
     (if pending_cr ls \<and> b = LF
      then ls\<lparr>pending_cr := False, carried_terminator := carried_terminator ls + 1, buf := buf ls @ rest\<rparr>
      else ls\<lparr>pending_cr := False, buf := buf ls @ b # rest\<rparr>)"
  by (auto simp: push_byte_def foldl_push_byte_plain)

lemma bom_phase_append:
  "bom_phase ls c = (ls', rest) \<Longrightarrow> bom_done ls' \<Longrightarrow> bom_phase ls (c @ c') = (ls', rest @ c')"
  by (induction c arbitrary: ls) (auto simp: bom_phase_done split: if_splits)

section \<open>A drained splitter and the stream it was fed\<close>

text \<open>
  \<open>ls_rel s ls\<close>: the splitter \<open>ls\<close> has been fed the bytes \<open>s\<close>, in any chunks, and drained.
\<close>

definition ls_rel :: "bytes \<Rightarrow> line_splitter \<Rightarrow> bool" where
  "ls_rel s ls \<longleftrightarrow>
     (if bom_done ls
      then start ls \<le> length (buf ls) \<and> (hay ls, pending_cr ls) = line_rest s \<and>
        (\<forall>c. strip_bom (s @ c) = strip_bom s @ c) \<and>
        (\<forall>c. (bom_seen ls = 3) = (take 3 (s @ c) = BOM))
      else bom_pending ls \<and> s = take (bom_seen ls) BOM)"

lemma strip_bom_prefix: "k < 3 \<Longrightarrow> strip_bom (take k BOM) = []"
  by (auto simp: strip_bom_def)

lemma lines_of_Nil [simp]: "lines_of [] = []"
  by (simp add: lines_of_def strip_bom_def BOM_def)

lemma ls_rel_new: "ls_rel [] ls_new"
  by (simp add: ls_rel_def ls_new_def bom_pending_def)

lemma aut_run_acc_plain:
  "\<lbrakk>\<And>b. b \<in> set acc \<Longrightarrow> \<not> is_term b; b \<in> set (fst (snd (aut_run (acc, p) s)))\<rbrakk> \<Longrightarrow> \<not> is_term b"
proof (induction s arbitrary: acc p)
  case (Cons x s)
  obtain acc' p' l where st: "aut_step (acc, p) x = (l, (acc', p'))" by (metis surj_pair)
  then have "\<And>b. b \<in> set acc' \<Longrightarrow> \<not> is_term b"
    using Cons.prems(1) by (fastforce simp: is_term_def split: if_splits)
  then show ?case using Cons.IH [of acc' p'] Cons.prems(2) st by (auto split: prod.splits)
qed simp

lemma aut_run_pend_empty:
  "(p \<longrightarrow> acc = []) \<Longrightarrow> snd (snd (aut_run (acc, p) s)) \<Longrightarrow> fst (snd (aut_run (acc, p) s)) = []"
proof (induction s arbitrary: acc p)
  case (Cons x s)
  obtain acc' p' l where st: "aut_step (acc, p) x = (l, (acc', p'))" by (metis surj_pair)
  then have "p' \<longrightarrow> acc' = []" using Cons.prems(1) by (auto split: if_splits)
  then show ?case using Cons.IH [of p' acc'] Cons.prems(2) st by (auto split: prod.splits)
qed simp

text \<open>Pushing one chunk into a drained splitter whose mark is decided, and draining it.\<close>

lemma push_done:
  assumes "bom_done ls" "start ls \<le> length (buf ls)" "(hay ls, pending_cr ls) = (acc, p)"
    and plain: "\<And>b. b \<in> set acc \<Longrightarrow> \<not> is_term b" and pend: "p \<longrightarrow> acc = []"
    and dr: "drain (ls_push ls c) = (ll, ls')"
  shows "map fst ll = fst (aut_run (acc, p) c) \<and> (hay ls', pending_cr ls') = snd (aut_run (acc, p) c) \<and>
    start ls' \<le> length (buf ls') \<and> bom_done ls'"
proof (cases c)
  case Nil
  have h: "hay (ls_push ls c) = acc" "pending_cr (ls_push ls c) = p" "bom_done (ls_push ls c)"
    "start (ls_push ls c) \<le> length (buf (ls_push ls c))"
    using assms(1-3) Nil by (auto simp: ls_push_def compact_def)
  then have "next_line (ls_push ls c) = None" using plain by (simp add: next_line_None)
  then show ?thesis using dr h Nil by (auto simp: drain_None)
next
  case (Cons b c')
  let ?rest = "if p \<and> b = LF then c' else b # c'"
  have h: "hay (ls_push ls c) = acc @ ?rest" "\<not> pending_cr (ls_push ls c)" "bom_done (ls_push ls c)"
    "start (ls_push ls c) = 0"
    using assms(1-3) Cons by (auto simp: ls_push_def compact_def bom_phase_done foldl_push_byte simp del: foldl_Cons)
  have "aut_run ([], False) (acc @ ?rest) = aut_run (acc, False) ?rest"
    using plain by (simp add: aut_run_append aut_run_plain split: prod.splits)
  also have "\<dots> = aut_run (acc, p) c"
    using Cons pend by (cases p) (auto simp: aut_run_pend)
  finally show ?thesis
    using drain_aut [of "ls_push ls c"] h drain_frame [of "ls_push ls c"] dr by (auto simp del: aut_run.simps)
qed

lemma line_rest_plain: "line_rest s = (acc, p) \<Longrightarrow> b \<in> set acc \<Longrightarrow> \<not> is_term b"
  using aut_run_acc_plain [of "[]" b False "strip_bom s"] by (simp add: line_rest_def)

lemma line_rest_pend: "line_rest s = (acc, p) \<Longrightarrow> p \<longrightarrow> acc = []"
  using aut_run_pend_empty [of False "[]" "strip_bom s"] by (simp add: line_rest_def)

lemma ls_rel_seen: "ls_rel s ls \<Longrightarrow> (bom_done ls \<and> bom_seen ls = 3) = (take 3 s = BOM)"
proof (cases "bom_done ls")
  case True
  assume "ls_rel s ls"
  then have "(bom_seen ls = 3) = (take 3 (s @ []) = BOM)"
    using True by (simp only: ls_rel_def if_True)
  then show ?thesis using True by simp
next
  case False
  assume "ls_rel s ls"
  then have "length (take 3 s) < 3" using False by (auto simp: ls_rel_def bom_pending_def)
  then show ?thesis using False length_BOM by (metis less_irrefl)
qed

lemma push_seen: "bom_done ls \<Longrightarrow> bom_seen (ls_push ls c) = bom_seen ls"
  by (cases c) (auto simp: ls_push_def compact_def bom_phase_done foldl_push_byte simp del: foldl_Cons)

lemma ls_rel_step_done:
  assumes "ls_rel s ls" "bom_done ls" and dr: "drain (ls_push ls c) = (ll, ls')"
  shows "ls_rel (s @ c) ls' \<and> lines_of (s @ c) = lines_of s @ map fst ll"
proof -
  obtain acc p where lr: "line_rest s = (acc, p)" by (cases "line_rest s")
  have sb: "strip_bom (s @ c) = strip_bom s @ c" "\<And>c'. strip_bom (s @ c @ c') = strip_bom s @ c @ c'"
    using assms(1,2) by (auto simp: ls_rel_def)
  have P: "map fst ll = fst (aut_run (acc, p) c) \<and> (hay ls', pending_cr ls') = snd (aut_run (acc, p) c) \<and>
    start ls' \<le> length (buf ls') \<and> bom_done ls'"
    using assms(1,2) lr line_rest_plain [OF lr] line_rest_pend [OF lr]
    by (intro push_done [OF _ _ _ _ _ dr]) (auto simp: ls_rel_def)
  have seen: "(bom_seen ls' = 3) = (take 3 (s @ c @ c') = BOM)" for c'
    using assms(1,2) dr drain_frame [of "ls_push ls c"] push_seen [OF assms(2), of c]
    by (auto simp: ls_rel_def simp del: take_append)
  have R: "aut_run ([], False) (strip_bom s) = (lines_of s, (acc, p))"
    using lr by (simp add: lines_of_def line_rest_def prod_eq_iff)
  show ?thesis
    using P sb R seen by (auto simp: ls_rel_def lines_of_def line_rest_def aut_run_append split: prod.splits)
qed

lemma ls_rel_step_pending:
  assumes "ls_rel s ls" "\<not> bom_done ls" and dr: "drain (ls_push ls c) = (ll, ls')"
  shows "ls_rel (s @ c) ls' \<and> lines_of (s @ c) = lines_of s @ map fst ll"
proof -
  have pe: "bom_pending ls" and s: "s = take (bom_seen ls) BOM" and k: "bom_seen ls < 3"
    using assms(1,2) by (auto simp: ls_rel_def bom_pending_def)
  have l0: "lines_of s = []" using k s by (simp add: lines_of_def strip_bom_prefix)
  obtain ls1 rest where ph: "bom_phase ls c = (ls1, rest)" by (cases "bom_phase ls c")
  have pu: "ls_push ls c = foldl push_byte ls1 rest"
    using pe ph by (simp add: ls_push_def compact_def bom_pending_def)
  note B = bom_phase_pending [OF pe ph, folded s]
  show ?thesis
  proof (cases "bom_done ls1")
    case True
    have "strip_bom (s @ c @ c') = buf ls1 @ rest @ c'" for c'
      using bom_phase_pending [OF pe bom_phase_append [OF ph True, of c'], folded s] True by simp
    then have "strip_bom (s @ c @ c') = strip_bom (s @ c) @ c'" for c'
      using B True by (metis append.assoc)
    moreover have "(bom_seen ls1 = 3) = (take 3 (s @ c @ c') = BOM)" for c'
      using bom_phase_pending [OF pe bom_phase_append [OF ph True, of c'], folded s] True by simp
    moreover have "bom_seen (ls_push ls c) = bom_seen ls1"
      using B True pu by (auto simp: foldl_push_byte_plain)
    moreover have "hay (ls_push ls c) = strip_bom (s @ c)" "\<not> pending_cr (ls_push ls c)"
      "bom_done (ls_push ls c)" "start (ls_push ls c) = 0"
      using B True pu by (auto simp: foldl_push_byte_plain)
    ultimately show ?thesis
      using drain_aut [of "ls_push ls c"] dr drain_frame [of "ls_push ls c"] l0
      by (auto simp: ls_rel_def lines_of_def line_rest_def simp del: take_append)
  next
    case False
    then have "ls_push ls c = ls1" "bom_pending ls1" "s @ c = take (bom_seen ls1) BOM"
      using B pu by auto
    moreover have "next_line ls1 = None"
      using calculation(2) by (simp add: next_line_None bom_pending_def)
    ultimately show ?thesis
      using dr l0 False by (auto simp: drain_None ls_rel_def lines_of_def strip_bom_prefix bom_pending_def)
  qed
qed

lemma ls_rel_step:
  assumes "ls_rel s ls" "drain (ls_push ls c) = (ll, ls')"
  shows "ls_rel (s @ c) ls'" "lines_of (s @ c) = lines_of s @ map fst ll"
  using ls_rel_step_done [OF assms(1) _ assms(2)] ls_rel_step_pending [OF assms(1) _ assms(2)] by blast+

lemma feed_rel:
  assumes "ls_rel s ls" "feed ls cs = (ll, ls')"
  shows "ls_rel (s @ concat cs) ls' \<and> lines_of (s @ concat cs) = lines_of s @ map fst ll"
  using assms
proof (induction cs arbitrary: s ls ll)
  case (Cons c cs)
  obtain l1 ls1 l2 where d: "drain (ls_push ls c) = (l1, ls1)" and f: "feed ls1 cs = (l2, ls')"
    and ll: "ll = l1 @ l2"
    using Cons.prems(2) by (auto split: prod.splits)
  have "ls_rel (s @ c) ls1" "lines_of (s @ c) = lines_of s @ map fst l1"
    using ls_rel_step [OF Cons.prems(1) d] by auto
  with Cons.IH [OF this(1) f] ll show ?case by simp
qed simp

section \<open>Byte accounting\<close>

text \<open>The three bytes of a mark that was stripped are the only ones never credited.\<close>

definition bom_stripped :: "line_splitter \<Rightarrow> nat" where
  "bom_stripped ls = (if bom_done ls \<and> bom_seen ls = 3 then 3 else 0)"

definition ls_inv :: "line_splitter \<Rightarrow> bool" where
  "ls_inv ls \<longleftrightarrow> start ls \<le> length (buf ls) \<and> (\<not> bom_done ls \<longrightarrow> bom_pending ls)"

lemma ls_inv_new: "ls_inv ls_new"
  by (simp add: ls_inv_def ls_new_def bom_pending_def)

lemma next_line_account:
  assumes "start ls \<le> length (buf ls)" "bom_done ls" "next_line ls = Some ((line, n), ls')"
  shows "n + buffered_len ls' = buffered_len ls \<and> start ls' \<le> length (buf ls')"
proof -
  have "next_line ls \<noteq> None" using assms(3) by simp
  then obtain xs t ys where h: "hay ls = xs @ t # ys"
    and xs: "\<And>b. b \<in> set xs \<Longrightarrow> \<not> is_term b" and t: "is_term t"
    using hay_split [of "hay ls"] next_line_None [of ls]
    by (metis (no_types, lifting) takeWhile_eq_all_conv takeWhile_eq_take take_all_iff order_refl)
  have "length (buf ls) = start ls + length xs + 1 + length ys"
    using arg_cong [OF h, of length] assms(1) by simp
  then show ?thesis
    using next_line_Some [OF h xs t] assms
    by (auto simp: Let_def buffered_len_def split: list.splits if_splits)
qed

lemma drain_account:
  assumes "ls_inv ls"
  shows "sum_list (map snd (fst (drain ls))) + buffered_len (snd (drain ls)) = buffered_len ls \<and>
    ls_inv (snd (drain ls)) \<and> bom_stripped (snd (drain ls)) = bom_stripped ls"
  using assms
proof (induction ls rule: drain.induct)
  case (1 ls)
  show ?case
  proof (cases "next_line ls")
    case None
    then show ?thesis using "1.prems" by (simp add: drain_None)
  next
    case (Some r)
    then obtain line n ls' where nl: "next_line ls = Some ((line, n), ls')" by (metis surj_pair)
    have dn: "bom_done ls"
      using nl next_line_None [of ls] "1.prems" by (auto simp: ls_inv_def bom_pending_def)
    have a: "n + buffered_len ls' = buffered_len ls" "ls_inv ls'" "bom_stripped ls' = bom_stripped ls"
      using next_line_account [OF _ dn nl] next_line_frame [OF nl] "1.prems" dn
      by (auto simp: ls_inv_def bom_stripped_def)
    show ?thesis using "1.IH" [OF nl refl a(2)] a by (simp add: drain_Some [OF nl])
  qed
qed

lemma compact_inv:
  "ls_inv ls \<Longrightarrow> ls_inv (compact ls) \<and> start (compact ls) = 0 \<and> buffered_len (compact ls) = buffered_len ls \<and>
     bom_stripped (compact ls) = bom_stripped ls \<and> bom_done (compact ls) = bom_done ls"
  by (auto simp: compact_def ls_inv_def buffered_len_def bom_stripped_def bom_pending_def)

lemma foldl_push_byte_account:
  "bom_done ls \<Longrightarrow> start ls = 0 \<Longrightarrow>
    buffered_len (foldl push_byte ls rest) = buffered_len ls + length rest \<and>
    ls_inv (foldl push_byte ls rest) \<and> bom_stripped (foldl push_byte ls rest) = bom_stripped ls"
  by (cases rest; cases "pending_cr ls")
    (auto simp: foldl_push_byte foldl_push_byte_plain buffered_len_def ls_inv_def bom_stripped_def simp del: foldl_Cons)

lemma push_account:
  assumes "ls_inv ls"
  shows "buffered_len (ls_push ls c) + bom_stripped (ls_push ls c) = buffered_len ls + bom_stripped ls + length c \<and>
    ls_inv (ls_push ls c)"
proof -
  let ?l0 = "compact ls"
  note c0 = compact_inv [OF assms]
  obtain ls1 rest where ph: "bom_phase ?l0 c = (ls1, rest)" by (cases "bom_phase ?l0 c")
  have pu: "ls_push ls c = foldl push_byte ls1 rest" using ph by (simp add: ls_push_def)
  show ?thesis
  proof (cases "bom_done ls")
    case True
    then have "ls1 = ?l0" "rest = c" using ph c0 bom_phase_done [of ?l0 c] by auto
    then show ?thesis using foldl_push_byte_account [of ?l0 c] c0 True pu by simp
  next
    case False
    then have pe: "bom_pending ?l0" using c0 by (simp add: ls_inv_def)
    have b0: "buffered_len ls = bom_seen ?l0" "bom_stripped ls = 0"
      using c0 pe False by (auto simp: buffered_len_def bom_pending_def bom_stripped_def)
    note B = bom_phase_pending [OF pe ph]
    show ?thesis
    proof (cases "bom_done ls1")
      case True
      then have "buffered_len ls1 = length (buf ls1)" using B by (simp add: buffered_len_def)
      then show ?thesis using foldl_push_byte_account [OF True, of rest] B True b0 pu
        by (auto simp: bom_stripped_def split: if_splits)
    next
      case False
      then show ?thesis using B pu b0
        by (auto simp: buffered_len_def bom_pending_def bom_stripped_def ls_inv_def)
    qed
  qed
qed

lemma feed_account:
  assumes "ls_inv ls" "feed ls cs = (ll, ls')"
  shows "sum_list (map snd ll) + buffered_len ls' + bom_stripped ls' =
    buffered_len ls + bom_stripped ls + length (concat cs) \<and> ls_inv ls'"
  using assms
proof (induction cs arbitrary: ls ll)
  case (Cons c cs)
  obtain l1 ls1 l2 where d: "drain (ls_push ls c) = (l1, ls1)" and f: "feed ls1 cs = (l2, ls')"
    and ll: "ll = l1 @ l2"
    using Cons.prems(2) by (auto split: prod.splits)
  have p: "buffered_len (ls_push ls c) + bom_stripped (ls_push ls c) = buffered_len ls + bom_stripped ls + length c"
    "ls_inv (ls_push ls c)" using push_account [OF Cons.prems(1)] by auto
  have "sum_list (map snd l1) + buffered_len ls1 = buffered_len (ls_push ls c)" "ls_inv ls1"
    "bom_stripped ls1 = bom_stripped (ls_push ls c)"
    using drain_account [OF p(2)] d by auto
  with Cons.IH [OF this(2) f] p ll show ?case by simp
qed simp

section \<open>Properties\<close>

text \<open>
  Chunk independence: however a response body is cut into chunks (inside a byte
  order mark, inside a CRLF pair, inside a line), the lines the splitter hands out are those of
  the byte automaton on the whole body with its leading mark removed.
\<close>

theorem splitter_chunk_independent:
  "map fst (fst (feed ls_new cs)) = lines_of (concat cs)"
  using feed_rel [OF ls_rel_new, of cs "fst (feed ls_new cs)" "snd (feed ls_new cs)"]
  by simp

text \<open>
  Byte accounting: the sizes credited to the lines handed out, the bytes still
  buffered and the three bytes of a stripped mark add up to the bytes pushed, for any chunks.
  This is what makes a size limit computed from these numbers exact, however the stream is cut.
\<close>

theorem splitter_accounts_every_byte:
  "sum_list (map snd (fst (feed ls_new cs))) + buffered_len (snd (feed ls_new cs))
     + (if take 3 (concat cs) = BOM then 3 else 0) = length (concat cs)"
proof -
  obtain ll ls' where f: "feed ls_new cs = (ll, ls')" by (cases "feed ls_new cs")
  have "bom_stripped ls' = (if take 3 (concat cs) = BOM then 3 else 0)"
    using feed_rel [OF ls_rel_new f] ls_rel_seen [of "concat cs" ls'] by (auto simp: bom_stripped_def)
  moreover have "buffered_len ls_new = 0" "bom_stripped ls_new = 0"
    by (simp_all add: buffered_len_def bom_stripped_def ls_new_def)
  ultimately show ?thesis using feed_account [OF ls_inv_new f] f by simp
qed

text \<open>
  End of input: what \<open>take_unterminated\<close> hands over after the last chunk is the
  automaton's partial line, and one or two bytes of an unfinished mark are data, not dropped.
\<close>

theorem splitter_take_unterminated:
  "fst (take_unterminated (snd (feed ls_new cs))) =
     (let s = concat cs in if length s < 3 \<and> s = take (length s) BOM then s else fst (line_rest s))"
proof -
  obtain ll ls' where f: "feed ls_new cs = (ll, ls')" by (cases "feed ls_new cs")
  let ?s = "concat cs"
  have R: "ls_rel ?s ls'" using feed_rel [OF ls_rel_new f] by simp
  show ?thesis
  proof (cases "bom_done ls'")
    case False
    then show ?thesis using R f by (auto simp: ls_rel_def take_unterminated_def bom_pending_def Let_def min_def)
  next
    case True
    have nb: "\<not> (length ?s < 3 \<and> ?s = take (length ?s) BOM)"
    proof
      assume a: "length ?s < 3 \<and> ?s = take (length ?s) BOM"
      then have "take 3 (?s @ drop (length ?s) BOM) = BOM" "take 3 ?s \<noteq> BOM"
        by (metis append_take_drop_id length_BOM order_refl take_all) (use a in auto)
      then show False using R True by (auto simp: ls_rel_def simp del: take_append dest: spec [of _ "[]"])
    qed
    then show ?thesis
      using R f True by (auto simp: ls_rel_def take_unterminated_def Let_def prod_eq_iff)
  qed
qed

end
