(* ===== verification/Std_Text.thy ===== *)
theory Std_Text
  imports Prelude
begin

text \<open>
  The parts of Rust's standard library the components use on text: ASCII classes and case
  folding, decimal integers with their overflow, UTF-8 validation and lossy decoding, and the
  textual forms of IP addresses (\<open>str::parse::<IpAddr>\<close>). These are the language's own
  library, so they are written out here and shared by every component.
\<close>

section \<open>ASCII\<close>

definition byte_val :: "byte \<Rightarrow> nat" where
  "byte_val b = of_char b"

definition is_ascii :: "byte \<Rightarrow> bool" where
  "is_ascii b \<longleftrightarrow> byte_val b < 128"

definition is_ascii_digit :: "byte \<Rightarrow> bool" where
  "is_ascii_digit b \<longleftrightarrow> 48 \<le> byte_val b \<and> byte_val b \<le> 57"

definition is_ascii_upper :: "byte \<Rightarrow> bool" where
  "is_ascii_upper b \<longleftrightarrow> 65 \<le> byte_val b \<and> byte_val b \<le> 90"

definition is_ascii_lower :: "byte \<Rightarrow> bool" where
  "is_ascii_lower b \<longleftrightarrow> 97 \<le> byte_val b \<and> byte_val b \<le> 122"

definition is_ascii_alphabetic :: "byte \<Rightarrow> bool" where
  "is_ascii_alphabetic b \<longleftrightarrow> is_ascii_upper b \<or> is_ascii_lower b"

definition is_ascii_alphanumeric :: "byte \<Rightarrow> bool" where
  "is_ascii_alphanumeric b \<longleftrightarrow> is_ascii_alphabetic b \<or> is_ascii_digit b"

definition lower_byte :: "byte \<Rightarrow> byte" where
  "lower_byte b = (if is_ascii_upper b then char_of (byte_val b + 32) else b)"

definition to_ascii_lowercase :: "bytes \<Rightarrow> bytes" where
  "to_ascii_lowercase s = map lower_byte s"

definition eq_ignore_ascii_case :: "bytes \<Rightarrow> bytes \<Rightarrow> bool" where
  "eq_ignore_ascii_case s t \<longleftrightarrow> to_ascii_lowercase s = to_ascii_lowercase t"

lemmas ascii_defs [ascii_simps] = is_ascii_def is_ascii_digit_def is_ascii_upper_def
  is_ascii_lower_def is_ascii_alphabetic_def is_ascii_alphanumeric_def lower_byte_def
  to_ascii_lowercase_def byte_val_def

section \<open>Searching and cutting\<close>

text \<open>\<open>s.find(c)\<close> and \<open>s.rfind(c)\<close> on a one-byte pattern.\<close>

definition find_byte :: "byte \<Rightarrow> bytes \<Rightarrow> nat option" where
  "find_byte c s = (if c \<in> set s then Some (length (takeWhile (\<lambda>b. b \<noteq> c) s)) else None)"

definition rfind_byte :: "byte \<Rightarrow> bytes \<Rightarrow> nat option" where
  "rfind_byte c s =
     (if c \<in> set s then Some (length s - 1 - length (takeWhile (\<lambda>b. b \<noteq> c) (rev s))) else None)"

definition starts_with :: "bytes \<Rightarrow> bytes \<Rightarrow> bool" where
  "starts_with s p \<longleftrightarrow> take (length p) s = p"

definition ends_with :: "bytes \<Rightarrow> bytes \<Rightarrow> bool" where
  "ends_with s p \<longleftrightarrow> length p \<le> length s \<and> drop (length s - length p) s = p"

definition strip_prefix :: "bytes \<Rightarrow> bytes \<Rightarrow> bytes option" where
  "strip_prefix p s = (if starts_with s p then Some (drop (length p) s) else None)"

definition strip_suffix :: "bytes \<Rightarrow> bytes \<Rightarrow> bytes option" where
  "strip_suffix p s = (if ends_with s p then Some (take (length s - length p) s) else None)"

text \<open>\<open>s.split_once(c)\<close>: the parts before and after the first \<open>c\<close>.\<close>

definition split_once :: "byte \<Rightarrow> bytes \<Rightarrow> (bytes \<times> bytes) option" where
  "split_once c s =
     (if c \<in> set s then Some (takeWhile (\<lambda>b. b \<noteq> c) s, tl (dropWhile (\<lambda>b. b \<noteq> c) s)) else None)"

lemma find_byte_None: "find_byte c s = None \<longleftrightarrow> c \<notin> set s"
  by (simp add: find_byte_def)

lemma takeWhile_neq_Cons: "c \<notin> set p \<Longrightarrow> takeWhile (\<lambda>b. b \<noteq> c) (p @ c # r) = p"
  by (induction p) auto

lemma dropWhile_neq_Cons: "c \<notin> set p \<Longrightarrow> dropWhile (\<lambda>b. b \<noteq> c) (p @ c # r) = c # r"
  by (induction p) auto

lemma find_byte_Some: "find_byte c s = Some i \<longleftrightarrow> (\<exists>p r. s = p @ c # r \<and> c \<notin> set p \<and> i = length p)"
proof
  assume "find_byte c s = Some i"
  then have m: "c \<in> set s" and i: "i = length (takeWhile (\<lambda>b. b \<noteq> c) s)" by (auto simp: find_byte_def split: if_splits)
  obtain p r where "s = p @ c # r" "c \<notin> set p" using split_list_first [OF m] by blast
  then show "\<exists>p r. s = p @ c # r \<and> c \<notin> set p \<and> i = length p" using i takeWhile_neq_Cons by metis
qed (auto simp: find_byte_def takeWhile_neq_Cons)

lemma split_once_Some: "split_once c s = Some (p, r) \<longleftrightarrow> s = p @ c # r \<and> c \<notin> set p"
proof
  assume "split_once c s = Some (p, r)"
  then have m: "c \<in> set s" and pr: "p = takeWhile (\<lambda>b. b \<noteq> c) s" "r = tl (dropWhile (\<lambda>b. b \<noteq> c) s)"
    by (auto simp: split_once_def split: if_splits)
  obtain p' r' where "s = p' @ c # r'" "c \<notin> set p'" using split_list_first [OF m] by blast
  then show "s = p @ c # r \<and> c \<notin> set p" using pr by (simp add: takeWhile_neq_Cons dropWhile_neq_Cons)
qed (auto simp: split_once_def takeWhile_neq_Cons dropWhile_neq_Cons)

lemma split_once_None: "split_once c s = None \<longleftrightarrow> c \<notin> set s"
  by (simp add: split_once_def)

text \<open>\<open>s.find([c1, c2, ..])\<close>, as the position of the first byte of a class.\<close>

definition find_where :: "(byte \<Rightarrow> bool) \<Rightarrow> bytes \<Rightarrow> nat option" where
  "find_where P s = (if list_ex P s then Some (length (takeWhile (\<lambda>b. \<not> P b) s)) else None)"

text \<open>\<open>s.split(c)\<close>: always at least one piece, and no piece holds the separator.\<close>

fun split_byte :: "byte \<Rightarrow> bytes \<Rightarrow> bytes list" where
  "split_byte c [] = [[]]"
| "split_byte c (b # bs) =
     (if b = c then [] # split_byte c bs
      else (case split_byte c bs of [] \<Rightarrow> [[b]] | w # ws \<Rightarrow> (b # w) # ws))"

lemma split_byte_nonempty [simp]: "split_byte c s \<noteq> []"
  by (induction s) (auto split: list.splits)

lemma split_byte_pieces: "w \<in> set (split_byte c s) \<Longrightarrow> c \<notin> set w"
  by (induction s arbitrary: w) (auto split: list.splits if_splits)

lemma split_byte_join: "concat (map ((#) c) (split_byte c s)) = c # s"
  by (induction s) (auto split: list.splits)

lemma split_byte_word: "c \<notin> set w \<Longrightarrow> split_byte c w = [w]"
  by (induction w) auto

lemma split_byte_Cons: "c \<notin> set w \<Longrightarrow> split_byte c (w @ c # r) = w # split_byte c r"
  by (induction w) auto

text \<open>\<open>s.split(|b| p(b))\<close>, on a class of bytes.\<close>

fun split_where :: "(byte \<Rightarrow> bool) \<Rightarrow> bytes \<Rightarrow> bytes list" where
  "split_where P [] = [[]]"
| "split_where P (b # bs) =
     (if P b then [] # split_where P bs
      else (case split_where P bs of [] \<Rightarrow> [[b]] | w # ws \<Rightarrow> (b # w) # ws))"

lemma split_where_nonempty [simp]: "split_where P s \<noteq> []"
  by (induction s) (auto split: list.splits)

lemma split_where_word: "list_all (\<lambda>b. \<not> P b) t \<Longrightarrow> split_where P t = [t]"
  by (induction t) auto

lemma split_where_Cons: "list_all (\<lambda>b. \<not> P b) t \<Longrightarrow> P d \<Longrightarrow> split_where P (t @ d # r) = t # split_where P r"
  by (induction t) auto

lemma rfind_byte_Some: "rfind_byte c s = Some i \<longleftrightarrow> (\<exists>p r. s = p @ c # r \<and> c \<notin> set r \<and> i = length p)"
proof
  assume "rfind_byte c s = Some i"
  then have m: "c \<in> set s" and i: "i = length s - 1 - length (takeWhile (\<lambda>b. b \<noteq> c) (rev s))"
    by (auto simp: rfind_byte_def split: if_splits)
  obtain p r where s: "s = p @ c # r" "c \<notin> set r" using split_list_last [OF m] by blast
  have "takeWhile (\<lambda>b. b \<noteq> c) (rev s) = rev r"
    using takeWhile_neq_Cons [of c "rev r" "rev p"] s by simp
  then show "\<exists>p r. s = p @ c # r \<and> c \<notin> set r \<and> i = length p" using s i by auto
next
  assume "\<exists>p r. s = p @ c # r \<and> c \<notin> set r \<and> i = length p"
  then obtain p r where s: "s = p @ c # r" "c \<notin> set r" "i = length p" by blast
  have "takeWhile (\<lambda>b. b \<noteq> c) (rev s) = rev r"
    using takeWhile_neq_Cons [of c "rev r" "rev p"] s by simp
  then show "rfind_byte c s = Some i" using s by (simp add: rfind_byte_def)
qed

lemma rfind_byte_None: "rfind_byte c s = None \<longleftrightarrow> c \<notin> set s"
  by (simp add: rfind_byte_def)

text \<open>
  \<open>str::trim\<close>: the characters of Unicode's \<open>White_Space\<close>, as their UTF-8 bytes, are removed at
  both ends.
\<close>

definition ws_chars :: "bytes list" where
  "ws_chars =
     [[CHR 0x09], [CHR 0x0A], [CHR 0x0B], [CHR 0x0C], [CHR 0x0D], [CHR 0x20],
      [CHR 0xC2, CHR 0x85], [CHR 0xC2, CHR 0xA0], [CHR 0xE1, CHR 0x9A, CHR 0x80],
      [CHR 0xE2, CHR 0x80, CHR 0x80], [CHR 0xE2, CHR 0x80, CHR 0x81], [CHR 0xE2, CHR 0x80, CHR 0x82],
      [CHR 0xE2, CHR 0x80, CHR 0x83], [CHR 0xE2, CHR 0x80, CHR 0x84], [CHR 0xE2, CHR 0x80, CHR 0x85],
      [CHR 0xE2, CHR 0x80, CHR 0x86], [CHR 0xE2, CHR 0x80, CHR 0x87], [CHR 0xE2, CHR 0x80, CHR 0x88],
      [CHR 0xE2, CHR 0x80, CHR 0x89], [CHR 0xE2, CHR 0x80, CHR 0x8A], [CHR 0xE2, CHR 0x80, CHR 0xA8],
      [CHR 0xE2, CHR 0x80, CHR 0xA9], [CHR 0xE2, CHR 0x80, CHR 0xAF], [CHR 0xE2, CHR 0x81, CHR 0x9F],
      [CHR 0xE3, CHR 0x80, CHR 0x80]]"

lemma ws_chars_nonempty: "w \<in> set ws_chars \<Longrightarrow> w \<noteq> []"
  by (auto simp: ws_chars_def)

lemma find_ws: "find P ws_chars = Some w \<Longrightarrow> w \<noteq> [] \<and> P w"
  by (metis find_Some_iff nth_mem ws_chars_nonempty)

lemma starts_with_length: "starts_with s w \<Longrightarrow> length w \<le> length s"
  by (metis length_take min.bounded_iff nat_le_linear starts_with_def)

function trim_start :: "bytes \<Rightarrow> bytes" where
  "trim_start s = (case find (starts_with s) ws_chars of None \<Rightarrow> s | Some w \<Rightarrow> trim_start (drop (length w) s))"
  by pat_completeness auto
termination
proof (relation "measure length")
  fix s w assume "find (starts_with s) ws_chars = Some w"
  then have "w \<noteq> []" "length w \<le> length s"
    using find_ws starts_with_length by blast+
  then show "(drop (length w) s, s) \<in> measure length" by (cases w) auto
qed simp

function trim_end :: "bytes \<Rightarrow> bytes" where
  "trim_end s =
     (case find (ends_with s) ws_chars of None \<Rightarrow> s | Some w \<Rightarrow> trim_end (take (length s - length w) s))"
  by pat_completeness auto
termination
proof (relation "measure length")
  fix s w assume "find (ends_with s) ws_chars = Some w"
  then have "w \<noteq> []" "length w \<le> length s"
    using find_ws ends_with_def by blast+
  then show "(take (length s - length w) s, s) \<in> measure length" by (cases w) auto
qed simp

declare trim_start.simps [simp del] trim_end.simps [simp del]

definition trim :: "bytes \<Rightarrow> bytes" where
  "trim s = trim_end (trim_start s)"

section \<open>Decimal integers\<close>

definition dec_val :: "bytes \<Rightarrow> nat" where
  "dec_val s = foldl (\<lambda>v b. v * 10 + (byte_val b - 48)) 0 s"

text \<open>The decimal form of an unsigned integer, as \<open>format!\<close> writes it.\<close>

fun dec_bytes :: "nat \<Rightarrow> bytes" where
  "dec_bytes n = (if n < 10 then [char_of (48 + n)] else dec_bytes (n div 10) @ [char_of (48 + n mod 10)])"

declare dec_bytes.simps [simp del]

text \<open>\<open>str::parse::<u64>\<close>: one optional \<open>+\<close>, at least one digit, no overflow.\<close>

definition parse_u64 :: "bytes \<Rightarrow> nat option" where
  "parse_u64 s =
     (let d = (case s of [] \<Rightarrow> [] | c # r \<Rightarrow> if c = CHR ''+'' then r else c # r) in
      if d \<noteq> [] \<and> list_all is_ascii_digit d \<and> dec_val d \<le> u64_max then Some (dec_val d) else None)"

text \<open>\<open>str::parse::<i64>\<close>: one optional sign, at least one digit, no overflow.\<close>

definition parse_i64 :: "bytes \<Rightarrow> int option" where
  "parse_i64 s =
     (let (neg, d) = (case s of [] \<Rightarrow> (False, [])
                      | c # r \<Rightarrow> if c = CHR ''+'' then (False, r)
                                 else if c = CHR ''-'' then (True, r) else (False, c # r));
          v = (if neg then - int (dec_val d) else int (dec_val d)) in
      if d \<noteq> [] \<and> list_all is_ascii_digit d \<and> - 9223372036854775808 \<le> v \<and> v \<le> 9223372036854775807
      then Some v else None)"

section \<open>UTF-8\<close>

definition utf8_width :: "byte \<Rightarrow> nat" where
  "utf8_width b =
     (let v = byte_val b in
      if v < 0x80 then 1 else if 0xC2 \<le> v \<and> v \<le> 0xDF then 2
      else if 0xE0 \<le> v \<and> v \<le> 0xEF then 3 else if 0xF0 \<le> v \<and> v \<le> 0xF4 then 4 else 0)"

definition utf8_cont :: "byte \<Rightarrow> bool" where
  "utf8_cont b \<longleftrightarrow> 0x80 \<le> byte_val b \<and> byte_val b \<le> 0xBF"

definition utf8_second :: "byte \<Rightarrow> byte \<Rightarrow> bool" where
  "utf8_second b0 b1 \<longleftrightarrow>
     (let v = byte_val b0; w = byte_val b1 in
      if v = 0xE0 then 0xA0 \<le> w \<and> w \<le> 0xBF else if v = 0xED then 0x80 \<le> w \<and> w \<le> 0x9F
      else if v = 0xF0 then 0x90 \<le> w \<and> w \<le> 0xBF else if v = 0xF4 then 0x80 \<le> w \<and> w \<le> 0x8F
      else utf8_cont b1)"

text \<open>
  The next sequence of a non-empty input: whether it is a well-formed character, and its
  length; for an ill-formed one, the length of its maximal valid prefix (at least one byte).
\<close>

definition utf8_next :: "byte \<Rightarrow> bytes \<Rightarrow> bool \<times> nat" where
  "utf8_next b0 r0 =
     (let w = utf8_width b0 in
      if w = 0 then (False, 1) else if w = 1 then (True, 1) else
      case r0 of [] \<Rightarrow> (False, 1) | b1 # r1 \<Rightarrow>
      if \<not> utf8_second b0 b1 then (False, 1) else if w = 2 then (True, 2) else
      case r1 of [] \<Rightarrow> (False, 2) | b2 # r2 \<Rightarrow>
      if \<not> utf8_cont b2 then (False, 2) else if w = 3 then (True, 3) else
      case r2 of [] \<Rightarrow> (False, 3) | b3 # r3 \<Rightarrow>
      if \<not> utf8_cont b3 then (False, 3) else (True, 4))"

text \<open>\<open>core::str::from_utf8(s).is_ok()\<close>\<close>

fun is_utf8 :: "bytes \<Rightarrow> bool" where
  "is_utf8 [] = True"
| "is_utf8 (b # bs) \<longleftrightarrow> fst (utf8_next b bs) \<and> is_utf8 (drop (snd (utf8_next b bs) - 1) bs)"

text \<open>\<open>String::from_utf8_lossy\<close>: each ill-formed sequence becomes U+FFFD.\<close>

fun from_utf8_lossy :: "bytes \<Rightarrow> bytes" where
  "from_utf8_lossy [] = []"
| "from_utf8_lossy (b # bs) =
     (if fst (utf8_next b bs) then b # take (snd (utf8_next b bs) - 1) bs
      else [CHR 0xEF, CHR 0xBF, CHR 0xBD])
     @ from_utf8_lossy (drop (snd (utf8_next b bs) - 1) bs)"

lemma from_utf8_lossy_id: "is_utf8 s \<Longrightarrow> from_utf8_lossy s = s"
  by (induction s rule: is_utf8.induct) auto

lemma is_utf8_ascii: "list_all is_ascii s \<Longrightarrow> is_utf8 s"
  by (induction s) (auto simp: utf8_next_def utf8_width_def is_ascii_def Let_def)

lemma from_utf8_lossy_length: "length (from_utf8_lossy s) \<le> 3 * length s"
proof (induction s rule: from_utf8_lossy.induct)
  case (2 b bs)
  then show ?case by (simp add: min_def) linarith
qed simp

section \<open>IP addresses\<close>

datatype ip_addr = V4 "nat list" | V6 "nat list"

type_synonym 'a parser = "bytes \<Rightarrow> ('a \<times> bytes) option"

definition read_given_char :: "byte \<Rightarrow> unit parser" where
  "read_given_char c s = (case s of [] \<Rightarrow> None | b # r \<Rightarrow> if b = c then Some ((), r) else None)"

definition to_digit :: "nat \<Rightarrow> byte \<Rightarrow> nat option" where
  "to_digit radix b =
     (let v = byte_val b;
          d = (if 48 \<le> v \<and> v \<le> 57 then Some (v - 48)
               else if 65 \<le> v \<and> v \<le> 70 then Some (v - 55)
               else if 97 \<le> v \<and> v \<le> 102 then Some (v - 87) else None) in
      case d of None \<Rightarrow> None | Some k \<Rightarrow> if k < radix then Some k else None)"

text \<open>The digit loop of \<open>Parser::read_number\<close>: overflow and too many digits both refuse.\<close>

fun read_digits :: "nat \<Rightarrow> nat \<Rightarrow> nat \<Rightarrow> nat \<Rightarrow> nat \<Rightarrow> (nat \<times> nat) parser" where
  "read_digits radix max_digits limit count acc [] = Some ((acc, count), [])"
| "read_digits radix max_digits limit count acc (b # r) =
     (case to_digit radix b of
        None \<Rightarrow> Some ((acc, count), b # r)
      | Some d \<Rightarrow>
          if acc * radix + d > limit then None
          else if count + 1 > max_digits then None
          else read_digits radix max_digits limit (count + 1) (acc * radix + d) r)"

definition read_number :: "nat \<Rightarrow> nat \<Rightarrow> nat \<Rightarrow> bool \<Rightarrow> nat parser" where
  "read_number radix max_digits limit allow_zero_prefix s =
     (case read_digits radix max_digits limit 0 0 s of
        None \<Rightarrow> None
      | Some ((v, count), r) \<Rightarrow>
          if count = 0 then None
          else if \<not> allow_zero_prefix \<and> hd s = CHR ''0'' \<and> count > 1 then None
          else Some (v, r))"

definition read_separator :: "byte \<Rightarrow> nat \<Rightarrow> 'a parser \<Rightarrow> 'a parser" where
  "read_separator sep index p s =
     (if index > 0 then (case read_given_char sep s of None \<Rightarrow> None | Some (_, r) \<Rightarrow> p r) else p s)"

definition read_octet :: "nat \<Rightarrow> nat parser" where
  "read_octet i = read_separator (CHR ''.'') i (read_number 10 3 255 False)"

definition read_ipv4_addr :: "nat list parser" where
  "read_ipv4_addr s =
     Option.bind (read_octet 0 s) (\<lambda>(a, s1). Option.bind (read_octet 1 s1) (\<lambda>(b, s2).
     Option.bind (read_octet 2 s2) (\<lambda>(c, s3). Option.bind (read_octet 3 s3) (\<lambda>(d, s4).
     Some ([a, b, c, d], s4)))))"

text \<open>
  \<open>read_groups\<close>: up to \<open>limit\<close> groups starting at group \<open>i\<close>; an embedded IPv4 address takes
  the last two. Returns the groups and whether the last two came from an IPv4 address.
\<close>

function read_groups :: "nat \<Rightarrow> nat \<Rightarrow> bytes \<Rightarrow> (nat list \<times> bool) \<times> bytes" where
  "read_groups limit i s =
     (if i \<ge> limit then (([], False), s)
      else case (if i + 1 < limit then read_separator (CHR '':'') i read_ipv4_addr s else None) of
        Some (q, r) \<Rightarrow> (([q ! 0 * 256 + q ! 1, q ! 2 * 256 + q ! 3], True), r)
      | None \<Rightarrow>
          (case read_separator (CHR '':'') i (read_number 16 4 65535 True) s of
             None \<Rightarrow> (([], False), s)
           | Some (g, r) \<Rightarrow>
               (case read_groups limit (i + 1) r of ((gs, v4), r') \<Rightarrow> ((g # gs, v4), r'))))"
  by pat_completeness auto
termination
  by (relation "measure (\<lambda>(limit, i, s). limit - i)") auto

declare read_groups.simps [simp del]

definition read_ipv6_addr :: "nat list parser" where
  "read_ipv6_addr s =
     (case read_groups 8 0 s of ((head, head_ipv4), r) \<Rightarrow>
        if length head = 8 then Some (head, r)
        else if head_ipv4 then None
        else Option.bind (read_given_char (CHR '':'') r) (\<lambda>(_, r1).
             Option.bind (read_given_char (CHR '':'') r1) (\<lambda>(_, r2).
             (case read_groups (8 - (length head + 1)) 0 r2 of ((tail, _), r3) \<Rightarrow>
                Some (head @ replicate (8 - length head - length tail) 0 @ tail, r3)))))"

text \<open>\<open>host.parse::<IpAddr>()\<close>: IPv4 is tried first, and nothing may be left over.\<close>

definition parse_ip :: "bytes \<Rightarrow> ip_addr option" where
  "parse_ip s =
     (case (case read_ipv4_addr s of Some (a, r) \<Rightarrow> Some (V4 a, r)
            | None \<Rightarrow> map_option (\<lambda>(a, r). (V6 a, r)) (read_ipv6_addr s)) of
        Some (ip, []) \<Rightarrow> Some ip | _ \<Rightarrow> None)"

definition ip_is_loopback :: "ip_addr \<Rightarrow> bool" where
  "ip_is_loopback ip = (case ip of V4 a \<Rightarrow> a ! 0 = 127 | V6 a \<Rightarrow> a = [0, 0, 0, 0, 0, 0, 0, 1])"

text \<open>A name whose first byte is no hexadecimal digit and no colon is not an address.\<close>

lemma not_an_ip:
  assumes "to_digit 16 b = None" "b \<noteq> CHR '':''"
  shows "parse_ip (b # s) = None"
proof -
  have t: "to_digit 10 b = None" using assms(1) by (auto simp: to_digit_def Let_def split: option.splits if_splits)
  have n: "read_number radix m l z (b # s) = None" if "to_digit radix b = None" for radix m l z
    using that by (simp add: read_number_def)
  have v4: "read_ipv4_addr (b # s) = None"
    using n [OF t] by (simp add: read_ipv4_addr_def read_octet_def read_separator_def)
  have "read_groups 8 0 (b # s) = (([], False), b # s)"
    using n [OF assms(1)] v4 by (simp add: read_groups.simps [of 8] read_separator_def)
  then have "read_ipv6_addr (b # s) = None" using assms(2) by (simp add: read_ipv6_addr_def read_given_char_def)
  then show ?thesis using v4 by (simp add: parse_ip_def)
qed

section \<open>Case folding\<close>

lemma byte_val_char_of: "byte_val (char_of n) = n mod 256"
  by (simp add: byte_val_def)

lemma lower_byte_cases:
  "lower_byte b = b \<and> \<not> is_ascii_upper b \<or> is_ascii_upper b \<and> is_ascii_lower (lower_byte b)"
  by (auto simp: lower_byte_def is_ascii_upper_def is_ascii_lower_def byte_val_char_of)

lemma lower_byte_idem [simp]: "lower_byte (lower_byte b) = lower_byte b"
  using lower_byte_cases [of b] by (auto simp: lower_byte_def [of "lower_byte b"] is_ascii_upper_def is_ascii_lower_def)

lemma to_ascii_lowercase_idem [simp]: "to_ascii_lowercase (to_ascii_lowercase s) = to_ascii_lowercase s"
  by (simp add: to_ascii_lowercase_def)

lemma lower_byte_eq: "\<not> is_ascii_lower c \<Longrightarrow> \<not> is_ascii_upper c \<Longrightarrow> lower_byte b = c \<longleftrightarrow> b = c"
  using lower_byte_cases [of b] by (auto simp: lower_byte_def)

lemma in_to_ascii_lowercase:
  "\<not> is_ascii_lower c \<Longrightarrow> \<not> is_ascii_upper c \<Longrightarrow> c \<in> set (to_ascii_lowercase s) \<longleftrightarrow> c \<in> set s"
  by (simp add: to_ascii_lowercase_def image_iff) (metis lower_byte_eq)

section \<open>Decimal fields of a fixed width\<close>

definition digit :: "nat \<Rightarrow> byte" where
  "digit n = char_of (48 + n mod 10)"

definition print2 :: "nat \<Rightarrow> bytes" where
  "print2 n = [digit (n div 10), digit n]"

definition print4 :: "nat \<Rightarrow> bytes" where
  "print4 n = print2 (n div 100) @ print2 n"

lemma byte_val_digit [simp]: "byte_val (digit n) = 48 + n mod 10"
proof -
  have "48 + n mod 10 < 256" using mod_less_divisor [of 10 n] by linarith
  then show ?thesis by (simp add: digit_def byte_val_char_of)
qed

lemma is_ascii_digit_digit [simp]: "is_ascii_digit (digit n)"
  using mod_less_divisor [of 10 n] by (simp add: is_ascii_digit_def) 

lemma list_all_digits [simp]: "list_all is_ascii_digit (print2 n)" "list_all is_ascii_digit (print4 n)"
  by (simp_all add: print2_def print4_def)

lemma length_print [simp]: "length (print2 n) = 2" "length (print4 n) = 4"
  by (simp_all add: print2_def print4_def)

lemma print_nonempty [simp]: "print2 n \<noteq> []" "print4 n \<noteq> []"
  by (simp_all add: print2_def print4_def)

lemma foldl_print2: "foldl (\<lambda>v b. v * 10 + (byte_val b - 48)) a (print2 n) = a * 100 + n mod 100"
  using mod_mult2_eq [of n 10 10] by (simp add: print2_def)

lemma dec_val_print2: "n < 100 \<Longrightarrow> dec_val (print2 n) = n"
  by (simp add: dec_val_def foldl_print2)

lemma dec_val_print4: "n < 10000 \<Longrightarrow> dec_val (print4 n) = n"
  by (simp add: dec_val_def print4_def foldl_print2 less_mult_imp_div_less)

end
