(* ===== verification/Sse_Decoder.thy ===== *)
theory Sse_Decoder
  imports Line_Splitter Std_Text
begin

text \<open>
  The WHATWG \<open>EventSource\<close> decoder of \<open>crates/hclient/src/sansio/sse/decode.rs\<close>:
  \<open>SseDecoder\<close> with \<open>push\<close>, \<open>next\<close>, \<open>handle_line\<close> and \<open>dispatch\<close>, over the line splitter.
  The theory shows that the events do not depend on how the body was cut into chunks, what one
  block of lines dispatches, and that the size limit bounds what the decoder holds.
\<close>

section \<open>The model\<close>

datatype sse_event =
    Message "bytes option" bytes "bytes option"  \<comment> \<open>event, data, id\<close>
  | Comment bytes
  | Retry duration

datatype sse_error = EventTooLarge nat

record sse_decoder =
  lines :: line_splitter
  max_event_size :: nat
  event_bytes :: nat
  data :: bytes
  event_type :: "bytes option"
  last_event_id :: "bytes option"
  ready :: "sse_event list"

definition sse_new_with_last_event_id :: "nat \<Rightarrow> bytes option \<Rightarrow> sse_decoder" where
  "sse_new_with_last_event_id mx lid =
     \<lparr>lines = ls_new, max_event_size = mx, event_bytes = 0, data = [], event_type = None,
      last_event_id = lid, ready = []\<rparr>"

definition sse_new :: "nat \<Rightarrow> sse_decoder" where
  "sse_new mx = sse_new_with_last_event_id mx None"

text \<open>\<open>usize::saturating_add\<close> on a 64-bit target.\<close>

definition usize_saturating_add :: "nat \<Rightarrow> nat \<Rightarrow> nat" where
  "usize_saturating_add a b = min (a + b) u64_max"

definition strip_one_space :: "bytes \<Rightarrow> bytes" where
  "strip_one_space v = (case v of c # r \<Rightarrow> if c = CHR '' '' then r else v | [] \<Rightarrow> v)"

text \<open>Field name and value: the line is cut at its first colon, one leading space is dropped.\<close>

definition sse_field :: "bytes \<Rightarrow> bytes \<times> bytes" where
  "sse_field line =
     (case find_byte (CHR '':'') line of
        Some i \<Rightarrow> (take i line, strip_one_space (drop (i + 1) line))
      | None \<Rightarrow> (line, []))"

text \<open>\<open>handle_line\<close> on a non-empty line (the only lines \<open>push\<close> passes to it).\<close>

definition handle_line :: "sse_decoder \<Rightarrow> bytes \<Rightarrow> sse_decoder" where
  "handle_line d line =
     (if hd line = CHR '':'' then
        d\<lparr>ready := ready d @ [Comment (from_utf8_lossy (strip_one_space (tl line)))]\<rparr>
      else
        let (name, value) = sse_field line in
        if name = ''data'' then d\<lparr>data := data d @ from_utf8_lossy value @ [LF]\<rparr>
        else if name = ''event'' then d\<lparr>event_type := Some (from_utf8_lossy value)\<rparr>
        else if name = ''id'' then
          (if CHR 0x00 \<notin> set value then d\<lparr>last_event_id := Some (from_utf8_lossy value)\<rparr> else d)
        else if name = ''retry'' \<and> value \<noteq> [] \<and> list_all is_ascii_digit value then
          d\<lparr>ready := ready d @
             [Retry (from_millis (case parse_u64 value of Some ms \<Rightarrow> ms | None \<Rightarrow> u64_max))]\<rparr>
        else d)"

definition dispatch :: "sse_decoder \<Rightarrow> sse_decoder" where
  "dispatch d =
     (let event = event_type d; d1 = d\<lparr>event_type := None\<rparr> in
      if data d1 = [] then d1
      else let dat = (if last (data d1) = LF then butlast (data d1) else data d1)
           in d1\<lparr>data := [], ready := ready d1 @ [Message event dat (last_event_id d1)]\<rparr>)"

lemma handle_line_frame [simp]:
  "lines (handle_line d l) = lines d" "max_event_size (handle_line d l) = max_event_size d"
  "event_bytes (handle_line d l) = event_bytes d"
  by (auto simp: handle_line_def Let_def split: prod.splits)

lemma dispatch_frame [simp]:
  "lines (dispatch d) = lines d" "max_event_size (dispatch d) = max_event_size d"
  "event_bytes (dispatch d) = event_bytes d"
  by (auto simp: dispatch_def Let_def)

text \<open>The loop of \<open>push\<close> over the lines that are complete.\<close>

function sse_loop :: "sse_decoder \<Rightarrow> sse_decoder \<times> sse_error option" where
  "sse_loop d =
     (case next_line (lines d) of
        None \<Rightarrow> (d, None)
      | Some ((line, consumed), ls') \<Rightarrow>
          let d1 = d\<lparr>lines := ls'\<rparr> in
          if line = [] then sse_loop ((dispatch d1)\<lparr>event_bytes := 0\<rparr>)
          else
            let d2 = d1\<lparr>event_bytes := usize_saturating_add (event_bytes d1) consumed\<rparr> in
            if event_bytes d2 > max_event_size d2 then (d2, Some (EventTooLarge (max_event_size d2)))
            else sse_loop (handle_line d2 line))"
  by pat_completeness auto
termination
  by (relation "measure (\<lambda>d. length (buf (lines d)) - start (lines d))") (auto dest: next_line_measure)

declare sse_loop.simps [simp del]

definition sse_push :: "sse_decoder \<Rightarrow> bytes \<Rightarrow> sse_decoder \<times> sse_error option" where
  "sse_push d chunk =
     (case sse_loop (d\<lparr>lines := ls_push (lines d) chunk\<rparr>) of
        (d', Some e) \<Rightarrow> (d', Some e)
      | (d', None) \<Rightarrow>
          if event_bytes d' + buffered_len (lines d') > max_event_size d'
          then (d', Some (EventTooLarge (max_event_size d')))
          else (d', None))"

definition sse_next :: "sse_decoder \<Rightarrow> sse_event option \<times> sse_decoder" where
  "sse_next d = (case ready d of [] \<Rightarrow> (None, d) | e # es \<Rightarrow> (Some e, d\<lparr>ready := es\<rparr>))"

section \<open>Driving the decoder\<close>

text \<open>A caller drains the queue with \<open>next\<close> until it answers \<open>None\<close>.\<close>

function sse_drain :: "sse_decoder \<Rightarrow> sse_event list \<times> sse_decoder" where
  "sse_drain d =
     (case sse_next d of (None, d') \<Rightarrow> ([], d')
      | (Some e, d') \<Rightarrow> (case sse_drain d' of (es, d'') \<Rightarrow> (e # es, d'')))"
  by pat_completeness auto
termination
  by (relation "measure (\<lambda>d. length (ready d))") (auto simp: sse_next_def split: list.splits)

declare sse_drain.simps [simp del]

text \<open>Chunks are pushed one after the other, the queue drained after each; an error ends it.\<close>

fun sse_drive :: "sse_decoder \<Rightarrow> bytes list \<Rightarrow> sse_event list \<times> sse_decoder \<times> sse_error option" where
  "sse_drive d [] = ([], d, None)"
| "sse_drive d (c # cs) =
     (case sse_push d c of (d1, err) \<Rightarrow>
       (case sse_drain d1 of (es, d2) \<Rightarrow>
         (case err of
            Some e \<Rightarrow> (es, d2, Some e)
          | None \<Rightarrow> (case sse_drive d2 cs of (es', r) \<Rightarrow> (es @ es', r)))))"

section \<open>The reference: a fold over the lines of the whole body\<close>

definition sse_line :: "sse_decoder \<Rightarrow> bytes \<Rightarrow> sse_decoder" where
  "sse_line d line = (if line = [] then dispatch d else handle_line d line)"

definition sse_events :: "bytes option \<Rightarrow> bytes \<Rightarrow> sse_event list" where
  "sse_events lid body = ready (foldl sse_line (sse_new_with_last_event_id 0 lid) (lines_of body))"

text \<open>What the reference reads of a decoder: everything but the splitter and the counters.\<close>

definition core :: "sse_decoder \<Rightarrow> bytes \<times> bytes option \<times> bytes option \<times> sse_event list" where
  "core d = (data d, event_type d, last_event_id d, ready d)"

section \<open>Chunk independence\<close>

lemma core_handle_line: "core d = core d' \<Longrightarrow> core (handle_line d l) = core (handle_line d' l)"
  by (auto simp: core_def handle_line_def Let_def split: prod.splits)

lemma core_dispatch: "core d = core d' \<Longrightarrow> core (dispatch d) = core (dispatch d')"
  by (auto simp: core_def dispatch_def Let_def)

lemma core_sse_line: "core d = core d' \<Longrightarrow> core (sse_line d l) = core (sse_line d' l)"
  by (auto simp: sse_line_def intro: core_handle_line core_dispatch)

lemma sse_line_simps [simp]:
  "sse_line d [] = dispatch d" "l \<noteq> [] \<Longrightarrow> sse_line d l = handle_line d l"
  by (simp_all add: sse_line_def)

lemma core_foldl: "core d = core d' \<Longrightarrow> core (foldl sse_line d ll) = core (foldl sse_line d' ll)"
proof (induction ll arbitrary: d d')
  case (Cons l ll)
  show ?case using Cons.IH [OF core_sse_line [OF Cons.prems, of l]] by simp
qed simp

lemma core_update [simp]:
  "core (d\<lparr>lines := x\<rparr>) = core d" "core (d\<lparr>event_bytes := n\<rparr>) = core d"
  by (simp_all add: core_def)

lemma sse_loop_None: "next_line (lines d) = None \<Longrightarrow> sse_loop d = (d, None)"
  by (subst sse_loop.simps) simp

lemma sse_loop_Some:
  "next_line (lines d) = Some ((line, n), ls') \<Longrightarrow> sse_loop d =
     (let d1 = d\<lparr>lines := ls'\<rparr> in
      if line = [] then sse_loop ((dispatch d1)\<lparr>event_bytes := 0\<rparr>)
      else let d2 = d1\<lparr>event_bytes := usize_saturating_add (event_bytes d1) n\<rparr> in
        if event_bytes d2 > max_event_size d2 then (d2, Some (EventTooLarge (max_event_size d2)))
        else sse_loop (handle_line d2 line))"
  by (subst sse_loop.simps) (simp add: Let_def)

lemma sse_loop_lines:
  assumes "sse_loop d = (d', None)"
  shows "lines d' = snd (drain (lines d)) \<and>
    core d' = core (foldl sse_line d (map fst (fst (drain (lines d)))))"
  using assms
proof (induction d rule: sse_loop.induct)
  case (1 d)
  show ?case
  proof (cases "next_line (lines d)")
    case None
    then show ?thesis using "1.prems" by (simp add: sse_loop_None drain_None)
  next
    case (Some r)
    then obtain line n ls' where nl: "next_line (lines d) = Some ((line, n), ls')" by (metis surj_pair)
    let ?d1 = "d\<lparr>lines := ls'\<rparr>"
    let ?d2 = "?d1\<lparr>event_bytes := usize_saturating_add (event_bytes ?d1) n\<rparr>"
    show ?thesis
    proof (cases "line = []")
      case True
      let ?e = "(dispatch ?d1)\<lparr>event_bytes := 0\<rparr>"
      have "sse_loop ?e = (d', None)" using "1.prems" True by (simp add: sse_loop_Some [OF nl])
      from "1.IH"(1) [OF nl refl refl refl True this] show ?thesis
        using True core_foldl [of ?e "sse_line d line"] core_dispatch [of ?d1 d]
        by (simp add: drain_Some [OF nl])
    next
      case False
      have lim: "\<not> event_bytes ?d2 > max_event_size ?d2" "sse_loop (handle_line ?d2 line) = (d', None)"
        using "1.prems" False by (auto simp: sse_loop_Some [OF nl] Let_def split: if_splits)
      from "1.IH"(2) [OF nl refl refl refl False refl lim] show ?thesis
        using False core_foldl [of "handle_line ?d2 line" "sse_line d line"] core_handle_line [of ?d2 d line]
        by (simp add: drain_Some [OF nl])
    qed
  qed
qed

lemma sse_push_lines:
  assumes "sse_push d c = (d', None)" "drain (ls_push (lines d) c) = (ll, ls')"
  shows "lines d' = ls'" "core d' = core (foldl sse_line d (map fst ll))"
    "event_bytes d' + buffered_len ls' \<le> max_event_size d'"
proof -
  let ?d = "d\<lparr>lines := ls_push (lines d) c\<rparr>"
  have l: "sse_loop ?d = (d', None)" "event_bytes d' + buffered_len (lines d') \<le> max_event_size d'"
    using assms(1) by (auto simp: sse_push_def split: prod.splits option.splits if_splits)
  show "lines d' = ls'" "core d' = core (foldl sse_line d (map fst ll))"
    using sse_loop_lines [OF l(1)] assms(2) core_foldl [of ?d d] by auto
  then show "event_bytes d' + buffered_len ls' \<le> max_event_size d'" using l(2) by simp
qed

lemma sse_drain_eq: "sse_drain d = (ready d, d\<lparr>ready := []\<rparr>)"
proof (induction "ready d" arbitrary: d)
  case Nil
  then show ?case by (subst sse_drain.simps) (auto simp: sse_next_def)
next
  case (Cons e es)
  then have "sse_drain (d\<lparr>ready := es\<rparr>) = (es, d\<lparr>ready := []\<rparr>)"
    using Cons.hyps(1) [of "d\<lparr>ready := es\<rparr>"] by simp
  then show ?case using Cons.hyps(2) by (subst sse_drain.simps) (simp add: sse_next_def flip: Cons.hyps(2))
qed

text \<open>Events are only ever appended, so emptying the queue between lines changes nothing else.\<close>

abbreviation prepend :: "sse_event list \<Rightarrow> sse_decoder \<Rightarrow> sse_decoder" where
  "prepend es d \<equiv> d\<lparr>ready := es @ ready d\<rparr>"

lemma sse_line_prepend: "sse_line (prepend es d) l = prepend es (sse_line d l)"
  by (auto simp: sse_line_def handle_line_def dispatch_def Let_def split: prod.splits)

lemma foldl_prepend: "foldl sse_line (prepend es d) ll = prepend es (foldl sse_line d ll)"
  using foldl_append_hom [of sse_line "prepend es" d ll] sse_line_prepend by blast

lemma foldl_cleared: "core (foldl sse_line d ll) = core (prepend (ready d) (foldl sse_line (d\<lparr>ready := []\<rparr>) ll))"
  using foldl_prepend [of "ready d" "d\<lparr>ready := []\<rparr>" ll] by simp

lemma sse_drive_rel:
  assumes "ls_rel s (lines d)" "core d = core ((foldl sse_line d0 (lines_of s))\<lparr>ready := []\<rparr>)"
    and "sse_drive d cs = (es, d', None)"
  shows "ready (foldl sse_line d0 (lines_of (s @ concat cs))) = ready (foldl sse_line d0 (lines_of s)) @ es \<and>
    ls_rel (s @ concat cs) (lines d') \<and>
    core d' = core ((foldl sse_line d0 (lines_of (s @ concat cs)))\<lparr>ready := []\<rparr>)"
  using assms
proof (induction cs arbitrary: s d es)
  case (Cons c cs)
  obtain ll ls' where dr: "drain (ls_push (lines d) c) = (ll, ls')" by (cases "drain (ls_push (lines d) c)")
  obtain d1 es' where pu: "sse_push d c = (d1, None)"
    and rec: "sse_drive (d1\<lparr>ready := []\<rparr>) cs = (es', d', None)" and es: "es = ready d1 @ es'"
    using Cons.prems(3) by (auto simp: sse_drain_eq split: prod.splits option.splits)
  note st = ls_rel_step [OF Cons.prems(1) dr]
  let ?F = "foldl sse_line d0 (lines_of s)"
  have d1: "lines d1 = ls'" "core d1 = core (foldl sse_line d (map fst ll))" by (rule sse_push_lines [OF pu dr])+
  have "core d1 = core (foldl sse_line (?F\<lparr>ready := []\<rparr>) (map fst ll))"
    using d1(2) core_foldl [OF Cons.prems(2)] by metis
  moreover have F: "core (foldl sse_line d0 (lines_of (s @ c))) =
      core (prepend (ready ?F) (foldl sse_line (?F\<lparr>ready := []\<rparr>) (map fst ll)))"
    using foldl_cleared [of ?F "map fst ll"] st(2) by simp
  ultimately have r: "ready (foldl sse_line d0 (lines_of (s @ c))) = ready ?F @ ready d1"
    "core (d1\<lparr>ready := []\<rparr>) = core ((foldl sse_line d0 (lines_of (s @ c)))\<lparr>ready := []\<rparr>)"
    by (auto simp: core_def)
  show ?case using Cons.IH [OF _ r(2) rec] st(1) d1(1) r(1) es by simp
qed simp

lemma sse_drive_fresh:
  assumes "sse_drive (sse_new_with_last_event_id mx lid) cs = (es, d', None)"
  shows "es = sse_events lid (concat cs)"
proof -
  let ?d = "sse_new_with_last_event_id mx lid" and ?e = "sse_new_with_last_event_id 0 lid"
  have "ls_rel [] (lines ?d)" "core ?d = core ((foldl sse_line ?e (lines_of []))\<lparr>ready := []\<rparr>)"
    by (simp_all add: sse_new_with_last_event_id_def ls_rel_new core_def)
  from sse_drive_rel [OF this assms] show ?thesis
    by (simp add: sse_events_def sse_new_with_last_event_id_def)
qed

section \<open>The size limit\<close>

text \<open>What the decoder holds of an event under construction, beside the splitter's buffer.\<close>

definition held :: "sse_decoder \<Rightarrow> nat" where
  "held d = length (data d) + (case event_type d of None \<Rightarrow> 0 | Some e \<Rightarrow> length e)"

lemma next_line_consumed:
  assumes "next_line ls = Some ((line, n), ls')"
  shows "length line < n"
  using assms length_takeWhile_le [of "\<lambda>b. \<not> is_term b" "drop (start ls) (buf ls)"]
  by (auto simp: next_line_def Let_def split: if_splits)

lemma length_strip_one_space: "length (strip_one_space v) \<le> length v"
  by (auto simp: strip_one_space_def split: list.splits)

lemma sse_field_length:
  assumes "sse_field line = (name, value)"
  shows "length name + length value \<le> length line"
proof (cases "find_byte (CHR '':'') line")
  case (Some i)
  then obtain p r where "line = p @ CHR '':'' # r" "i = length p" by (auto simp: find_byte_Some)
  then show ?thesis using assms Some length_strip_one_space [of r] by (auto simp: sse_field_def)
qed (use assms in \<open>auto simp: sse_field_def\<close>)

lemma handle_line_other:
  assumes "hd line = CHR '':'' \<or> fst (sse_field line) \<noteq> ''data'' \<and> fst (sse_field line) \<noteq> ''event''"
  shows "data (handle_line d line) = data d" "event_type (handle_line d line) = event_type d"
  using assms by (cases "sse_field line"; auto simp: handle_line_def Let_def)+

lemma held_handle_line: "held (handle_line d line) \<le> held d + 3 * length line"
proof -
  obtain name val where f: "sse_field line = (name, val)" by (cases "sse_field line")
  have l: "length name + length val \<le> length line" "length (from_utf8_lossy val) \<le> 3 * length val"
    by (rule sse_field_length [OF f], rule from_utf8_lossy_length)
  consider "hd line \<noteq> CHR '':''" "name = ''data''" | "hd line \<noteq> CHR '':''" "name = ''event''"
    | "data (handle_line d line) = data d \<and> event_type (handle_line d line) = event_type d"
    using handle_line_other [of line d] f by fastforce
  then show ?thesis
  proof cases
    case 1
    then have "4 + length val \<le> length line" using l(1) by simp
    then show ?thesis using 1 l(2) by (simp add: handle_line_def f held_def)
  next
    case 2
    then show ?thesis using l by (simp add: handle_line_def f held_def)
  next
    case 3
    then show ?thesis by (simp add: held_def)
  qed
qed

lemma held_dispatch [simp]: "held (dispatch d) = 0"
  by (simp add: held_def dispatch_def Let_def)

lemma held_update [simp]:
  "held (d\<lparr>lines := x\<rparr>) = held d" "held (d\<lparr>event_bytes := n\<rparr>) = held d" "held (d\<lparr>ready := r\<rparr>) = held d"
  by (simp_all add: held_def)

lemma sse_loop_held:
  assumes "sse_loop d = (d', None)" "held d \<le> 3 * event_bytes d" "max_event_size d < u64_max"
  shows "held d' \<le> 3 * event_bytes d' \<and> max_event_size d' = max_event_size d"
  using assms
proof (induction d rule: sse_loop.induct)
  case (1 d)
  show ?case
  proof (cases "next_line (lines d)")
    case None
    then show ?thesis using "1.prems" by (simp add: sse_loop_None)
  next
    case (Some r)
    then obtain line n ls' where nl: "next_line (lines d) = Some ((line, n), ls')" by (metis surj_pair)
    let ?d1 = "d\<lparr>lines := ls'\<rparr>"
    let ?d2 = "?d1\<lparr>event_bytes := usize_saturating_add (event_bytes ?d1) n\<rparr>"
    show ?thesis
    proof (cases "line = []")
      case True
      let ?e = "(dispatch ?d1)\<lparr>event_bytes := 0\<rparr>"
      have "sse_loop ?e = (d', None)" using "1.prems" True by (simp add: sse_loop_Some [OF nl])
      from "1.IH"(1) [OF nl refl refl refl True this] show ?thesis using "1.prems" by simp
    next
      case False
      have lim: "\<not> event_bytes ?d2 > max_event_size ?d2" "sse_loop (handle_line ?d2 line) = (d', None)"
        using "1.prems" False by (auto simp: sse_loop_Some [OF nl] Let_def split: if_splits)
      have "held (handle_line ?d2 line) \<le> 3 * event_bytes (handle_line ?d2 line)"
        using held_handle_line [of ?d2 line] next_line_consumed [OF nl] lim(1) "1.prems"
        by (simp add: usize_saturating_add_def min_def split: if_splits)
      from "1.IH"(2) [OF nl refl refl refl False refl lim this] show ?thesis using "1.prems" by simp
    qed
  qed
qed

lemma sse_drive_held:
  assumes "sse_drive d cs = (es, d', None)" "held d \<le> 3 * event_bytes d" "max_event_size d < u64_max"
    "event_bytes d + buffered_len (lines d) \<le> max_event_size d"
  shows "held d' \<le> 3 * event_bytes d' \<and> event_bytes d' + buffered_len (lines d') \<le> max_event_size d"
  using assms
proof (induction cs arbitrary: d es)
  case (Cons c cs)
  obtain d1 es' where pu: "sse_push d c = (d1, None)" and rec: "sse_drive (d1\<lparr>ready := []\<rparr>) cs = (es', d', None)"
    using Cons.prems(1) by (auto simp: sse_drain_eq split: prod.splits option.splits)
  have l: "sse_loop (d\<lparr>lines := ls_push (lines d) c\<rparr>) = (d1, None)"
    "event_bytes d1 + buffered_len (lines d1) \<le> max_event_size d1"
    using pu by (auto simp: sse_push_def split: prod.splits option.splits if_splits)
  from sse_loop_held [OF l(1)] Cons.prems(2,3) have h: "held d1 \<le> 3 * event_bytes d1" "max_event_size d1 = max_event_size d"
    by auto
  show ?case using Cons.IH [OF rec] h l(2) Cons.prems(3) by simp
qed simp

text \<open>A body no longer than the limit is never refused.\<close>

definition accounted :: "sse_decoder \<Rightarrow> nat" where
  "accounted d = event_bytes d + buffered_len (lines d) + bom_stripped (lines d)"

lemma accounted_update [simp]:
  "accounted (d\<lparr>ready := r\<rparr>) = accounted d"
  by (simp add: accounted_def)

lemma sse_loop_within:
  assumes "ls_inv (lines d)" "accounted d \<le> max_event_size d"
  shows "\<exists>d'. sse_loop d = (d', None) \<and> ls_inv (lines d') \<and> accounted d' \<le> accounted d \<and>
    max_event_size d' = max_event_size d"
  using assms
proof (induction d rule: sse_loop.induct)
  case (1 d)
  show ?case
  proof (cases "next_line (lines d)")
    case None
    then show ?thesis using "1.prems" by (simp add: sse_loop_None)
  next
    case (Some r)
    then obtain line n ls' where nl: "next_line (lines d) = Some ((line, n), ls')" by (metis surj_pair)
    have dn: "bom_done (lines d)"
      using nl next_line_None [of "lines d"] "1.prems" by (auto simp: ls_inv_def bom_pending_def)
    have a: "n + buffered_len ls' = buffered_len (lines d)" "ls_inv ls'" "bom_stripped ls' = bom_stripped (lines d)"
      using next_line_account [OF _ dn nl] next_line_frame [OF nl] "1.prems" dn
      by (auto simp: ls_inv_def bom_stripped_def)
    let ?d1 = "d\<lparr>lines := ls'\<rparr>"
    let ?d2 = "?d1\<lparr>event_bytes := usize_saturating_add (event_bytes ?d1) n\<rparr>"
    have sat: "usize_saturating_add x n \<le> x + n" for x by (simp add: usize_saturating_add_def)
    show ?thesis
    proof (cases "line = []")
      case True
      let ?e = "(dispatch ?d1)\<lparr>event_bytes := 0\<rparr>"
      have le: "accounted ?e \<le> accounted d" using a by (simp add: accounted_def)
      have "ls_inv (lines ?e)" "accounted ?e \<le> max_event_size ?e" using a le "1.prems" by simp_all
      from "1.IH"(1) [OF nl refl refl refl True this] show ?thesis
        using True le by (auto simp: sse_loop_Some [OF nl])
    next
      case False
      have le: "accounted (handle_line ?d2 line) \<le> accounted d"
        using a sat [of "event_bytes d"] by (simp add: accounted_def)
      have lim: "\<not> event_bytes ?d2 > max_event_size ?d2"
        using le "1.prems" by (simp add: accounted_def)
      have "ls_inv (lines (handle_line ?d2 line))" "accounted (handle_line ?d2 line) \<le> max_event_size (handle_line ?d2 line)"
        using a le "1.prems" by simp_all
      from "1.IH"(2) [OF nl refl refl refl False refl lim this] show ?thesis
        using False le lim by (auto simp: sse_loop_Some [OF nl] Let_def)
    qed
  qed
qed

lemma sse_push_within:
  assumes "ls_inv (lines d)" "accounted d + length c \<le> max_event_size d"
  shows "\<exists>d'. sse_push d c = (d', None) \<and> ls_inv (lines d') \<and> accounted d' \<le> accounted d + length c \<and>
    max_event_size d' = max_event_size d"
proof -
  let ?d = "d\<lparr>lines := ls_push (lines d) c\<rparr>"
  have "ls_inv (lines ?d)" "accounted ?d = accounted d + length c"
    using push_account [OF assms(1), of c] by (simp_all add: accounted_def)
  then obtain d' where "sse_loop ?d = (d', None)" "ls_inv (lines d')" "accounted d' \<le> accounted d + length c"
    "max_event_size d' = max_event_size d" using sse_loop_within [of ?d] assms(2) by auto
  then show ?thesis using assms(2) by (auto simp: sse_push_def accounted_def)
qed

lemma sse_drive_within:
  assumes "ls_inv (lines d)" "accounted d + length (concat cs) \<le> max_event_size d"
  shows "\<exists>es d'. sse_drive d cs = (es, d', None)"
  using assms
proof (induction cs arbitrary: d)
  case (Cons c cs)
  then obtain d1 where d1: "sse_push d c = (d1, None)" "ls_inv (lines d1)" "accounted d1 \<le> accounted d + length c"
    "max_event_size d1 = max_event_size d" using sse_push_within [of d c] by auto
  then obtain es d' where "sse_drive (d1\<lparr>ready := []\<rparr>) cs = (es, d', None)"
    using Cons.IH [of "d1\<lparr>ready := []\<rparr>"] Cons.prems(2) by auto
  then show ?case using d1(1) by (simp add: sse_drain_eq)
qed simp

lemma sse_drive_fresh_within:
  assumes "length (concat cs) \<le> mx"
  shows "\<exists>es d'. sse_drive (sse_new_with_last_event_id mx lid) cs = (es, d', None)"
  using assms ls_inv_new
  by (intro sse_drive_within)
    (simp_all add: sse_new_with_last_event_id_def accounted_def ls_new_def buffered_len_def bom_stripped_def)

section \<open>What a block of lines dispatches\<close>

definition fields_named :: "bytes \<Rightarrow> bytes list \<Rightarrow> bytes list" where
  "fields_named n ll = map (snd \<circ> sse_field) (filter (\<lambda>l. hd l \<noteq> CHR '':'' \<and> fst (sse_field l) = n) ll)"

definition retry_value :: "bytes \<Rightarrow> duration" where
  "retry_value v = from_millis (if dec_val v \<le> u64_max then dec_val v else u64_max)"

text \<open>Comments and reconnection times surface at once, in the order of their lines.\<close>

definition line_event :: "bytes \<Rightarrow> sse_event list" where
  "line_event l =
     (if hd l = CHR '':'' then [Comment (from_utf8_lossy (strip_one_space (tl l)))]
      else case sse_field l of (n, v) \<Rightarrow>
        if n = ''retry'' \<and> v \<noteq> [] \<and> list_all is_ascii_digit v then [Retry (retry_value v)] else [])"

definition last_or :: "'a option \<Rightarrow> 'a list \<Rightarrow> 'a option" where
  "last_or d xs = (if xs = [] then d else Some (last xs))"

fun join_lf :: "bytes list \<Rightarrow> bytes" where
  "join_lf [] = []"
| "join_lf [v] = v"
| "join_lf (v # w # r) = v @ LF # join_lf (w # r)"

definition data_fields :: "bytes list \<Rightarrow> bytes list" where
  "data_fields ll = map from_utf8_lossy (fields_named ''data'' ll)"

definition event_field :: "bytes list \<Rightarrow> bytes option" where
  "event_field ll = last_or None (map from_utf8_lossy (fields_named ''event'' ll))"

definition id_field :: "bytes option \<Rightarrow> bytes list \<Rightarrow> bytes option" where
  "id_field lid ll =
     last_or lid (map from_utf8_lossy (filter (\<lambda>v. CHR 0x00 \<notin> set v) (fields_named ''id'' ll)))"

lemma butlast_concat_LF: "butlast (concat (map (\<lambda>v. v @ [LF]) vs)) = join_lf vs"
  by (induction vs rule: join_lf.induct) (auto simp: butlast_append)

lemma last_concat_LF: "vs \<noteq> [] \<Longrightarrow> last (concat (map (\<lambda>v. v @ [LF]) vs)) = LF"
  by (induction vs rule: rev_induct) auto

lemma parse_u64_digits:
  "v \<noteq> [] \<Longrightarrow> list_all is_ascii_digit v \<Longrightarrow>
     from_millis (case parse_u64 v of Some ms \<Rightarrow> ms | None \<Rightarrow> u64_max) = retry_value v"
  by (cases v) (auto simp: parse_u64_def retry_value_def Let_def is_ascii_digit_def byte_val_def)

lemma handle_line_fields:
  "data (handle_line d l) = data d @ concat (map (\<lambda>v. v @ [LF]) (data_fields [l]))"
  "event_type (handle_line d l) = last_or (event_type d) (map from_utf8_lossy (fields_named ''event'' [l]))"
  "last_event_id (handle_line d l) = id_field (last_event_id d) [l]"
  "ready (handle_line d l) = ready d @ line_event l"
  by (cases "sse_field l"; auto simp: handle_line_def Let_def data_fields_def fields_named_def last_or_def
      id_field_def line_event_def parse_u64_digits)+

lemma fields_named_append: "fields_named n (xs @ ys) = fields_named n xs @ fields_named n ys"
  by (simp add: fields_named_def)

lemma fields_append:
  "data_fields (xs @ ys) = data_fields xs @ data_fields ys"
  "id_field (id_field lid xs) ys = id_field lid (xs @ ys)"
  "last_or (last_or e xs') ys' = last_or e (xs' @ ys')"
  by (simp_all add: data_fields_def id_field_def last_or_def fields_named_append)

lemma block_fields:
  assumes "[] \<notin> set ll"
  shows "data (foldl sse_line d ll) = data d @ concat (map (\<lambda>v. v @ [LF]) (data_fields ll)) \<and>
    event_type (foldl sse_line d ll) = last_or (event_type d) (map from_utf8_lossy (fields_named ''event'' ll)) \<and>
    last_event_id (foldl sse_line d ll) = id_field (last_event_id d) ll \<and>
    ready (foldl sse_line d ll) = ready d @ concat (map line_event ll)"
  using assms
proof (induction ll rule: rev_induct)
  case Nil
  show ?case by (simp add: data_fields_def fields_named_def last_or_def id_field_def)
next
  case (snoc l ll)
  then have "l \<noteq> []" by auto
  then show ?case using snoc
    by (simp add: handle_line_fields fields_append fields_named_append del: handle_line_frame)
qed

section \<open>Properties\<close>

text \<open>
  Chunk independence of the decoder: as long as no push reports an error, the
  events handed out for a body delivered in chunks are the events of the whole body, computed
  line by line, whatever the chunk boundaries; this holds for a fresh decoder and for one seeded
  with the last event id of a previous connection.
\<close>

theorem sse_chunk_independent:
  assumes "sse_drive (sse_new_with_last_event_id mx lid) cs = (es, d', None)"
  shows "es = sse_events lid (concat cs)"
  using assms by (rule sse_drive_fresh)

theorem sse_chunk_independent_witness:
  "\<exists>d'. sse_drive (sse_new_with_last_event_id 64 None) [''dat'', ''a: x'' @ [CR], [LF, LF], ''id:''] =
     ([Message None ''x'' None], d', None)"
proof -
  have l: "length (concat [''dat'', ''a: x'' @ [CR], [LF, LF], ''id:'']) \<le> 64" by simp
  obtain es d' where r: "sse_drive (sse_new_with_last_event_id 64 None)
      [''dat'', ''a: x'' @ [CR], [LF, LF], ''id:''] = (es, d', None)"
    using sse_drive_fresh_within [OF l, of None] by blast
  have "sse_events None (concat [''dat'', ''a: x'' @ [CR], [LF, LF], ''id:'']) = [Message None ''x'' None]"
    by code_simp
  with sse_chunk_independent [OF r] r show ?thesis by metis
qed

text \<open>
  Property C9. A body that fits the limit is always decoded: when the whole body, however it is
  cut into chunks, is no longer than \<open>max_event_size\<close>, no push reports an error and the events
  handed out are those of the body.
\<close>

theorem sse_within_limit_decodes:
  assumes "length (concat cs) \<le> mx"
  shows "\<exists>d'. sse_drive (sse_new_with_last_event_id mx lid) cs = (sse_events lid (concat cs), d', None)"
  using sse_drive_fresh_within [OF assms, of lid] sse_drive_fresh by blast

theorem sse_within_limit_decodes_witness:
  "\<exists>d'. sse_drive (sse_new_with_last_event_id 12 (Some ''7'')) [''data:'', ''x'' @ [LF, LF]] =
     ([Message None ''x'' (Some ''7'')], d', None)"
proof -
  have e: "sse_events (Some ''7'') (concat [''data:'', ''x'' @ [LF, LF]]) = [Message None ''x'' (Some ''7'')]"
    by code_simp
  have "length (concat [''data:'', ''x'' @ [LF, LF]]) \<le> 12" by simp
  from sse_within_limit_decodes [OF this, of "Some ''7''"] show ?thesis unfolding e .
qed

text \<open>
  Memory bound: after any chunks that were accepted, the bytes counted for the event
  under construction and those still buffered are within the limit, and the text the decoder
  holds for that event (data buffer and event type, in which an ill-formed byte has become the
  three bytes of U+FFFD) is at most three times the limit.
\<close>

theorem sse_limit_bounds_memory:
  assumes "sse_drive (sse_new_with_last_event_id mx lid) cs = (es, d', None)" "mx < u64_max"
  shows "event_bytes d' + buffered_len (lines d') \<le> mx \<and> held d' \<le> 3 * mx"
proof -
  let ?d = "sse_new_with_last_event_id mx lid"
  have "held ?d \<le> 3 * event_bytes ?d" "max_event_size ?d < u64_max"
    "event_bytes ?d + buffered_len (lines ?d) \<le> max_event_size ?d"
    using assms(2) by (simp_all add: sse_new_with_last_event_id_def held_def ls_new_def buffered_len_def)
  from sse_drive_held [OF assms(1) this] show ?thesis
    by (simp add: sse_new_with_last_event_id_def)
qed

theorem sse_limit_bounds_memory_witness:
  "\<exists>es d'. sse_drive (sse_new_with_last_event_id 20 None) [''data: abc'' @ [LF], ''dat''] = (es, d', None) \<and>
     event_bytes d' + buffered_len (lines d') \<le> 20 \<and> held d' \<le> 60"
proof -
  have l: "length (concat [''data: abc'' @ [LF], ''dat'']) \<le> 20" by simp
  obtain es d' where r: "sse_drive (sse_new_with_last_event_id 20 None) [''data: abc'' @ [LF], ''dat''] = (es, d', None)"
    using sse_drive_fresh_within [OF l, of None] by blast
  have "(20::nat) < u64_max" by (simp add: u64_max_def)
  from sse_limit_bounds_memory [OF r this] r show ?thesis by auto
qed

text \<open>
  One block of lines, up to its blank line: comments and reconnection times surface
  in order; the message, present exactly when the block has a \<open>data\<close> field, joins the data values
  with line feeds, carries the last \<open>event\<close> value of this block alone and the last valid id seen on
  the stream so far; the id survives the block and nothing else does.
\<close>

theorem sse_block_dispatch:
  assumes "[] \<notin> set ll" "data d = []" "event_type d = None"
  shows "let d' = foldl sse_line d (ll @ [[]]) in
     ready d' = ready d @ concat (map line_event ll) @
       (if data_fields ll = [] then []
        else [Message (event_field ll) (join_lf (data_fields ll)) (id_field (last_event_id d) ll)]) \<and>
     data d' = [] \<and> event_type d' = None \<and> last_event_id d' = id_field (last_event_id d) ll"
  using assms block_fields [OF assms(1), of d]
  by (auto simp: Let_def dispatch_def butlast_concat_LF last_concat_LF event_field_def)

theorem sse_block_dispatch_witness:
  "ready (foldl sse_line (sse_new 99) ([''event: a'', '': hi'', ''data: x'', ''id: 3'', ''data: y''] @ [[]])) =
     [Comment ''hi'', Message (Some ''a'') (''x'' @ LF # ''y'') (Some ''3'')]"
proof -
  let ?ll = "[''event: a'', '': hi'', ''data: x'', ''id: 3'', ''data: y'']"
  have h: "[] \<notin> set ?ll" "data (sse_new 99) = []" "event_type (sse_new 99) = None"
    by (simp_all add: sse_new_def sse_new_with_last_event_id_def)
  have v: "concat (map line_event ?ll) = [Comment ''hi'']" "data_fields ?ll = [''x'', ''y'']"
    "event_field ?ll = Some ''a''" "id_field None ?ll = Some ''3''" by code_simp+
  have n: "ready (sse_new 99) = []" "last_event_id (sse_new 99) = None"
    by (simp_all add: sse_new_def sse_new_with_last_event_id_def)
  from sse_block_dispatch [OF h] show ?thesis
    unfolding v n Let_def by simp
qed

end
