(* ===== verification/Uri_Resolve.thy ===== *)
theory Uri_Resolve
  imports Std_Text
begin

text \<open>
  Reference resolution and the string boundary of \<open>crates/hclient/src/sansio/uri.rs\<close>: the
  splitting of a reference into its parts, the RFC 3986 transform with \<open>merge\<close> and
  \<open>remove_dot_segments\<close>, the recomposition, and the conversion of a string to ASCII.

  What the module takes from other crates is the argument \<open>uri_ext\<close>: \<open>str::parse::<Uri>\<close> of the
  \<open>http\<close> crate, the percent-encoding of non-ASCII bytes, and \<open>domain_to_ascii\<close> of the IDN crate.
  An \<open>http::Uri\<close> is what its accessors answer.
\<close>

section \<open>Data\<close>

record http_uri =
  scheme_str :: "bytes option"
  authority :: "bytes option"
  host :: "bytes option"
  port_u16 :: "nat option"
  path :: bytes
  query :: "bytes option"

datatype idn_error = NoImplementation bytes | IdnNotAnIdn bytes

datatype uri_error =
    UnusableBase http_uri
  | NonAsciiHost bytes
  | NotAnIdn bytes
  | NotAUri bytes

record uri_ext =
  uri_from_str :: "bytes \<Rightarrow> http_uri option"
  utf8_percent_encode :: "bytes \<Rightarrow> bytes"
  domain_to_ascii :: "bytes \<Rightarrow> idn_error + bytes"

record parts =
  p_scheme :: "bytes option"
  p_authority :: "bytes option"
  p_path :: bytes
  p_query :: "bytes option"

section \<open>Splitting a reference\<close>

definition scheme_char :: "byte \<Rightarrow> bool" where
  "scheme_char c \<longleftrightarrow> is_ascii_alphanumeric c \<or> c = CHR ''+'' \<or> c = CHR ''-'' \<or> c = CHR ''.''"

definition scheme_end :: "bytes \<Rightarrow> nat option" where
  "scheme_end s =
     (case find_byte (CHR '':'') s of
        None \<Rightarrow> None
      | Some i \<Rightarrow>
          (case take i s of
             [] \<Rightarrow> None
           | c # cs \<Rightarrow>
               if \<not> is_ascii_alphabetic c then None
               else if list_all scheme_char cs then Some i else None))"

text \<open>The four cuts of \<open>Parts::split\<close>, in order: fragment, query, scheme, authority.\<close>

definition cut_fragment :: "bytes \<Rightarrow> bytes" where
  "cut_fragment s = (case find_byte (CHR ''#'') s of Some i \<Rightarrow> take i s | None \<Rightarrow> s)"

definition cut_query :: "bytes \<Rightarrow> bytes \<times> bytes option" where
  "cut_query s =
     (case find_byte (CHR ''?'') s of Some i \<Rightarrow> (take i s, Some (drop (i + 1) s)) | None \<Rightarrow> (s, None))"

definition cut_scheme :: "bytes \<Rightarrow> bytes option \<times> bytes" where
  "cut_scheme s = (case scheme_end s of Some i \<Rightarrow> (Some (take i s), drop (i + 1) s) | None \<Rightarrow> (None, s))"

definition cut_authority :: "bytes \<Rightarrow> bytes option \<times> bytes" where
  "cut_authority s =
     (case strip_prefix ''//'' s of
        Some rest \<Rightarrow>
          (let e = (case find_byte (CHR ''/'') rest of Some i \<Rightarrow> i | None \<Rightarrow> length rest)
           in (Some (take e rest), drop e rest))
      | None \<Rightarrow> (None, s))"

definition parts_split :: "bytes \<Rightarrow> parts" where
  "parts_split s =
     (let (s2, qry) = cut_query (cut_fragment s);
          (scheme, s3) = cut_scheme s2;
          (auth, pth) = cut_authority s3
      in \<lparr>p_scheme = scheme, p_authority = auth, p_path = pth, p_query = qry\<rparr>)"

section \<open>Paths\<close>

definition merge :: "bytes \<Rightarrow> bytes \<Rightarrow> bytes" where
  "merge base_path reference_path =
     (if base_path = [] then CHR ''/'' # reference_path
      else case rfind_byte (CHR ''/'') base_path of
        Some i \<Rightarrow> take (i + 1) base_path @ reference_path
      | None \<Rightarrow> reference_path)"

definition pop_segment :: "bytes \<Rightarrow> bytes" where
  "pop_segment out = (case rfind_byte (CHR ''/'') out of Some i \<Rightarrow> take i out | None \<Rightarrow> [])"

text \<open>The segment that rule E moves: its length, with the leading slash if it has one.\<close>

definition segment_end :: "bytes \<Rightarrow> nat" where
  "segment_end input =
     (let start = (if starts_with input ''/'' then 1 else 0) in
      case find_byte (CHR ''/'') (drop start input) of Some i \<Rightarrow> start + i | None \<Rightarrow> length input)"

lemma segment_end_pos: "input \<noteq> [] \<Longrightarrow> 0 < segment_end input"
  by (cases input) (auto simp: segment_end_def starts_with_def find_byte_Some Cons_eq_append_conv split: option.splits)

function rds_loop :: "bytes \<Rightarrow> bytes \<Rightarrow> bytes" where
  "rds_loop input out =
     (if input = [] then out
      else case strip_prefix ''../'' input of Some rest \<Rightarrow> rds_loop rest out
      | None \<Rightarrow> (case strip_prefix ''./'' input of Some rest \<Rightarrow> rds_loop rest out
      | None \<Rightarrow>
          if starts_with input ''/./'' then rds_loop (drop 2 input) out
          else if input = ''/.'' then rds_loop ''/'' out
          else if starts_with input ''/../'' then rds_loop (drop 3 input) (pop_segment out)
          else if input = ''/..'' then rds_loop ''/'' (pop_segment out)
          else if input = ''.'' \<or> input = ''..'' then rds_loop [] out
          else rds_loop (drop (segment_end input) input) (out @ take (segment_end input) input)))"
  by pat_completeness auto
termination
  by (relation "measure (\<lambda>(input, out). length input)")
    (auto simp: strip_prefix_def starts_with_def segment_end_pos split: if_splits)

declare rds_loop.simps [simp del]

definition remove_dot_segments :: "bytes \<Rightarrow> bytes" where
  "remove_dot_segments p = rds_loop p []"

section \<open>The ASCII boundary\<close>

definition authority_range :: "bytes \<Rightarrow> (nat \<times> nat) option" where
  "authority_range s =
     (let after_scheme = (case scheme_end s of None \<Rightarrow> 0 | Some i \<Rightarrow> i + 1) in
      case strip_prefix ''//'' (drop after_scheme s) of
        None \<Rightarrow> None
      | Some rest \<Rightarrow>
          (let start = after_scheme + 2;
               e = (case find_where (\<lambda>b. b = CHR ''/'' \<or> b = CHR ''?'' \<or> b = CHR ''#'') rest of
                      None \<Rightarrow> length s | Some i \<Rightarrow> start + i)
           in Some (start, e)))"

definition slice :: "bytes \<Rightarrow> nat \<Rightarrow> nat \<Rightarrow> bytes" where
  "slice s a b = take (b - a) (drop a s)"

definition host_range :: "bytes \<Rightarrow> nat \<times> nat \<Rightarrow> nat \<times> nat" where
  "host_range s auth =
     (case auth of (a, b) \<Rightarrow>
       let start = (case rfind_byte (CHR ''@'') (slice s a b) of Some i \<Rightarrow> a + i + 1 | None \<Rightarrow> a);
           hostport = slice s start b;
           e = (case rfind_byte (CHR '']'') hostport of
                  Some bracket \<Rightarrow>
                    (case find_byte (CHR '':'') (drop bracket hostport) of
                       None \<Rightarrow> b | Some i \<Rightarrow> start + bracket + i)
                | None \<Rightarrow>
                    (case rfind_byte (CHR '':'') hostport of None \<Rightarrow> b | Some i \<Rightarrow> start + i))
       in (start, e))"

definition idn_error_uri :: "idn_error \<Rightarrow> uri_error" where
  "idn_error_uri e = (case e of NoImplementation d \<Rightarrow> NonAsciiHost d | IdnNotAnIdn d \<Rightarrow> NotAnIdn d)"

definition host_to_ascii :: "uri_ext \<Rightarrow> bytes \<Rightarrow> uri_error + bytes" where
  "host_to_ascii ext h = (case domain_to_ascii ext h of Inr a \<Rightarrow> Inr a | Inl e \<Rightarrow> Inl (idn_error_uri e))"

definition to_ascii :: "uri_ext \<Rightarrow> bytes \<Rightarrow> uri_error + bytes option" where
  "to_ascii ext s =
     (if list_all is_ascii s then Inr None
      else case map_option (host_range s) (authority_range s) of
        Some (a, b) \<Rightarrow>
          if \<not> list_all is_ascii (slice s a b) then
            (case host_to_ascii ext (slice s a b) of
               Inl e \<Rightarrow> Inl e
             | Inr h \<Rightarrow> Inr (Some (utf8_percent_encode ext (take a s) @ h @ utf8_percent_encode ext (drop b s))))
          else Inr (Some (utf8_percent_encode ext s))
      | None \<Rightarrow> Inr (Some (utf8_percent_encode ext s)))"

definition parse_ascii :: "uri_ext \<Rightarrow> bytes \<Rightarrow> uri_error + http_uri" where
  "parse_ascii ext s = (case uri_from_str ext s of Some u \<Rightarrow> Inr u | None \<Rightarrow> Inl (NotAUri s))"

definition parse_uri :: "uri_ext \<Rightarrow> bytes \<Rightarrow> uri_error + http_uri" where
  "parse_uri ext s =
     (case to_ascii ext s of
        Inl e \<Rightarrow> Inl e
      | Inr (Some rewritten) \<Rightarrow> parse_ascii ext rewritten
      | Inr None \<Rightarrow> parse_ascii ext s)"

section \<open>Resolution\<close>

text \<open>The string the resolution hands to \<open>parse\<close>, for a base with a scheme and an authority.\<close>

definition resolve_string :: "bytes \<Rightarrow> bytes \<Rightarrow> http_uri \<Rightarrow> bytes \<Rightarrow> bytes" where
  "resolve_string base_scheme base_authority base reference =
     (let r = parts_split reference;
          (auth, pth, qry) =
            (if p_scheme r \<noteq> None then (p_authority r, remove_dot_segments (p_path r), p_query r)
             else if p_authority r \<noteq> None then (p_authority r, remove_dot_segments (p_path r), p_query r)
             else if p_path r = [] then
               (Some base_authority, path base, if p_query r \<noteq> None then p_query r else query base)
             else if starts_with (p_path r) ''/'' then
               (Some base_authority, remove_dot_segments (p_path r), p_query r)
             else (Some base_authority, remove_dot_segments (merge (path base) (p_path r)), p_query r));
          scheme = (case p_scheme r of Some sc \<Rightarrow> sc | None \<Rightarrow> base_scheme)
      in scheme @ '':'' @ (case auth of Some a \<Rightarrow> ''//'' @ a | None \<Rightarrow> []) @ pth
           @ (case qry of Some q \<Rightarrow> ''?'' @ q | None \<Rightarrow> []))"

definition resolve_reference :: "uri_ext \<Rightarrow> http_uri \<Rightarrow> bytes \<Rightarrow> uri_error + http_uri" where
  "resolve_reference ext base reference =
     (case scheme_str base of
        None \<Rightarrow> Inl (UnusableBase base)
      | Some base_scheme \<Rightarrow>
          (case authority base of
             None \<Rightarrow> Inl (UnusableBase base)
           | Some base_authority \<Rightarrow> parse_uri ext (resolve_string base_scheme base_authority base reference)))"

section \<open>Splitting and recomposing\<close>

definition recompose :: "parts \<Rightarrow> bytes" where
  "recompose r =
     (case p_scheme r of Some sc \<Rightarrow> sc @ '':'' | None \<Rightarrow> []) @
     (case p_authority r of Some a \<Rightarrow> ''//'' @ a | None \<Rightarrow> []) @ p_path r @
     (case p_query r of Some q \<Rightarrow> ''?'' @ q | None \<Rightarrow> [])"

lemma scheme_end_SomeD:
  assumes "scheme_end s = Some i"
  shows "s = take i s @ CHR '':'' # drop (i + 1) s"
proof -
  have "find_byte (CHR '':'') s = Some i"
    using assms by (auto simp: scheme_end_def split: option.splits list.splits if_splits)
  then show ?thesis by (auto simp: find_byte_Some)
qed

lemma strip_prefix_SomeD: "strip_prefix p s = Some r \<Longrightarrow> s = p @ r"
  by (auto simp: strip_prefix_def starts_with_def split: if_splits) (metis append_take_drop_id)

lemma cut_fragment_eq: "cut_fragment s = takeWhile (\<lambda>b. b \<noteq> CHR ''#'') s"
  by (auto simp: cut_fragment_def find_byte_def takeWhile_eq_take [symmetric] takeWhile_eq_all_conv intro: sym)

definition query_suffix :: "bytes option \<Rightarrow> bytes" where
  "query_suffix q = (case q of Some q \<Rightarrow> ''?'' @ q | None \<Rightarrow> [])"

lemma cut_query_eq: "cut_query s = (s2, q) \<longleftrightarrow> s = s2 @ query_suffix q \<and> CHR ''?'' \<notin> set s2"
proof
  assume "cut_query s = (s2, q)"
  then show "s = s2 @ query_suffix q \<and> CHR ''?'' \<notin> set s2"
    by (auto simp: cut_query_def query_suffix_def find_byte_Some find_byte_None split: option.splits)
next
  assume s: "s = s2 @ query_suffix q \<and> CHR ''?'' \<notin> set s2"
  then have "find_byte (CHR ''?'') s = (case q of None \<Rightarrow> None | Some _ \<Rightarrow> Some (length s2))"
    by (auto simp: query_suffix_def find_byte_Some find_byte_None split: option.splits)
  then show "cut_query s = (s2, q)" using s by (auto simp: cut_query_def query_suffix_def split: option.splits)
qed

lemma cut_scheme_join: "cut_scheme s = (sc, r) \<Longrightarrow> s = (case sc of Some c \<Rightarrow> c @ '':'' | None \<Rightarrow> []) @ r"
  by (auto simp: cut_scheme_def split: option.splits dest: scheme_end_SomeD)

lemma cut_authority_join: "cut_authority s = (a, p) \<Longrightarrow> s = (case a of Some a \<Rightarrow> ''//'' @ a | None \<Rightarrow> []) @ p"
  by (auto simp: cut_authority_def Let_def split: option.splits dest!: strip_prefix_SomeD)

section \<open>Dot segments\<close>

text \<open>The reference: a stack of segments. A final dot segment leaves an empty last segment.\<close>

abbreviation dot :: bytes where "dot \<equiv> ''.''"
abbreviation dotdot :: bytes where "dotdot \<equiv> ''..''"

fun normalise :: "bytes list \<Rightarrow> bytes list \<Rightarrow> bytes list" where
  "normalise st [] = st"
| "normalise st (s # ss) =
     (if s = dot then (if ss = [] then st @ [[]] else normalise st ss)
      else if s = dotdot then (if ss = [] then butlast st @ [[]] else normalise (butlast st) ss)
      else normalise (st @ [s]) ss)"

definition render :: "bytes list \<Rightarrow> bytes" where
  "render ss = concat (map ((#) (CHR ''/'')) ss)"

definition plain :: "bytes list \<Rightarrow> bool" where
  "plain ss \<longleftrightarrow> (\<forall>s \<in> set ss. CHR ''/'' \<notin> set s)"

lemma render_simps [simp]:
  "render [] = []" "render (s # ss) = CHR ''/'' # s @ render ss" "render (xs @ ys) = render xs @ render ys"
  by (simp_all add: render_def)

lemma plain_simps [simp]:
  "plain []" "plain (s # ss) \<longleftrightarrow> CHR ''/'' \<notin> set s \<and> plain ss" "plain (xs @ ys) \<longleftrightarrow> plain xs \<and> plain ys"
  by (auto simp: plain_def)

lemma plain_butlast: "plain st \<Longrightarrow> plain (butlast st)"
  by (auto simp: plain_def dest: in_set_butlastD)

lemma render_cases: "render ss = [] \<or> (\<exists>r. render ss = CHR ''/'' # r)"
  by (cases ss) auto

lemma pop_segment_render:
  assumes "plain st"
  shows "pop_segment (render st) = render (butlast st)"
proof (cases st rule: rev_cases)
  case (snoc xs s)
  then have "rfind_byte (CHR ''/'') (render st) = Some (length (render xs))"
    using assms by (auto simp: rfind_byte_Some)
  then show ?thesis using snoc by (simp add: pop_segment_def)
qed (simp add: pop_segment_def rfind_byte_def)

lemma segment_end_render:
  assumes "CHR ''/'' \<notin> set s"
  shows "segment_end (CHR ''/'' # s @ render ss) = Suc (length s)"
proof (cases ss)
  case Nil
  then show ?thesis using assms by (simp add: segment_end_def starts_with_def find_byte_def)
next
  case (Cons t ts)
  then have "find_byte (CHR ''/'') (s @ render ss) = Some (length s)"
    using assms by (auto simp: find_byte_Some)
  then show ?thesis by (simp add: segment_end_def starts_with_def)
qed

lemma rds_slash: "rds_loop ''/'' out = out @ ''/''"
  by (simp add: rds_loop.simps strip_prefix_def starts_with_def segment_end_def find_byte_def)

lemma slash_free_prefix:
  assumes "CHR ''/'' \<notin> set s" "CHR ''/'' \<notin> set t"
  shows "starts_with (s @ render ss) (t @ ''/'') \<longleftrightarrow> s = t \<and> ss \<noteq> []"
proof
  assume "starts_with (s @ render ss) (t @ ''/'')"
  then obtain r where e: "s @ render ss = t @ CHR ''/'' # r"
    by (metis append.assoc append_Cons append_Nil append_take_drop_id starts_with_def)
  then have "CHR ''/'' \<in> set (render ss)" using assms(1) by (metis Un_iff in_set_conv_decomp set_append)
  then obtain u us where ss: "ss = u # us" by (cases ss) auto
  have "takeWhile (\<lambda>b. b \<noteq> CHR ''/'') (s @ render ss) = s" "takeWhile (\<lambda>b. b \<noteq> CHR ''/'') (t @ CHR ''/'' # r) = t"
    using assms ss by (simp_all add: takeWhile_neq_Cons)
  then show "s = t \<and> ss \<noteq> []" using e ss by simp
next
  assume "s = t \<and> ss \<noteq> []"
  then show "starts_with (s @ render ss) (t @ ''/'')" by (cases ss) (auto simp: starts_with_def)
qed

lemma rds_loop_render:
  assumes "plain ss" "plain st"
  shows "rds_loop (render ss) (render st) = render (normalise st ss)"
  using assms
proof (induction st ss rule: normalise.induct)
  case (2 st s ss)
  let ?in = "CHR ''/'' # s @ render ss"
  have sl: "CHR ''/'' \<notin> set s" "plain ss" using "2.prems" by auto
  have p: "strip_prefix ''../'' ?in = None" "strip_prefix ''./'' ?in = None"
    by (simp_all add: strip_prefix_def starts_with_def)
  have d1: "starts_with ?in ''/./'' \<longleftrightarrow> s = dot \<and> ss \<noteq> []"
    using slash_free_prefix [OF sl(1), of dot ss] by (simp add: starts_with_def)
  have d2: "starts_with ?in ''/../'' \<longleftrightarrow> s = dotdot \<and> ss \<noteq> []"
    using slash_free_prefix [OF sl(1), of dotdot ss] by (simp add: starts_with_def)
  have r: "render ss = [] \<longleftrightarrow> ss = []" by (cases ss) auto
  have e1: "?in = ''/.'' \<longleftrightarrow> s = dot \<and> ss = []"
    using sl r render_cases [of ss] by (auto simp: append_eq_Cons_conv)
  have e2: "?in = ''/..'' \<longleftrightarrow> s = dotdot \<and> ss = []"
    using sl r render_cases [of ss] by (auto simp: append_eq_Cons_conv)
  have step: "rds_loop ?in out =
      (if s = dot then if ss = [] then rds_loop ''/'' out else rds_loop (render ss) out
       else if s = dotdot then if ss = [] then rds_loop ''/'' (pop_segment out) else rds_loop (render ss) (pop_segment out)
       else rds_loop (render ss) (out @ CHR ''/'' # s))" for out
    unfolding rds_loop.simps [of ?in] p d1 d2 e1 e2 option.case segment_end_render [OF sl(1)]
    by (cases "s = dot"; cases "s = dotdot") simp_all
  show ?case
    using "2.IH" "2.prems" plain_butlast [of st]
    by (auto simp: step rds_slash pop_segment_render)
qed (simp add: rds_loop.simps)

lemma remove_dot_segments_normalise:
  "remove_dot_segments (CHR ''/'' # p) = render (normalise [] (split_byte (CHR ''/'') p))"
proof -
  have "plain (split_byte (CHR ''/'') p)" using split_byte_pieces by (auto simp: plain_def)
  from rds_loop_render [OF this, of "[]"] show ?thesis
    using split_byte_join [of "CHR ''/''" p] by (simp add: remove_dot_segments_def render_def)
qed

definition is_dot_segment :: "bytes \<Rightarrow> bool" where
  "is_dot_segment s \<longleftrightarrow> s = dot \<or> s = dotdot"

definition clean :: "bytes list \<Rightarrow> bool" where
  "clean ss \<longleftrightarrow> list_all (\<lambda>s. \<not> is_dot_segment s) ss"

lemma clean_simps [simp]:
  "clean []" "clean (s # ss) \<longleftrightarrow> \<not> is_dot_segment s \<and> clean ss" "clean (xs @ ys) \<longleftrightarrow> clean xs \<and> clean ys"
  by (simp_all add: clean_def)

lemma clean_butlast: "clean st \<Longrightarrow> clean (butlast st)"
  by (auto simp: clean_def list_all_iff dest: in_set_butlastD)

lemma is_dot_segment_Nil [simp]: "\<not> is_dot_segment []"
  by (simp add: is_dot_segment_def)

lemma normalise_clean: "ss \<noteq> [] \<Longrightarrow> clean st \<Longrightarrow> normalise st ss \<noteq> [] \<and> clean (normalise st ss)"
proof (induction st ss rule: normalise.induct)
  case (2 st s ss)
  have n: "\<not> is_dot_segment s" if "s \<noteq> dot" "s \<noteq> dotdot" using that by (simp add: is_dot_segment_def)
  show ?case
    by (cases "ss = []"; cases "s = dot"; cases "s = dotdot")
      (use "2.IH" "2.prems" clean_butlast [of st] n in simp_all)
qed simp

lemma normalise_id: "clean ss \<Longrightarrow> normalise st ss = st @ ss"
  by (induction ss arbitrary: st) (simp_all add: is_dot_segment_def)

lemma normalise_plain: "plain ss \<Longrightarrow> plain st \<Longrightarrow> plain (normalise st ss)"
  by (induction st ss rule: normalise.induct) (auto simp: plain_butlast)

lemma split_byte_render:
  "plain (s # ss) \<Longrightarrow> split_byte (CHR ''/'') (s @ render ss) = s # ss"
proof (induction ss arbitrary: s)
  case Nil
  then show ?case by (induction s) auto
next
  case (Cons t ts)
  have "split_byte (CHR ''/'') (s @ CHR ''/'' # r) = s # split_byte (CHR ''/'') r" if "CHR ''/'' \<notin> set s" for s r
    using that by (induction s) auto
  then show ?case using Cons by simp
qed
section \<open>Composed strings split back\<close>

definition scheme_ok :: "bytes \<Rightarrow> bool" where
  "scheme_ok s = (case s of [] \<Rightarrow> False | c # cs \<Rightarrow> is_ascii_alphabetic c \<and> list_all scheme_char cs)"

abbreviation no_bytes :: "bytes \<Rightarrow> bytes \<Rightarrow> bool" where
  "no_bytes bad s \<equiv> set s \<inter> set bad = {}"

lemma scheme_char_no: "scheme_char c \<Longrightarrow> c \<noteq> CHR '':'' \<and> c \<noteq> CHR ''/'' \<and> c \<noteq> CHR ''?'' \<and> c \<noteq> CHR ''#''"
  by (auto simp: scheme_char_def ascii_simps)

lemma scheme_ok_chars: "scheme_ok s \<Longrightarrow> list_all scheme_char s"
  by (cases s) (auto simp: scheme_ok_def scheme_char_def is_ascii_alphanumeric_def)

lemma scheme_ok_no: "scheme_ok s \<Longrightarrow> no_bytes '':/?#'' s"
  using scheme_ok_chars [of s] by (auto simp: list_all_iff dest: scheme_char_no)

lemma scheme_end_ok:
  assumes "scheme_ok sc"
  shows "scheme_end (sc @ CHR '':'' # r) = Some (length sc)"
proof -
  have "find_byte (CHR '':'') (sc @ CHR '':'' # r) = Some (length sc)"
    using scheme_ok_no [OF assms] by (auto simp: find_byte_Some)
  then show ?thesis using assms by (cases sc) (auto simp: scheme_end_def scheme_ok_def)
qed

lemma find_byte_absent: "c \<notin> set s \<Longrightarrow> find_byte c s = None"
  by (simp add: find_byte_None)

lemma find_byte_present: "c \<notin> set p \<Longrightarrow> find_byte c (p @ c # r) = Some (length p)"
  by (auto simp: find_byte_Some)

lemma cut_authority_composed:
  assumes "CHR ''/'' \<notin> set a" "p = [] \<or> starts_with p ''/''"
  shows "cut_authority (''//'' @ a @ p) = (Some a, p)"
proof (cases p)
  case Nil
  then show ?thesis using assms by (simp add: cut_authority_def strip_prefix_def starts_with_def find_byte_absent)
next
  case (Cons c r)
  then have "p = CHR ''/'' # r" using assms(2) by (simp add: starts_with_def)
  then show ?thesis using find_byte_present [OF assms(1), of r]
    by (simp add: cut_authority_def strip_prefix_def starts_with_def)
qed

lemma parts_split_composed:
  assumes "scheme_ok sc" "no_bytes ''/?#'' a" "no_bytes ''?#'' p" "p = [] \<or> starts_with p ''/''"
    and "\<forall>q'. q = Some q' \<longrightarrow> CHR ''#'' \<notin> set q'"
  shows "parts_split (sc @ '':'' @ ''//'' @ a @ p @ query_suffix q) =
    \<lparr>p_scheme = Some sc, p_authority = Some a, p_path = p, p_query = q\<rparr>"
proof -
  let ?s2 = "sc @ CHR '':'' # ''//'' @ a @ p"
  let ?s1 = "?s2 @ query_suffix q"
  have no: "CHR ''?'' \<notin> set ?s2" "CHR ''#'' \<notin> set ?s1"
    using scheme_ok_no [OF assms(1)] assms(2,3,5) by (auto simp: query_suffix_def split: option.splits)
  have "cut_fragment ?s1 = ?s1"
    unfolding cut_fragment_eq using no(2) by (auto simp: takeWhile_eq_all_conv)
  moreover have "cut_query ?s1 = (?s2, q)" using no(1) by (simp add: cut_query_eq)
  moreover have "cut_scheme ?s2 = (Some sc, ''//'' @ a @ p)"
    by (simp add: cut_scheme_def scheme_end_ok [OF assms(1)])
  moreover have "cut_authority (''//'' @ a @ p) = (Some a, p)"
    using assms(2,4) by (intro cut_authority_composed) auto
  ultimately show ?thesis by (simp add: parts_split_def)
qed

definition segs_in :: "byte set \<Rightarrow> bytes list \<Rightarrow> bool" where
  "segs_in A ss \<longleftrightarrow> list_all (\<lambda>s. set s \<subseteq> A) ss"

lemma segs_in_simps [simp]:
  "segs_in A []" "segs_in A (s # ss) \<longleftrightarrow> set s \<subseteq> A \<and> segs_in A ss"
  "segs_in A (xs @ ys) \<longleftrightarrow> segs_in A xs \<and> segs_in A ys"
  by (simp_all add: segs_in_def)

lemma segs_in_butlast: "segs_in A st \<Longrightarrow> segs_in A (butlast st)"
  by (auto simp: segs_in_def list_all_iff dest: in_set_butlastD)

lemma segs_in_normalise: "segs_in A st \<Longrightarrow> segs_in A ss \<Longrightarrow> segs_in A (normalise st ss)"
proof (induction st ss rule: normalise.induct)
  case (2 st s ss)
  show ?case
    by (cases "ss = []"; cases "s = dot"; cases "s = dotdot")
      (use "2.IH" "2.prems" segs_in_butlast [of A st] in simp_all)
qed simp

lemma segs_in_render: "segs_in A ss \<Longrightarrow> set (render ss) \<subseteq> insert (CHR ''/'') A"
  by (induction ss) auto

lemma segs_in_split: "segs_in (set p \<union> A) (split_byte c p)"
proof (induction p arbitrary: A)
  case (Cons b p)
  from Cons.IH [of "insert b A"] show ?case by (auto split: list.splits)
qed simp

lemma set_remove_dot_segments: "set (remove_dot_segments (CHR ''/'' # p)) \<subseteq> insert (CHR ''/'') (set p)"
  using segs_in_render [OF segs_in_normalise [OF _ segs_in_split [of p "{}"]], of "[]" "CHR ''/''"]
  by (simp add: remove_dot_segments_normalise)

lemma remove_dot_segments_clean:
  obtains t where "remove_dot_segments (CHR ''/'' # p) = CHR ''/'' # t" "clean (split_byte (CHR ''/'') t)"
    "remove_dot_segments (CHR ''/'' # t) = CHR ''/'' # t"
proof -
  let ?ss = "split_byte (CHR ''/'') p"
  have pl: "plain ?ss" using split_byte_pieces by (auto simp: plain_def)
  from normalise_clean [of ?ss "[]"] normalise_plain [OF pl, of "[]"] obtain s ss
    where n: "normalise [] ?ss = s # ss" "clean (s # ss)" "plain (s # ss)"
    by (cases "normalise [] ?ss") auto
  have "split_byte (CHR ''/'') (s @ render ss) = s # ss" by (rule split_byte_render [OF n(3)])
  then show ?thesis
    using that [of "s @ render ss"] n normalise_id [OF n(2), of "[]"] by (simp add: remove_dot_segments_normalise)
qed

lemma parts_split_bytes:
  "no_bytes ''?#'' (p_path (parts_split s))"
  "p_query (parts_split s) = Some q \<Longrightarrow> CHR ''#'' \<notin> set q"
proof -
  obtain s2 qy sc s3 a p where c: "cut_query (cut_fragment s) = (s2, qy)" "cut_scheme s2 = (sc, s3)"
    "cut_authority s3 = (a, p)" by (metis surj_pair)
  have n: "CHR ''#'' \<notin> set (cut_fragment s)" by (auto simp: cut_fragment_eq dest: set_takeWhileD)
  have j: "cut_fragment s = s2 @ query_suffix qy" "CHR ''?'' \<notin> set s2" using c(1) by (auto simp: cut_query_eq)
  have "set p \<subseteq> set s2"
    using arg_cong [OF cut_scheme_join [OF c(2)], of set] arg_cong [OF cut_authority_join [OF c(3)], of set] by auto
  then show "no_bytes ''?#'' (p_path (parts_split s))" using n j c by (auto simp: parts_split_def)
  show "CHR ''#'' \<notin> set q" if "p_query (parts_split s) = Some q"
    using that n j c by (auto simp: parts_split_def query_suffix_def)
qed
section \<open>Properties\<close>

text \<open>
  Splitting loses nothing but the fragment: putting the parts of any reference back
  together gives the reference up to its first \<open>#\<close>.
\<close>

theorem parts_split_roundtrip: "recompose (parts_split s) = takeWhile (\<lambda>b. b \<noteq> CHR ''#'') s"
proof -
  obtain s2 qy sc s3 a p where c: "cut_query (cut_fragment s) = (s2, qy)" "cut_scheme s2 = (sc, s3)"
    "cut_authority s3 = (a, p)" by (metis surj_pair)
  have "cut_fragment s = s2 @ query_suffix qy" using c(1) by (simp add: cut_query_eq)
  then have "cut_fragment s = (case sc of Some c \<Rightarrow> c @ '':'' | None \<Rightarrow> []) @
      (case a of Some a \<Rightarrow> ''//'' @ a | None \<Rightarrow> []) @ p @ query_suffix qy"
    using cut_scheme_join [OF c(2)] cut_authority_join [OF c(3)] by simp
  then show ?thesis
    using c by (simp add: parts_split_def recompose_def query_suffix_def cut_fragment_eq [symmetric])
qed

text \<open>
  Property C23. \<open>remove_dot_segments\<close> on an absolute path computes the segment stack: a dot segment
  is skipped, a dot-dot segment pops (and stops at the root), a final one leaves an empty last
  segment. The result starts with a slash, has no dot segment left, and is a fixed point.
\<close>

theorem remove_dot_segments_spec:
  "remove_dot_segments (CHR ''/'' # p) = render (normalise [] (split_byte (CHR ''/'') p)) \<and>
   (\<exists>t. remove_dot_segments (CHR ''/'' # p) = CHR ''/'' # t \<and> clean (split_byte (CHR ''/'') t) \<and>
     remove_dot_segments (CHR ''/'' # t) = CHR ''/'' # t)"
  using remove_dot_segments_normalise [of p] remove_dot_segments_clean [of p] by metis

text \<open>
  Property C14. A reference with neither scheme nor authority cannot leave the base's authority:
  splitting the resolved string again finds exactly the base's scheme and authority, the query
  the rules of RFC 3986 5.2.2 name, and an absolute path: with no dot segment in it when the reference has a path,
  and the base's path as it is written, whatever segments it has, when it has none (an empty reference or a query alone).
\<close>

theorem resolve_keeps_authority:
  fixes reference
  defines "r \<equiv> parts_split reference"
  assumes ref: "p_scheme r = None" "p_authority r = None"
    and base: "scheme_ok bs" "no_bytes ''/?#'' ba" "path base = CHR ''/'' # bp" "no_bytes ''?#'' bp"
      "\<forall>q. query base = Some q \<longrightarrow> CHR ''#'' \<notin> set q"
  shows "\<exists>t. parts_split (resolve_string bs ba base reference) =
      \<lparr>p_scheme = Some bs, p_authority = Some ba, p_path = CHR ''/'' # t,
       p_query = (if p_path r = [] \<and> p_query r = None then query base else p_query r)\<rparr> \<and>
     (if p_path r = [] then CHR ''/'' # t = path base else clean (split_byte (CHR ''/'') t))"
proof -
  let ?q = "if p_path r = [] \<and> p_query r = None then query base else p_query r"
  note rb = parts_split_bytes [of reference, folded r_def]
  have q: "\<forall>q'. ?q = Some q' \<longrightarrow> CHR ''#'' \<notin> set q'" using rb(2) base(5) by auto
  have compose: "parts_split (bs @ '':'' @ ''//'' @ ba @ (CHR ''/'' # t) @ query_suffix ?q) =
      \<lparr>p_scheme = Some bs, p_authority = Some ba, p_path = CHR ''/'' # t, p_query = ?q\<rparr>"
    if "no_bytes ''?#'' t" for t
    using that by (intro parts_split_composed [OF base(1,2) _ _ q]) (auto simp: starts_with_def)
  have str: "resolve_string bs ba base reference =
      bs @ '':'' @ ''//'' @ ba @ pth @ query_suffix ?q"
    if "pth = (if p_path r = [] then path base else if starts_with (p_path r) ''/'' then remove_dot_segments (p_path r)
               else remove_dot_segments (merge (path base) (p_path r)))" for pth
    using ref that by (auto simp: resolve_string_def Let_def r_def [symmetric] query_suffix_def)
  show ?thesis
  proof (cases "p_path r = []")
    case True
    then show ?thesis using str [of "CHR ''/'' # bp"] compose [OF base(4)] base(3) by auto
  next
    case False
    obtain m where m: "no_bytes ''?#'' m" "(if starts_with (p_path r) ''/'' then p_path r
        else merge (path base) (p_path r)) = CHR ''/'' # m"
    proof (cases "starts_with (p_path r) ''/''")
      case True
      then show ?thesis using that [of "tl (p_path r)"] False rb(1) by (cases "p_path r") (auto simp: starts_with_def)
    next
      case F: False
      obtain i where i: "rfind_byte (CHR ''/'') (path base) = Some i"
        using rfind_byte_None [of "CHR ''/''" "path base"] base(3) by fastforce
      have "merge (path base) (p_path r) = CHR ''/'' # take i bp @ p_path r"
        using base(3) i by (simp add: merge_def)
      then show ?thesis using that [of "take i bp @ p_path r"] F rb(1) base(4) by (auto dest: in_set_takeD)
    qed
    obtain t where t: "remove_dot_segments (CHR ''/'' # m) = CHR ''/'' # t" "clean (split_byte (CHR ''/'') t)"
      by (rule remove_dot_segments_clean)
    have "no_bytes ''?#'' t" using set_remove_dot_segments [of m] t(1) m(1) by auto
    then show ?thesis using str [of "CHR ''/'' # t"] compose [of t] False t m(2) by (auto split: if_splits)
  qed
qed
definition rfc_base :: http_uri where
  "rfc_base = \<lparr>scheme_str = Some ''http'', authority = Some ''a'', host = Some ''a'', port_u16 = None,
     path = ''/b/c/d;p'', query = Some ''q''\<rparr>"

theorem resolve_keeps_authority_witness:
  "\<exists>t. parts_split (resolve_string ''http'' ''a'' rfc_base ''../../../g?y#s'') =
      \<lparr>p_scheme = Some ''http'', p_authority = Some ''a'', p_path = CHR ''/'' # t, p_query = Some ''y''\<rparr> \<and>
     clean (split_byte (CHR ''/'') t)"
proof -
  have v: "p_scheme (parts_split ''../../../g?y#s'') = None" "p_authority (parts_split ''../../../g?y#s'') = None"
    "p_path (parts_split ''../../../g?y#s'') = ''../../../g''" "p_query (parts_split ''../../../g?y#s'') = Some ''y''"
    by code_simp+
  have "scheme_ok ''http''" "path rfc_base = CHR ''/'' # ''b/c/d;p''"
    "\<forall>q. query rfc_base = Some q \<longrightarrow> CHR ''#'' \<notin> set q" by (code_simp, simp_all add: rfc_base_def)
  from resolve_keeps_authority [OF v(1,2) this(1) _ this(2) _ this(3), of "''a''"] v(3,4)
  show ?thesis by simp
qed

text \<open>
  Every example of RFC 3986 section 5.4, normal and abnormal, resolved against
  \<open>http://a/b/c/d;p?q\<close> in the strict mode, fragments dropped.
\<close>

theorem resolve_rfc3986_examples:
  "list_all (\<lambda>(r, t). resolve_string ''http'' ''a'' rfc_base r = t)
    [(''g:h'', ''g:h''), (''g'', ''http://a/b/c/g''), (''./g'', ''http://a/b/c/g''),
     (''g/'', ''http://a/b/c/g/''), (''/g'', ''http://a/g''), (''//g'', ''http://g''),
     (''?y'', ''http://a/b/c/d;p?y''), (''g?y'', ''http://a/b/c/g?y''), (''#s'', ''http://a/b/c/d;p?q''),
     (''g#s'', ''http://a/b/c/g''), (''g?y#s'', ''http://a/b/c/g?y''), ('';x'', ''http://a/b/c/;x''),
     (''g;x'', ''http://a/b/c/g;x''), (''g;x?y#s'', ''http://a/b/c/g;x?y''), ('''', ''http://a/b/c/d;p?q''),
     (''.'', ''http://a/b/c/''), (''./'', ''http://a/b/c/''), (''..'', ''http://a/b/''),
     (''../'', ''http://a/b/''), (''../g'', ''http://a/b/g''), (''../..'', ''http://a/''),
     (''../../'', ''http://a/''), (''../../g'', ''http://a/g''), (''../../../g'', ''http://a/g''),
     (''../../../../g'', ''http://a/g''), (''/./g'', ''http://a/g''), (''/../g'', ''http://a/g''),
     (''g.'', ''http://a/b/c/g.''), (''.g'', ''http://a/b/c/.g''), (''g..'', ''http://a/b/c/g..''),
     (''..g'', ''http://a/b/c/..g''), (''./../g'', ''http://a/b/g''), (''./g/.'', ''http://a/b/c/g/''),
     (''g/./h'', ''http://a/b/c/g/h''), (''g/../h'', ''http://a/b/c/h''), (''g;x=1/./y'', ''http://a/b/c/g;x=1/y''),
     (''g;x=1/../y'', ''http://a/b/c/y''), (''g?y/./x'', ''http://a/b/c/g?y/./x''),
     (''g?y/../x'', ''http://a/b/c/g?y/../x''), (''g#s/./x'', ''http://a/b/c/g''),
     (''g#s/../x'', ''http://a/b/c/g''), (''http:g'', ''http:g'')]"
  by code_simp

text \<open>
  What the code relies on of the other crates: percent-encoding with an empty ASCII set yields
  ASCII, and so does a successful IDN conversion.
\<close>

definition ext_ascii :: "uri_ext \<Rightarrow> bool" where
  "ext_ascii ext \<longleftrightarrow> (\<forall>s. list_all is_ascii (utf8_percent_encode ext s)) \<and>
     (\<forall>h a. domain_to_ascii ext h = Inr a \<longrightarrow> list_all is_ascii a)"

text \<open>
  The boundary is idempotent: whatever string a URI was made from, the client holds
  an ASCII form of it that parses to the same URI and that a second pass leaves untouched; an
  ASCII string is that form itself.
\<close>

theorem parse_uri_idempotent:
  assumes "ext_ascii ext" "parse_uri ext s = Inr u"
  shows "\<exists>t. list_all is_ascii t \<and> to_ascii ext t = Inr None \<and> uri_from_str ext t = Some u \<and>
    parse_uri ext t = Inr u \<and> (list_all is_ascii s \<longrightarrow> t = s)"
proof -
  obtain r where r: "to_ascii ext s = Inr r" using assms(2) by (auto simp: parse_uri_def split: sum.splits)
  let ?t = "case r of Some t \<Rightarrow> t | None \<Rightarrow> s"
  have a: "list_all is_ascii ?t"
    using r assms(1)
    by (auto simp: to_ascii_def host_to_ascii_def ext_ascii_def split: if_splits option.splits prod.splits sum.splits)
  then have n: "to_ascii ext ?t = Inr None" by (simp add: to_ascii_def)
  have p: "parse_ascii ext ?t = Inr u" using assms(2) r by (auto simp: parse_uri_def split: option.splits)
  have "r = None" if "list_all is_ascii s" using r that by (simp add: to_ascii_def)
  then show ?thesis using a n p
    by (intro exI [of _ ?t]) (auto simp: parse_uri_def parse_ascii_def split: option.splits)
qed

text \<open>A concrete instance of the other crates, for evaluation.\<close>

definition hex_digit :: "nat \<Rightarrow> byte" where
  "hex_digit n = ''0123456789ABCDEF'' ! n"

definition ref_uri :: "bytes \<Rightarrow> http_uri option" where
  "ref_uri s =
     (let r = parts_split s in
      case (p_scheme r, p_authority r) of
        (Some sc, Some a) \<Rightarrow>
          (case host_range a (0, length a) of (i, j) \<Rightarrow>
             Some \<lparr>scheme_str = Some sc, authority = Some a, host = Some (slice a i j),
               port_u16 = (case parse_u64 (drop (j + 1) a) of
                  None \<Rightarrow> None | Some n \<Rightarrow> if n < 65536 then Some n else None),
               path = (if p_path r = [] then ''/'' else p_path r), query = p_query r\<rparr>)
      | _ \<Rightarrow> None)"

definition ref_ext :: uri_ext where
  "ref_ext = \<lparr>uri_from_str = ref_uri,
     utf8_percent_encode = (\<lambda>s. concat (map (\<lambda>b. if is_ascii b then [b]
        else [CHR ''%'', hex_digit (byte_val b div 16), hex_digit (byte_val b mod 16)]) s)),
     domain_to_ascii = (\<lambda>h. Inl (NoImplementation h))\<rparr>"

lemma byte_val_bound: "byte_val b < 256"
  by (simp add: byte_val_def)

lemma hex_digit_ascii: "n < 16 \<Longrightarrow> is_ascii (hex_digit n)"
proof -
  have "\<forall>n \<in> {..<16}. is_ascii (hex_digit n)" by code_simp
  then show "n < 16 \<Longrightarrow> is_ascii (hex_digit n)" by simp
qed

lemma ref_ext_ascii: "ext_ascii ref_ext"
proof -
  have "is_ascii (hex_digit (byte_val b div 16))" "is_ascii (hex_digit (byte_val b mod 16))" for b
    using byte_val_bound [of b] by (auto intro!: hex_digit_ascii)
  moreover have "is_ascii (CHR ''%'')" by code_simp
  ultimately show ?thesis by (auto simp: ext_ascii_def ref_ext_def list_all_iff)
qed

theorem parse_uri_idempotent_witness:
  "\<exists>t. list_all is_ascii t \<and> parse_uri ref_ext t = parse_uri ref_ext (''http://a/'' @ [CHR 0xC3, CHR 0xA9])"
proof -
  have "\<not> isl (parse_uri ref_ext (''http://a/'' @ [CHR 0xC3, CHR 0xA9]))" by code_simp
  then obtain u where u: "parse_uri ref_ext (''http://a/'' @ [CHR 0xC3, CHR 0xA9]) = Inr u"
    by (metis sum.collapse(2))
  from parse_uri_idempotent [OF ref_ext_ascii u] u show ?thesis by metis
qed

text \<open>
  Rule D of the dot-segment removal is entered from the resolution: a reference with a scheme, no
  authority and the path \<open>.\<close> reaches it, although the comment on it says nothing can.
\<close>

lemma rule_D_reachable:
  "p_scheme (parts_split ''x:.'') = Some ''x'' \<and> p_path (parts_split ''x:.'') = ''.'' \<and>
   resolve_string ''http'' ''a'' rfc_base ''x:.'' = ''x:'' @ remove_dot_segments ''.''"
  by code_simp

end
