(* ===== verification/Policy_Meet.thy ===== *)
theory Policy_Meet
  imports Prelude "HOL-Library.Multiset"
begin

text \<open>
  The interface shared by the redirect and the retry policies: a policy answers with a verdict,
  and verdicts are combined by a meet that keeps the more conservative answer. The locales state
  what the composition operators rely on; the redirect and the retry theory interpret them on
  their verdict types.
\<close>

text \<open>
  A meet of verdicts: associative and idempotent, taking the larger severity, with the verdicts
  on which a chain returns early absorbing whatever would follow.
\<close>

locale verdict_meet =
  fixes meet :: "'v \<Rightarrow> 'v \<Rightarrow> 'v" and settled :: "'v \<Rightarrow> bool" and severity :: "'v \<Rightarrow> nat"
  assumes meet_assoc: "meet (meet a b) c = meet a (meet b c)"
    and meet_idem: "meet a a = a"
    and meet_settled: "settled a \<Longrightarrow> meet a b = a"
    and meet_severity: "severity (meet a b) = max (severity a) (severity b)"
begin

text \<open>The early return of a two-policy composition is unobservable.\<close>

lemma short_circuit: "(if settled a then a else meet a b) = meet a b"
  using meet_settled by simp

text \<open>Neither is that of a chain: the loop computes the fold.\<close>

lemma chain_fold: "fold_until settled (\<lambda>v p. meet v (p x)) v ps = foldl (\<lambda>v p. meet v (p x)) v ps"
  using meet_settled by (intro fold_until_foldl)

lemma chain_severity:
  "severity (foldl (\<lambda>v p. meet v (p x)) v ps) = Max (insert (severity v) ((\<lambda>p. severity (p x)) ` set ps))"
proof (induction ps arbitrary: v)
  case (Cons p ps)
  have "Max (insert (max a b) S) = Max (insert a (insert b S))" if "finite S" for a b :: nat and S
    using that by (cases "S = {}") (auto simp: max.assoc)
  then show ?case by (simp add: Cons.IH meet_severity)
qed simp

text \<open>Nothing in the rest of a chain undoes what one policy demanded.\<close>

lemma chain_no_relaxing:
  "p \<in> set ps \<Longrightarrow> severity (p x) \<le> severity (foldl (\<lambda>v p. meet v (p x)) v ps)"
  unfolding chain_severity by (intro Max_ge) auto

end

text \<open>A meet that is commutative as well: the order of a chain is unobservable.\<close>

locale commutative_meet = verdict_meet +
  assumes meet_comm: "meet a b = meet b a"
begin

lemma chain_permute:
  assumes "mset ps = mset qs"
  shows "foldl (\<lambda>v p. meet v (p x)) v ps = foldl (\<lambda>v p. meet v (p x)) v qs"
proof -
  have comm: "meet (meet v a) b = meet (meet v b) a" for v a b
    using meet_comm meet_assoc by metis
  have "fold (\<lambda>p v. meet v (p x)) ps = fold (\<lambda>p v. meet v (p x)) qs"
    by (rule fold_multiset_equiv) (use comm assms in \<open>auto simp: fun_eq_iff\<close>)
  then show ?thesis by (simp add: foldl_conv_fold)
qed

end

end
