(* ===== verification/Header_Map.thy ===== *)
theory Header_Map
  imports Prelude
begin

text \<open>
  What the client uses of \<open>http::HeaderMap\<close>: a multimap from lower-case names to values, the values of a name in the
  order in which they were added.
\<close>

text \<open>A header map is its list of entries, names in lower case; \<open>remove\<close> takes every entry of a name.\<close>

type_synonym header_map = "(bytes \<times> bytes) list"

definition hm_remove :: "bytes \<Rightarrow> header_map \<Rightarrow> header_map" where
  "hm_remove n h = filter (\<lambda>(k, v). k \<noteq> n) h"

definition hm_contains :: "bytes \<Rightarrow> header_map \<Rightarrow> bool" where
  "hm_contains n h \<longleftrightarrow> n \<in> fst ` set h"

definition hm_get :: "bytes \<Rightarrow> header_map \<Rightarrow> bytes option" where
  "hm_get n h = map_of h n"

definition hm_get_all :: "bytes \<Rightarrow> header_map \<Rightarrow> bytes list" where
  "hm_get_all n h = map snd (filter (\<lambda>(k, _). k = n) h)"

definition hm_append :: "bytes \<Rightarrow> bytes \<Rightarrow> header_map \<Rightarrow> header_map" where
  "hm_append n v h = h @ [(n, v)]"

text \<open>\<open>insert\<close> replaces every value of the name.\<close>

definition hm_insert :: "bytes \<Rightarrow> bytes \<Rightarrow> header_map \<Rightarrow> header_map" where
  "hm_insert n v h = hm_append n v (hm_remove n h)"

definition hm_keys :: "header_map \<Rightarrow> bytes list" where
  "hm_keys h = remdups (map fst h)"

lemma hm_contains_remove: "hm_contains n (hm_remove m h) \<longleftrightarrow> n \<noteq> m \<and> hm_contains n h"
  by (force simp: hm_contains_def hm_remove_def)

lemma foldl_remove: "hm_contains n (foldl (\<lambda>hs m. hm_remove m hs) h ms) \<longleftrightarrow> n \<notin> set ms \<and> hm_contains n h"
  by (induction ms arbitrary: h) (auto simp: hm_contains_remove)

lemma hm_get_all_append [simp]: "hm_get_all n (hm_append m v h) = hm_get_all n h @ (if n = m then [v] else [])"
  by (simp add: hm_get_all_def hm_append_def)

lemma hm_get_all_remove [simp]: "hm_get_all n (hm_remove m h) = (if n = m then [] else hm_get_all n h)"
  by (auto simp: hm_get_all_def hm_remove_def case_prod_beta intro!: filter_cong arg_cong [of _ _ "map snd"])

lemma hm_get_all_insert [simp]: "hm_get_all n (hm_insert m v h) = (if n = m then [v] else hm_get_all n h)"
  by (simp add: hm_insert_def)

lemma hm_get_first: "hm_get n h = (case hm_get_all n h of [] \<Rightarrow> None | v # _ \<Rightarrow> Some v)"
  by (induction h) (auto simp: hm_get_def hm_get_all_def)

lemma hm_contains_get_all: "hm_contains n h \<longleftrightarrow> hm_get_all n h \<noteq> []"
  by (force simp: hm_contains_def hm_get_all_def filter_empty_conv)

lemma hm_keys_contains: "n \<in> set (hm_keys h) \<longleftrightarrow> hm_contains n h"
  by (simp add: hm_keys_def hm_contains_def)

end
