(* ===== verification/Redirect.thy ===== *)
theory Redirect
  imports Uri_Resolve Policy_Meet Header_Map
begin

text \<open>
  Redirects: the verdicts and policies and the pure decision of
  \<open>crates/hclient/src/sansio/redirect.rs\<close>, the construction of the next hop of
  \<open>crates/hclient/src/stages/redirect.rs\<close>, the replay rules of a request body
  (\<open>crates/hclient-core/src/body.rs\<close>) and the redirect arm of the loop of \<open>Client::run\<close>
  (\<open>crates/hclient/src/client.rs\<close>).

  Arguments for code of other crates: \<open>hv\<close> is whether \<open>HeaderValue::from_bytes\<close> accepts the bytes,
  \<open>ext\<close> is what URI parsing needs. A policy, a trait object in the code, is a function.
\<close>

section \<open>Verdicts\<close>

record allow =
  preserve_method :: bool
  keep_credentials :: bool

definition allow_default :: allow where
  "allow_default = \<lparr>preserve_method = False, keep_credentials = False\<rparr>"

definition allow_everything :: allow where
  "allow_everything = \<lparr>preserve_method = True, keep_credentials = True\<rparr>"

definition allow_and :: "allow \<Rightarrow> allow \<Rightarrow> allow" where
  "allow_and a b = \<lparr>preserve_method = (preserve_method a \<and> preserve_method b),
                    keep_credentials = (keep_credentials a \<and> keep_credentials b)\<rparr>"

datatype redirect_verdict = VFollow allow | VStop | VRefuse bytes

definition verdict_follow :: redirect_verdict where
  "verdict_follow = VFollow allow_default"

fun redirect_and :: "redirect_verdict \<Rightarrow> redirect_verdict \<Rightarrow> redirect_verdict" where
  "redirect_and (VRefuse r) _ = VRefuse r"
| "redirect_and _ (VRefuse r) = VRefuse r"
| "redirect_and VStop _ = VStop"
| "redirect_and _ VStop = VStop"
| "redirect_and (VFollow a) (VFollow b) = VFollow (allow_and a b)"

section \<open>Policies\<close>

type_synonym http_method = bytes

record proposed_redirect =
  pr_from :: http_uri
  pr_to :: http_uri
  pr_status :: nat
  pr_method :: http_method
  pr_cross_origin :: bool
  pr_hops :: nat
  pr_previous :: "http_uri list"

type_synonym redirect_policy = "proposed_redirect \<Rightarrow> redirect_verdict"

definition is_refuse :: "redirect_verdict \<Rightarrow> bool" where
  "is_refuse v = (case v of VRefuse _ \<Rightarrow> True | _ \<Rightarrow> False)"

definition policy_and :: "redirect_policy \<Rightarrow> redirect_policy \<Rightarrow> redirect_policy" where
  "policy_and p q hop =
     (let first = p hop in if is_refuse first then first else redirect_and first (q hop))"

definition forbid :: redirect_policy where
  "forbid _ = VStop"

definition limit :: "nat \<Rightarrow> redirect_policy" where
  "limit n hop = (if pr_hops hop \<ge> n then VRefuse ''redirect limit reached'' else verdict_follow)"

definition same_origin_only :: redirect_policy where
  "same_origin_only hop =
     (if pr_cross_origin hop then VRefuse ''redirect leaves the origin'' else verdict_follow)"

definition https_only :: redirect_policy where
  "https_only hop =
     (if scheme_str (pr_from hop) = Some ''https'' \<and> scheme_str (pr_to hop) \<noteq> Some ''https''
      then VRefuse ''redirect downgrades https'' else verdict_follow)"

definition policy_all :: "redirect_policy list \<Rightarrow> redirect_policy" where
  "policy_all ps hop = fold_until is_refuse (\<lambda>v p. redirect_and v (p hop)) verdict_follow ps"

section \<open>The decision\<close>

record follow =
  f_uri :: http_uri
  f_method :: http_method
  strip_sensitive :: bool
  drop_body :: bool

datatype redirect_action =
    RStop
  | RFollow follow
  | RRefused bytes http_uri
  | RInvalidLocation

definition port_of :: "http_uri \<Rightarrow> nat option" where
  "port_of u =
     (case port_u16 u of
        Some p \<Rightarrow> Some p
      | None \<Rightarrow>
          if scheme_str u = Some ''https'' then Some 443
          else if scheme_str u = Some ''http'' then Some 80 else None)"

definition same_host :: "http_uri \<Rightarrow> http_uri \<Rightarrow> bool" where
  "same_host u current =
     (case (host u, host current) of
        (Some target, Some from) \<Rightarrow> eq_ignore_ascii_case target from
      | (target, from) \<Rightarrow> target = from)"

definition crosses_origin :: "http_uri \<Rightarrow> http_uri \<Rightarrow> bool" where
  "crosses_origin u current \<longleftrightarrow>
     \<not> same_host u current \<or> scheme_str u \<noteq> scheme_str current \<or> port_of u \<noteq> port_of current"

definition downgrades :: "nat \<Rightarrow> http_method \<Rightarrow> bool" where
  "downgrades status method =
     (if status = 303 then method \<noteq> ''HEAD''
      else if status = 301 \<or> status = 302 then method = ''POST'' else False)"

definition decide ::
  "(bytes \<Rightarrow> bool) \<Rightarrow> uri_ext \<Rightarrow> redirect_policy \<Rightarrow> nat \<Rightarrow> http_uri \<Rightarrow> http_method \<Rightarrow> nat \<Rightarrow>
     bytes option \<Rightarrow> http_uri list \<Rightarrow> redirect_action" where
  "decide hv ext policy hops current method status location previous =
     (if status \<notin> {301, 302, 303, 307, 308} then RStop
      else case location of
        None \<Rightarrow> RStop
      | Some loc \<Rightarrow>
          if \<not> hv loc then RInvalidLocation
          else if \<not> is_utf8 loc then RInvalidLocation
          else case resolve_reference ext current loc of
            Inl _ \<Rightarrow> RInvalidLocation
          | Inr u \<Rightarrow>
              (let cross_origin = crosses_origin u current;
                   proposal = \<lparr>pr_from = current, pr_to = u, pr_status = status, pr_method = method,
                     pr_cross_origin = cross_origin, pr_hops = hops, pr_previous = previous\<rparr>
               in case policy proposal of
                    VStop \<Rightarrow> RStop
                  | VRefuse why \<Rightarrow> RRefused why u
                  | VFollow al \<Rightarrow>
                      (let downgrade = (\<not> preserve_method al \<and> downgrades status method) in
                       RFollow \<lparr>f_uri = u, f_method = (if downgrade then ''GET'' else method),
                         strip_sensitive = (cross_origin \<and> \<not> keep_credentials al),
                         drop_body = downgrade\<rparr>)))"

section \<open>The request body\<close>

datatype request_body =
    Empty
  | Full bytes
  | Rewindable "unit \<Rightarrow> request_body"
  | Streaming nat

datatype retry_kind = Free | ViaFactory | Impossible

fun body_retry_kind :: "request_body \<Rightarrow> retry_kind" where
  "body_retry_kind Empty = Free"
| "body_retry_kind (Full _) = Free"
| "body_retry_kind (Rewindable _) = ViaFactory"
| "body_retry_kind (Streaming _) = Impossible"

fun rewind :: "request_body \<Rightarrow> request_body option" where
  "rewind Empty = Some Empty"
| "rewind (Full b) = Some (Full b)"
| "rewind (Rewindable f) = Some (f ())"
| "rewind (Streaming _) = None"

definition may_replay :: "retry_kind \<Rightarrow> bool" where
  "may_replay k = (case k of Free \<Rightarrow> True | ViaFactory \<Rightarrow> True | Impossible \<Rightarrow> False)"

definition replay_for_too_early :: "request_body option \<Rightarrow> request_body option" where
  "replay_for_too_early snapshot =
     (case map_option (\<lambda>b. (body_retry_kind b, b)) snapshot of
        Some (Free, b) \<Rightarrow> rewind b
      | Some (ViaFactory, b) \<Rightarrow> rewind b
      | _ \<Rightarrow> None)"

section \<open>The next hop\<close>

definition SENSITIVE_HEADERS :: "bytes list" where
  "SENSITIVE_HEADERS = [''authorization'', ''cookie'', ''proxy-authorization'']"

text \<open>\<open>http::Extensions\<close> holds at most one value per type; a type is its name here.\<close>

record hop_parts =
  hp_method :: http_method
  hp_uri :: http_uri
  hp_headers :: header_map
  hp_version :: nat
  hp_extensions :: "bytes \<rightharpoonup> nat"

definition next_hop :: "hop_parts \<Rightarrow> request_body option \<Rightarrow> follow \<Rightarrow> (hop_parts \<times> request_body) option" where
  "next_hop prev replay f =
     (let (headers1, extensions1) =
            (if strip_sensitive f
             then (foldl (\<lambda>hs n. hm_remove n hs) (hp_headers prev) SENSITIVE_HEADERS,
                   (hp_extensions prev)(''AllowEarlyData'' := None))
             else (hp_headers prev, hp_extensions prev));
          result = (if drop_body f
             then Some (hm_remove ''content-type'' (hm_remove ''content-length'' headers1), Empty)
             else map_option (\<lambda>b. (headers1, b)) replay)
      in map_option (\<lambda>(headers2, body).
           (\<lparr>hp_method = f_method f, hp_uri = f_uri f, hp_headers = headers2,
             hp_version = hp_version prev, hp_extensions = extensions1\<rparr>, body)) result)"

section \<open>The redirect arm of the client's loop\<close>

text \<open>The identity of a send (\<open>hclient-core/src/hooks.rs\<close>): the operation, its hop in a \<open>u8\<close> and the sends of that hop in a \<open>u16\<close>.\<close>

record attempt =
  at_id :: nat
  at_hop :: nat
  at_resend :: nat

definition attempt_new :: "nat \<Rightarrow> attempt" where
  "attempt_new i = \<lparr>at_id = i, at_hop = 0, at_resend = 0\<rparr>"

definition attempt_next_hop :: "attempt \<Rightarrow> attempt" where
  "attempt_next_hop a = a\<lparr>at_hop := min 255 (at_hop a + 1), at_resend := 0\<rparr>"

definition attempt_resent :: "attempt \<Rightarrow> attempt" where
  "attempt_resent a = a\<lparr>at_resend := min 65535 (at_resend a + 1)\<rparr>"

text \<open>
  What the loop carries from one hop to the next. \<open>ch_auth\<close> is the authentication scheme of the operation, a trait object
  in the code.
\<close>

record 'a chain =
  ch_hop :: hop_parts
  ch_body :: request_body
  ch_hops :: nat
  ch_visited :: "http_uri list"
  ch_auth :: "'a option"
  ch_attempt :: attempt

datatype 'a arm_outcome =
    Returned
  | ErrRefused bytes http_uri nat
  | ErrBadLocation
  | HopsOverflow  \<comment> \<open>\<open>hops += 1\<close> on a \<open>u8\<close> that holds 255\<close>
  | NextHop "'a chain"

definition redirect_arm ::
  "(bytes \<Rightarrow> bool) \<Rightarrow> uri_ext \<Rightarrow> redirect_policy \<Rightarrow> 'a chain \<Rightarrow> request_body option \<Rightarrow> nat \<Rightarrow>
     bytes option \<Rightarrow> 'a arm_outcome" where
  "redirect_arm hv ext policy st replay status location =
     (case decide hv ext policy (ch_hops st) (hp_uri (ch_hop st)) (hp_method (ch_hop st)) status
             location (ch_visited st) of
        RStop \<Rightarrow> Returned
      | RRefused why to \<Rightarrow> ErrRefused why to (ch_hops st)
      | RInvalidLocation \<Rightarrow> ErrBadLocation
      | RFollow f \<Rightarrow>
          let auth = (if strip_sensitive f then None else ch_auth st) in
          if ch_hops st \<ge> 255 then HopsOverflow
          else case next_hop (ch_hop st) replay f of
            None \<Rightarrow> Returned
          | Some (hp', body') \<Rightarrow>
              NextHop \<lparr>ch_hop = hp', ch_body = body', ch_hops = ch_hops st + 1,
                ch_visited = ch_visited st @ [f_uri f], ch_auth = auth,
                ch_attempt = attempt_next_hop (ch_attempt st)\<rparr>)"

definition chain_start :: "hop_parts \<Rightarrow> request_body \<Rightarrow> 'a option \<Rightarrow> nat \<Rightarrow> 'a chain" where
  "chain_start hp b auth i = \<lparr>ch_hop = hp, ch_body = b, ch_hops = 0, ch_visited = [hp_uri hp],
     ch_auth = auth, ch_attempt = attempt_new i\<rparr>"

text \<open>
  One turn of the loop as far as the redirects are concerned: whatever its head and the sending made of the request of the
  hop and of the identity of the send (\<open>Client_Loop\<close> has what they make of them), any answer of a server and any snapshot of the body.
\<close>

inductive hop_step :: "(bytes \<Rightarrow> bool) \<Rightarrow> uri_ext \<Rightarrow> redirect_policy \<Rightarrow> 'a chain \<Rightarrow> 'a chain \<Rightarrow> bool"
  for hv ext policy where
  hop: "redirect_arm hv ext policy (st\<lparr>ch_hop := hp, ch_attempt := a\<rparr>) replay status location = NextHop st' \<Longrightarrow> hop_step hv ext policy st st'"

inductive_cases hop_stepE: "hop_step hv ext policy st st'"

abbreviation hop_steps :: "(bytes \<Rightarrow> bool) \<Rightarrow> uri_ext \<Rightarrow> redirect_policy \<Rightarrow> 'a chain \<Rightarrow> 'a chain \<Rightarrow> bool" where
  "hop_steps hv ext policy \<equiv> (hop_step hv ext policy)\<^sup>*\<^sup>*"

section \<open>Verdicts compose conservatively\<close>

definition redirect_severity :: "redirect_verdict \<Rightarrow> nat" where
  "redirect_severity v = (case v of VFollow _ \<Rightarrow> 0 | VStop \<Rightarrow> 1 | VRefuse _ \<Rightarrow> 2)"

lemma allow_and_assoc: "allow_and (allow_and a b) c = allow_and a (allow_and b c)"
  by (simp add: allow_and_def)

lemma allow_and_idem: "allow_and a a = a"
  by (cases a) (simp add: allow_and_def)

lemma redirect_and_assoc: "redirect_and (redirect_and a b) c = redirect_and a (redirect_and b c)"
  by (cases a; cases b; cases c) (simp_all add: allow_and_assoc)

interpretation redirect: verdict_meet redirect_and is_refuse redirect_severity
proof
  show "redirect_and (redirect_and a b) c = redirect_and a (redirect_and b c)" for a b c
    by (rule redirect_and_assoc)
  show "redirect_and a a = a" for a by (cases a) (simp_all add: allow_and_idem)
  show "redirect_and a b = a" if "is_refuse a" for a b using that by (cases a) (simp_all add: is_refuse_def)
  show "redirect_severity (redirect_and a b) = max (redirect_severity a) (redirect_severity b)" for a b
    by (cases a; cases b) (simp_all add: redirect_severity_def)
qed

text \<open>What a verdict lets through: nothing, or the grants of a \<open>Follow\<close>.\<close>

definition grants :: "redirect_verdict \<Rightarrow> allow \<Rightarrow> bool" where
  "grants v al \<longleftrightarrow> v = VFollow al"

lemma redirect_and_follow:
  "redirect_and a b = VFollow al \<longleftrightarrow> (\<exists>x y. a = VFollow x \<and> b = VFollow y \<and> al = allow_and x y)"
  by (cases a; cases b) auto

lemma policy_and_meet: "policy_and p q hop = redirect_and (p hop) (q hop)"
  using redirect.short_circuit [of "p hop" "q hop"] by (simp add: policy_and_def Let_def)

lemma policy_all_fold: "policy_all ps hop = foldl (\<lambda>v p. redirect_and v (p hop)) verdict_follow ps"
  unfolding policy_all_def by (rule redirect.chain_fold)

lemma policy_all_follow:
  assumes "policy_all ps hop = VFollow al"
  shows "al = allow_default" "p \<in> set ps \<Longrightarrow> \<exists>x. p hop = VFollow x"
proof -
  have *: "foldl (\<lambda>v p. redirect_and v (p hop)) (VFollow a) ps = VFollow al \<Longrightarrow>
      (a = allow_default \<longrightarrow> al = allow_default) \<and> (p \<in> set ps \<longrightarrow> (\<exists>x. p hop = VFollow x))" for a
  proof (induction ps arbitrary: a)
    case (Cons q ps)
    have "\<exists>x. q hop = VFollow x"
    proof (rule ccontr)
      assume "\<nexists>x. q hop = VFollow x"
      then have "redirect_severity (q hop) > 0" by (cases "q hop") (simp_all add: redirect_severity_def)
      then have "redirect_severity (foldl (\<lambda>v p. redirect_and v (p hop)) (VFollow a) (q # ps)) > 0"
        using redirect.chain_no_relaxing [of q "q # ps" hop "VFollow a"] by simp
      then show False using Cons.prems by (simp add: redirect_severity_def)
    qed
    then obtain x where x: "q hop = VFollow x" ..
    then show ?case using Cons.IH [of "allow_and a x"] Cons.prems by (auto simp: allow_and_def allow_default_def)
  qed simp
  show "al = allow_default" "p \<in> set ps \<Longrightarrow> \<exists>x. p hop = VFollow x"
    using * [of allow_default] assms by (auto simp: policy_all_fold verdict_follow_def)
qed

section \<open>Origins\<close>

definition origin :: "http_uri \<Rightarrow> bytes option \<times> bytes option \<times> nat option" where
  "origin u = (map_option to_ascii_lowercase (host u), scheme_str u, port_of u)"

lemma crosses_origin_iff: "crosses_origin u v \<longleftrightarrow> origin u \<noteq> origin v"
  by (auto simp: crosses_origin_def origin_def same_host_def eq_ignore_ascii_case_def split: option.splits)

section \<open>The decision, case by case\<close>

lemma decide_follow:
  assumes "decide hv ext policy hops current method status location previous = RFollow f"
  obtains loc al where "status \<in> {301, 302, 303, 307, 308}" "location = Some loc" "hv loc" "is_utf8 loc"
    "resolve_reference ext current loc = Inr (f_uri f)"
    "policy \<lparr>pr_from = current, pr_to = f_uri f, pr_status = status, pr_method = method,
       pr_cross_origin = crosses_origin (f_uri f) current, pr_hops = hops, pr_previous = previous\<rparr> = VFollow al"
    "f_method f = (if \<not> preserve_method al \<and> downgrades status method then ''GET'' else method)"
    "strip_sensitive f = (crosses_origin (f_uri f) current \<and> \<not> keep_credentials al)"
    "drop_body f = (\<not> preserve_method al \<and> downgrades status method)"
proof -
  have st: "status \<in> {301, 302, 303, 307, 308}" using assms by (auto simp: decide_def split: if_splits)
  then obtain loc u where loc: "location = Some loc" "hv loc" "is_utf8 loc" "resolve_reference ext current loc = Inr u"
    using assms by (auto simp: decide_def split: if_splits option.splits sum.splits)
  let ?p = "\<lparr>pr_from = current, pr_to = u, pr_status = status, pr_method = method,
      pr_cross_origin = crosses_origin u current, pr_hops = hops, pr_previous = previous\<rparr>"
  have "decide hv ext policy hops current method status location previous =
      (case policy ?p of VStop \<Rightarrow> RStop | VRefuse why \<Rightarrow> RRefused why u
       | VFollow al \<Rightarrow> (let downgrade = (\<not> preserve_method al \<and> downgrades status method) in
           RFollow \<lparr>f_uri = u, f_method = (if downgrade then ''GET'' else method),
             strip_sensitive = (crosses_origin u current \<and> \<not> keep_credentials al), drop_body = downgrade\<rparr>))"
    using st loc by (simp only: decide_def if_False option.case sum.case Let_def simp_thms if_cancel)
  then show ?thesis using that st loc assms by (cases "policy ?p") (auto simp: Let_def)
qed

lemma redirect_arm_next:
  assumes "redirect_arm hv ext policy st replay status location = NextHop st'"
  obtains f where "decide hv ext policy (ch_hops st) (hp_uri (ch_hop st)) (hp_method (ch_hop st)) status
      location (ch_visited st) = RFollow f" "ch_hops st < 255"
    "next_hop (ch_hop st) replay f = Some (ch_hop st', ch_body st')" "ch_hops st' = ch_hops st + 1"
    "ch_visited st' = ch_visited st @ [f_uri f]" "ch_auth st' = (if strip_sensitive f then None else ch_auth st)"
    "ch_attempt st' = attempt_next_hop (ch_attempt st)"
  using assms by (auto simp: redirect_arm_def Let_def split: redirect_action.splits if_splits option.splits)

lemma next_hop_some:
  assumes "next_hop prev replay f = Some (hp', b')"
  shows "hp_method hp' = f_method f" "hp_uri hp' = f_uri f" "hp_version hp' = hp_version prev"
    "hm_contains n (hp_headers hp') \<longleftrightarrow> hm_contains n (hp_headers prev) \<and>
       \<not> (strip_sensitive f \<and> n \<in> set SENSITIVE_HEADERS) \<and>
       \<not> (drop_body f \<and> n \<in> {''content-type'', ''content-length''})"
    "hp_extensions hp' k = (if strip_sensitive f \<and> k = ''AllowEarlyData'' then None else hp_extensions prev k)"
    "b' = (if drop_body f then Empty else the replay)"
  using assms
  by (auto simp: next_hop_def Let_def foldl_remove hm_contains_remove split: if_splits option.splits)

lemma foldl_remove_all: "hm_get_all n (foldl (\<lambda>hs m. hm_remove m hs) h ms) = (if n \<in> set ms then [] else hm_get_all n h)"
  by (induction ms arbitrary: h) auto

lemma next_hop_values:
  assumes "next_hop prev replay f = Some (hp', b')" "n \<in> set SENSITIVE_HEADERS"
  shows "hm_get_all n (hp_headers hp') = (if strip_sensitive f then [] else hm_get_all n (hp_headers prev))"
proof -
  have "n \<noteq> ''content-type''" "n \<noteq> ''content-length''" using assms(2) by (auto simp: SENSITIVE_HEADERS_def)
  then show ?thesis
    using assms by (auto simp: next_hop_def Let_def foldl_remove_all split: if_splits option.splits)
qed

section \<open>Invariants of a chain\<close>

text \<open>A policy that refuses at \<open>n\<close> hops bounds the chain.\<close>

definition bounded_by :: "nat \<Rightarrow> redirect_policy \<Rightarrow> bool" where
  "bounded_by n policy \<longleftrightarrow> (\<forall>p al. policy p = VFollow al \<longrightarrow> pr_hops p < n)"

lemma bounded_by_limit: "bounded_by n (limit n)"
  by (auto simp: bounded_by_def limit_def split: if_splits)

lemma bounded_by_and: "bounded_by n p \<or> bounded_by n q \<Longrightarrow> bounded_by n (policy_and p q)"
  by (auto simp: bounded_by_def policy_and_meet redirect_and_follow)

lemma bounded_by_all: "p \<in> set ps \<Longrightarrow> bounded_by n p \<Longrightarrow> bounded_by n (policy_all ps)"
  using policy_all_follow(2) unfolding bounded_by_def by blast

lemma hop_steps_bounded:
  assumes "hop_steps hv ext policy st st'" "bounded_by n policy" "ch_hops st \<le> n"
    "length (ch_visited st) = ch_hops st + 1"
  shows "ch_hops st' \<le> n \<and> length (ch_visited st') = ch_hops st' + 1"
  using assms(1)
proof (induction rule: rtranclp_induct)
  case (step y z)
  from step.hyps(2) show ?case
  proof (rule hop_stepE)
    fix hp a replay status location
    assume "redirect_arm hv ext policy (y\<lparr>ch_hop := hp, ch_attempt := a\<rparr>) replay status location = NextHop z"
    then obtain f where f: "decide hv ext policy (ch_hops y) (hp_uri hp) (hp_method hp) status
        location (ch_visited y) = RFollow f" "ch_hops z = ch_hops y + 1" "ch_visited z = ch_visited y @ [f_uri f]"
      by (rule redirect_arm_next) simp
    have "ch_hops y < n"
      by (rule decide_follow [OF f(1)]) (use assms(2) in \<open>fastforce simp: bounded_by_def\<close>)
    then show ?thesis using f step.IH by simp
  qed
qed (use assms in auto)

text \<open>Under \<open>HttpsOnly\<close> a chain that is on https stays there.\<close>

definition keeps_https :: "redirect_policy \<Rightarrow> bool" where
  "keeps_https policy \<longleftrightarrow> (\<forall>p al. policy p = VFollow al \<longrightarrow> scheme_str (pr_from p) = Some ''https'' \<longrightarrow>
     scheme_str (pr_to p) = Some ''https'')"

lemma keeps_https_all: "https_only \<in> set ps \<Longrightarrow> keeps_https (policy_all ps)"
  using policy_all_follow(2) [of ps _ _ https_only]
  by (fastforce simp: keeps_https_def https_only_def split: if_splits)

section \<open>Properties\<close>

text \<open>A concrete request and one same-origin redirect of it.\<close>

definition demo_uri :: http_uri where
  "demo_uri = \<lparr>scheme_str = Some ''https'', authority = Some ''a'', host = Some ''a'', port_u16 = None,
     path = ''/b'', query = None\<rparr>"

definition demo_hop :: hop_parts where
  "demo_hop = \<lparr>hp_method = ''GET'', hp_uri = demo_uri, hp_headers = [(''authorization'', ''s'')],
     hp_version = 11, hp_extensions = (\<lambda>_. None)\<rparr>"

definition demo_start :: "unit chain" where
  "demo_start = chain_start demo_hop Empty None 7"

lemma demo_arm:
  "case redirect_arm (\<lambda>_. True) ref_ext (policy_all [limit 3, https_only]) demo_start (Some Empty) 302
      (Some ''x'') of NextHop st \<Rightarrow> hm_contains ''authorization'' (hp_headers (ch_hop st)) | _ \<Rightarrow> False"
  by code_simp

lemma demo_step:
  obtains st where "hop_steps (\<lambda>_. True) ref_ext (policy_all [limit 3, https_only]) demo_start st"
    "hm_contains ''authorization'' (hp_headers (ch_hop st))"
proof -
  obtain st where st: "redirect_arm (\<lambda>_. True) ref_ext (policy_all [limit 3, https_only]) demo_start (Some Empty) 302 (Some ''x'') = NextHop st"
    "hm_contains ''authorization'' (hp_headers (ch_hop st))"
    using demo_arm by (auto split: arm_outcome.splits)
  have "hop_step (\<lambda>_. True) ref_ext (policy_all [limit 3, https_only]) demo_start st"
    using hop_step.hop [where st = demo_start and hp = "ch_hop demo_start" and a = "ch_attempt demo_start"] st(1) by auto
  then show ?thesis using that st(2) by blast
qed

lemma demo_decide:
  obtains f where "decide (\<lambda>_. True) ref_ext (limit 3) 0 demo_uri ''POST'' 302 (Some ''/x'') [demo_uri] = RFollow f"
    "drop_body f"
proof -
  have "case decide (\<lambda>_. True) ref_ext (limit 3) 0 demo_uri ''POST'' 302 (Some ''/x'') [demo_uri] of
      RFollow f \<Rightarrow> drop_body f | _ \<Rightarrow> False" by code_simp
  then show ?thesis using that by (auto split: redirect_action.splits)
qed

text \<open>
  Property C26. A limit bounds every chain: when the policy is or contains \<open>Limit(n)\<close> with
  \<open>n \<le> 255\<close>, no chain takes more than \<open>n\<close> hops, whatever the servers answer and whatever is made of the request of a
  hop before it is sent, the history holds one URI per hop, and the hop counter never overflows.
\<close>

theorem limit_bounds_chain:
  assumes "hop_steps hv ext (policy_all ps) (chain_start hp b auth i) st" "limit n \<in> set ps" "n \<le> 255"
  shows "ch_hops st \<le> n \<and> length (ch_visited st) = ch_hops st + 1 \<and>
    redirect_arm hv ext (policy_all ps) (st\<lparr>ch_hop := sent, ch_attempt := a\<rparr>) replay status location \<noteq> HopsOverflow"
proof (intro conjI)
  have bd: "bounded_by n (policy_all ps)" using assms(2) bounded_by_limit by (rule bounded_by_all)
  show "ch_hops st \<le> n" "length (ch_visited st) = ch_hops st + 1"
    using hop_steps_bounded [OF assms(1) bd] by (auto simp: chain_start_def)
  show "redirect_arm hv ext (policy_all ps) (st\<lparr>ch_hop := sent, ch_attempt := a\<rparr>) replay status location \<noteq> HopsOverflow"
  proof
    assume "redirect_arm hv ext (policy_all ps) (st\<lparr>ch_hop := sent, ch_attempt := a\<rparr>) replay status location = HopsOverflow"
    then obtain f where f: "decide hv ext (policy_all ps) (ch_hops st) (hp_uri sent) (hp_method sent)
        status location (ch_visited st) = RFollow f" "255 \<le> ch_hops st"
      by (auto simp: redirect_arm_def Let_def split: redirect_action.splits if_splits option.splits)
    have "ch_hops st < n"
      by (rule decide_follow [OF f(1)]) (use bd in \<open>fastforce simp: bounded_by_def\<close>)
    then show False using f(2) assms(3) by simp
  qed
qed

theorem limit_bounds_chain_witness:
  "\<exists>st. hop_steps (\<lambda>_. True) ref_ext (policy_all [limit 3, https_only]) demo_start st \<and>
     ch_hops st \<le> 3 \<and> redirect_arm (\<lambda>_. True) ref_ext (policy_all [limit 3, https_only]) st None 302 (Some ''y'') \<noteq> HopsOverflow"
proof -
  obtain st where st: "hop_steps (\<lambda>_. True) ref_ext (policy_all [limit 3, https_only]) demo_start st"
    by (rule demo_step)
  have "limit 3 \<in> set [limit 3, https_only]" "(3::nat) \<le> 255" by simp_all
  from limit_bounds_chain [OF st [unfolded demo_start_def] this, of "ch_attempt st" "ch_hop st" None 302 "Some ''y''"] st
  show ?thesis by auto
qed

text \<open>
  Composing policies only narrows: the verdict of a chain is as severe as the most
  severe of its members (follow, then stop, then refuse), a pair follows exactly when both do, and
  then grants only what both grant.
\<close>

theorem redirect_composition_narrows:
  "redirect_severity (policy_all ps hop) = Max (insert 0 ((\<lambda>p. redirect_severity (p hop)) ` set ps)) \<and>
   redirect_severity (policy_and p q hop) = max (redirect_severity (p hop)) (redirect_severity (q hop)) \<and>
   (policy_and p q hop = VFollow al \<longleftrightarrow>
      (\<exists>x y. p hop = VFollow x \<and> q hop = VFollow y \<and> al = allow_and x y))"
proof -
  have "redirect_severity verdict_follow = 0" by (simp add: verdict_follow_def redirect_severity_def)
  then show ?thesis
    by (simp add: policy_all_fold redirect.chain_severity policy_and_meet redirect.meet_severity redirect_and_follow)
qed

text \<open>
  The method table of RFC 9110 15.4 in a followed redirect: the body is dropped
  exactly when the method was rewritten by the table, in which case the method is \<open>GET\<close>; 307 and
  308 always keep method and body; a policy can only suppress the rewrite.
\<close>

theorem redirect_method_table:
  assumes "decide hv ext policy hops current method status location previous = RFollow f"
  shows "(drop_body f \<longrightarrow> f_method f = ''GET'' \<and> downgrades status method) \<and>
    (\<not> drop_body f \<longrightarrow> f_method f = method) \<and> (status \<in> {307, 308} \<longrightarrow> \<not> drop_body f) \<and>
    (method = ''HEAD'' \<longrightarrow> f_method f = ''HEAD'') \<and> status \<in> {301, 302, 303, 307, 308}"
  by (intro conjI; rule decide_follow [OF assms]; auto simp: downgrades_def split: if_splits)

theorem redirect_method_table_witness:
  "\<exists>f. decide (\<lambda>_. True) ref_ext (limit 3) 0 demo_uri ''POST'' 302 (Some ''/x'') [demo_uri] = RFollow f \<and>
     drop_body f \<and> f_method f = ''GET''"
proof -
  obtain f where f: "decide (\<lambda>_. True) ref_ext (limit 3) 0 demo_uri ''POST'' 302 (Some ''/x'') [demo_uri] = RFollow f"
    "drop_body f" by (rule demo_decide)
  from redirect_method_table [OF f(1)] f show ?thesis by blast
qed

section \<open>Where the comments and the code part\<close>

text \<open>
  The meet is commutative except for the reason of a refusal: two refusals answer with the first.
\<close>

lemma redirect_and_commutes_up_to_reason:
  "redirect_and a b = redirect_and b a \<or> (is_refuse a \<and> is_refuse b)"
  "redirect_and (VRefuse ''a'') (VRefuse ''b'') \<noteq> redirect_and (VRefuse ''b'') (VRefuse ''a'')"
  by (cases a; cases b; auto simp: is_refuse_def allow_and_def) simp

text \<open>
  The list form starts from a verdict that grants nothing, so it is not the meet of its members:
  a chain of one policy loses the grants that policy gave, where the two-policy form keeps them.
\<close>

lemma policy_all_never_grants: "policy_all ps hop = VFollow al \<Longrightarrow> al = allow_default"
  by (rule policy_all_follow(1))

lemma policy_all_singleton_differs:
  "policy_all [\<lambda>_. VFollow allow_everything] hop \<noteq> VFollow allow_everything"
  "policy_and (\<lambda>_. VFollow allow_everything) (\<lambda>_. VFollow allow_everything) hop = VFollow allow_everything"
  by (auto simp: policy_and_meet allow_and_def allow_everything_def allow_default_def dest: policy_all_follow(1))

text \<open>
  With no limit in the policy the hop counter, a \<open>u8\<close>, is incremented past 255.
\<close>

lemma hops_overflow_without_limit:
  "redirect_arm (\<lambda>_. True) ref_ext (policy_all []) (demo_start\<lparr>ch_hops := 255\<rparr>) (Some Empty) 302
     (Some ''x'') = HopsOverflow"
proof -
  have "case redirect_arm (\<lambda>_. True) ref_ext (policy_all []) (demo_start\<lparr>ch_hops := 255\<rparr>)
      (Some Empty) 302 (Some ''x'') of HopsOverflow \<Rightarrow> True | _ \<Rightarrow> False" by code_simp
  then show ?thesis by (auto split: arm_outcome.splits)
qed

text \<open>
  A policy that trusts a cross-origin target with credentials also carries the early-data mark there.
\<close>

lemma early_data_crosses_with_keep_credentials:
  "(case redirect_arm (\<lambda>_. True) ref_ext (\<lambda>_. VFollow allow_everything)
      (chain_start (demo_hop\<lparr>hp_extensions := (\<lambda>_. Some 1)\<rparr>) Empty (None :: unit option) 7) (Some Empty) 302 (Some ''https://other/'') of
      NextHop st \<Rightarrow> crosses_origin (hp_uri (ch_hop st)) demo_uri \<and> hp_extensions (ch_hop st) ''AllowEarlyData'' = Some 1
    | _ \<Rightarrow> False)"
  by code_simp

end
