(* ===== verification/Backoff.thy ===== *)
theory Backoff
  imports Prelude Complex_Main
begin

text \<open>
  Exponential backoff with full jitter, \<open>crates/hclient/src/sansio/backoff.rs\<close>. The jitter is an
  \<open>f64\<close>: a NaN, an infinity, or a finite value, kept as the rational it denotes. The two floating
  point operations on it are \<open>1.0 - jitter\<close>, rounded to nearest even at the 53 bits of a result in
  [1/2, 1] and exact below that, and a scaling by a power of two, which is exact. Every checked
  operation of the source that panics on failure yields \<open>None\<close> here.
\<close>

section \<open>The model\<close>

datatype f64 = FNaN | FPosInf | FNegInf | FFin rat

record backoff =
  base :: duration
  bmax :: duration
  max_attempts :: "nat option"

definition backoff_default :: backoff where
  "backoff_default = \<lparr>base = from_secs 1, bmax = from_secs 30, max_attempts = None\<rparr>"

definition MAX_DOUBLINGS :: nat where
  "MAX_DOUBLINGS = 128"

fun doublings :: "nat \<Rightarrow> duration \<Rightarrow> duration \<Rightarrow> duration" where
  "doublings 0 mx raw = raw"
| "doublings (Suc n) mx raw =
     (if raw \<ge> mx then raw
      else doublings n mx (case duration_checked_mul2 raw of None \<Rightarrow> mx | Some d \<Rightarrow> min d mx))"

definition clamp01 :: "f64 \<Rightarrow> rat" where
  "clamp01 j = (case j of FNaN \<Rightarrow> 0 | FPosInf \<Rightarrow> 1 | FNegInf \<Rightarrow> 0 | FFin q \<Rightarrow> max 0 (min q 1))"

definition round_half_even :: "rat \<Rightarrow> int" where
  "round_half_even x =
     (let f = \<lfloor>x\<rfloor>; d = x - of_int f in
      if d < 1 / 2 then f else if d > 1 / 2 then f + 1 else if even f then f else f + 1)"

definition f64_one_minus :: "rat \<Rightarrow> rat" where
  "f64_one_minus j = (if j \<ge> 1 / 2 then 1 - j else of_int (round_half_even ((1 - j) * 2 ^ 53)) / 2 ^ 53)"

text \<open>\<open>f64::round\<close> of a non-negative value: halves go away from zero.\<close>

definition f64_round :: "rat \<Rightarrow> nat" where
  "f64_round x = nat \<lfloor>x + 1 / 2\<rfloor>"

definition FIXED_POINT_DENOM :: nat where
  "FIXED_POINT_DENOM = 2 ^ 32"

definition u128_checked_mul :: "nat \<Rightarrow> nat \<Rightarrow> nat option" where
  "u128_checked_mul a b = (if a * b < 2 ^ 128 then Some (a * b) else None)"

definition scale_by_kept_fraction :: "duration \<Rightarrow> rat \<Rightarrow> duration option" where
  "scale_by_kept_fraction d kept =
     (if \<not> (0 \<le> kept \<and> kept \<le> 1) then None
      else let keep_num = f64_round (kept * of_nat FIXED_POINT_DENOM) in
        case u128_checked_mul d keep_num of
          None \<Rightarrow> None
        | Some m \<Rightarrow>
            (let scaled_nanos = m div FIXED_POINT_DENOM;
                 secs = scaled_nanos div 1000000000;
                 nanos = scaled_nanos mod 1000000000
             in if secs \<le> u64_max then Some (secs * nanos_per_sec + nanos) else None))"

datatype delay_result = GiveUp | Wait duration | DelayPanic

definition delay :: "backoff \<Rightarrow> nat \<Rightarrow> f64 \<Rightarrow> delay_result" where
  "delay b attempt jitter =
     (if (case max_attempts b of Some l \<Rightarrow> attempt \<ge> l | None \<Rightarrow> False) then GiveUp
      else let raw = doublings (min attempt MAX_DOUBLINGS) (bmax b) (min (base b) (bmax b)) in
        case scale_by_kept_fraction raw (f64_one_minus (clamp01 jitter)) of
          None \<Rightarrow> DelayPanic
        | Some d \<Rightarrow> Wait d)"

section \<open>The doubling loop\<close>

definition backoff_ok :: "backoff \<Rightarrow> bool" where
  "backoff_ok b \<longleftrightarrow> base b \<le> duration_max \<and> bmax b \<le> duration_max"

lemma doublings_closed:
  assumes "raw \<le> mx" "mx \<le> duration_max"
  shows "doublings n mx raw = min mx (raw * 2 ^ n)"
  using assms(1)
proof (induction n arbitrary: raw)
  case (Suc n)
  show ?case
  proof (cases "raw \<ge> mx")
    case True
    then have "mx \<le> raw * 2 ^ Suc n" using le_trans [of mx raw "raw * 2 ^ Suc n"] by simp
    then show ?thesis using True Suc.prems by simp
  next
    case False
    have "(case duration_checked_mul2 raw of None \<Rightarrow> mx | Some d \<Rightarrow> min d mx) = min mx (2 * raw)"
      using assms(2) by (auto simp: duration_checked_mul2_def)
    moreover have "min mx (min mx (2 * raw) * 2 ^ n) = min mx (raw * 2 ^ Suc n)"
    proof (cases "mx \<le> 2 * raw")
      case True
      have "mx \<le> mx * 2 ^ n" by simp
      also have "\<dots> \<le> (2 * raw) * 2 ^ n" using True by (rule mult_le_mono1)
      finally have "mx \<le> raw * 2 ^ Suc n" by (simp add: algebra_simps)
      then show ?thesis using True by simp
    qed (simp add: min_def algebra_simps)
    ultimately show ?thesis using False Suc.IH [of "min mx (2 * raw)"] by simp
  qed
qed simp

lemma duration_max_lt: "duration_max < 2 ^ 94"
  by (simp add: duration_max_def u64_max_def nanos_per_sec_def)

text \<open>The cap on the number of doublings is never observed.\<close>

lemma doublings_cap:
  assumes "raw \<le> mx" "mx \<le> duration_max"
  shows "doublings (min n MAX_DOUBLINGS) mx raw = min mx (raw * 2 ^ n)"
proof (cases "n \<le> MAX_DOUBLINGS \<or> raw = 0")
  case False
  have "duration_max < 2 ^ 94" by (rule duration_max_lt)
  also have "(2::nat) ^ 94 \<le> 2 ^ 128" by simp
  also have "(2::nat) ^ 128 \<le> raw * 2 ^ 128" using False by simp
  finally have big: "mx \<le> raw * 2 ^ 128" using assms(2) by simp
  also have "raw * 2 ^ 128 \<le> raw * 2 ^ n"
    using False by (intro mult_le_mono2 power_increasing) (simp_all add: MAX_DOUBLINGS_def)
  finally show ?thesis using False big by (simp add: doublings_closed [OF assms] MAX_DOUBLINGS_def)
qed (auto simp: doublings_closed [OF assms])

section \<open>The jitter\<close>

lemma clamp01_range: "0 \<le> clamp01 j" "clamp01 j \<le> 1"
  by (auto simp: clamp01_def split: f64.splits)

lemma round_half_even_bounds:
  assumes "of_int a \<le> x" "x \<le> of_int b"
  shows "a \<le> round_half_even x" "round_half_even x \<le> b"
proof -
  have f: "a \<le> \<lfloor>x\<rfloor>" using assms(1) by (simp add: le_floor_iff)
  have "\<lfloor>x\<rfloor> \<le> b" using assms(2) by linarith
  moreover have "\<lfloor>x\<rfloor> + 1 \<le> b" if "x - of_int \<lfloor>x\<rfloor> \<ge> 1 / 2"
  proof -
    have "of_int \<lfloor>x\<rfloor> < x" using that by simp
    then show ?thesis using assms(2) by (metis add1_zle_eq of_int_less_iff order_less_le_trans)
  qed
  ultimately show "a \<le> round_half_even x" "round_half_even x \<le> b"
    using f by (auto simp: round_half_even_def Let_def)
qed

lemma f64_one_minus_range:
  assumes "0 \<le> j" "j \<le> 1"
  shows "0 \<le> f64_one_minus j \<and> f64_one_minus j \<le> 1"
proof -
  have b: "of_int 0 \<le> (1 - j) * 2 ^ 53" "(1 - j) * 2 ^ 53 \<le> of_int (2 ^ 53)" using assms by simp_all
  show ?thesis
    using assms round_half_even_bounds [OF b] by (auto simp: f64_one_minus_def divide_le_eq)
qed

lemma f64_round_of_nat: "f64_round (of_nat n) = n"
proof -
  have "\<lfloor>(of_nat n :: rat) + 1 / 2\<rfloor> = int n" by (rule floor_unique) simp_all
  then show ?thesis by (simp add: f64_round_def)
qed

lemma f64_one_minus_simps: "f64_one_minus 0 = 1" "f64_one_minus (1 / 2) = 1 / 2"
  by (simp_all add: f64_one_minus_def round_half_even_def)

lemma keep_num_bound:
  assumes "0 \<le> kept" "kept \<le> 1"
  shows "f64_round (kept * of_nat FIXED_POINT_DENOM) \<le> FIXED_POINT_DENOM"
proof -
  have "kept * of_nat FIXED_POINT_DENOM \<le> of_nat FIXED_POINT_DENOM" using assms by (simp add: mult_left_le_one_le)
  then have "\<lfloor>kept * of_nat FIXED_POINT_DENOM + 1 / 2\<rfloor> \<le> int FIXED_POINT_DENOM" by linarith
  then show ?thesis by (simp add: f64_round_def)
qed

lemma scale_total:
  assumes "d \<le> duration_max" "0 \<le> kept" "kept \<le> 1"
  shows "scale_by_kept_fraction d kept =
    Some (d * f64_round (kept * of_nat FIXED_POINT_DENOM) div FIXED_POINT_DENOM)"
proof -
  let ?k = "f64_round (kept * of_nat FIXED_POINT_DENOM)"
  have k: "?k \<le> 2 ^ 32" using keep_num_bound [OF assms(2,3)] by (simp add: FIXED_POINT_DENOM_def)
  have "d * ?k \<le> duration_max * 2 ^ 32" using assms(1) k by (rule mult_le_mono)
  also have "\<dots> < 2 ^ 128" by (simp add: duration_max_def u64_max_def nanos_per_sec_def)
  finally have m: "d * ?k < 2 ^ 128" .
  have "d * ?k div 2 ^ 32 \<le> d * 2 ^ 32 div 2 ^ 32" using k by (intro div_le_mono) simp
  then have "d * ?k div 2 ^ 32 \<le> duration_max" using assms(1) by simp
  then have "d * ?k div 2 ^ 32 div 1000000000 \<le> duration_max div 1000000000" by (rule div_le_mono)
  also have "\<dots> = u64_max" by (simp add: duration_max_def nanos_per_sec_def u64_max_def)
  finally show ?thesis
    using m assms(2,3)
    by (simp add: scale_by_kept_fraction_def u128_checked_mul_def FIXED_POINT_DENOM_def nanos_per_sec_def Let_def
        mult.commute)
qed

lemma delay_closed:
  assumes "backoff_ok b"
  shows "delay b attempt jitter =
    (if \<exists>l. max_attempts b = Some l \<and> l \<le> attempt then GiveUp
     else Wait (min (bmax b) (base b * 2 ^ attempt) *
       f64_round (f64_one_minus (clamp01 jitter) * of_nat FIXED_POINT_DENOM) div FIXED_POINT_DENOM))"
proof -
  have ok: "base b \<le> duration_max" "bmax b \<le> duration_max" using assms by (auto simp: backoff_ok_def)
  let ?raw = "doublings (min attempt MAX_DOUBLINGS) (bmax b) (min (base b) (bmax b))"
  have raw: "?raw = min (bmax b) (min (base b) (bmax b) * 2 ^ attempt)"
    using ok by (intro doublings_cap) auto
  also have "\<dots> = min (bmax b) (base b * 2 ^ attempt)"
  proof (cases "base b \<le> bmax b")
    case False
    have "bmax b \<le> bmax b * 2 ^ attempt" by simp
    also have "\<dots> \<le> base b * 2 ^ attempt" using False by simp
    finally show ?thesis using False by (simp add: min_def)
  qed simp
  finally have r: "?raw = min (bmax b) (base b * 2 ^ attempt)" .
  have "?raw \<le> duration_max" using r ok by simp
  note sc = scale_total [OF this, of "f64_one_minus (clamp01 jitter)"]
  show ?thesis
    using sc f64_one_minus_range [OF clamp01_range, of jitter] r
    by (auto simp: delay_def Let_def split: option.splits)
qed

lemma delay_wait_bound:
  assumes "backoff_ok b" "delay b attempt jitter = Wait d"
  shows "d \<le> bmax b" "d \<le> base b * 2 ^ attempt"
proof -
  let ?k = "f64_round (f64_one_minus (clamp01 jitter) * of_nat FIXED_POINT_DENOM)"
  let ?m = "min (bmax b) (base b * 2 ^ attempt)"
  have d: "d = ?m * ?k div FIXED_POINT_DENOM"
    using assms delay_closed [OF assms(1), of attempt jitter] by (auto split: if_splits)
  have "?k \<le> FIXED_POINT_DENOM"
    using f64_one_minus_range [OF clamp01_range, of jitter] by (intro keep_num_bound) auto
  then have "?m * ?k div FIXED_POINT_DENOM \<le> ?m * FIXED_POINT_DENOM div FIXED_POINT_DENOM"
    by (intro div_le_mono mult_le_mono2)
  then have "d \<le> ?m" using d by (simp add: FIXED_POINT_DENOM_def)
  then show "d \<le> bmax b" "d \<le> base b * 2 ^ attempt" by simp_all
qed

section \<open>Properties\<close>

text \<open>
  Property C30. The schedule: for every attempt up to the largest \<open>u32\<close>, and for every jitter, NaN
  and out-of-range values included, \<open>delay\<close> never panics and answers the closed form: nothing when
  the attempts are spent, else \<open>min(max, base * 2^attempt)\<close> scaled by the kept fraction in 32-bit
  fixed point. The cap on the doublings and the saturation at \<open>Duration::MAX\<close> change nothing.
\<close>

theorem backoff_closed_form:
  assumes "backoff_ok b"
  shows "delay b attempt jitter =
    (if \<exists>l. max_attempts b = Some l \<and> l \<le> attempt then GiveUp
     else Wait (min (bmax b) (base b * 2 ^ attempt) *
       f64_round (f64_one_minus (clamp01 jitter) * of_nat FIXED_POINT_DENOM) div FIXED_POINT_DENOM))"
  using assms by (rule delay_closed)

theorem backoff_closed_form_witness:
  "delay backoff_default 2 (FFin (1 / 2)) = Wait (from_secs 2)"
proof -
  have "backoff_ok backoff_default"
    by (simp add: backoff_ok_def backoff_default_def from_secs_def duration_max_def nanos_per_sec_def u64_max_def)
  moreover have "f64_round (f64_one_minus (clamp01 (FFin (1 / 2))) * of_nat FIXED_POINT_DENOM) = 2 ^ 31"
    using f64_round_of_nat [of "2 ^ 31"] by (simp add: clamp01_def f64_one_minus_simps FIXED_POINT_DENOM_def min_def max_def)
  ultimately show ?thesis using backoff_closed_form [of backoff_default 2 "FFin (1 / 2)"]
    by (simp add: backoff_default_def from_secs_def nanos_per_sec_def FIXED_POINT_DENOM_def)
qed

text \<open>
  A delay never exceeds the configured maximum, nor the exponential schedule, whatever
  the jitter; with a jitter of zero or NaN it is exactly the schedule.
\<close>

theorem backoff_bounds:
  assumes "backoff_ok b" "delay b attempt jitter = Wait d"
  shows "d \<le> bmax b \<and> d \<le> base b * 2 ^ attempt \<and>
    (jitter \<in> {FNaN, FFin 0} \<longrightarrow> d = min (bmax b) (base b * 2 ^ attempt))"
proof (intro conjI)
  show "d \<le> bmax b" "d \<le> base b * 2 ^ attempt" by (rule delay_wait_bound [OF assms])+
  have "f64_round (f64_one_minus (clamp01 jitter) * of_nat FIXED_POINT_DENOM) = FIXED_POINT_DENOM"
    if "jitter \<in> {FNaN, FFin 0}"
  proof -
    have "clamp01 jitter = 0" using that by (auto simp: clamp01_def)
    then show ?thesis using f64_round_of_nat [of FIXED_POINT_DENOM] by (simp add: f64_one_minus_simps)
  qed
  then show "jitter \<in> {FNaN, FFin 0} \<longrightarrow> d = min (bmax b) (base b * 2 ^ attempt)"
    using assms(2) delay_closed [OF assms(1), of attempt jitter]
    by (auto simp: FIXED_POINT_DENOM_def split: if_splits)
qed

theorem backoff_bounds_witness:
  "\<exists>d. delay backoff_default 40 (FFin (1 / 3)) = Wait d \<and> d \<le> from_secs 30"
proof -
  have ok: "backoff_ok backoff_default"
    by (simp add: backoff_ok_def backoff_default_def from_secs_def duration_max_def nanos_per_sec_def u64_max_def)
  obtain d where d: "delay backoff_default 40 (FFin (1 / 3)) = Wait d"
    using delay_closed [OF ok, of 40 "FFin (1 / 3)"] by (auto simp: backoff_default_def)
  from backoff_bounds [OF ok d] d show ?thesis by (auto simp: backoff_default_def)
qed

end
