(* ===== verification/Retry.thy ===== *)
theory Retry
  imports Backoff Std_Text Policy_Meet Redirect
begin

text \<open>
  Retrying, \<open>crates/hclient/src/sansio/retry.rs\<close>: which statuses a caller will have repeated, the
  decision of the \<open>Standard\<close> policy, the reading of \<open>Retry-After\<close>, and the composition of retry
  policies. A policy is a function; a wait is a duration in nanoseconds.
\<close>

section \<open>The model\<close>

datatype retry_statuses = NoStatuses | Transient | AnyServerError

definition statuses_contains :: "retry_statuses \<Rightarrow> nat \<Rightarrow> bool" where
  "statuses_contains s code =
     (case s of
        NoStatuses \<Rightarrow> False
      | Transient \<Rightarrow> code \<in> {408, 429, 500, 502, 503, 504}
      | AnyServerError \<Rightarrow> code = 408 \<or> code = 429 \<or> (500 \<le> code \<and> code < 600))"

datatype outcome =
    Unsent
  | Status nat "duration option" bool  \<comment> \<open>status, \<open>retry_after\<close>, \<open>retry_after_unreadable\<close>\<close>

datatype stop_reason = NotRetryable | BodyCannotBeReplayed | OutOfAttempts | RetryAfterTooLong

datatype decision = After duration | Stop stop_reason | DecisionPanic

record standard =
  s_backoff :: backoff
  retry_unsent :: bool
  statuses :: retry_statuses
  max_retry_after :: duration

definition standard_default :: standard where
  "standard_default =
     \<lparr>s_backoff = \<lparr>base = from_millis 100, bmax = from_secs 10, max_attempts = Some 3\<rparr>,
      retry_unsent = True, statuses = NoStatuses, max_retry_after = from_secs 60\<rparr>"

definition standard_transient :: standard where
  "standard_transient = standard_default\<lparr>statuses := Transient\<rparr>"

definition standard_asked :: "standard \<Rightarrow> outcome \<Rightarrow> stop_reason + duration option" where
  "standard_asked s out =
     (case out of
        Unsent \<Rightarrow> if \<not> retry_unsent s then Inl NotRetryable else Inr None
      | Status status retry_after retry_after_unreadable \<Rightarrow>
          if \<not> statuses_contains (statuses s) status then Inl NotRetryable
          else if retry_after_unreadable then Inl RetryAfterTooLong
          else Inr retry_after)"

definition standard_decide :: "standard \<Rightarrow> outcome \<Rightarrow> nat \<Rightarrow> f64 \<Rightarrow> bool \<Rightarrow> decision" where
  "standard_decide s out attempt jitter body_replayable =
     (if \<not> body_replayable then Stop BodyCannotBeReplayed
      else case standard_asked s out of
        Inl r \<Rightarrow> Stop r
      | Inr asked \<Rightarrow>
          (case delay (s_backoff s) attempt jitter of
             DelayPanic \<Rightarrow> DecisionPanic
           | GiveUp \<Rightarrow> Stop OutOfAttempts
           | Wait bo \<Rightarrow>
               (case asked of
                  Some a \<Rightarrow> if a > max_retry_after s then Stop RetryAfterTooLong else After (max a bo)
                | None \<Rightarrow> After bo)))"

definition retry_after_seconds :: "bytes \<Rightarrow> duration option" where
  "retry_after_seconds value0 =
     (let v = trim value0 in
      if v = [] \<or> \<not> list_all is_ascii_digit v then None else map_option from_secs (parse_u64 v))"

section \<open>Verdicts and policies\<close>

datatype retry_verdict = RAfter duration | RVStop

definition retry_permit :: retry_verdict where
  "retry_permit = RAfter 0"

fun retry_and :: "retry_verdict \<Rightarrow> retry_verdict \<Rightarrow> retry_verdict" where
  "retry_and RVStop _ = RVStop"
| "retry_and _ RVStop = RVStop"
| "retry_and (RAfter a) (RAfter b) = RAfter (if a > b then a else b)"

record proposed_retry =
  rt_method :: http_method
  rt_uri :: http_uri
  rt_attempt :: nat
  rt_outcome :: outcome
  rt_body_replayable :: bool
  rt_jitter :: f64

type_synonym retry_policy = "proposed_retry \<Rightarrow> retry_verdict"

definition retry_policy_and :: "retry_policy \<Rightarrow> retry_policy \<Rightarrow> retry_policy" where
  "retry_policy_and p q a = (let first = p a in if first = RVStop then first else retry_and first (q a))"

text \<open>The policy of a \<open>Standard\<close>; a panic of the decision is the panic of the policy.\<close>

definition standard_retry :: "standard \<Rightarrow> proposed_retry \<Rightarrow> retry_verdict option" where
  "standard_retry s a =
     (case standard_decide s (rt_outcome a) (rt_attempt a) (rt_jitter a) (rt_body_replayable a) of
        After d \<Rightarrow> Some (RAfter d) | Stop _ \<Rightarrow> Some RVStop | DecisionPanic \<Rightarrow> None)"

definition never :: retry_policy where
  "never _ = RVStop"

definition safe_methods_only :: retry_policy where
  "safe_methods_only a =
     (if rt_method a \<in> {''GET'', ''HEAD'', ''PUT'', ''DELETE'', ''OPTIONS'', ''TRACE''} \<or> rt_method a = ''QUERY''
      then retry_permit else RVStop)"

text \<open>The loop of \<open>RetryAll\<close>: the first verdict replaces the initial stop, the others meet it.\<close>

fun retry_all_loop :: "bool \<Rightarrow> retry_verdict \<Rightarrow> retry_policy list \<Rightarrow> proposed_retry \<Rightarrow> retry_verdict" where
  "retry_all_loop first v [] a = v"
| "retry_all_loop first v (p # ps) a =
     (let this = p a; v' = (if first then this else retry_and v this) in
      if v' = RVStop then v' else retry_all_loop False v' ps a)"

definition retry_all :: "retry_policy list \<Rightarrow> retry_policy" where
  "retry_all ps a = retry_all_loop True RVStop ps a"

section \<open>Composition\<close>

text \<open>Severity: waits are ordered by length, and stopping is above every wait a duration can hold.\<close>

definition retry_severity :: "retry_verdict \<Rightarrow> nat" where
  "retry_severity v = (case v of RAfter d \<Rightarrow> min d duration_max | RVStop \<Rightarrow> Suc duration_max)"

interpretation retry: commutative_meet retry_and "\<lambda>v. v = RVStop" retry_severity
proof
  show "retry_and (retry_and a b) c = retry_and a (retry_and b c)" for a b c
    by (cases a; cases b; cases c) simp_all
  show "retry_and a a = a" for a by (cases a) simp_all
  show "retry_and a b = a" if "a = RVStop" for a b using that by simp
  show "retry_severity (retry_and a b) = max (retry_severity a) (retry_severity b)" for a b
    by (cases a; cases b) (auto simp: retry_severity_def max_def min_def)
  show "retry_and a b = retry_and b a" for a b by (cases a; cases b) simp_all
qed

lemma retry_policy_and_meet: "retry_policy_and p q a = retry_and (p a) (q a)"
  using retry.short_circuit [of "p a" "q a"] by (simp add: retry_policy_and_def Let_def)

lemma retry_all_loop_False:
  "v \<noteq> RVStop \<Longrightarrow> retry_all_loop False v ps a = foldl (\<lambda>v p. retry_and v (p a)) v ps"
proof (induction ps arbitrary: v)
  case (Cons p ps)
  have "foldl (\<lambda>v p. retry_and v (p a)) RVStop ps = RVStop" for ps by (induction ps) auto
  then show ?case using Cons by (auto simp: Let_def)
qed simp

lemma retry_and_permit: "retry_and retry_permit v = v"
  by (cases v) (simp_all add: retry_permit_def)

lemma retry_all_fold:
  "retry_all ps a = (if ps = [] then RVStop else foldl (\<lambda>v p. retry_and v (p a)) retry_permit ps)"
proof (cases ps)
  case (Cons p qs)
  have "foldl (\<lambda>v p. retry_and v (p a)) RVStop qs = RVStop" for qs by (induction qs) auto
  then show ?thesis
    using Cons retry_all_loop_False [of "p a" qs a] by (auto simp: retry_all_def Let_def retry_and_permit)
qed (simp add: retry_all_def)

lemma retry_chain_after:
  "foldl (\<lambda>v p. retry_and v (p a)) (RAfter w) ps = RAfter d \<longleftrightarrow>
     (\<forall>p \<in> set ps. p a \<noteq> RVStop) \<and> d = Max (insert w {x. \<exists>p \<in> set ps. p a = RAfter x})"
proof (induction ps arbitrary: w)
  case Nil
  show ?case by auto
next
  case (Cons p ps)
  show ?case
  proof (cases "p a")
    case (RAfter x)
    have fin: "finite {x. \<exists>p \<in> set ps. p a = RAfter x}"
      by (rule finite_surj [of "set ps" _ "\<lambda>p. case p a of RAfter x \<Rightarrow> x | RVStop \<Rightarrow> 0"]) (force simp: image_iff)+
    have eq: "{y. \<exists>q \<in> set (p # ps). q a = RAfter y} = insert x {y. \<exists>q \<in> set ps. q a = RAfter y}"
      using RAfter by auto
    have mx: "Max (insert (max w x) S) = Max (insert w (insert x S))" if "finite S" for S
      using that by (cases "S = {}") (auto simp: max.assoc)
    have "retry_and (RAfter w) (p a) = RAfter (max w x)" using RAfter by (simp add: max_def)
    then have "foldl (\<lambda>v p. retry_and v (p a)) (RAfter w) (p # ps) = foldl (\<lambda>v p. retry_and v (p a)) (RAfter (max w x)) ps"
      by (simp only: foldl_Cons)
    then show ?thesis unfolding eq mx [OF fin, symmetric] Cons.IH [of "max w x", symmetric] using RAfter
      by (metis (no_types, lifting) Cons.IH list.set_intros(2) retry_verdict.distinct(1) set_ConsD)
  next
    case RVStop
    have "foldl (\<lambda>v p. retry_and v (p a)) RVStop qs = RVStop" for qs by (induction qs) auto
    then show ?thesis using RVStop by simp
  qed
qed

section \<open>Properties\<close>

text \<open>
  Property C37. When the standard policy sends a request again: only if the body can be replayed,
  attempts remain, and the outcome is one it was configured to repeat; a server's \<open>Retry-After\<close> is
  a floor on the wait and is never cut down (a longer one than allowed, or an unreadable one,
  stops); the wait is at most the larger of the backoff maximum and the allowed \<open>Retry-After\<close>.
\<close>

theorem standard_decide_sound:
  assumes "backoff_ok (s_backoff s)" "standard_decide s out attempt jitter replayable = After d"
  shows "replayable \<and> (\<forall>l. max_attempts (s_backoff s) = Some l \<longrightarrow> attempt < l) \<and>
    (out = Unsent \<longrightarrow> retry_unsent s) \<and>
    (\<forall>c ra un. out = Status c ra un \<longrightarrow> statuses_contains (statuses s) c \<and> \<not> un \<and>
       (\<forall>a. ra = Some a \<longrightarrow> a \<le> d \<and> a \<le> max_retry_after s)) \<and>
    d \<le> max (bmax (s_backoff s)) (max_retry_after s)"
proof (intro conjI)
  obtain asked bo where h: "replayable" "standard_asked s out = Inr asked" "delay (s_backoff s) attempt jitter = Wait bo"
    "case asked of Some a \<Rightarrow> a \<le> max_retry_after s \<and> d = max a bo | None \<Rightarrow> d = bo"
    using assms(2) by (auto simp: standard_decide_def split: if_splits sum.splits delay_result.splits option.splits)
  have bo: "bo \<le> bmax (s_backoff s)" by (rule delay_wait_bound [OF assms(1) h(3)])
  show "replayable" by fact
  show "\<forall>l. max_attempts (s_backoff s) = Some l \<longrightarrow> attempt < l"
    using h(3) by (auto simp: delay_def Let_def split: if_splits)
  show "out = Unsent \<longrightarrow> retry_unsent s" using h(2) by (auto simp: standard_asked_def split: if_splits)
  show "\<forall>c ra un. out = Status c ra un \<longrightarrow> statuses_contains (statuses s) c \<and> \<not> un \<and>
      (\<forall>a. ra = Some a \<longrightarrow> a \<le> d \<and> a \<le> max_retry_after s)"
    using h(2,4) by (auto simp: standard_asked_def split: if_splits)
  show "d \<le> max (bmax (s_backoff s)) (max_retry_after s)"
    using h(4) bo by (auto split: option.splits)
qed

theorem standard_decide_sound_witness:
  "\<exists>d. standard_decide standard_transient (Status 503 (Some (from_secs 5)) False) 1 (FFin 0) True = After d \<and>
     from_secs 5 \<le> d"
proof -
  let ?s = standard_transient and ?o = "Status 503 (Some (from_secs 5)) False"
  have ok: "backoff_ok (s_backoff ?s)"
    by (simp add: backoff_ok_def standard_transient_def standard_default_def from_secs_def from_millis_def
        duration_max_def nanos_per_sec_def u64_max_def)
  obtain bo where "delay (s_backoff ?s) 1 (FFin 0) = Wait bo"
    using delay_closed [OF ok, of 1 "FFin 0"] by (auto simp: standard_transient_def standard_default_def)
  then obtain d where d: "standard_decide ?s ?o 1 (FFin 0) True = After d"
    by (auto simp: standard_decide_def standard_asked_def standard_transient_def standard_default_def
        statuses_contains_def from_secs_def nanos_per_sec_def)
  from standard_decide_sound [OF ok d] d show ?thesis by auto
qed

text \<open>
  The default policy is the safe retry: it never repeats a request a server answered,
  it never panics, and it repeats an unsent, replayable request exactly while fewer than three
  attempts have been made.
\<close>

theorem standard_default_safe:
  "(\<forall>c ra un. \<exists>r. standard_decide standard_default (Status c ra un) attempt jitter replayable = Stop r) \<and>
   ((\<exists>d. standard_decide standard_default Unsent attempt jitter replayable = After d) \<longleftrightarrow> replayable \<and> attempt < 3)"
proof -
  have ok: "backoff_ok (s_backoff standard_default)"
    by (simp add: backoff_ok_def standard_default_def from_secs_def from_millis_def
        duration_max_def nanos_per_sec_def u64_max_def)
  have at: "max_attempts (s_backoff standard_default) = Some 3" "retry_unsent standard_default"
    "statuses standard_default = NoStatuses" by (simp_all add: standard_default_def)
  show ?thesis
    using at by (auto simp: standard_decide_def standard_asked_def statuses_contains_def delay_closed [OF ok])
qed

text \<open>
  A chain of retry policies permits exactly when it is not empty and every member
  permits, and then waits the longest of the waits they asked for; so the order of the members is
  unobservable, and a longer chain never retries more.
\<close>

theorem retry_chain_spec:
  "retry_all ps a = RAfter d \<longleftrightarrow>
     ps \<noteq> [] \<and> (\<forall>p \<in> set ps. p a \<noteq> RVStop) \<and> d = Max {x. \<exists>p \<in> set ps. p a = RAfter x}"
proof (cases ps)
  case (Cons p qs)
  have start: "retry_all ps a = retry_all_loop True RVStop ps a" by (simp add: retry_all_def)
  show ?thesis
  proof (cases "p a")
    case (RAfter w)
    have "retry_all ps a = foldl (\<lambda>v p. retry_and v (p a)) (RAfter w) qs"
      using Cons RAfter retry_all_loop_False [of "RAfter w" qs a] by (simp add: retry_all_def Let_def)
    moreover have "{x. \<exists>p \<in> set ps. p a = RAfter x} = insert w {x. \<exists>p \<in> set qs. p a = RAfter x}"
      using Cons RAfter by auto
    ultimately show ?thesis using Cons RAfter retry_chain_after [of a w qs d] by simp
  next
    case RVStop
    then show ?thesis using Cons start by (simp add: Let_def)
  qed
qed (simp add: retry_all_def)

theorem retry_chain_spec_witness:
  "retry_all [safe_methods_only, \<lambda>_. RAfter 7]
     \<lparr>rt_method = ''GET'', rt_uri = demo_uri, rt_attempt = 1, rt_outcome = Unsent, rt_body_replayable = True,
      rt_jitter = FNaN\<rparr> = RAfter 7"
proof -
  let ?a = "\<lparr>rt_method = ''GET'', rt_uri = demo_uri, rt_attempt = 1, rt_outcome = Unsent, rt_body_replayable = True,
      rt_jitter = FNaN\<rparr>"
  have s: "{x. \<exists>p \<in> set [safe_methods_only, \<lambda>_. RAfter 7]. p ?a = RAfter x} = {0, 7}"
    by (auto simp: safe_methods_only_def retry_permit_def)
  show ?thesis
    using retry_chain_spec [of "[safe_methods_only, \<lambda>_. RAfter 7]" ?a 7] s
    by (simp add: safe_methods_only_def retry_permit_def)
qed

text \<open>
  The order of the members of a retry chain is unobservable.
\<close>

theorem retry_chain_order:
  assumes "mset ps = mset qs"
  shows "retry_all ps a = retry_all qs a"
proof -
  have "ps = [] \<longleftrightarrow> qs = []" using assms by auto
  then show ?thesis using retry.chain_permute [OF assms, of a retry_permit] by (simp add: retry_all_fold)
qed

theorem retry_chain_order_witness:
  "retry_all [safe_methods_only, \<lambda>_. RAfter 7] = retry_all [\<lambda>_. RAfter 7, safe_methods_only]"
proof (rule ext)
  have "mset [safe_methods_only, \<lambda>_. RAfter 7] = mset [\<lambda>_. RAfter 7, safe_methods_only]" by simp
  from retry_chain_order [OF this]
  show "retry_all [safe_methods_only, \<lambda>_. RAfter 7] a = retry_all [\<lambda>_. RAfter 7, safe_methods_only] a" for a .
qed

end
