(* ===== verification/Happy_Eyeballs.thy ===== *)
theory Happy_Eyeballs
  imports Std_Text
begin

text \<open>
  The Happy Eyeballs scheduler of \<open>crates/hclient-proto/src/happy_eyeballs.rs\<close>: a state machine fed
  with resolver answers and polled with the time elapsed on the caller's clock. \<open>started\<close> and the
  run length are \<open>usize\<close> counters of addresses handed out, \<open>nat\<close> here.
\<close>

section \<open>The model\<close>

record he_config =
  resolution_delay :: duration
  attempt_delay :: duration
  first_family_count :: nat

definition he_config_default :: he_config where
  "he_config_default =
     \<lparr>resolution_delay = from_millis 50, attempt_delay = from_millis 250, first_family_count = 1\<rparr>"

definition ATTEMPT_MIN :: duration where
  "ATTEMPT_MIN = from_millis 100"

definition ATTEMPT_MAX :: duration where
  "ATTEMPT_MAX = from_secs 2"

datatype he_action = Start ip_addr | HeWait duration | Exhausted | HePanic

record scheduler =
  cfg :: he_config
  v6 :: "ip_addr list"
  v4 :: "ip_addr list"
  v6_done :: bool
  v4_done :: bool
  started :: nat
  last_start :: "duration option"
  run_in_first_family :: nat

definition he_new :: "he_config \<Rightarrow> scheduler" where
  "he_new c =
     \<lparr>cfg = c\<lparr>attempt_delay := max ATTEMPT_MIN (min (attempt_delay c) ATTEMPT_MAX)\<rparr>,
      v6 = [], v4 = [], v6_done = False, v4_done = False, started = 0, last_start = None,
      run_in_first_family = 0\<rparr>"

definition offer_v6 :: "scheduler \<Rightarrow> ip_addr list \<Rightarrow> scheduler" where
  "offer_v6 s addrs = s\<lparr>v6 := v6 s @ addrs\<rparr>"

definition offer_v4 :: "scheduler \<Rightarrow> ip_addr list \<Rightarrow> scheduler" where
  "offer_v4 s addrs = s\<lparr>v4 := v4 s @ addrs\<rparr>"

definition mark_v6_done :: "scheduler \<Rightarrow> scheduler" where
  "mark_v6_done s = s\<lparr>v6_done := True\<rparr>"

definition mark_v4_done :: "scheduler \<Rightarrow> scheduler" where
  "mark_v4_done s = s\<lparr>v4_done := True\<rparr>"

definition take_v6 :: "scheduler \<Rightarrow> bool" where
  "take_v6 s =
     (if v6 s = [] then False
      else if v4 s = [] \<or> started s = 0 then True
      else run_in_first_family s < first_family_count (cfg s))"

text \<open>The pick at the end of \<open>poll\<close>, once no delay is pending.\<close>

definition he_pick :: "scheduler \<Rightarrow> duration \<Rightarrow> he_action \<times> scheduler" where
  "he_pick s elapsed =
     (let t6 = take_v6 s;
          (picked, s1) = (if t6 then (case v6 s of [] \<Rightarrow> (None, s) | a # r \<Rightarrow> (Some a, s\<lparr>v6 := r\<rparr>))
                          else (case v4 s of [] \<Rightarrow> (None, s) | a # r \<Rightarrow> (Some a, s\<lparr>v4 := r\<rparr>)))
      in case picked of
           None \<Rightarrow> (HeWait (resolution_delay (cfg s)), s1)
         | Some addr \<Rightarrow>
             (Start addr,
              s1\<lparr>started := started s1 + 1, last_start := Some elapsed,
                 run_in_first_family := (if t6 then run_in_first_family s1 + 1 else 0)\<rparr>))"

definition he_resolution :: "scheduler \<Rightarrow> duration \<Rightarrow> he_action \<times> scheduler" where
  "he_resolution s elapsed =
     (if v6 s = [] \<and> \<not> v6_done s \<and> elapsed < resolution_delay (cfg s)
      then (HeWait (resolution_delay (cfg s) - elapsed), s)
      else he_pick s elapsed)"

text \<open>\<open>last + attempt_delay\<close> is the panicking addition of two durations.\<close>

definition he_poll :: "scheduler \<Rightarrow> duration \<Rightarrow> he_action \<times> scheduler" where
  "he_poll s elapsed =
     (if v6 s = [] \<and> v4 s = [] \<and> v6_done s \<and> v4_done s then (Exhausted, s)
      else case last_start s of
        Some l \<Rightarrow>
          (let next_at = l + attempt_delay (cfg s) in
           if next_at > duration_max then (HePanic, s)
           else if elapsed < next_at then (HeWait (next_at - elapsed), s)
           else he_resolution s elapsed)
      | None \<Rightarrow> he_resolution s elapsed)"

section \<open>Traces\<close>

datatype he_event = OfferV6 "ip_addr list" | OfferV4 "ip_addr list" | MarkV6 | MarkV4 | Poll duration

fun he_step :: "scheduler \<Rightarrow> he_event \<Rightarrow> (duration \<times> he_action) list \<times> scheduler" where
  "he_step s (OfferV6 as) = ([], offer_v6 s as)"
| "he_step s (OfferV4 as) = ([], offer_v4 s as)"
| "he_step s MarkV6 = ([], mark_v6_done s)"
| "he_step s MarkV4 = ([], mark_v4_done s)"
| "he_step s (Poll t) = (case he_poll s t of (a, s') \<Rightarrow> ([(t, a)], s'))"

fun he_run :: "scheduler \<Rightarrow> he_event list \<Rightarrow> (duration \<times> he_action) list \<times> scheduler" where
  "he_run s [] = ([], s)"
| "he_run s (e # es) =
     (case he_step s e of (o1, s1) \<Rightarrow> case he_run s1 es of (o2, s2) \<Rightarrow> (o1 @ o2, s2))"

fun offered6 :: "he_event list \<Rightarrow> ip_addr list" where
  "offered6 [] = []"
| "offered6 (OfferV6 as # es) = as @ offered6 es"
| "offered6 (_ # es) = offered6 es"

fun offered4 :: "he_event list \<Rightarrow> ip_addr list" where
  "offered4 [] = []"
| "offered4 (OfferV4 as # es) = as @ offered4 es"
| "offered4 (_ # es) = offered4 es"

fun starts :: "(duration \<times> he_action) list \<Rightarrow> (duration \<times> ip_addr) list" where
  "starts [] = []"
| "starts ((t, Start a) # r) = (t, a) # starts r"
| "starts (_ # r) = starts r"

lemma starts_append: "starts (xs @ ys) = starts xs @ starts ys"
  by (induction xs rule: starts.induct) auto

lemma he_pick_v6:
  "take_v6 s \<Longrightarrow> v6 s = x # r \<Longrightarrow> he_pick s t = (Start x, s\<lparr>v6 := r, started := started s + 1,
     last_start := Some t, run_in_first_family := run_in_first_family s + 1\<rparr>)"
  by (simp add: he_pick_def)

lemma he_pick_v4:
  "\<not> take_v6 s \<Longrightarrow> v4 s = x # r \<Longrightarrow> he_pick s t = (Start x, s\<lparr>v4 := r, started := started s + 1,
     last_start := Some t, run_in_first_family := 0\<rparr>)"
  by (simp add: he_pick_def)

lemma he_pick_none: "v6 s = [] \<Longrightarrow> v4 s = [] \<Longrightarrow> he_pick s t = (HeWait (resolution_delay (cfg s)), s)"
  by (simp add: he_pick_def take_v6_def)

lemma pick_cases:
  obtains (six) x r where "take_v6 s" "v6 s = x # r" | (four) x r where "\<not> take_v6 s" "v4 s = x # r"
    | (none) "v6 s = []" "v4 s = []"
  by (cases "v6 s"; cases "v4 s"; cases "take_v6 s") (auto simp: take_v6_def)

text \<open>A poll picks an address, or leaves the state alone.\<close>

lemma he_poll_cases:
  assumes "he_poll s t = (a, s')"
  obtains (idle) "s' = s" "\<nexists>x. a = Start x"
    | (pick) "he_pick s t = (a, s')" "\<forall>l. last_start s = Some l \<longrightarrow> l + attempt_delay (cfg s) \<le> t"
        "v6 s = [] \<and> \<not> v6_done s \<longrightarrow> resolution_delay (cfg s) \<le> t"
proof (cases "he_pick s t = (a, s') \<and> (\<forall>l. last_start s = Some l \<longrightarrow> l + attempt_delay (cfg s) \<le> t) \<and>
    (v6 s = [] \<and> \<not> v6_done s \<longrightarrow> resolution_delay (cfg s) \<le> t)")
  case False
  then have "s' = s \<and> (\<nexists>x. a = Start x)"
    using assms by (auto simp: he_poll_def he_resolution_def Let_def split: if_splits option.splits)
  then show ?thesis using idle by blast
qed (use pick in blast)

section \<open>Every address is handed out once, in order\<close>

lemma he_run_conserves:
  assumes "he_run s es = (out, s')"
  shows "\<exists>t6 t4. map snd (starts out) \<in> shuffles t6 t4 \<and>
    v6 s @ offered6 es = t6 @ v6 s' \<and> v4 s @ offered4 es = t4 @ v4 s'"
  using assms
proof (induction es arbitrary: s out)
  case Nil
  then show ?case by simp
next
  case (Cons e es)
  obtain o1 s1 o2 where st: "he_step s e = (o1, s1)" and rn: "he_run s1 es = (o2, s')" and out: "out = o1 @ o2"
    using Cons.prems by (auto split: prod.splits)
  obtain t6 t4 where ih: "map snd (starts o2) \<in> shuffles t6 t4" "v6 s1 @ offered6 es = t6 @ v6 s'"
    "v4 s1 @ offered4 es = t4 @ v4 s'" using Cons.IH [OF rn] by blast
  show ?case
  proof (cases e)
    case (Poll t)
    then obtain a where po: "he_poll s t = (a, s1)" and o1: "o1 = [(t, a)]" using st by (auto split: prod.splits)
    from po show ?thesis
    proof (cases rule: he_poll_cases)
      case idle
      then have "starts (o1 @ o2) = starts o2" using o1 by (cases a) auto
      then show ?thesis using ih idle Poll out by auto
    next
      case pick
      show ?thesis
      proof (cases rule: pick_cases [of s])
        case (six x r)
        then have "a = Start x" "v6 s1 = r" "v4 s1 = v4 s" using pick(1) he_pick_v6 [of s x r t] by auto
        then show ?thesis using ih six(2) Poll out o1
          by (intro exI [of _ "x # t6"] exI [of _ t4]) (auto intro: Cons_in_shuffles_leftI)
      next
        case (four x r)
        then have "a = Start x" "v4 s1 = r" "v6 s1 = v6 s" using pick(1) he_pick_v4 [of s x r t] by auto
        then show ?thesis using ih four(2) Poll out o1
          by (intro exI [of _ t6] exI [of _ "x # t4"]) (auto intro: Cons_in_shuffles_rightI)
      next
        case none
        then have "starts (o1 @ o2) = starts o2" "s1 = s" using pick(1) he_pick_none [of s t] o1 by auto
        then show ?thesis using ih Poll out by auto
      qed
    qed
  qed (use st ih out in \<open>auto simp: offer_v6_def offer_v4_def mark_v6_done_def mark_v4_done_def\<close>)
qed

section \<open>Starts are spaced\<close>

lemma he_poll_cfg: "he_poll s t = (a, s') \<Longrightarrow> cfg s' = cfg s"
proof (erule he_poll_cases)
  assume "he_pick s t = (a, s')"
  then show "cfg s' = cfg s"
    by (cases rule: pick_cases [of s]) (auto simp: he_pick_v6 he_pick_v4 he_pick_none)
qed simp

lemma he_poll_start:
  assumes "he_poll s t = (Start a, s')"
  shows "last_start s' = Some t" "\<forall>l. last_start s = Some l \<longrightarrow> l + attempt_delay (cfg s) \<le> t"
  using assms
  by (cases rule: he_poll_cases; cases rule: pick_cases [of s]; auto simp: he_pick_v6 he_pick_v4 he_pick_none)+

lemma he_poll_no_start: "he_poll s t = (a, s') \<Longrightarrow> \<nexists>x. a = Start x \<Longrightarrow> s' = s"
proof (erule he_poll_cases)
  assume "he_pick s t = (a, s')" "\<nexists>x. a = Start x"
  then show "s' = s" by (cases rule: pick_cases [of s]) (auto simp: he_pick_v6 he_pick_v4 he_pick_none)
qed simp

lemma he_run_spaced:
  assumes "he_run s es = (out, s')"
  shows "sorted_wrt (\<lambda>x y. fst x + attempt_delay (cfg s) \<le> fst y) (starts out) \<and>
    (\<forall>l. last_start s = Some l \<longrightarrow> (\<forall>x \<in> set (starts out). l + attempt_delay (cfg s) \<le> fst x))"
  using assms
proof (induction es arbitrary: s out)
  case (Cons e es)
  obtain o1 s1 o2 where st: "he_step s e = (o1, s1)" and rn: "he_run s1 es = (o2, s')" and out: "out = o1 @ o2"
    using Cons.prems by (auto split: prod.splits)
  note ih = Cons.IH [OF rn]
  show ?case
  proof (cases e)
    case (Poll t)
    then obtain a where po: "he_poll s t = (a, s1)" and o1: "o1 = [(t, a)]" using st by (auto split: prod.splits)
    show ?thesis
    proof (cases "\<exists>x. a = Start x")
      case True
      then obtain x where a: "a = Start x" by blast
      show ?thesis using he_poll_start [OF po [unfolded a]] he_poll_cfg [OF po] ih out o1 a by fastforce
    next
      case False
      then have "starts (o1 @ o2) = starts o2" using o1 by (cases a) auto
      then show ?thesis using he_poll_no_start [OF po False] ih out by simp
    qed
  qed (use st ih out in \<open>fastforce simp: offer_v6_def offer_v4_def mark_v6_done_def mark_v4_done_def\<close>)+
qed simp

lemma he_new_delay: "ATTEMPT_MIN \<le> attempt_delay (cfg (he_new c)) \<and> attempt_delay (cfg (he_new c)) \<le> ATTEMPT_MAX"
  by (auto simp: he_new_def ATTEMPT_MIN_def ATTEMPT_MAX_def from_millis_def from_secs_def nanos_per_sec_def)

section \<open>Driving the scheduler to the end\<close>

text \<open>The caller's loop when no attempt succeeds: start what it is told, sleep what it is told.\<close>

fun he_drive :: "nat \<Rightarrow> duration \<Rightarrow> scheduler \<Rightarrow> (duration \<times> ip_addr) list \<times> bool" where
  "he_drive 0 t s = ([], False)"
| "he_drive (Suc n) t s =
     (case he_poll s t of
        (Start a, s') \<Rightarrow> (case he_drive n t s' of (r, fin) \<Rightarrow> ((t, a) # r, fin))
      | (HeWait d, s') \<Rightarrow> he_drive n (t + d) s'
      | (Exhausted, s') \<Rightarrow> ([], True)
      | (HePanic, s') \<Rightarrow> ([], False))"

fun timed :: "duration \<Rightarrow> duration \<Rightarrow> ip_addr list \<Rightarrow> (duration \<times> ip_addr) list" where
  "timed t d [] = []"
| "timed t d (a # as) = (t, a) # timed (t + d) d as"

abbreviation resolved :: "scheduler \<Rightarrow> bool" where
  "resolved s \<equiv> v6_done s \<and> v4_done s"

abbreviation remaining :: "scheduler \<Rightarrow> nat" where
  "remaining s \<equiv> length (v6 s) + length (v4 s)"

lemma he_drive_exhausted: "resolved s \<Longrightarrow> remaining s = 0 \<Longrightarrow> 0 < n \<Longrightarrow> he_drive n t s = ([], True)"
  by (cases n) (simp_all add: he_poll_def)

text \<open>What is left after a start goes out one attempt delay apart, alternating families.\<close>

definition he_order :: "scheduler \<Rightarrow> ip_addr list" where
  "he_order s = (if run_in_first_family s = 0 then splice (v6 s) (v4 s) else splice (v4 s) (v6 s))"

lemma he_order_pick:
  assumes "first_family_count (cfg s) = 1" "0 < started s" "remaining s \<noteq> 0" "he_pick s t = (a, s')"
  shows "\<exists>x. a = Start x \<and> he_order s = x # he_order s' \<and> remaining s = Suc (remaining s') \<and>
    last_start s' = Some t \<and> 0 < started s' \<and> cfg s' = cfg s \<and> v6_done s' = v6_done s \<and> v4_done s' = v4_done s"
proof (cases rule: pick_cases [of s])
  case (six x r)
  have "s' = s\<lparr>v6 := r, started := started s + 1, last_start := Some t, run_in_first_family := run_in_first_family s + 1\<rparr>"
    "a = Start x" using assms(4) he_pick_v6 [OF six, of t] by auto
  then show ?thesis using six assms by (cases "v4 s") (auto simp: he_order_def take_v6_def split: if_splits)
next
  case (four x r)
  have "s' = s\<lparr>v4 := r, started := started s + 1, last_start := Some t, run_in_first_family := 0\<rparr>" "a = Start x"
    using assms(4) he_pick_v4 [OF four, of t] by auto
  then show ?thesis using four assms by (cases "v6 s") (auto simp: he_order_def take_v6_def split: if_splits)
qed (use assms in simp)

lemma he_drive_order:
  assumes "resolved s" "first_family_count (cfg s) = 1" "0 < started s" "last_start s = Some t"
    and "0 < attempt_delay (cfg s)" "t + remaining s * attempt_delay (cfg s) \<le> duration_max" "2 * remaining s < n"
  shows "he_drive n t s = (timed (t + attempt_delay (cfg s)) (attempt_delay (cfg s)) (he_order s), True)"
  using assms
proof (induction "remaining s" arbitrary: s t n)
  case 0
  then show ?case by (simp add: he_drive_exhausted he_order_def)
next
  case (Suc m)
  let ?d = "attempt_delay (cfg s)"
  obtain k where n: "n = Suc (Suc k)" "2 * m < k" using Suc.hyps(2) Suc.prems(7) by (cases n; cases "n - 1") auto
  have r: "remaining s \<noteq> 0" using Suc.hyps(2) by linarith
  have "1 * ?d \<le> remaining s * ?d" using r by (intro mult_le_mono1) linarith
  then have le: "t + ?d \<le> duration_max" using Suc.prems(6) by linarith
  have w: "he_poll s t = (HeWait ?d, s)"
    using Suc.prems r le by (auto simp: he_poll_def Let_def)
  obtain a s' where p: "he_pick s (t + ?d) = (a, s')" by (cases "he_pick s (t + ?d)")
  have po: "he_poll s (t + ?d) = (a, s')"
    using Suc.prems r le p by (auto simp: he_poll_def he_resolution_def Let_def)
  obtain x where x: "a = Start x" "he_order s = x # he_order s'" "remaining s = Suc (remaining s')"
    "last_start s' = Some (t + ?d)" "0 < started s'" "cfg s' = cfg s" "resolved s'"
    using he_order_pick [OF Suc.prems(2,3) r p] Suc.prems(1) by auto
  have "he_drive k (t + ?d) s' = (timed (t + ?d + ?d) ?d (he_order s'), True)"
    using Suc.hyps(1) [of s' "t + ?d" k] x Suc.hyps(2) Suc.prems n by (simp add: algebra_simps)
  then show ?case using n w po x by simp
qed

section \<open>Waits\<close>

fun polls :: "he_event list \<Rightarrow> duration list" where
  "polls [] = []"
| "polls (Poll t # es) = t # polls es"
| "polls (_ # es) = polls es"

lemma he_poll_wait:
  assumes "he_poll s t = (HeWait d, s')" "\<forall>l. last_start s = Some l \<longrightarrow> l \<le> t"
  shows "d \<le> max (attempt_delay (cfg s)) (resolution_delay (cfg s))"
proof (cases "d = resolution_delay (cfg s) \<or> d = resolution_delay (cfg s) - t")
  case False
  obtain l where "last_start s = Some l" "d = l + attempt_delay (cfg s) - t"
    using assms(1) False
    by (cases rule: pick_cases [of s])
      (auto simp: he_poll_def he_resolution_def he_pick_v6 he_pick_v4 he_pick_none Let_def split: if_splits option.splits)
  then show ?thesis using assms(2) by auto
qed auto

lemma he_run_waits:
  assumes "he_run s es = (out, s')" "sorted (polls es)"
    and "\<forall>l. last_start s = Some l \<longrightarrow> (\<forall>t \<in> set (polls es). l \<le> t)"
  shows "\<forall>t d. (t, HeWait d) \<in> set out \<longrightarrow> d \<le> max (attempt_delay (cfg s)) (resolution_delay (cfg s))"
  using assms
proof (induction es arbitrary: s out)
  case (Cons e es)
  obtain o1 s1 o2 where st: "he_step s e = (o1, s1)" and rn: "he_run s1 es = (o2, s')" and out: "out = o1 @ o2"
    using Cons.prems by (auto split: prod.splits)
  show ?case
  proof (cases e)
    case (Poll t)
    then obtain a where po: "he_poll s t = (a, s1)" and o1: "o1 = [(t, a)]" using st by (auto split: prod.splits)
    have l: "\<forall>l. last_start s = Some l \<longrightarrow> l \<le> t" using Cons.prems(3) Poll by simp
    have "last_start s1 = Some t \<or> s1 = s" using he_poll_start(1) [of s t] he_poll_no_start [OF po] po by metis
    then have "\<forall>l. last_start s1 = Some l \<longrightarrow> (\<forall>t \<in> set (polls es). l \<le> t)" using Cons.prems Poll by auto
    from Cons.IH [OF rn _ this] show ?thesis
      using Cons.prems(2) Poll out o1 he_poll_cfg [OF po] he_poll_wait [OF _ l] po by auto
  qed (use st rn out Cons.prems Cons.IH [OF rn] in
      \<open>auto simp: offer_v6_def offer_v4_def mark_v6_done_def mark_v4_done_def\<close>)
qed simp

lemmas he_eval = he_new_def he_config_default_def ATTEMPT_MIN_def ATTEMPT_MAX_def from_millis_def from_secs_def
  nanos_per_sec_def duration_max_def u64_max_def offer_v6_def offer_v4_def mark_v6_done_def mark_v4_done_def
  he_poll_def he_resolution_def he_pick_def take_v6_def Let_def

section \<open>Properties\<close>

text \<open>
  Property C38. No address is lost, repeated or reordered: whatever the interleaving of resolver
  answers and polls, the attempts started are a merge of a prefix of the IPv6 answers with a prefix
  of the IPv4 answers, each in the order offered, and the rest of each is still queued; once a poll
  answers \<open>Exhausted\<close> nothing is queued, so every address offered was started exactly once.
\<close>

theorem he_starts_each_once:
  assumes "he_run (he_new c) es = (out, s)"
  shows "(\<exists>t6 t4. map snd (starts out) \<in> shuffles t6 t4 \<and> offered6 es = t6 @ v6 s \<and> offered4 es = t4 @ v4 s) \<and>
    (fst (he_poll s t) = Exhausted \<longrightarrow> map snd (starts out) \<in> shuffles (offered6 es) (offered4 es))"
proof (intro conjI)
  show conserve: "\<exists>t6 t4. map snd (starts out) \<in> shuffles t6 t4 \<and> offered6 es = t6 @ v6 s \<and> offered4 es = t4 @ v4 s"
    using he_run_conserves [OF assms] by (simp add: he_new_def)
  have "v6 s = [] \<and> v4 s = []" if "fst (he_poll s t) = Exhausted"
    using that by (cases rule: pick_cases [of s])
      (auto simp: he_poll_def he_resolution_def he_pick_v6 he_pick_v4 Let_def split: if_splits option.splits)
  then show "fst (he_poll s t) = Exhausted \<longrightarrow> map snd (starts out) \<in> shuffles (offered6 es) (offered4 es)"
    using conserve by auto
qed

theorem he_starts_each_once_witness:
  "map snd (starts (fst (he_run (he_new he_config_default)
      [OfferV4 [V4 [10, 0, 0, 1]], MarkV4, Poll 0, OfferV6 [V6 [1]], MarkV6, Poll 1, Poll (from_millis 300)])))
     \<in> shuffles [V6 [1]] [V4 [10, 0, 0, 1]]"
proof -
  let ?es = "[OfferV4 [V4 [10, 0, 0, 1]], MarkV4, Poll 0, OfferV6 [V6 [1]], MarkV6, Poll 1, Poll (from_millis 300)]"
  let ?r = "he_run (he_new he_config_default) ?es"
  have "he_run (he_new he_config_default) ?es = (fst ?r, snd ?r)" by simp
  moreover have "fst (he_poll (snd ?r) 0) = Exhausted" by (simp add: he_eval)
  ultimately show ?thesis using he_starts_each_once [of he_config_default ?es "fst ?r" "snd ?r" 0] by simp
qed

text \<open>
  Attempts are spaced: whatever the polls, any two starts are at least the effective
  Connection Attempt Delay apart, and that delay is within [100 ms, 2 s] whatever was configured.
\<close>

theorem he_starts_spaced:
  assumes "he_run (he_new c) es = (out, s)"
  shows "sorted_wrt (\<lambda>x y. fst x + attempt_delay (cfg (he_new c)) \<le> fst y) (starts out) \<and>
    from_millis 100 \<le> attempt_delay (cfg (he_new c)) \<and> attempt_delay (cfg (he_new c)) \<le> from_secs 2"
  using he_run_spaced [OF assms] he_new_delay [of c] by (simp_all add: ATTEMPT_MIN_def ATTEMPT_MAX_def)

theorem he_starts_spaced_witness:
  "sorted_wrt (\<lambda>x y. fst x + from_millis 250 \<le> fst y) (starts (fst (he_run (he_new he_config_default)
     [OfferV6 [V6 [1], V6 [2]], Poll 5, Poll 6, Poll (from_millis 251)])))"
proof -
  let ?es = "[OfferV6 [V6 [1], V6 [2]], Poll 5, Poll 6, Poll (from_millis 251)]"
  have d: "attempt_delay (cfg (he_new he_config_default)) = from_millis 250" by (simp add: he_eval)
  have "he_run (he_new he_config_default) ?es =
      (fst (he_run (he_new he_config_default) ?es), snd (he_run (he_new he_config_default) ?es))" by simp
  from he_starts_spaced [OF this] show ?thesis unfolding d by blast
qed

text \<open>
  Property C39. With both lookups finished the schedule is the one of RFC 8305: for a family count of
  one, a caller that sleeps as told starts the addresses alternating IPv6, IPv4, IPv6, and so on
  (the longer family's tail last), one attempt delay apart from the first poll on, and is then told
  that the list is exhausted, after at most two polls per address and one more. No clock value on
  the way overflows a \<open>Duration\<close>.
\<close>

theorem he_schedule_complete:
  assumes "first_family_count c = 1" "a6 \<noteq> []"
    and "t + (length a6 + length a4) * from_secs 2 \<le> duration_max"
    and "n = 2 * (length a6 + length a4) + 1"
  shows "he_drive n t (mark_v4_done (mark_v6_done (offer_v4 (offer_v6 (he_new c) a6) a4))) =
    (timed t (attempt_delay (cfg (he_new c))) (splice a6 a4), True)"
proof -
  let ?s = "mark_v4_done (mark_v6_done (offer_v4 (offer_v6 (he_new c) a6) a4))"
  let ?d = "attempt_delay (cfg (he_new c))"
  obtain x r where a6: "a6 = x # r" using assms(2) by (cases a6) auto
  let ?s1 = "?s\<lparr>v6 := r, started := 1, last_start := Some t, run_in_first_family := 1\<rparr>"
  have s: "v6 ?s = x # r" "v4 ?s = a4" "resolved ?s" "last_start ?s = None" "started ?s = 0" "cfg ?s = cfg (he_new c)"
    "run_in_first_family ?s = 0"
    by (simp_all add: mark_v4_done_def mark_v6_done_def offer_v4_def offer_v6_def he_new_def a6)
  have "take_v6 ?s" using s by (simp add: take_v6_def)
  from he_pick_v6 [OF this s(1), of t] have po: "he_poll ?s t = (Start x, ?s1)"
    using s by (simp add: he_poll_def he_resolution_def)
  have d: "0 < ?d" "?d \<le> from_secs 2"
    using he_new_delay [of c] by (auto simp: ATTEMPT_MIN_def ATTEMPT_MAX_def from_millis_def)
  have "t + (length r + length a4) * ?d \<le> t + (length a6 + length a4) * from_secs 2"
    using d(2) a6 by (intro add_left_mono mult_le_mono) auto
  then have le: "t + remaining ?s1 * attempt_delay (cfg ?s1) \<le> duration_max"
    using assms(3) s by simp
  have "2 * remaining ?s1 < 2 * (length a6 + length a4)" using s a6 by simp
  note dr = he_drive_order [of ?s1 t, OF _ _ _ _ _ le this]
  have c1: "first_family_count (cfg (he_new c)) = 1" using assms(1) by (simp add: he_new_def)
  have "he_drive (2 * (length a6 + length a4)) t ?s1 = (timed (t + ?d) ?d (splice a4 r), True)"
    using dr s d(1) c1 by (simp add: he_order_def)
  then show ?thesis using po assms(4) a6 by (cases a4) simp_all
qed

theorem he_schedule_complete_witness:
  "he_drive 7 0 (mark_v4_done (mark_v6_done (offer_v4 (offer_v6 (he_new he_config_default)
      [V6 [1], V6 [2]]) [V4 [3]]))) =
    ([(0, V6 [1]), (from_millis 250, V4 [3]), (from_millis 500, V6 [2])], True)"
proof -
  have d: "attempt_delay (cfg (he_new he_config_default)) = from_millis 250" by (simp add: he_eval)
  have h: "first_family_count he_config_default = 1" "[V6 [1], V6 [2]] \<noteq> []" "(7::nat) = 2 * (length [V6 [1], V6 [2]] + length [V4 [3]]) + 1"
    "0 + (length [V6 [1], V6 [2]] + length [V4 [3]]) * from_secs 2 \<le> duration_max"
    by (simp_all add: he_config_default_def duration_max_def from_secs_def nanos_per_sec_def u64_max_def)
  from he_schedule_complete [OF h(1,2,4,3)] show ?thesis unfolding d by (simp add: from_millis_def)
qed

text \<open>
  With a clock that does not run backwards, no answer asks for a wait longer than the
  larger of the attempt delay and the resolution delay.
\<close>

theorem he_waits_bounded:
  assumes "he_run (he_new c) es = (out, s)" "sorted (polls es)" "(t, HeWait d) \<in> set out"
  shows "d \<le> max (attempt_delay (cfg (he_new c))) (resolution_delay c)"
  using he_run_waits [OF assms(1,2)] assms(3) by (auto simp: he_new_def)

theorem he_waits_bounded_witness:
  "\<exists>d. (7, HeWait d) \<in> set (fst (he_run (he_new he_config_default) [OfferV4 [V4 [3]], Poll 7])) \<and>
     d \<le> max (attempt_delay (cfg (he_new he_config_default))) (from_millis 50)"
proof -
  let ?r = "he_run (he_new he_config_default) [OfferV4 [V4 [3]], Poll 7]"
  have "(7, HeWait 49999993) \<in> set (fst ?r)" by (simp add: he_eval)
  moreover have "?r = (fst ?r, snd ?r)" "sorted (polls [OfferV4 [V4 [3]], Poll 7])" by simp_all
  ultimately show ?thesis
    using he_waits_bounded [of he_config_default "[OfferV4 [V4 [3]], Poll 7]" "fst ?r" "snd ?r" 7 49999993]
    by (auto simp: he_config_default_def)
qed

section \<open>Where the comments and the code part\<close>

text \<open>
  \<open>poll\<close> is documented not to panic; the addition of the last start and the attempt delay does, when
  a start happened within one delay of the largest \<open>Duration\<close>.
\<close>

lemma he_poll_panics:
  "fst (he_poll (snd (he_poll (offer_v6 (he_new he_config_default) [V6 [1], V6 [2]]) duration_max)) duration_max) = HePanic"
  by (simp add: he_eval)

end
