(* ===== verification/Handshake.thy ===== *)
theory Handshake
  imports Std_Text
begin

text \<open>
  The handshake interface of \<open>crates/hclient-proxy/src/lib.rs\<close> and the driver of
  \<open>crates/hclient-proxy/src/drive.rs\<close>. A handshake is a state machine that consumes complete frames
  from the front of the driver's buffer; the locale states the contract its documentation gives to
  a driver, and shows once for every protocol that the exchange does not depend on how the reads
  cut the stream. Writes to the proxy succeed here; a failing one ends the exchange with its error.
\<close>

section \<open>The model\<close>

datatype step = Write bytes | NeedMore | Done

text \<open>One call of \<open>advance\<close>: the answer, the handshake after it, and what is left in the buffer.\<close>

type_synonym ('h, 'e) advance = "'h \<Rightarrow> bytes \<Rightarrow> ('e + step) \<times> 'h \<times> bytes"

text \<open>\<open>take(buf, n)\<close>: \<open>n\<close> bytes off the front, or nothing and the buffer untouched.\<close>

definition take_frame :: "bytes \<Rightarrow> nat \<Rightarrow> (bytes \<times> bytes) option" where
  "take_frame buf n = (if length buf \<ge> n then Some (take n buf, drop n buf) else None)"

text \<open>
  How an exchange ends: an open tunnel with what is left in the buffer and the reads not yet made,
  a refusal of the handshake, the end of the stream, or an exhausted step budget.
\<close>

datatype 'e drive_end = Tunnel bytes "bytes list" | Refused 'e | StreamEnded | OutOfSteps

text \<open>
  The loop of \<open>drive\<close>. The reads are a list, each what one \<open>read_some\<close> appended; an empty one, or
  no more of them, is the end of the stream.
\<close>

fun drive_loop :: "nat \<Rightarrow> ('h, 'e) advance \<Rightarrow> 'h \<Rightarrow> bytes \<Rightarrow> bytes list \<Rightarrow> bytes list \<times> 'e drive_end" where
  "drive_loop 0 adv h buf reads = ([], OutOfSteps)"
| "drive_loop (Suc n) adv h buf reads =
     (case adv h buf of
        (Inl e, h', buf') \<Rightarrow> ([], Refused e)
      | (Inr Done, h', buf') \<Rightarrow> ([], Tunnel buf' reads)
      | (Inr (Write w), h', buf') \<Rightarrow>
          (case drive_loop n adv h' buf' reads of (ws, r) \<Rightarrow> (w # ws, r))
      | (Inr NeedMore, h', buf') \<Rightarrow>
          (case reads of
             [] \<Rightarrow> ([], StreamEnded)
           | c # cs \<Rightarrow> if c = [] then ([], StreamEnded) else drive_loop n adv h' (buf' @ c) cs))"

definition drive ::
  "nat \<Rightarrow> ('h \<Rightarrow> bytes \<Rightarrow> nat \<Rightarrow> 'e + (bytes \<times> 'h)) \<Rightarrow> ('h, 'e) advance \<Rightarrow> 'h \<Rightarrow> bytes \<Rightarrow> nat \<Rightarrow> bytes list \<Rightarrow>
     bytes list \<times> 'e drive_end" where
  "drive n begin_h adv h host port reads =
     (case begin_h h host port of
        Inl e \<Rightarrow> ([], Refused e)
      | Inr (first, h1) \<Rightarrow> (case drive_loop n adv h1 [] reads of (ws, r) \<Rightarrow> (first # ws, r)))"

text \<open>\<open>drive_exact\<close> refuses bytes that came with the last read of the handshake.\<close>

datatype 'e exact_end = Opened "bytes list" | ProxySpokeFirst nat | ExactRefused 'e | ExactEnded | ExactSteps

definition drive_exact_end :: "'e drive_end \<Rightarrow> 'e exact_end" where
  "drive_exact_end r =
     (case r of
        Tunnel left reads \<Rightarrow> if left = [] then Opened reads else ProxySpokeFirst (length left)
      | Refused e \<Rightarrow> ExactRefused e
      | StreamEnded \<Rightarrow> ExactEnded
      | OutOfSteps \<Rightarrow> ExactSteps)"

section \<open>The reference: the whole stream at once\<close>

datatype 'e settled = Open bytes | Refusal 'e | Starved | NoSteps

fun settle :: "nat \<Rightarrow> ('h, 'e) advance \<Rightarrow> 'h \<Rightarrow> bytes \<Rightarrow> bytes list \<times> 'e settled" where
  "settle 0 adv h s = ([], NoSteps)"
| "settle (Suc n) adv h s =
     (case adv h s of
        (Inl e, h', s') \<Rightarrow> ([], Refusal e)
      | (Inr Done, h', s') \<Rightarrow> ([], Open s')
      | (Inr NeedMore, h', s') \<Rightarrow> ([], Starved)
      | (Inr (Write w), h', s') \<Rightarrow> (case settle n adv h' s' of (ws, r) \<Rightarrow> (w # ws, r)))"

lemma settle_write:
  "adv h s = (Inr (Write w), h', s') \<Longrightarrow>
     settle (Suc n) adv h s = (ws, r) \<longleftrightarrow> (\<exists>ws'. ws = w # ws' \<and> settle n adv h' s' = (ws', r))"
  by (auto split: prod.splits)

lemma settle_stuck:
  "adv h s = (r, h', s') \<Longrightarrow> r = Inr NeedMore \<or> (\<exists>e. r = Inl e) \<Longrightarrow> settle (Suc n) adv h s \<noteq> (ws, Open left)"
  by auto

definition settled_of :: "'e drive_end \<Rightarrow> 'e settled" where
  "settled_of r =
     (case r of
        Tunnel left reads \<Rightarrow> Open (left @ concat reads) | Refused e \<Rightarrow> Refusal e
      | StreamEnded \<Rightarrow> Starved | OutOfSteps \<Rightarrow> NoSteps)"

section \<open>The contract\<close>

text \<open>A handshake may bound the length of a frame; \<open>fits\<close> says of a stream that it does not run into the bound.\<close>

locale handshake =
  fixes adv :: "('h, 'e) advance" and writes_left :: "'h \<Rightarrow> nat" and fits :: "bytes \<Rightarrow> bool"
  assumes need_more: "adv h b = (Inr NeedMore, h', b') \<Longrightarrow> h' = h \<and> b' = b"
    and front_only: "adv h b = (Inr s, h', b') \<Longrightarrow> suffix b' b"
    and more_bytes: "adv h b = (r, h', b') \<Longrightarrow> r \<noteq> Inr NeedMore \<Longrightarrow> fits (b @ x) \<Longrightarrow> adv h (b @ x) = (r, h', b' @ x)"
    and fits_rest: "fits (p @ b) \<Longrightarrow> fits b"
    and progress: "adv h b = (Inr (Write w), h', b') \<Longrightarrow> writes_left h' < writes_left h"
begin

text \<open>Reading in pieces settles as the whole stream does.\<close>

lemma drive_settles:
  assumes "\<forall>c \<in> set reads. c \<noteq> []" "writes_left h + length reads < n" "writes_left h < m" "fits (buf @ concat reads)"
  shows "settle m adv h (buf @ concat reads) =
    (fst (drive_loop n adv h buf reads), settled_of (snd (drive_loop n adv h buf reads)))"
  using assms
proof (induction n arbitrary: h buf reads m)
  case (Suc n)
  obtain k where m: "m = Suc k" using Suc.prems(3) by (cases m) auto
  obtain r h' b' where a: "adv h buf = (r, h', b')" by (metis surj_pair)
  note more = more_bytes [OF a _ Suc.prems(4)]
  show ?case
  proof (cases r)
    case (Inl e)
    then show ?thesis using a m more by (simp add: settled_of_def)
  next
    case (Inr st)
    show ?thesis
    proof (cases st)
      case (Write w)
      have "writes_left h' < writes_left h" using a Inr Write progress by blast
      moreover obtain q where "buf = q @ b'" using front_only [of h buf st h' b'] a Inr by (auto simp: suffix_def)
      then have "fits (b' @ concat reads)" using Suc.prems(4) fits_rest [of q] by simp
      ultimately have "settle k adv h' (b' @ concat reads) =
          (fst (drive_loop n adv h' b' reads), settled_of (snd (drive_loop n adv h' b' reads)))"
        using Suc.prems m by (intro Suc.IH) auto
      then show ?thesis using a Inr Write m more by (simp split: prod.splits)
    next
      case Done
      then show ?thesis using a Inr m more by (simp add: settled_of_def)
    next
      case NeedMore
      then have nm: "adv h buf = (Inr NeedMore, h, buf)" using a Inr need_more by blast
      show ?thesis
      proof (cases reads)
        case Nil
        then show ?thesis using nm m by (simp add: settled_of_def)
      next
        case (Cons c cs)
        then have "settle m adv h ((buf @ c) @ concat cs) =
            (fst (drive_loop n adv h (buf @ c) cs), settled_of (snd (drive_loop n adv h (buf @ c) cs)))"
          using Suc.prems by (intro Suc.IH) auto
        then show ?thesis using nm Cons Suc.prems(1) by simp
      qed
    qed
  qed
qed simp

text \<open>So it never depends on how the stream was cut, and the driver never runs out of steps.\<close>

lemma drive_total:
  assumes "\<forall>c \<in> set reads. c \<noteq> []" "writes_left h + length reads < n"
  shows "snd (drive_loop n adv h buf reads) \<noteq> OutOfSteps"
  using assms
proof (induction n arbitrary: h buf reads)
  case (Suc n)
  obtain r h' b' where a: "adv h buf = (r, h', b')" by (metis surj_pair)
  show ?case
  proof (cases r)
    case (Inr st)
    show ?thesis
    proof (cases st)
      case (Write w)
      then have "writes_left h' < writes_left h" using a Inr progress by blast
      then show ?thesis using Suc.IH [of reads h' b'] Suc.prems a Inr Write by (auto split: prod.splits)
    next
      case NeedMore
      then show ?thesis using Suc.IH [of "tl reads" h' "b' @ hd reads"] need_more [of h buf h' b'] Suc.prems a Inr
        by (cases reads) auto
    qed (use a Inr in simp)
  qed (use a in simp)
qed simp

lemma drive_cut_independent:
  assumes "\<forall>c \<in> set reads. c \<noteq> []" "\<forall>c \<in> set reads'. c \<noteq> []" "concat reads = concat reads'"
    and "writes_left h + length reads < n" "writes_left h + length reads' < n'"
    and "fits (buf @ concat reads)"
  shows "fst (drive_loop n adv h buf reads) = fst (drive_loop n' adv h buf reads') \<and>
    settled_of (snd (drive_loop n adv h buf reads)) = settled_of (snd (drive_loop n' adv h buf reads'))"
  using drive_settles [OF assms(1,4), of "Suc (writes_left h)" buf]
    drive_settles [OF assms(2,5), of "Suc (writes_left h)" buf] assms(3,6) by simp

text \<open>Nothing but the front of the stream is consumed.\<close>

lemma settle_front: "settle m adv h s = (ws, Open left) \<Longrightarrow> suffix left s"
proof (induction m arbitrary: h s ws)
  case (Suc m)
  obtain r h' s' where a: "adv h s = (r, h', s')" by (metis surj_pair)
  obtain st where st: "r = Inr st" using Suc.prems a by (cases r) auto
  have "suffix s' s" using a st front_only by blast
  then show ?case using Suc.prems Suc.IH [of h' s'] a st
    by (cases st) (auto split: prod.splits intro: suffix_order.trans)
qed simp

end

end
