(* ===== verification/Socks.thy ===== *)
theory Socks
  imports Handshake
begin

text \<open>
  The SOCKS4a and SOCKS5 handshakes, \<open>crates/hclient-proxy/src/socks4.rs\<close> and \<open>socks5.rs\<close> (the latter
  with the username and password exchange of RFC 1929). A \<open>u8\<close> written with \<open>as\<close> is truncated to its
  low eight bits, as \<open>char_of\<close> does; a port is below 65536.
\<close>

section \<open>SOCKS4a\<close>

record socks4 =
  userid :: bytes
  awaiting_reply :: bool

datatype socks4_error =
    NulInUserid
  | BadReplyVersion byte
  | S4HostTooLong nat
  | NulInHost
  | Socks4Refused byte

definition u8 :: "nat \<Rightarrow> byte" where
  "u8 n = char_of n"

definition put_u16 :: "nat \<Rightarrow> bytes" where
  "put_u16 p = [u8 (p div 256), u8 (p mod 256)]"

definition SOCKS4_GRANTED :: byte where
  "SOCKS4_GRANTED = u8 90"

definition socks4_new :: socks4 where
  "socks4_new = \<lparr>userid = [], awaiting_reply = False\<rparr>"

definition socks4_userid :: "socks4 \<Rightarrow> bytes \<Rightarrow> socks4_error + socks4" where
  "socks4_userid h uid = (if u8 0 \<in> set uid then Inl NulInUserid else Inr (h\<lparr>userid := uid\<rparr>))"

definition socks4_begin :: "socks4 \<Rightarrow> bytes \<Rightarrow> nat \<Rightarrow> socks4_error + (bytes \<times> socks4)" where
  "socks4_begin h host port =
     (if u8 0 \<in> set host then Inl NulInHost
      else if length host > 255 then Inl (S4HostTooLong (length host))
      else Inr ([u8 4, u8 1] @ put_u16 port @ [u8 0, u8 0, u8 0, u8 1] @ userid h @ [u8 0] @ host @ [u8 0],
                h\<lparr>awaiting_reply := True\<rparr>))"

definition socks4_advance :: "(socks4, socks4_error) advance" where
  "socks4_advance h buf =
     (if \<not> awaiting_reply h then (Inr Done, h, buf)
      else case take_frame buf 8 of
        None \<Rightarrow> (Inr NeedMore, h, buf)
      | Some (reply, rest) \<Rightarrow>
          if reply ! 0 \<noteq> u8 0 then (Inl (BadReplyVersion (reply ! 0)), h, rest)
          else if reply ! 1 \<noteq> SOCKS4_GRANTED then (Inl (Socks4Refused (reply ! 1)), h, rest)
          else (Inr Done, h\<lparr>awaiting_reply := False\<rparr>, rest))"

section \<open>SOCKS5\<close>

datatype socks5_state = Fresh | AwaitingMethod | AwaitingAuthReply | AwaitingReply | SDone

record socks5 =
  auth :: "(bytes \<times> bytes) option"
  sstate :: socks5_state
  offered :: bytes
  srequest :: bytes
  udp :: bool

datatype socks5_error =
    NoAcceptableMethods
  | UnofferedMethod byte
  | BadCredentials
  | BadVersion byte
  | BadAddressType byte
  | HostTooLong nat
  | CredentialTooLong
  | Socks5Refused byte
  | NoCredentials  \<comment> \<open>the \<open>expect\<close> on the credentials fails\<close>

definition SOCKS5_VERSION :: byte where "SOCKS5_VERSION = u8 5"
definition METHOD_NONE :: byte where "METHOD_NONE = u8 0"
definition METHOD_PASSWORD :: byte where "METHOD_PASSWORD = u8 2"
definition METHOD_UNACCEPTABLE :: byte where "METHOD_UNACCEPTABLE = u8 255"

definition socks5_new :: socks5 where
  "socks5_new = \<lparr>auth = None, sstate = Fresh, offered = [], srequest = [], udp = False\<rparr>"

definition socks5_password_auth :: "socks5 \<Rightarrow> bytes \<Rightarrow> bytes \<Rightarrow> socks5_error + socks5" where
  "socks5_password_auth h user password =
     (if length user > 255 \<or> length password > 255 then Inl CredentialTooLong
      else Inr (h\<lparr>auth := Some (user, password)\<rparr>))"

definition socks5_connect_request :: "bytes \<Rightarrow> nat \<Rightarrow> bytes" where
  "socks5_connect_request host port =
     [SOCKS5_VERSION, u8 1, u8 0, u8 3] @ [u8 (length host)] @ host @ put_u16 port"

definition socks5_begin :: "socks5 \<Rightarrow> bytes \<Rightarrow> nat \<Rightarrow> socks5_error + (bytes \<times> socks5)" where
  "socks5_begin h host port =
     (if length host > 255 then Inl (HostTooLong (length host))
      else let off = (if auth h \<noteq> None then [METHOD_PASSWORD, METHOD_NONE] else [METHOD_NONE]) in
        Inr ([SOCKS5_VERSION, u8 (length off)] @ off,
             h\<lparr>srequest := socks5_connect_request host port, offered := off, sstate := AwaitingMethod\<rparr>))"

definition auth_message :: "bytes \<Rightarrow> bytes \<Rightarrow> bytes" where
  "auth_message user password = [u8 1, u8 (length user)] @ user @ [u8 (length password)] @ password"

definition socks5_method :: "socks5 \<Rightarrow> bytes \<Rightarrow> bytes \<Rightarrow> (socks5_error + step) \<times> socks5 \<times> bytes" where
  "socks5_method h chosen rest =
     (if chosen ! 0 \<noteq> SOCKS5_VERSION then (Inl (BadVersion (chosen ! 0)), h, rest)
      else if chosen ! 1 = METHOD_UNACCEPTABLE then (Inl NoAcceptableMethods, h, rest)
      else if chosen ! 1 \<notin> set (offered h) then (Inl (UnofferedMethod (chosen ! 1)), h, rest)
      else if chosen ! 1 = METHOD_PASSWORD then
        (case auth h of
           None \<Rightarrow> (Inl NoCredentials, h, rest)
         | Some (user, password) \<Rightarrow>
             (Inr (Write (auth_message user password)), h\<lparr>sstate := AwaitingAuthReply\<rparr>, rest))
      else (Inr (Write (srequest h)), h\<lparr>sstate := AwaitingReply\<rparr>, rest))"

text \<open>The length of the address in a reply, once it can be told from what has arrived.\<close>

definition reply_addr_len :: "bytes \<Rightarrow> socks5_error + nat option" where
  "reply_addr_len buf =
     (if buf ! 3 = u8 1 then Inr (Some 4)
      else if buf ! 3 = u8 4 then Inr (Some 16)
      else if buf ! 3 = u8 3 then (if length buf < 5 then Inr None else Inr (Some (byte_val (buf ! 4) + 1)))
      else Inl (BadAddressType (buf ! 3)))"

definition socks5_reply :: "socks5 \<Rightarrow> bytes \<Rightarrow> (socks5_error + step) \<times> socks5 \<times> bytes" where
  "socks5_reply h buf =
     (if length buf < 4 then (Inr NeedMore, h, buf)
      else if buf ! 0 \<noteq> SOCKS5_VERSION then (Inl (BadVersion (buf ! 0)), h, buf)
      else if buf ! 1 \<noteq> u8 0 then (Inl (Socks5Refused (buf ! 1)), h, buf)
      else case reply_addr_len buf of
        Inl e \<Rightarrow> (Inl e, h, buf)
      | Inr None \<Rightarrow> (Inr NeedMore, h, buf)
      | Inr (Some addr_len) \<Rightarrow>
          (let total = 4 + addr_len + 2 in
           if length buf < total then (Inr NeedMore, h, buf)
           else (Inr Done, h\<lparr>sstate := SDone\<rparr>, drop total buf)))"

definition socks5_advance :: "(socks5, socks5_error) advance" where
  "socks5_advance h buf =
     (case sstate h of
        Fresh \<Rightarrow> (Inr NeedMore, h, buf)
      | SDone \<Rightarrow> (Inr Done, h, buf)
      | AwaitingMethod \<Rightarrow>
          (case take_frame buf 2 of None \<Rightarrow> (Inr NeedMore, h, buf) | Some (chosen, rest) \<Rightarrow> socks5_method h chosen rest)
      | AwaitingAuthReply \<Rightarrow>
          (case take_frame buf 2 of
             None \<Rightarrow> (Inr NeedMore, h, buf)
           | Some (reply, rest) \<Rightarrow>
               if reply ! 1 \<noteq> u8 0 then (Inl BadCredentials, h, rest)
               else (Inr (Write (srequest h)), h\<lparr>sstate := AwaitingReply\<rparr>, rest))
      | AwaitingReply \<Rightarrow> socks5_reply h buf)"

section \<open>Both keep the contract\<close>

lemma take_frame_append: "take_frame b n = Some (f, r) \<Longrightarrow> take_frame (b @ x) n = Some (f, r @ x)"
  by (auto simp: take_frame_def split: if_splits)

lemma take_frame_suffix: "take_frame b n = Some (f, r) \<Longrightarrow> suffix r b"
  by (auto simp: take_frame_def suffix_drop split: if_splits)

interpretation s4: handshake socks4_advance "\<lambda>_. 0" "\<lambda>_. True"
proof
  fix h h' :: socks4 and b b' x :: bytes and w and s and r
  show "h' = h \<and> b' = b" if "socks4_advance h b = (Inr NeedMore, h', b')"
    using that by (auto simp: socks4_advance_def split: if_splits option.splits prod.splits)
  show "suffix b' b" if "socks4_advance h b = (Inr s, h', b')"
    using that by (auto simp: socks4_advance_def split: if_splits option.splits prod.splits dest: take_frame_suffix)
  show "socks4_advance h (b @ x) = (r, h', b' @ x)" if "socks4_advance h b = (r, h', b')" "r \<noteq> Inr NeedMore"
    using that take_frame_append [of b 8] by (auto simp: socks4_advance_def split: if_splits option.splits)
  show "(0::nat) < 0" if "socks4_advance h b = (Inr (Write w), h', b')"
    using that by (auto simp: socks4_advance_def split: if_splits option.splits prod.splits)
qed

definition socks5_writes_left :: "socks5 \<Rightarrow> nat" where
  "socks5_writes_left h = (case sstate h of AwaitingMethod \<Rightarrow> 2 | AwaitingAuthReply \<Rightarrow> 1 | _ \<Rightarrow> 0)"

lemma socks5_method_frame:
  assumes "socks5_method h chosen rest = (r, h', b')"
  shows "b' = rest" "socks5_method h chosen rest2 = (r, h', rest2)" "r \<noteq> Inr NeedMore"
    "r = Inr (Write w) \<Longrightarrow> sstate h' \<in> {AwaitingAuthReply, AwaitingReply}"
  using assms by (auto simp: socks5_method_def split: if_splits option.splits)

lemma reply_addr_len_append:
  assumes "4 \<le> length b" "reply_addr_len b \<noteq> Inr None"
  shows "reply_addr_len (b @ x) = reply_addr_len b"
proof -
  have n: "(b @ x) ! 3 = b ! 3" using assms(1) by (simp add: nth_append)
  show ?thesis
  proof (cases "length b < 5")
    case True
    then show ?thesis using n assms(2) by (auto simp: reply_addr_len_def split: if_splits)
  next
    case False
    then have "(b @ x) ! 4 = b ! 4" by (simp add: nth_append)
    then show ?thesis using n False by (simp add: reply_addr_len_def)
  qed
qed

text \<open>A reply whose four fixed bytes are there and grant the request.\<close>

definition reply_granted :: "bytes \<Rightarrow> bool" where
  "reply_granted b \<longleftrightarrow> 4 \<le> length b \<and> b ! 0 = SOCKS5_VERSION \<and> b ! 1 = u8 0"

lemma socks5_reply_granted:
  "reply_granted b \<Longrightarrow> socks5_reply h b =
     (case reply_addr_len b of Inl e \<Rightarrow> (Inl e, h, b) | Inr None \<Rightarrow> (Inr NeedMore, h, b)
      | Inr (Some n) \<Rightarrow> if length b < n + 6 then (Inr NeedMore, h, b) else (Inr Done, h\<lparr>sstate := SDone\<rparr>, drop (n + 6) b))"
  by (auto simp: socks5_reply_def reply_granted_def Let_def add.commute split: sum.splits option.splits)

lemma socks5_reply_append:
  assumes "socks5_reply h b = (r, h', b')" "r \<noteq> Inr NeedMore"
  shows "socks5_reply h (b @ x) = (r, h', b' @ x)"
proof -
  have l: "4 \<le> length b" using assms by (auto simp: socks5_reply_def split: if_splits)
  have n: "(b @ x) ! 0 = b ! 0" "(b @ x) ! 1 = b ! 1" using l by (auto simp: nth_append)
  show ?thesis
  proof (cases "reply_granted b")
    case True
    then have g: "reply_granted (b @ x)" using n by (simp add: reply_granted_def)
    have a: "reply_addr_len b \<noteq> Inr None" using assms True by (auto simp: socks5_reply_granted)
    show ?thesis
      using assms socks5_reply_granted [OF True, of h] socks5_reply_granted [OF g, of h]
        reply_addr_len_append [OF l a, of x]
      by (auto split: sum.splits option.splits if_splits)
  next
    case False
    then show ?thesis using assms l n by (auto simp: socks5_reply_def reply_granted_def split: if_splits)
  qed
qed

lemma socks5_reply_frame:
  assumes "socks5_reply h b = (r, h', b')"
  shows "suffix b' b" "r = Inr NeedMore \<Longrightarrow> h' = h \<and> b' = b" "r \<noteq> Inr (Write w)"
  using assms
  by (auto simp: socks5_reply_def Let_def suffix_drop split: if_splits sum.splits option.splits)

interpretation s5: handshake socks5_advance socks5_writes_left "\<lambda>_. True"
proof
  fix h h' :: socks5 and b b' x :: bytes and w and s and r
  show "h' = h \<and> b' = b" if "socks5_advance h b = (Inr NeedMore, h', b')"
    using that socks5_method_frame(3) socks5_reply_frame(2)
    by (fastforce simp: socks5_advance_def split: socks5_state.splits option.splits if_splits)
  show "suffix b' b" if "socks5_advance h b = (Inr s, h', b')"
    using that socks5_method_frame(1) socks5_reply_frame(1) take_frame_suffix
    by (fastforce simp: socks5_advance_def split: socks5_state.splits option.splits if_splits)
  show "socks5_advance h (b @ x) = (r, h', b' @ x)" if a: "socks5_advance h b = (r, h', b')" "r \<noteq> Inr NeedMore"
  proof (cases "sstate h")
    case AwaitingMethod
    then obtain c rest where t: "take_frame b 2 = Some (c, rest)" "socks5_method h c rest = (r, h', b')"
      using a by (auto simp: socks5_advance_def split: option.splits)
    show ?thesis using AwaitingMethod take_frame_append [OF t(1), of x] socks5_method_frame(1,2) [OF t(2)]
      by (simp add: socks5_advance_def)
  next
    case AwaitingAuthReply
    then obtain c rest where t: "take_frame b 2 = Some (c, rest)" using a by (auto simp: socks5_advance_def split: option.splits)
    show ?thesis using AwaitingAuthReply a t take_frame_append [OF t, of x]
      by (auto simp: socks5_advance_def split: if_splits)
  next
    case AwaitingReply
    then show ?thesis using a socks5_reply_append by (simp add: socks5_advance_def)
  qed (use a in \<open>auto simp: socks5_advance_def\<close>)
  show "socks5_writes_left h' < socks5_writes_left h" if a: "socks5_advance h b = (Inr (Write w), h', b')"
  proof (cases "sstate h")
    case AwaitingMethod
    then obtain c rest where t: "socks5_method h c rest = (Inr (Write w), h', b')"
      using a by (auto simp: socks5_advance_def split: option.splits)
    show ?thesis using AwaitingMethod socks5_method_frame(4) [OF t refl] by (auto simp: socks5_writes_left_def)
  next
    case AwaitingReply
    then show ?thesis using a socks5_reply_frame(3) [of h b "Inr (Write w)" h' b' w] by (simp add: socks5_advance_def)
  qed (use a in \<open>auto simp: socks5_advance_def socks5_writes_left_def split: option.splits if_splits\<close>)
qed

section \<open>What opens a SOCKS5 tunnel\<close>

text \<open>The address field of a reply, by its type: IPv4, IPv6, or a length byte and a name.\<close>

definition addr_field :: "byte \<Rightarrow> bytes \<Rightarrow> bool" where
  "addr_field atyp a \<longleftrightarrow> (atyp = u8 1 \<and> length a = 4) \<or> (atyp = u8 4 \<and> length a = 16) \<or>
     (atyp = u8 3 \<and> (\<exists>k name. a = k # name \<and> length name = byte_val k))"

definition granting_reply :: "bytes \<Rightarrow> bool" where
  "granting_reply e \<longleftrightarrow> (\<exists>rsv atyp a p1 p2. e = [SOCKS5_VERSION, u8 0, rsv, atyp] @ a @ [p1, p2] \<and> addr_field atyp a)"

lemma u8_inj: "a < 256 \<Longrightarrow> b < 256 \<Longrightarrow> u8 a = u8 b \<longleftrightarrow> a = b"
  by (metis (no_types, lifting) mod_less of_char_of u8_def)

lemma byte_val_u8: "n < 256 \<Longrightarrow> byte_val (u8 n) = n"
  by (simp add: byte_val_def u8_def)

lemma addr_field_len:
  assumes "addr_field atyp a"
  shows "reply_addr_len ([v, z, rsv, atyp] @ a @ x) = Inr (Some (length a))"
  using assms by (auto simp: addr_field_def reply_addr_len_def u8_inj numeral_eq_Suc)

lemma reply_done:
  "socks5_reply h s = (Inr Done, h', left) \<longleftrightarrow> (\<exists>e. granting_reply e \<and> s = e @ left) \<and> h' = h\<lparr>sstate := SDone\<rparr>"
proof
  assume d: "socks5_reply h s = (Inr Done, h', left)"
  then have g: "reply_granted s" by (auto simp: socks5_reply_def reply_granted_def split: if_splits)
  then obtain n where n: "reply_addr_len s = Inr (Some n)" "n + 6 \<le> length s" "left = drop (n + 6) s"
    "h' = h\<lparr>sstate := SDone\<rparr>"
    using d by (auto simp: socks5_reply_granted split: sum.splits option.splits if_splits)
  obtain rsv atyp t where s: "s = [SOCKS5_VERSION, u8 0, rsv, atyp] @ t"
  proof -
    have "s = [s ! 0, s ! 1, s ! 2, s ! 3] @ drop 4 s"
      using g by (intro nth_equalityI) (auto simp: reply_granted_def nth_append nth_Cons numeral_eq_Suc split: nat.splits)
    then show ?thesis using that g by (metis reply_granted_def)
  qed
  let ?a = "take n t"
  have t: "n + 2 \<le> length t" using n(2) s by simp
  obtain p1 p2 where p: "drop n t = [p1, p2] @ drop (n + 2) t"
  proof -
    have "drop n t = t ! n # t ! Suc n # drop (Suc (Suc n)) t" using t by (metis Cons_nth_drop_Suc add_2_eq_Suc' less_eq_Suc_le Suc_leD)
    then show ?thesis using that by simp
  qed
  have at: "s ! 3 = atyp" "s ! 4 = t ! 0" using s by simp_all
  consider "atyp = u8 1" "n = 4" | "atyp = u8 4" "n = 16" | "atyp = u8 3" "n = byte_val (t ! 0) + 1"
    using n(1) at by (auto simp: reply_addr_len_def split: if_splits)
  then have "addr_field atyp ?a"
  proof cases
    case 3
    obtain k r where k: "t = k # r" using t by (cases t) auto
    then have "?a = k # take (byte_val k) r" "length (take (byte_val k) r) = byte_val k" using 3 t by simp_all
    then show ?thesis using 3 by (auto simp: addr_field_def)
  qed (use t in \<open>simp_all add: addr_field_def\<close>)
  then have "granting_reply ([SOCKS5_VERSION, u8 0, rsv, atyp] @ ?a @ [p1, p2])" by (auto simp: granting_reply_def)
  moreover have "t = ?a @ [p1, p2] @ drop (n + 2) t" using p by (metis append_take_drop_id)
  moreover have "left = drop (n + 2) t" using s n(3) drop_drop [of "n + 2" 4 s] by (simp add: add.commute)
  ultimately have "granting_reply ([SOCKS5_VERSION, u8 0, rsv, atyp] @ ?a @ [p1, p2]) \<and>
      s = ([SOCKS5_VERSION, u8 0, rsv, atyp] @ ?a @ [p1, p2]) @ left"
    using s by (metis append.assoc)
  then show "(\<exists>e. granting_reply e \<and> s = e @ left) \<and> h' = h\<lparr>sstate := SDone\<rparr>" using n(4) by blast
next
  assume "(\<exists>e. granting_reply e \<and> s = e @ left) \<and> h' = h\<lparr>sstate := SDone\<rparr>"
  then obtain rsv atyp a p1 p2 where s: "s = [SOCKS5_VERSION, u8 0, rsv, atyp] @ a @ [p1, p2] @ left" "addr_field atyp a"
    and h': "h' = h\<lparr>sstate := SDone\<rparr>" by (auto simp: granting_reply_def)
  have "drop (length a + 6) s = left" using s(1) drop_drop [of "length a + 2" 4 s] by (simp add: add.commute)
  moreover have "reply_granted s" using s by (simp add: reply_granted_def)
  ultimately show "socks5_reply h s = (Inr Done, h', left)"
    using addr_field_len [OF s(2), of SOCKS5_VERSION "u8 0" rsv "[p1, p2] @ left"] s(1) h'
    by (simp add: socks5_reply_granted)
qed

section \<open>The whole exchange\<close>

text \<open>
  The bytes a proxy sends to open the tunnel: its choice of method, its answer to the credentials
  if it chose them, and a granting reply; and what the client writes to it meanwhile.
\<close>

definition socks5_exchange :: "socks5 \<Rightarrow> bytes \<Rightarrow> nat \<Rightarrow> bytes \<Rightarrow> bytes list \<Rightarrow> bool" where
  "socks5_exchange h host port e ws \<longleftrightarrow>
     (\<exists>g. granting_reply g \<and> e = [SOCKS5_VERSION, METHOD_NONE] @ g \<and> ws = [socks5_connect_request host port]) \<or>
     (\<exists>g v user password. granting_reply g \<and> auth h = Some (user, password) \<and>
        e = [SOCKS5_VERSION, METHOD_PASSWORD] @ [v, u8 0] @ g \<and>
        ws = [auth_message user password, socks5_connect_request host port])"

lemma methods_distinct: "METHOD_PASSWORD \<noteq> METHOD_NONE" "METHOD_NONE \<noteq> METHOD_UNACCEPTABLE" "METHOD_PASSWORD \<noteq> METHOD_UNACCEPTABLE"
  by (simp_all add: METHOD_PASSWORD_def METHOD_NONE_def METHOD_UNACCEPTABLE_def u8_inj)

lemma settle_reply:
  assumes "sstate h = AwaitingReply"
  shows "settle (Suc n) socks5_advance h s = (ws, Open left) \<longleftrightarrow> ws = [] \<and> (\<exists>g. granting_reply g \<and> s = g @ left)"
proof -
  obtain r h' b' where r: "socks5_reply h s = (r, h', b')" by (metis surj_pair)
  have a: "socks5_advance h s = (r, h', b')" using assms r by (simp add: socks5_advance_def)
  have nw: "r \<noteq> Inr (Write w)" for w by (rule socks5_reply_frame(3) [OF r])
  have "settle (Suc n) socks5_advance h s = (ws, Open left) \<longleftrightarrow> ws = [] \<and> r = Inr Done \<and> b' = left"
    using a nw by (cases r) (auto split: step.splits)
  moreover have "r = Inr Done \<and> b' = left \<longleftrightarrow> (\<exists>g. granting_reply g \<and> s = g @ left)"
    using reply_done [of h s h' left] reply_done [of h s "h\<lparr>sstate := SDone\<rparr>" left] r by auto
  ultimately show ?thesis by blast
qed

lemma settle_auth:
  assumes "sstate h = AwaitingAuthReply"
  shows "settle (Suc (Suc n)) socks5_advance h s = (ws, Open left) \<longleftrightarrow>
    (\<exists>g v. granting_reply g \<and> s = [v, u8 0] @ g @ left \<and> ws = [srequest h])"
proof (cases "\<exists>v r. s = v # u8 0 # r")
  case True
  then obtain v r where s: "s = v # u8 0 # r" by blast
  then have a: "socks5_advance h s = (Inr (Write (srequest h)), h\<lparr>sstate := AwaitingReply\<rparr>, r)"
    using assms by (simp add: socks5_advance_def take_frame_def)
  show ?thesis
    unfolding settle_write [of socks5_advance, OF a] using s settle_reply [of "h\<lparr>sstate := AwaitingReply\<rparr>" n r _ left]
    by (auto simp del: settle.simps)
next
  case False
  then have "take_frame s 2 = None \<or> (\<exists>a b r. take_frame s 2 = Some ([a, b], r) \<and> b \<noteq> u8 0)"
    by (cases s; cases "tl s") (auto simp: take_frame_def)
  then obtain r' b' where "socks5_advance h s = (r', h, b')" "r' = Inr NeedMore \<or> (\<exists>e. r' = Inl e)"
    using assms by (auto simp: socks5_advance_def)
  from settle_stuck [of socks5_advance, OF this] show ?thesis using False by auto
qed

lemma socks5_method_refuses:
  "chosen ! 0 \<noteq> SOCKS5_VERSION \<or> chosen ! 1 \<notin> set (offered h) \<Longrightarrow> \<exists>e. socks5_method h chosen rest = (Inl e, h, rest)"
  by (auto simp: socks5_method_def)

lemma select_update: "sstate (h\<lparr>sstate := x\<rparr>) = x"
  by simp

lemma exchange_none:
  "(\<exists>e. socks5_exchange h host port e ws \<and> SOCKS5_VERSION # METHOD_NONE # r = e @ left) \<longleftrightarrow>
     ws = [socks5_connect_request host port] \<and> (\<exists>g. granting_reply g \<and> r = g @ left)"
  using methods_distinct(1) by (auto simp: socks5_exchange_def)

lemma exchange_password:
  assumes "auth h = Some (u, p)"
  shows "(\<exists>e. socks5_exchange h host port e ws \<and> SOCKS5_VERSION # METHOD_PASSWORD # r = e @ left) \<longleftrightarrow>
     ws = [auth_message u p, socks5_connect_request host port] \<and>
     (\<exists>g v. granting_reply g \<and> r = [v, u8 0] @ g @ left)"
  using methods_distinct(1) assms by (auto simp: socks5_exchange_def)

lemma settle_method:
  assumes "socks5_begin h0 host port = Inr (greeting, h)"
  shows "settle 3 socks5_advance h s = (ws, Open left) \<longleftrightarrow> (\<exists>e. socks5_exchange h0 host port e ws \<and> s = e @ left)"
proof -
  have h: "sstate h = AwaitingMethod" "auth h = auth h0" "srequest h = socks5_connect_request host port"
    "offered h = (if auth h0 \<noteq> None then [METHOD_PASSWORD, METHOD_NONE] else [METHOD_NONE])"
    using assms by (auto simp: socks5_begin_def Let_def split: if_splits)
  show ?thesis
  proof (cases "\<exists>m r. s = SOCKS5_VERSION # m # r \<and> m \<in> set (offered h)")
    case True
    then obtain m r where s: "s = SOCKS5_VERSION # m # r" "m \<in> set (offered h)" by blast
    have tf: "take_frame s 2 = Some ([SOCKS5_VERSION, m], r)" using s by (simp add: take_frame_def)
    show ?thesis
    proof (cases "m = METHOD_PASSWORD")
      case True
      then obtain u p where up: "auth h0 = Some (u, p)" using s(2) h(4) methods_distinct by (auto split: if_splits)
      have a: "socks5_advance h s = (Inr (Write (auth_message u p)), h\<lparr>sstate := AwaitingAuthReply\<rparr>, r)"
        using h s tf True up methods_distinct by (simp add: socks5_advance_def socks5_method_def)
      show ?thesis
        unfolding numeral_3_eq_3 settle_write [of socks5_advance, OF a]
          settle_auth [of "h\<lparr>sstate := AwaitingAuthReply\<rparr>" 0 r _ left, OF select_update]
        unfolding s(1) True exchange_password [OF up] using h(3) by auto
    next
      case False
      then have m: "m = METHOD_NONE" using s(2) h(4) by (auto split: if_splits)
      have a: "socks5_advance h s = (Inr (Write (srequest h)), h\<lparr>sstate := AwaitingReply\<rparr>, r)"
        using h(1) s tf m methods_distinct by (simp add: socks5_advance_def socks5_method_def)
      show ?thesis
        unfolding numeral_3_eq_3 settle_write [of socks5_advance, OF a]
          settle_reply [of "h\<lparr>sstate := AwaitingReply\<rparr>" "Suc 0" r _ left, OF select_update]
        unfolding s(1) m exchange_none using h(3) by auto
    qed
  next
    case False
    obtain r' b' where "socks5_advance h s = (r', h, b')" "r' = Inr NeedMore \<or> (\<exists>e. r' = Inl e)"
    proof (cases "take_frame s 2")
      case (Some f)
      then obtain a m r where s: "s = a # m # r" "f = ([a, m], r)"
        by (cases s; cases "tl s") (auto simp: take_frame_def split: if_splits)
      then have "a \<noteq> SOCKS5_VERSION \<or> m \<notin> set (offered h)" using False by auto
      then obtain e where "socks5_method h [a, m] r = (Inl e, h, r)" using socks5_method_refuses [of "[a, m]" h r] by auto
      then show ?thesis using that s Some h(1) by (simp add: socks5_advance_def)
    qed (use h that in \<open>simp add: socks5_advance_def\<close>)
    from settle_stuck [of socks5_advance, OF this] have "settle 3 socks5_advance h s \<noteq> (ws, Open left)" unfolding numeral_3_eq_3 .
    moreover have "\<not> (\<exists>e. socks5_exchange h0 host port e ws \<and> s = e @ left)"
      using False h(4) by (auto simp: socks5_exchange_def split: if_splits)
    ultimately show ?thesis by blast
  qed
qed

section \<open>Requests decode to what was asked\<close>

text \<open>Decoders of the two request formats, as a proxy reads them.\<close>

definition get_u16 :: "byte \<Rightarrow> byte \<Rightarrow> nat" where
  "get_u16 a b = byte_val a * 256 + byte_val b"

fun decode_connect5 :: "bytes \<Rightarrow> (bytes \<times> nat \<times> bytes) option" where
  "decode_connect5 (v # c # r # t # n # s) =
     (if v = u8 5 \<and> c = u8 1 \<and> t = u8 3 \<and> length s \<ge> byte_val n + 2
      then Some (take (byte_val n) s, get_u16 (s ! byte_val n) (s ! (byte_val n + 1)), drop (byte_val n + 2) s)
      else None)"
| "decode_connect5 _ = None"

fun decode_connect4 :: "bytes \<Rightarrow> (bytes \<times> bytes \<times> nat \<times> bytes) option" where
  "decode_connect4 (v # c # p1 # p2 # a # b # d # e # s) =
     (if v = u8 4 \<and> c = u8 1 \<and> a = u8 0 \<and> b = u8 0 \<and> d = u8 0 \<and> e \<noteq> u8 0
      then (case split_once (u8 0) s of
              None \<Rightarrow> None
            | Some (uid, s1) \<Rightarrow>
                (case split_once (u8 0) s1 of None \<Rightarrow> None | Some (host, s2) \<Rightarrow> Some (uid, host, get_u16 p1 p2, s2)))
      else None)"
| "decode_connect4 _ = None"

lemma get_put_u16: "p < 65536 \<Longrightarrow> get_u16 (u8 (p div 256)) (u8 (p mod 256)) = p"
  by (simp add: get_u16_def byte_val_u8)
section \<open>Properties\<close>

text \<open>
  Property C15. A SOCKS5 tunnel opens exactly when it should: for reads that cut the proxy's stream
  anywhere, the driver ends with an open tunnel if and only if the stream starts with a method
  choice among those offered, an accepted password exchange if that was the choice, and a granting
  reply; the client has then written the greeting, the credentials only if they were chosen, and
  the request, and every byte after the reply is still there for the origin.
\<close>

theorem socks5_tunnel_iff:
  assumes "\<forall>c \<in> set reads. c \<noteq> []" "length host \<le> 255" "length reads + 2 < n"
  shows "(\<exists>left rest. drive n socks5_begin socks5_advance h host port reads = (ws, Tunnel left rest) \<and>
      left @ concat rest = origin_bytes) \<longleftrightarrow>
    (\<exists>e ws'. socks5_exchange h host port e ws' \<and> concat reads = e @ origin_bytes \<and>
      ws = ([SOCKS5_VERSION] @ (if auth h = None then [u8 1, METHOD_NONE] else [u8 2, METHOD_PASSWORD, METHOD_NONE])) # ws')"
proof -
  obtain g h1 where b: "socks5_begin h host port = Inr (g, h1)" using assms(2) by (simp add: socks5_begin_def Let_def)
  have g: "g = [SOCKS5_VERSION] @ (if auth h = None then [u8 1, METHOD_NONE] else [u8 2, METHOD_PASSWORD, METHOD_NONE])"
    and st: "sstate h1 = AwaitingMethod"
    using b by (auto simp: socks5_begin_def Let_def numeral_2_eq_2 split: if_splits)
  let ?r = "drive_loop n socks5_advance h1 [] reads"
  have w: "socks5_writes_left h1 + length reads < n" "socks5_writes_left h1 < 3"
    using st assms(3) by (simp_all add: socks5_writes_left_def)
  have se: "settle 3 socks5_advance h1 (concat reads) = (fst ?r, settled_of (snd ?r))"
    using s5.drive_settles [OF assms(1) w TrueI, of "[]"] by simp
  have "settled_of x = Open o' \<longleftrightarrow> (\<exists>left rest. x = Tunnel left rest \<and> left @ concat rest = o')" for x :: "socks5_error drive_end" and o'
    by (auto simp: settled_of_def split: drive_end.splits)
  then have "(\<exists>left rest. drive n socks5_begin socks5_advance h host port reads = (ws, Tunnel left rest) \<and>
      left @ concat rest = origin_bytes) \<longleftrightarrow>
      (\<exists>ws'. ws = g # ws' \<and> settle 3 socks5_advance h1 (concat reads) = (ws', Open origin_bytes))"
    unfolding se using b by (auto simp: drive_def split: prod.splits)
  then show ?thesis unfolding settle_method [OF b] g by blast
qed

theorem socks5_tunnel_iff_witness:
  "\<exists>left rest. drive 9 socks5_begin socks5_advance socks5_new ''a'' 80
      [[u8 5], [u8 0, u8 5, u8 0, u8 0, u8 1, u8 0, u8 0], [u8 0, u8 0, u8 0, u8 0, u8 42]] =
      ([[u8 5, u8 1, u8 0], [u8 5, u8 1, u8 0, u8 3, u8 1, CHR ''a'', u8 0, u8 80]], Tunnel left rest) \<and>
     left @ concat rest = [u8 42]"
proof -
  let ?reads = "[[u8 5], [u8 0, u8 5, u8 0, u8 0, u8 1, u8 0, u8 0], [u8 0, u8 0, u8 0, u8 0, u8 42]]"
  let ?req = "[u8 5, u8 1, u8 0, u8 3, u8 1, CHR ''a'', u8 0, u8 80]"
  have "granting_reply ([SOCKS5_VERSION, u8 0, u8 0, u8 1] @ [u8 0, u8 0, u8 0, u8 0] @ [u8 0, u8 0])"
    unfolding granting_reply_def addr_field_def by fastforce
  then have "socks5_exchange socks5_new ''a'' 80 ([SOCKS5_VERSION, METHOD_NONE] @
      [SOCKS5_VERSION, u8 0, u8 0, u8 1] @ [u8 0, u8 0, u8 0, u8 0] @ [u8 0, u8 0]) [?req]"
    unfolding socks5_exchange_def by (auto simp: socks5_connect_request_def SOCKS5_VERSION_def put_u16_def)
  moreover have "\<forall>c \<in> set ?reads. c \<noteq> []" "length ''a'' \<le> 255" "length ?reads + 2 < 9" by simp_all
  note socks5_tunnel_iff [OF this, of socks5_new 80 "[[u8 5, u8 1, u8 0], ?req]" "[u8 42]"]
  ultimately show ?thesis
    by (auto simp: SOCKS5_VERSION_def METHOD_NONE_def socks5_new_def)
qed

text \<open>
  The exchange does not depend on how the stream was cut: for both SOCKS versions, two
  ways of cutting the same bytes into reads give the same writes and the same end (the same error,
  the same starvation, or a tunnel with the same bytes left for the origin), and the driver always
  comes to an end.
\<close>

theorem socks_cut_independent:
  assumes "\<forall>c \<in> set (reads @ reads'). c \<noteq> []" "concat reads = concat reads'" "length reads + length reads' + 2 < n"
  shows "fst (drive_loop n socks5_advance h5 buf reads) = fst (drive_loop n socks5_advance h5 buf reads') \<and>
    settled_of (snd (drive_loop n socks5_advance h5 buf reads)) = settled_of (snd (drive_loop n socks5_advance h5 buf reads')) \<and>
    snd (drive_loop n socks5_advance h5 buf reads) \<noteq> OutOfSteps \<and>
    fst (drive_loop n socks4_advance h4 buf reads) = fst (drive_loop n socks4_advance h4 buf reads') \<and>
    settled_of (snd (drive_loop n socks4_advance h4 buf reads)) = settled_of (snd (drive_loop n socks4_advance h4 buf reads')) \<and>
    snd (drive_loop n socks4_advance h4 buf reads) \<noteq> OutOfSteps"
proof -
  have c: "\<forall>c \<in> set reads. c \<noteq> []" "\<forall>c \<in> set reads'. c \<noteq> []" using assms(1) by auto
  have w: "socks5_writes_left h5 + length reads < n" "socks5_writes_left h5 + length reads' < n"
    using assms(3) by (auto simp: socks5_writes_left_def split: socks5_state.splits)
  have w4: "0 + length reads < n" "0 + length reads' < n" using assms(3) by auto
  show ?thesis
    using s5.drive_cut_independent [OF c assms(2) w TrueI] s4.drive_cut_independent [OF c assms(2) w4 TrueI]
      s5.drive_total [OF c(1) w(1)] s4.drive_total [OF c(1) w4(1)] by blast
qed

theorem socks_cut_independent_witness:
  "fst (drive_loop 9 socks5_advance socks5_new [] [[u8 1], [u8 2]]) = fst (drive_loop 9 socks5_advance socks5_new [] [[u8 1, u8 2]]) \<and>
   snd (drive_loop 9 socks4_advance socks4_new [] [[u8 1], [u8 2]]) \<noteq> OutOfSteps"
proof -
  have "\<forall>c \<in> set ([[u8 1], [u8 2]] @ [[u8 1, u8 2]]). c \<noteq> []" "concat [[u8 1], [u8 2]] = concat [[u8 1, u8 2]]"
    "length [[u8 1], [u8 2]] + length [[u8 1, u8 2]] + 2 < 9" by simp_all
  from socks_cut_independent [OF this] show ?thesis by blast
qed

text \<open>
  What goes out names the origin exactly: for a host of at most 255 bytes (without a
  NUL byte for SOCKS4a) and any port, the request decodes on the other side to that host and port,
  with nothing left over; a longer host is refused before anything is sent.
\<close>

theorem socks_requests_decode:
  assumes "port < 65536" "u8 0 \<notin> set (userid h4)"
  shows "(case socks5_begin h5 host port of
      Inl e \<Rightarrow> length host > 255 \<and> e = HostTooLong (length host)
    | Inr (_, h') \<Rightarrow> length host \<le> 255 \<and> decode_connect5 (srequest h') = Some (host, port, [])) \<and>
    (case socks4_begin h4 host port of
      Inl e \<Rightarrow> length host > 255 \<or> u8 0 \<in> set host
    | Inr (req, _) \<Rightarrow> decode_connect4 req = Some (userid h4, host, port, []))"
proof -
  have "decode_connect5 (socks5_connect_request host port) = Some (host, port, [])" if "length host \<le> 255"
    using that get_put_u16 [OF assms(1)]
    by (simp add: socks5_connect_request_def SOCKS5_VERSION_def put_u16_def byte_val_u8 nth_append)
  moreover have "split_once (u8 0) (userid h4 @ u8 0 # host @ [u8 0]) = Some (userid h4, host @ [u8 0])"
    using assms(2) by (simp add: split_once_Some)
  moreover have "split_once (u8 0) (host @ [u8 0]) = Some (host, [])" if "u8 0 \<notin> set host"
    using that by (simp add: split_once_Some)
  ultimately show ?thesis
    using get_put_u16 [OF assms(1)]
    by (auto simp: socks5_begin_def socks4_begin_def Let_def put_u16_def u8_inj)
qed

theorem socks_requests_decode_witness:
  "\<exists>g h'. socks5_begin socks5_new ''example.com'' 443 = Inr (g, h') \<and>
     decode_connect5 (srequest h') = Some (''example.com'', 443, [])"
proof -
  have "(443::nat) < 65536" "u8 0 \<notin> set (userid socks4_new)" by (simp_all add: socks4_new_def)
  from socks_requests_decode [OF this, where ?h5.0 = socks5_new and host = "''example.com''"] show ?thesis
    by (auto split: sum.splits)
qed

end
