(* ===== verification/Winnow.thy ===== *)
theory Winnow
  imports Std_Text
begin

text \<open>
  What the header parsers take from the \<open>winnow\<close> crate, as parameters of the model. A token parser
  answers how many bytes it consumes (record \<open>lexer\<close>); a combinator that repeats or separates is an
  operation on parsers (record \<open>grammar\<close>), where a parser answers a value and what is left. The
  documented behaviour of both is stated by \<open>winnow_ok\<close> and \<open>grammar_ok\<close>, and a concrete instance shows that
  they can hold. Sequencing, alternation and optional parsers are written as control flow.
\<close>

section \<open>Token parsers\<close>

record lexer =
  take_until :: "byte \<Rightarrow> bytes \<Rightarrow> nat option"
  literal :: "bytes \<Rightarrow> bytes \<Rightarrow> bool"
  take_while :: "nat \<Rightarrow> nat option \<Rightarrow> (byte \<Rightarrow> bool) \<Rightarrow> bytes \<Rightarrow> nat option"
  caseless :: "bytes \<Rightarrow> bytes \<Rightarrow> bool"

text \<open>The upper end of a range of counts: \<open>m..=n\<close> has one, \<open>m..\<close> has none.\<close>

definition at_most :: "nat option \<Rightarrow> nat \<Rightarrow> nat" where
  "at_most n k = (case n of None \<Rightarrow> k | Some x \<Rightarrow> min x k)"

definition winnow_ok :: "lexer \<Rightarrow> bool" where
  "winnow_ok w \<longleftrightarrow>
     (\<forall>c s. take_until w c s = find_byte c s) \<and>
     (\<forall>t s. literal w t s = starts_with s t) \<and>
     (\<forall>m n P s. take_while w m n P s =
        (let k = at_most n (length (takeWhile P s)) in if m \<le> k then Some k else None)) \<and>
     (\<forall>t s. caseless w t s \<longleftrightarrow> length t \<le> length s \<and> eq_ignore_ascii_case (take (length t) s) t)"

definition ref_lexer :: lexer where
  "ref_lexer = \<lparr>take_until = find_byte, literal = (\<lambda>t s. starts_with s t),
     take_while = (\<lambda>m n P s. let k = at_most n (length (takeWhile P s)) in if m \<le> k then Some k else None),
     caseless = (\<lambda>t s. length t \<le> length s \<and> eq_ignore_ascii_case (take (length t) s) t)\<rparr>"

lemma ref_lexer_ok: "winnow_ok ref_lexer"
  by (simp add: winnow_ok_def ref_lexer_def)

lemma winnow_ok_unique: "winnow_ok w \<Longrightarrow> w = ref_lexer"
  by (cases w) (auto simp: winnow_ok_def ref_lexer_def fun_eq_iff)

section \<open>Combinators\<close>

text \<open>
  \<open>'r\<close> is the type of what \<open>separated\<close> collects. \<open>any_char\<close> and \<open>none_of\<close> read one \<open>char\<close>: one byte
  where the input is ASCII, which is the only case their documentation is used for.
\<close>

type_synonym 'a reader = "bytes \<Rightarrow> ('a \<times> bytes) option"

record 'r grammar =
  space0 :: "bytes \<Rightarrow> nat"
  any_char :: "byte reader"
  none_of :: "byte \<Rightarrow> byte reader"
  repeat0 :: "byte reader \<Rightarrow> bytes \<Rightarrow> bytes \<times> bytes"
  separated0 :: "'r reader \<Rightarrow> (bytes \<Rightarrow> bytes option) \<Rightarrow> bytes \<Rightarrow> 'r list \<times> bytes"

definition is_space :: "byte \<Rightarrow> bool" where
  "is_space b \<longleftrightarrow> b = CHR '' '' \<or> b = CHR 0x09"

definition repeat_ok :: "(byte reader \<Rightarrow> bytes \<Rightarrow> bytes \<times> bytes) \<Rightarrow> bool" where
  "repeat_ok rep \<longleftrightarrow>
     (\<forall>p s. p s = None \<longrightarrow> rep p s = ([], s)) \<and>
     (\<forall>p s b r. p s = Some (b, r) \<and> length r < length s \<longrightarrow> rep p s = (b # fst (rep p r), snd (rep p r)))"

definition separated_ok :: "('r reader \<Rightarrow> (bytes \<Rightarrow> bytes option) \<Rightarrow> bytes \<Rightarrow> 'r list \<times> bytes) \<Rightarrow> bool" where
  "separated_ok f \<longleftrightarrow>
     (\<forall>p sep s. p s = None \<longrightarrow> f p sep s = ([], s)) \<and>
     (\<forall>p sep s x r. p s = Some (x, r) \<and> (sep r = None \<or> (\<exists>r'. sep r = Some r' \<and> p r' = None)) \<longrightarrow> f p sep s = ([x], r)) \<and>
     (\<forall>p sep s x r r'. p s = Some (x, r) \<and> sep r = Some r' \<and> p r' \<noteq> None \<and> length r' < length r \<and> length r \<le> length s \<longrightarrow>
        f p sep s = (x # fst (f p sep r'), snd (f p sep r')))"

definition grammar_ok :: "'r grammar \<Rightarrow> bool" where
  "grammar_ok g \<longleftrightarrow>
     (\<forall>s. space0 g s = length (takeWhile is_space s)) \<and>
     any_char g [] = None \<and> (\<forall>b s. is_ascii b \<longrightarrow> any_char g (b # s) = Some (b, s)) \<and>
     (\<forall>c. none_of g c [] = None) \<and>
     (\<forall>c b s. is_ascii b \<longrightarrow> none_of g c (b # s) = (if b = c then None else Some (b, s))) \<and>
     repeat_ok (repeat0 g) \<and> separated_ok (separated0 g)"

text \<open>A concrete instance. It stops where a parser consumes nothing, which the documentation leaves open.\<close>

function ref_repeat :: "byte reader \<Rightarrow> bytes \<Rightarrow> bytes \<times> bytes" where
  "ref_repeat p s =
     (case p s of
        Some (b, r) \<Rightarrow> if length r < length s then (b # fst (ref_repeat p r), snd (ref_repeat p r)) else ([], s)
      | None \<Rightarrow> ([], s))"
  by pat_completeness auto
termination
  by (relation "measure (length \<circ> snd)") auto

declare ref_repeat.simps [simp del]

function ref_separated :: "'r reader \<Rightarrow> (bytes \<Rightarrow> bytes option) \<Rightarrow> bytes \<Rightarrow> 'r list \<times> bytes" where
  "ref_separated p sep s =
     (case p s of
        None \<Rightarrow> ([], s)
      | Some (x, r) \<Rightarrow>
          (case sep r of
             None \<Rightarrow> ([x], r)
           | Some r' \<Rightarrow>
               if p r' \<noteq> None \<and> length r' < length r \<and> length r \<le> length s
               then (x # fst (ref_separated p sep r'), snd (ref_separated p sep r')) else ([x], r)))"
  by pat_completeness auto
termination
  by (relation "measure (\<lambda>(_, _, s). length s)") auto

declare ref_separated.simps [simp del]

definition ref_grammar :: "'r grammar" where
  "ref_grammar = \<lparr>space0 = (\<lambda>s. length (takeWhile is_space s)),
     any_char = (\<lambda>s. case s of [] \<Rightarrow> None | b # r \<Rightarrow> Some (b, r)),
     none_of = (\<lambda>c s. case s of [] \<Rightarrow> None | b # r \<Rightarrow> if b = c then None else Some (b, r)),
     repeat0 = ref_repeat, separated0 = ref_separated\<rparr>"

lemma ref_repeat_ok: "repeat_ok ref_repeat"
  unfolding repeat_ok_def by (auto simp: ref_repeat.simps)

lemma ref_separated_ok: "separated_ok ref_separated"
  unfolding separated_ok_def
proof (intro conjI allI impI)
  fix p :: "'r reader" and sep s x r r'
  show "ref_separated p sep s = ([], s)" if "p s = None" using that by (simp add: ref_separated.simps)
  show "ref_separated p sep s = ([x], r)" if "p s = Some (x, r) \<and> (sep r = None \<or> (\<exists>r'. sep r = Some r' \<and> p r' = None))"
    using that by (auto simp: ref_separated.simps [of p sep s])
  show "ref_separated p sep s = (x # fst (ref_separated p sep r'), snd (ref_separated p sep r'))"
    if "p s = Some (x, r) \<and> sep r = Some r' \<and> p r' \<noteq> None \<and> length r' < length r \<and> length r \<le> length s"
    using that by (simp add: ref_separated.simps [of p sep s])
qed

lemma ref_grammar_ok: "grammar_ok ref_grammar"
  unfolding grammar_ok_def by (simp add: ref_grammar_def ref_repeat_ok ref_separated_ok)

section \<open>Using the laws\<close>

lemma repeat0_stop: "grammar_ok g \<Longrightarrow> p s = None \<Longrightarrow> repeat0 g p s = ([], s)"
  unfolding grammar_ok_def repeat_ok_def by blast

lemma repeat0_step:
  assumes "grammar_ok g" "p s = Some (b, r)" "length r < length s"
  shows "repeat0 g p s = (b # fst (repeat0 g p r), snd (repeat0 g p r))"
proof -
  have "repeat_ok (repeat0 g)" using assms(1) by (simp add: grammar_ok_def)
  then show ?thesis unfolding repeat_ok_def using assms(2,3) by blast
qed

lemma separated0_last:
  assumes "grammar_ok g" "p s = Some (x, r)" "sep r = None"
  shows "separated0 g p sep s = ([x], r)"
proof -
  have "\<forall>p sep s x r. p s = Some (x, r) \<and> (sep r = None \<or> (\<exists>r'. sep r = Some r' \<and> p r' = None)) \<longrightarrow> separated0 g p sep s = ([x], r)"
    using assms(1) unfolding grammar_ok_def separated_ok_def by (elim conjE)
  from this [rule_format, of p s x r sep] show ?thesis using assms(2,3) by simp
qed

lemma separated0_step:
  assumes "grammar_ok g" "p s = Some (x, r)" "sep r = Some r'" "p r' \<noteq> None" "length r' < length r" "length r \<le> length s"
  shows "separated0 g p sep s = (x # fst (separated0 g p sep r'), snd (separated0 g p sep r'))"
proof -
  have "\<forall>p sep s x r r'. p s = Some (x, r) \<and> sep r = Some r' \<and> p r' \<noteq> None \<and> length r' < length r \<and> length r \<le> length s \<longrightarrow>
        separated0 g p sep s = (x # fst (separated0 g p sep r'), snd (separated0 g p sep r'))"
    using assms(1) unfolding grammar_ok_def separated_ok_def by (elim conjE)
  from this [rule_format, of p s x r sep r'] show ?thesis using assms(2-) by simp
qed

lemma one_char:
  assumes "grammar_ok g" "is_ascii b"
  shows "any_char g (b # s) = Some (b, s)" "none_of g c (b # s) = (if b = c then None else Some (b, s))"
  using assms by (simp_all add: grammar_ok_def)

lemma literal_byte: "winnow_ok w \<Longrightarrow> literal w [c] s \<longleftrightarrow> s \<noteq> [] \<and> hd s = c"
  by (cases s) (auto simp: winnow_ok_def starts_with_def)

end
