(* ===== verification/Field_List.thy ===== *)
theory Field_List
  imports Winnow
begin

text \<open>
  Lists of directives in header fields: the productions \<open>token\<close>, \<open>ows\<close> and \<open>quoted_string\<close> of
  \<open>crates/hclient/src/sansio/field.rs\<close>, which \<open>hsts/parse.rs\<close> uses and \<open>cache/directives.rs\<close> has copies of, and
  the shape \<open>name [ "=" value ]\<close> with a separator between two of them. The locale \<open>field_list\<close> shows once, for any
  separator and any reader of one directive, that a list is read as it was written.
\<close>

section \<open>Field-value productions\<close>

definition is_tchar :: "byte \<Rightarrow> bool" where
  "is_tchar c \<longleftrightarrow> is_ascii_alphanumeric c \<or> c \<in> set ''!#$%&'' \<or> c = CHR 0x27 \<or> c \<in> set ''*+-.^_`|~''"

definition token :: "lexer \<Rightarrow> bytes reader" where
  "token w s = (case take_while w 1 None is_tchar s of None \<Rightarrow> None | Some k \<Rightarrow> Some (take k s, drop k s))"

definition ows :: "'r grammar \<Rightarrow> bytes \<Rightarrow> bytes" where
  "ows g s = drop (space0 g s) s"

definition quoted_char :: "lexer \<Rightarrow> 'r grammar \<Rightarrow> byte reader" where
  "quoted_char w g s =
     (case (if literal w [CHR 0x5C] s then any_char g (drop 1 s) else None) of
        Some x \<Rightarrow> Some x
      | None \<Rightarrow> none_of g (CHR 0x22) s)"

definition quoted_string :: "lexer \<Rightarrow> 'r grammar \<Rightarrow> bytes reader" where
  "quoted_string w g s =
     (if \<not> literal w [CHR 0x22] s then None else
      case repeat0 g (quoted_char w g) (drop 1 s) of (v, r) \<Rightarrow>
        if literal w [CHR 0x22] r then Some (v, drop 1 r) else None)"

text \<open>An optional value: \<open>opt(preceded((ows, "=", ows), alt((quoted, token))))\<close>.\<close>

definition opt_value :: "lexer \<Rightarrow> 'r grammar \<Rightarrow> bytes reader \<Rightarrow> bytes \<Rightarrow> bytes option \<times> bytes" where
  "opt_value w g quoted s =
     (let s2 = ows g s in
      if literal w ''='' s2 then
        (let s3 = ows g (drop 1 s2) in
         case (case quoted s3 of Some x \<Rightarrow> Some x | None \<Rightarrow> token w s3) of
           None \<Rightarrow> (None, s)
         | Some (v, r) \<Rightarrow> (Some v, r))
      else (None, s))"

text \<open>The separator \<open>(ows, c, ows)\<close>.\<close>

definition separator :: "lexer \<Rightarrow> 'r grammar \<Rightarrow> byte \<Rightarrow> bytes \<Rightarrow> bytes option" where
  "separator w g c s =
     (let s1 = ows g s in if literal w [c] s1 then Some (ows g (drop 1 s1)) else None)"

section \<open>Directives as they are written\<close>

text \<open>A directive as it is written: the spacing around the equals sign, and the value bare or quoted.\<close>

datatype written_value = Bare bytes | Quoted bytes

record written =
  w_name :: bytes
  w_value :: "(bytes \<times> bytes \<times> written_value) option"

definition escaped :: "bytes \<Rightarrow> bytes" where
  "escaped v = concat (map (\<lambda>b. if b = CHR 0x22 \<or> b = CHR 0x5C then [CHR 0x5C, b] else [b]) v)"

fun write_value :: "written_value \<Rightarrow> bytes" where
  "write_value (Bare v) = v"
| "write_value (Quoted v) = CHR 0x22 # escaped v @ [CHR 0x22]"

text \<open>What a reader makes of a value, which may leave a quoted one as it is written.\<close>

fun value_as :: "(bytes \<Rightarrow> bytes) \<Rightarrow> written_value \<Rightarrow> bytes" where
  "value_as q (Bare v) = v"
| "value_as q (Quoted v) = q v"

definition write_opt :: "written \<Rightarrow> bytes" where
  "write_opt d = (case w_value d of None \<Rightarrow> [] | Some (a, b, v) \<Rightarrow> a @ ''='' @ b @ write_value v)"

definition write_dir :: "written \<Rightarrow> bytes" where
  "write_dir d = w_name d @ write_opt d"

fun written_value_ok :: "written_value \<Rightarrow> bool" where
  "written_value_ok (Bare v) \<longleftrightarrow> v \<noteq> [] \<and> list_all is_tchar v"
| "written_value_ok (Quoted v) \<longleftrightarrow> list_all is_ascii v"

definition written_ok :: "written \<Rightarrow> bool" where
  "written_ok d \<longleftrightarrow> list_all is_tchar (w_name d) \<and>
     (case w_value d of None \<Rightarrow> True
      | Some (a, b, v) \<Rightarrow> list_all is_space a \<and> list_all is_space b \<and> written_value_ok v \<and> (w_name d = [] \<longrightarrow> a = []))"

lemma not_tchar:
  "\<not> is_tchar (CHR '' '')" "\<not> is_tchar (CHR 0x09)" "\<not> is_tchar (CHR ''='')" "\<not> is_tchar (CHR '';'')" "\<not> is_tchar (CHR 0x22)"
  by code_simp+

lemma tchar_classes:
  "is_tchar c \<Longrightarrow> \<not> is_space c \<and> c \<noteq> CHR ''='' \<and> c \<noteq> CHR '';'' \<and> c \<noteq> CHR 0x22"
  using not_tchar by (auto simp: is_space_def)

definition stops :: "byte \<Rightarrow> bytes \<Rightarrow> bool" where
  "stops c s \<longleftrightarrow> (dropWhile is_space s = [] \<or> hd (dropWhile is_space s) = c) \<and> (s = [] \<or> \<not> is_tchar (hd s))"

lemma ows_eq: "grammar_ok g \<Longrightarrow> ows g s = dropWhile is_space s"
  by (simp add: grammar_ok_def ows_def dropWhile_eq_drop [symmetric])

lemma token_eq:
  "winnow_ok w \<Longrightarrow> token w s =
     (let t = takeWhile is_tchar s in if t = [] then None else Some (t, dropWhile is_tchar s))"
  by (auto simp: winnow_ok_def token_def at_most_def Let_def takeWhile_eq_take [symmetric] dropWhile_eq_drop [symmetric] Suc_le_eq)

lemma dropWhile_all: "list_all P a \<Longrightarrow> dropWhile P (a @ s) = dropWhile P s"
  by (induction a) auto

lemma takeWhile_all: "list_all P a \<Longrightarrow> takeWhile P (a @ s) = a @ takeWhile P s"
  by (induction a) auto

lemma takeWhile_stop: "s = [] \<or> \<not> P (hd s) \<Longrightarrow> takeWhile P s = [] \<and> dropWhile P s = s"
  by (cases s) auto

lemma token_reads:
  "winnow_ok w \<Longrightarrow> list_all is_tchar t \<Longrightarrow> s = [] \<or> \<not> is_tchar (hd s) \<Longrightarrow>
   token w (t @ s) = (if t = [] then None else Some (t, s))"
  using takeWhile_stop [of s is_tchar] by (simp add: token_eq dropWhile_all takeWhile_all Let_def)

lemma quoted_char_reads:
  assumes "winnow_ok w" "grammar_ok g" "is_ascii b"
  shows "quoted_char w g ((if b = CHR 0x22 \<or> b = CHR 0x5C then [CHR 0x5C, b] else [b]) @ s) = Some (b, s)"
  using assms by (simp add: quoted_char_def literal_byte one_char)

lemma quoted_char_stops: "winnow_ok w \<Longrightarrow> grammar_ok g \<Longrightarrow> quoted_char w g (CHR 0x22 # s) = None"
  by (simp add: quoted_char_def literal_byte one_char is_ascii_def byte_val_def)

lemma quoted_repeat:
  assumes "winnow_ok w" "grammar_ok g" "list_all is_ascii v"
  shows "repeat0 g (quoted_char w g) (escaped v @ CHR 0x22 # s) = (v, CHR 0x22 # s)"
  using assms(3)
proof (induction v)
  case Nil
  then show ?case using quoted_char_stops [OF assms(1,2)] by (simp add: repeat0_stop [OF assms(2)] escaped_def)
next
  case (Cons b v)
  let ?r = "escaped v @ CHR 0x22 # s" and ?t = "escaped (b # v) @ CHR 0x22 # s"
  have "?t = (if b = CHR 0x22 \<or> b = CHR 0x5C then [CHR 0x5C, b] else [b]) @ ?r" by (simp add: escaped_def)
  then have q: "quoted_char w g ?t = Some (b, ?r)" and l: "length ?r < length ?t"
    using quoted_char_reads [OF assms(1,2)] Cons.prems by (auto split: if_splits)
  from repeat0_step [OF assms(2), of "quoted_char w g", OF q l] show ?case using Cons by simp
qed

lemma quoted_string_reads:
  assumes "winnow_ok w" "grammar_ok g" "list_all is_ascii v"
  shows "quoted_string w g (write_value (Quoted v) @ s) = Some (v, s)"
  using quoted_repeat [OF assms] by (simp add: quoted_string_def literal_byte [OF assms(1)])

lemma write_value_first: "written_value_ok v \<Longrightarrow> write_value v \<noteq> [] \<and> \<not> is_space (hd (write_value v))"
  using tchar_classes by (cases v) (auto simp: is_space_def list_all_iff)

lemma dropWhile_first: "xs \<noteq> [] \<Longrightarrow> \<not> P (hd xs) \<Longrightarrow> dropWhile P (xs @ ys) = xs @ ys"
  by (cases xs) auto

lemma opt_value_reads:
  assumes w: "winnow_ok w" and g: "grammar_ok g" and d: "written_ok d" and s: "stops c s" and c: "c \<noteq> CHR ''=''"
    and quoted: "\<And>v s. list_all is_ascii v \<Longrightarrow> q (write_value (Quoted v) @ s) = Some (qv v, s)"
    and unquoted: "\<And>s. s = [] \<or> hd s \<noteq> CHR 0x22 \<Longrightarrow> q s = None"
  shows "opt_value w g q (write_opt d @ s) = (map_option (\<lambda>(_, _, v). value_as qv v) (w_value d), s)"
proof (cases "w_value d")
  case None
  have "\<not> literal w ''='' (dropWhile is_space s)" using s c by (auto simp: literal_byte [OF w] stops_def)
  then show ?thesis by (simp add: opt_value_def write_opt_def None ows_eq [OF g])
next
  case (Some p)
  obtain a b v where p: "p = (a, b, v)" by (cases p)
  have sp: "list_all is_space a" "list_all is_space b" "written_value_ok v" using d Some p by (simp_all add: written_ok_def)
  have nt: "s = [] \<or> \<not> is_tchar (hd s)" using s by (simp add: stops_def)
  have "ows g (a @ ''='' @ b @ write_value v @ s) = ''='' @ b @ write_value v @ s"
    using sp(1) by (simp add: ows_eq [OF g] dropWhile_all is_space_def)
  moreover have "ows g (b @ write_value v @ s) = write_value v @ s"
    using sp(2) write_value_first [OF sp(3)] by (simp add: ows_eq [OF g] dropWhile_all dropWhile_first)
  moreover have "(case q (write_value v @ s) of Some x \<Rightarrow> Some x | None \<Rightarrow> token w (write_value v @ s)) = Some (value_as qv v, s)"
  proof (cases v)
    case (Quoted u)
    then show ?thesis using quoted [of u s] sp(3) by simp
  next
    case (Bare t)
    then have t: "t \<noteq> []" "list_all is_tchar t" using sp(3) by simp_all
    then have "hd (t @ s) \<noteq> CHR 0x22" using tchar_classes by (cases t) auto
    then show ?thesis using unquoted [of "t @ s"] token_reads [OF w t(2) nt] t(1) Bare by simp
  qed
  ultimately show ?thesis by (simp add: opt_value_def write_opt_def literal_byte [OF w] Some p)
qed

lemma write_opt_first: "written_ok d \<Longrightarrow> stops c s \<Longrightarrow> write_opt d @ s = [] \<or> \<not> is_tchar (hd (write_opt d @ s))"
proof (cases "w_value d")
  case (Some p)
  moreover obtain a b v where "p = (a, b, v)" by (cases p)
  moreover assume "written_ok d"
  ultimately show ?thesis using tchar_classes not_tchar by (cases a) (auto simp: write_opt_def written_ok_def)
qed (simp add: write_opt_def stops_def)

lemma name_reads:
  "winnow_ok w \<Longrightarrow> written_ok d \<Longrightarrow> stops c s \<Longrightarrow>
   token w (write_dir d @ s) = (if w_name d = [] then None else Some (w_name d, write_opt d @ s))"
  using token_reads [of w "w_name d" "write_opt d @ s"] write_opt_first [of d c s]
  by (simp add: write_dir_def written_ok_def)

lemma write_dir_first: "written_ok d \<Longrightarrow> write_dir d = [] \<or> \<not> is_space (hd (write_dir d))"
  using tchar_classes
  by (cases "w_name d") (auto simp: written_ok_def write_dir_def write_opt_def is_space_def split: option.splits)

section \<open>Lists\<close>

text \<open>
  Between two directives the separator with any spacing, and any spacing at the end; the spacing after an empty
  directive is that of the separator before it.
\<close>

fun write_list :: "byte \<Rightarrow> written \<Rightarrow> (bytes \<times> bytes \<times> written) list \<Rightarrow> bytes \<Rightarrow> bytes" where
  "write_list c d [] fin = write_dir d @ fin"
| "write_list c d ((a, b, d') # ds) fin = write_dir d @ a @ c # b @ write_list c d' ds fin"

fun list_ok :: "written \<Rightarrow> (bytes \<times> bytes \<times> written) list \<Rightarrow> bytes \<Rightarrow> bool" where
  "list_ok d [] fin \<longleftrightarrow> written_ok d \<and> list_all is_space fin \<and> (write_dir d = [] \<longrightarrow> fin = [])"
| "list_ok d ((a, b, d') # ds) fin \<longleftrightarrow>
     written_ok d \<and> list_all is_space a \<and> list_all is_space b \<and> (write_dir d = [] \<longrightarrow> a = []) \<and> list_ok d' ds fin"

lemma list_ok_written: "list_ok d ds fin \<Longrightarrow> written_ok d"
  by (cases "(d, ds, fin)" rule: list_ok.cases) auto

lemma list_ok_spaces: "list_ok d ds fin \<Longrightarrow> list_all is_space fin"
  by (induction d ds fin rule: list_ok.induct) auto

lemma spaces_stop: "list_all is_space a \<Longrightarrow> stops c a"
proof -
  assume a: "list_all is_space a"
  then have "dropWhile is_space a = []" by (simp add: list_all_iff)
  moreover have "a = [] \<or> \<not> is_tchar (hd a)" using a tchar_classes by (cases a) auto
  ultimately show ?thesis unfolding stops_def by blast
qed

lemma separator_stops: "list_all is_space a \<Longrightarrow> \<not> is_tchar c \<Longrightarrow> \<not> is_space c \<Longrightarrow> stops c (a @ c # r)"
  using tchar_classes by (cases a) (auto simp: stops_def dropWhile_all)

lemma separator_reads:
  "winnow_ok w \<Longrightarrow> grammar_ok g \<Longrightarrow> \<not> is_space c \<Longrightarrow> list_all is_space a \<Longrightarrow> list_all is_space b \<Longrightarrow>
   s = [] \<or> \<not> is_space (hd s) \<Longrightarrow> separator w g c (a @ c # b @ s) = Some s"
  using takeWhile_stop [of s is_space] by (simp add: separator_def ows_eq literal_byte dropWhile_all)

locale field_list =
  fixes c :: byte and elem :: "lexer \<Rightarrow> 'r grammar \<Rightarrow> 'r reader" and raw :: "written \<Rightarrow> 'r"
    and ok :: "written \<Rightarrow> bool"
  assumes separates: "\<not> is_tchar c" "\<not> is_space c"
    and elem_reads: "winnow_ok w \<Longrightarrow> grammar_ok g \<Longrightarrow> written_ok d \<Longrightarrow> ok d \<Longrightarrow> stops c s \<Longrightarrow> elem w g (write_dir d @ s) = Some (raw d, s)"
begin

lemma list_ok_tail:
  "list_ok d ds fin \<Longrightarrow>
   \<exists>r. write_list c d ds fin = write_dir d @ r \<and> stops c r \<and> (write_dir d = [] \<longrightarrow> r = [] \<or> hd r = c)"
  using spaces_stop separator_stops [OF _ separates]
  by (cases "(d, ds, fin)" rule: list_ok.cases) (auto simp: list_all_iff)

lemma list_reads:
  assumes w: "winnow_ok w" and g: "grammar_ok g"
  shows "list_ok d ds fin \<Longrightarrow> ok d \<Longrightarrow> list_all (\<lambda>(_, _, d). ok d) ds \<Longrightarrow>
    separated0 g (elem w g) (separator w g c) (write_list c d ds fin) = (raw d # map (\<lambda>(_, _, d). raw d) ds, fin)"
proof (induction d ds fin rule: list_ok.induct)
  case (1 d fin)
  then have fin: "list_all is_space fin" and d: "written_ok d" "ok d" by simp_all
  have "dropWhile is_space fin = []" using fin by (simp add: list_all_iff)
  then have "separator w g c fin = None" by (simp add: separator_def ows_eq [OF g] literal_byte [OF w])
  with separated0_last [OF g, of "elem w g", OF elem_reads [OF w g d spaces_stop [OF fin]]] show ?case by simp
next
  case (2 d a b d' ds fin)
  let ?r' = "write_list c d' ds fin"
  let ?r = "a @ c # b @ ?r'"
  have ok: "written_ok d" "list_all is_space a" "list_all is_space b" "list_ok d' ds fin" using 2(2) by simp_all
  have oks: "ok d" "ok d'" "list_all (\<lambda>(_, _, d). ok d) ds" using 2(3,4) by simp_all
  have eq: "write_list c d ((a, b, d') # ds) fin = write_dir d @ ?r" by simp
  have r: "elem w g (write_list c d ((a, b, d') # ds) fin) = Some (raw d, ?r)"
    unfolding eq using elem_reads [OF w g ok(1) oks(1)] separator_stops [OF ok(2) separates] by simp
  obtain t where t: "?r' = write_dir d' @ t" "stops c t" "write_dir d' = [] \<longrightarrow> t = [] \<or> hd t = c"
    using list_ok_tail [OF ok(4)] by blast
  have d': "written_ok d'" using list_ok_written [OF ok(4)] .
  have r': "elem w g ?r' \<noteq> None" using elem_reads [OF w g d' oks(2) t(2)] t(1) by simp
  have "?r' = [] \<or> \<not> is_space (hd ?r')"
    unfolding t(1) using write_dir_first [OF d'] t(3) separates(2) by (cases "write_dir d'") auto
  then have sep: "separator w g c ?r = Some ?r'" using separator_reads [OF w g separates(2) ok(2,3)] by simp
  have len: "length ?r' < length ?r" "length ?r \<le> length (write_list c d ((a, b, d') # ds) fin)" unfolding eq by simp_all
  show ?case
    using separated0_step [OF g, of "elem w g", OF r, of "separator w g c", OF sep r' len] 2(1) [OF ok(4) oks(2,3)] by simp
qed

end

end
