(* ===== verification/Response_Head.thy ===== *)
theory Response_Head
  imports Header_Map Field_List
begin

text \<open>
  The head of an HTTP/1 response, \<open>crates/hclient-proto/src/head.rs\<close>, parsed from what has arrived so far. Its parsers run over
  \<open>winnow\<close>'s \<open>Partial\<close> input, where running out of bytes is an answer of its own: the record \<open>partial_lexer\<close> holds
  what is used of that crate, and \<open>partial_ok\<close> its documented behaviour. A parser that keeps its answer when more bytes
  arrive is \<open>streaming\<close>; all of them are, and so is the whole.

  \<open>is_tchar\<close> of \<open>Field_List\<close> is the same predicate as the one of this file.
\<close>

section \<open>Parsers over input that is still arriving\<close>

datatype ('a, 'e) parsed = Parsed 'a bytes | Incomplete | Backtrack 'e | Cut 'e

text \<open>What a token parser says: it takes so many bytes, it cannot tell yet, or it does not match.\<close>

datatype took = Took nat | RanOut | Differs

datatype head_error =
    MalformedStatusLine
  | BadStatus bytes
  | MalformedHeader
  | BadHeaderName bytes
  | BadHeaderValue bytes
  | ObsFold
  | BareLf

type_synonym 'a head_parser = "bytes \<Rightarrow> ('a, head_error) parsed"

record partial_lexer =
  pl_literal :: "bytes \<Rightarrow> bytes \<Rightarrow> took"
  pl_take_while :: "nat \<Rightarrow> nat option \<Rightarrow> (byte \<Rightarrow> bool) \<Rightarrow> bytes \<Rightarrow> took"
  pl_repeat :: "(bytes \<times> bytes) head_parser \<Rightarrow> (bytes \<times> bytes) list head_parser"

text \<open>The operator \<open>?\<close>, and the alternation, option and repetition of parsers: only a backtrack is recovered from.\<close>

definition and_then :: "('a, 'e) parsed \<Rightarrow> ('a \<Rightarrow> bytes \<Rightarrow> ('b, 'e) parsed) \<Rightarrow> ('b, 'e) parsed" where
  "and_then r f =
     (case r of Parsed x s \<Rightarrow> f x s | Incomplete \<Rightarrow> Incomplete | Backtrack e \<Rightarrow> Backtrack e | Cut e \<Rightarrow> Cut e)"

definition or_else :: "('a, 'e) parsed \<Rightarrow> ('a, 'e) parsed \<Rightarrow> ('a, 'e) parsed" where
  "or_else r r' = (case r of Backtrack e \<Rightarrow> r' | _ \<Rightarrow> r)"

text \<open>The error of a token that does not match is the default one of this parser, \<open>ParseFailure::from_input\<close>.\<close>

definition taken :: "took \<Rightarrow> bytes head_parser" where
  "taken t s =
     (case t of Took n \<Rightarrow> Parsed (take n s) (drop n s) | RanOut \<Rightarrow> Incomplete | Differs \<Rightarrow> Backtrack MalformedStatusLine)"

definition while_took :: "nat \<Rightarrow> nat option \<Rightarrow> (byte \<Rightarrow> bool) \<Rightarrow> bytes \<Rightarrow> took" where
  "while_took m n P s =
     (let k = length (takeWhile P s) in
      if k = length s \<and> (case n of None \<Rightarrow> True | Some x \<Rightarrow> k < x) then RanOut
      else if m \<le> at_most n k then Took (at_most n k) else Differs)"

definition literal_took :: "bytes \<Rightarrow> bytes \<Rightarrow> took" where
  "literal_took t s = (if starts_with s t then Took (length t) else if starts_with t s then RanOut else Differs)"

definition repeat_law :: "((bytes \<times> bytes) head_parser \<Rightarrow> (bytes \<times> bytes) list head_parser) \<Rightarrow> bool" where
  "repeat_law rep \<longleftrightarrow>
     (\<forall>p s. p s = Incomplete \<longrightarrow> rep p s = Incomplete) \<and>
     (\<forall>p s e. p s = Backtrack e \<longrightarrow> rep p s = Parsed [] s) \<and>
     (\<forall>p s e. p s = Cut e \<longrightarrow> rep p s = Cut e) \<and>
     (\<forall>p s x r. p s = Parsed x r \<and> length r < length s \<longrightarrow> rep p s = and_then (rep p r) (\<lambda>xs r'. Parsed (x # xs) r'))"

definition partial_ok :: "partial_lexer \<Rightarrow> bool" where
  "partial_ok w \<longleftrightarrow> pl_literal w = literal_took \<and> pl_take_while w = while_took \<and> repeat_law (pl_repeat w)"

section \<open>The parser of a head\<close>

text \<open>Of the \<open>http\<close> crate: \<open>StatusCode::from_bytes\<close>, \<open>HeaderName::from_bytes\<close>, and whether \<open>HeaderValue::from_bytes\<close> accepts.\<close>

record head_env =
  he_lexer :: partial_lexer
  he_status :: "bytes \<Rightarrow> nat option"
  he_name :: "bytes \<Rightarrow> bytes option"
  he_value :: "bytes \<Rightarrow> bool"

record response_head =
  rh_version :: nat
  rh_status :: nat
  rh_headers :: header_map

definition not_eol :: "byte \<Rightarrow> bool" where
  "not_eol b \<longleftrightarrow> b \<noteq> CHR 0x0D \<and> b \<noteq> CHR 0x0A"

definition trim_value :: "bytes \<Rightarrow> bytes" where
  "trim_value v = rev (dropWhile is_space (rev (dropWhile is_space v)))"

definition crlf :: "partial_lexer \<Rightarrow> unit head_parser" where
  "crlf w s =
     (case s of
        [] \<Rightarrow> Incomplete
      | b # _ \<Rightarrow>
          if b = CHR 0x0A then Cut BareLf
          else if b = CHR 0x0D then and_then (taken (pl_literal w [CHR 0x0D, CHR 0x0A] s) s) (\<lambda>_ r. Parsed () r)
          else Backtrack MalformedStatusLine)"

definition status_code :: "head_env \<Rightarrow> nat head_parser" where
  "status_code env s =
     and_then (taken (pl_take_while (he_lexer env) 3 (Some 3) is_ascii_digit s) s) (\<lambda>digits r.
       case he_status env digits of
         None \<Rightarrow> Cut (BadStatus (from_utf8_lossy digits))
       | Some n \<Rightarrow> Parsed n r)"

definition head_version :: "partial_lexer \<Rightarrow> nat head_parser" where
  "head_version w s =
     or_else (and_then (taken (pl_literal w ''HTTP/1.1'' s) s) (\<lambda>_ r. Parsed 11 r))
             (and_then (taken (pl_literal w ''HTTP/1.0'' s) s) (\<lambda>_ r. Parsed 10 r))"

definition reason_phrase :: "partial_lexer \<Rightarrow> unit head_parser" where
  "reason_phrase w s =
     or_else (and_then (taken (pl_literal w '' '' s) s) (\<lambda>_ r.
                and_then (taken (pl_take_while w 0 None not_eol r) r) (\<lambda>_ r'. Parsed () r')))
             (Parsed () s)"

definition status_line :: "head_env \<Rightarrow> (nat \<times> nat) head_parser" where
  "status_line env s =
     and_then (head_version (he_lexer env) s) (\<lambda>version r1.
     and_then (and_then (taken (pl_literal (he_lexer env) '' '' r1) r1) (\<lambda>_ r. status_code env r)) (\<lambda>status r2.
     and_then (reason_phrase (he_lexer env) r2) (\<lambda>_ r3. Parsed (version, status) r3)))"

text \<open>From the colon on.\<close>

definition field_rest :: "head_env \<Rightarrow> bytes \<Rightarrow> (bytes \<times> bytes) head_parser" where
  "field_rest env name s =
     (case taken (pl_literal (he_lexer env) '':'' s) s of
        Parsed _ r2 \<Rightarrow>
          and_then (taken (pl_take_while (he_lexer env) 0 None not_eol r2) r2) (\<lambda>value r3.
            case he_name env name of
              None \<Rightarrow> Cut (BadHeaderName (from_utf8_lossy name))
            | Some n \<Rightarrow>
                if he_value env (trim_value value) then Parsed (n, trim_value value) r3
                else Cut (BadHeaderValue n))
      | _ \<Rightarrow> Cut MalformedHeader)"

definition field_line :: "head_env \<Rightarrow> (bytes \<times> bytes) head_parser" where
  "field_line env s =
     (if s \<noteq> [] \<and> is_space (hd s) then Cut ObsFold
      else and_then (taken (pl_take_while (he_lexer env) 1 None is_tchar s) s) (field_rest env))"

definition terminated :: "head_env \<Rightarrow> 'a head_parser \<Rightarrow> 'a head_parser" where
  "terminated env p s = and_then (p s) (\<lambda>x r. and_then (crlf (he_lexer env) r) (\<lambda>_ r'. Parsed x r'))"

definition head_parse :: "head_env \<Rightarrow> response_head head_parser" where
  "head_parse env s =
     and_then (terminated env (status_line env) s) (\<lambda>(version, status) r1.
     and_then (pl_repeat (he_lexer env) (terminated env (field_line env)) r1) (\<lambda>fields r2.
     and_then (crlf (he_lexer env) r2) (\<lambda>_ r3.
       Parsed \<lparr>rh_version = version, rh_status = status, rh_headers = foldl (\<lambda>h (n, v). hm_append n v h) [] fields\<rparr> r3)))"

definition parse_response :: "head_env \<Rightarrow> bytes \<Rightarrow> head_error + (response_head \<times> nat) option" where
  "parse_response env b =
     (case head_parse env b of
        Parsed h r \<Rightarrow> Inr (Some (h, length b - length r))
      | Incomplete \<Rightarrow> Inr None
      | Backtrack e \<Rightarrow> Inl e
      | Cut e \<Rightarrow> Inl e)"

definition parse_response_bytes :: "head_env \<Rightarrow> bytes \<Rightarrow> (head_error + response_head option) \<times> bytes" where
  "parse_response_bytes env b =
     (case parse_response env b of
        Inl e \<Rightarrow> (Inl e, b)
      | Inr None \<Rightarrow> (Inr None, b)
      | Inr (Some (h, n)) \<Rightarrow> (Inr (Some h), drop n b))"

section \<open>A parser keeps its answer\<close>

definition streaming :: "('a, 'e) parsed \<Rightarrow> ('a, 'e) parsed \<Rightarrow> bytes \<Rightarrow> bool" where
  "streaming r r' x \<longleftrightarrow>
     (case r of Parsed v t \<Rightarrow> r' = Parsed v (t @ x) | Incomplete \<Rightarrow> True | Backtrack e \<Rightarrow> r' = Backtrack e | Cut e \<Rightarrow> r' = Cut e)"

named_theorems streaming_intro

lemma streaming_simps [simp]:
  "streaming (Parsed v t) r' x \<longleftrightarrow> r' = Parsed v (t @ x)"
  "streaming Incomplete r' x" "streaming (Backtrack e) r' x \<longleftrightarrow> r' = Backtrack e" "streaming (Cut e) r' x \<longleftrightarrow> r' = Cut e"
  by (simp_all add: streaming_def)

lemma and_then_simps [simp]:
  "and_then (Parsed v t) f = f v t" "and_then Incomplete f = Incomplete"
  "and_then (Backtrack e) f = Backtrack e" "and_then (Cut e) f = Cut e"
  by (simp_all add: and_then_def)

lemma or_else_simps [simp]:
  "or_else (Parsed v t) q = Parsed v t" "or_else Incomplete q = Incomplete" "or_else (Backtrack e) q = q" "or_else (Cut e) q = Cut e"
  by (simp_all add: or_else_def)

lemma streaming_then [streaming_intro]:
  "streaming r r' x \<Longrightarrow> (\<And>v t. r = Parsed v t \<Longrightarrow> streaming (f v t) (f v (t @ x)) x) \<Longrightarrow> streaming (and_then r f) (and_then r' f) x"
  by (cases r) auto

lemma streaming_or [streaming_intro]:
  "streaming r r' x \<Longrightarrow> streaming q q' x \<Longrightarrow> streaming (or_else r q) (or_else r' q') x"
  by (cases r) auto

lemma starts_with_append_iff: "starts_with s t \<longleftrightarrow> (\<exists>r. s = t @ r)"
  unfolding starts_with_def by (metis append_eq_conv_conj append_take_drop_id)

lemma streaming_literal [streaming_intro]: "streaming (taken (literal_took t s) s) (taken (literal_took t (s @ x)) (s @ x)) x"
proof -
  consider "starts_with s t" | "\<not> starts_with s t" "starts_with t s" | "\<not> starts_with s t" "\<not> starts_with t s" by blast
  then show ?thesis
  proof cases
    case 1
    then obtain r where "s = t @ r" by (auto simp: starts_with_append_iff)
    then show ?thesis by (simp add: taken_def literal_took_def starts_with_def)
  next
    case 2
    then show ?thesis by (simp add: taken_def literal_took_def)
  next
    case 3
    then have "\<not> starts_with (s @ x) t" "\<not> starts_with t (s @ x)" by (auto simp: starts_with_append_iff append_eq_append_conv2)
    then show ?thesis using 3 by (simp add: taken_def literal_took_def)
  qed
qed

lemma streaming_while [streaming_intro]:
  assumes "\<And>b. n = Some b \<Longrightarrow> m \<le> b"
  shows "streaming (taken (while_took m n P s) s) (taken (while_took m n P (s @ x)) (s @ x)) x"
proof (cases "list_all P s")
  case True
  then have k: "takeWhile P s = s" by (simp add: list_all_iff)
  show ?thesis
  proof (cases n)
    case (Some c)
    show ?thesis
    proof (cases "c \<le> length s")
      case l: True
      have kx: "takeWhile P (s @ x) = s @ takeWhile P x" using True by (simp add: takeWhile_append list_all_iff)
      have "while_took m n P s = Took c" using l assms [OF Some] by (simp add: while_took_def k Some at_most_def)
      moreover have "while_took m n P (s @ x) = Took c"
        using l assms [OF Some] by (simp add: while_took_def kx Some at_most_def min_absorb1)
      ultimately show ?thesis using l by (simp add: taken_def)
    next
      case False
      then show ?thesis by (simp add: taken_def while_took_def k Some)
    qed
  qed (simp add: k taken_def while_took_def Let_def)
next
  case False
  then obtain a where a: "a \<in> set s" "\<not> P a" by (auto simp: list_all_iff)
  have k: "takeWhile P (s @ x) = takeWhile P s" using takeWhile_append1 [of a s P x] a by blast
  have "length (takeWhile P s) < length s" by (metis a length_takeWhile_le nat_less_le set_takeWhileD takeWhile_eq_take take_all_iff)
  then have "length (takeWhile P s) < length s" "at_most n (length (takeWhile P s)) \<le> length s"
    by (auto simp: at_most_def min_def split: option.split)
  then show ?thesis by (simp add: taken_def while_took_def Let_def k)
qed

lemma repeat_streaming:
  assumes rep: "repeat_law rep" and p: "\<And>s. streaming (p s) (p (s @ x)) x" and less: "\<And>s v r. p s = Parsed v r \<Longrightarrow> length r < length s"
  shows "streaming (rep p s) (rep p (s @ x)) x"
proof (induction "length s" arbitrary: s rule: less_induct)
  case less
  note law = rep [unfolded repeat_law_def]
  show ?case
  proof (cases "p s")
    case (Parsed v r)
    have l: "length r < length s" using assms(3) [OF Parsed] .
    have px: "p (s @ x) = Parsed v (r @ x)" using p [of s] Parsed by simp
    have "rep p s = and_then (rep p r) (\<lambda>xs r'. Parsed (v # xs) r')" using law Parsed l by blast
    moreover have "rep p (s @ x) = and_then (rep p (r @ x)) (\<lambda>xs r'. Parsed (v # xs) r')" using law px l by (metis length_append add_less_cancel_right)
    ultimately show ?thesis using less [OF l] by (auto intro: streaming_then)
  next
    case Incomplete
    then show ?thesis using law by simp
  next
    case (Backtrack e)
    then have "p (s @ x) = Backtrack e" using p [of s] by simp
    then show ?thesis using law Backtrack by simp
  next
    case (Cut e)
    then have "p (s @ x) = Cut e" using p [of s] by simp
    then show ?thesis using law Cut by simp
  qed
qed

lemma and_then_Parsed: "and_then r f = Parsed v t \<longleftrightarrow> (\<exists>x s. r = Parsed x s \<and> f x s = Parsed v t)"
  by (cases r) auto

lemma or_else_Parsed: "or_else r q = Parsed v t \<longleftrightarrow> r = Parsed v t \<or> (\<exists>e. r = Backtrack e) \<and> q = Parsed v t"
  by (cases r) auto

lemma taken_literal: "taken (literal_took t s) s = Parsed v r \<longleftrightarrow> v = t \<and> s = t @ r"
  by (auto simp: taken_def literal_took_def starts_with_append_iff)

lemma taken_literal_Backtrack: "taken (literal_took [c] s) s = Backtrack e \<longleftrightarrow> s \<noteq> [] \<and> hd s \<noteq> c \<and> e = MalformedStatusLine"
  by (cases s) (auto simp: taken_def literal_took_def starts_with_def)

lemma taken_while:
  "taken (while_took m None P s) s = Parsed v r \<longleftrightarrow> s = v @ r \<and> list_all P v \<and> m \<le> length v \<and> r \<noteq> [] \<and> \<not> P (hd r)"
proof
  assume t: "taken (while_took m None P s) s = Parsed v r"
  let ?k = "length (takeWhile P s)"
  have k: "?k \<noteq> length s" "m \<le> ?k" "v = take ?k s" "r = drop ?k s"
    using t by (auto simp: taken_def while_took_def Let_def at_most_def split: if_splits)
  have v: "v = takeWhile P s" "r = dropWhile P s" using k(3,4) by (simp_all add: takeWhile_eq_take [symmetric] dropWhile_eq_drop [symmetric])
  have "r \<noteq> []" using k(1) v by (metis append_Nil2 takeWhile_dropWhile_id)
  then show "s = v @ r \<and> list_all P v \<and> m \<le> length v \<and> r \<noteq> [] \<and> \<not> P (hd r)"
    using k(2) v hd_dropWhile [of P s] by (auto simp: list_all_iff dest: set_takeWhileD)
next
  assume a: "s = v @ r \<and> list_all P v \<and> m \<le> length v \<and> r \<noteq> [] \<and> \<not> P (hd r)"
  then have "takeWhile P s = v" by (cases r) (auto simp: takeWhile_append list_all_iff)
  then show "taken (while_took m None P s) s = Parsed v r" using a by (simp add: taken_def while_took_def at_most_def)
qed

lemma taken_count:
  "taken (while_took c (Some c) P s) s = Parsed v r \<longleftrightarrow> s = v @ r \<and> length v = c \<and> list_all P v"
proof
  assume t: "taken (while_took c (Some c) P s) s = Parsed v r"
  then have c: "c \<le> length (takeWhile P s)" "v = take c s" "r = drop c s"
    by (auto simp: taken_def while_took_def Let_def at_most_def split: if_splits)
  then have "v = take c (takeWhile P s)" by (metis takeWhile_eq_take take_take min.absorb1)
  then have "list_all P v" by (auto simp: list_all_iff dest: in_set_takeD set_takeWhileD)
  moreover have "length v = c" using c(1,2) length_takeWhile_le [of P s] by simp
  ultimately show "s = v @ r \<and> length v = c \<and> list_all P v" using c by simp
next
  assume a: "s = v @ r \<and> length v = c \<and> list_all P v"
  then have "takeWhile P s = v @ takeWhile P r" by (simp add: takeWhile_append list_all_iff)
  then show "taken (while_took c (Some c) P s) s = Parsed v r" using a by (simp add: taken_def while_took_def at_most_def min_absorb1)
qed

lemma while_any: "while_took 0 None P s \<noteq> Differs"
  by (simp add: while_took_def Let_def at_most_def)

section \<open>What each parser accepts\<close>

abbreviation CRLF :: bytes where
  "CRLF \<equiv> [CHR 0x0D, CHR 0x0A]"

lemma partial_laws: "partial_ok w \<Longrightarrow> pl_literal w = literal_took" "partial_ok w \<Longrightarrow> pl_take_while w = while_took"
    "partial_ok w \<Longrightarrow> repeat_law (pl_repeat w)"
  by (simp_all add: partial_ok_def)

lemma crlf_Parsed: "partial_ok w \<Longrightarrow> crlf w s = Parsed u r \<longleftrightarrow> s = CRLF @ r"
  by (cases s) (auto simp: crlf_def partial_laws and_then_Parsed taken_literal)

lemma terminated_Parsed:
  "partial_ok (he_lexer env) \<Longrightarrow> terminated env p s = Parsed x r \<longleftrightarrow> p s = Parsed x (CRLF @ r)"
  by (auto simp: terminated_def and_then_Parsed crlf_Parsed)

lemma head_version_Parsed:
  "partial_ok w \<Longrightarrow> head_version w s = Parsed v r \<longleftrightarrow> v = 11 \<and> s = ''HTTP/1.1'' @ r \<or> v = 10 \<and> s = ''HTTP/1.0'' @ r"
  by (auto simp: head_version_def partial_laws or_else_Parsed and_then_Parsed taken_literal)
    (auto simp: taken_def literal_took_def starts_with_def and_then_def)

lemma status_code_Parsed:
  "partial_ok (he_lexer env) \<Longrightarrow> status_code env s = Parsed n r \<longleftrightarrow>
     (\<exists>d. s = d @ r \<and> length d = 3 \<and> list_all is_ascii_digit d \<and> he_status env d = Some n)"
  by (auto simp: status_code_def partial_laws and_then_Parsed taken_count split: option.splits)

text \<open>A reason phrase, with the space before it, or nothing.\<close>

definition reason_written :: "bytes option \<Rightarrow> bytes" where
  "reason_written q = (case q of None \<Rightarrow> [] | Some x \<Rightarrow> CHR '' '' # x)"

lemma reason_Parsed:
  assumes "partial_ok w"
  shows "reason_phrase w s = Parsed u (CRLF @ r) \<longleftrightarrow> (\<exists>q. pred_option (list_all not_eol) q \<and> s = reason_written q @ CRLF @ r)"
proof -
  have e: "\<not> not_eol (CHR 0x0D)" by (simp add: not_eol_def)
  have "reason_phrase w s = Parsed u (CRLF @ r) \<longleftrightarrow>
    (\<exists>x. list_all not_eol x \<and> s = CHR '' '' # x @ CRLF @ r) \<or> s = CRLF @ r"
  proof (cases "s \<noteq> [] \<and> hd s = CHR '' ''")
    case True
    then obtain t where s: "s = CHR '' '' # t" by (cases s) auto
    then have "taken (literal_took '' '' s) s = Parsed '' '' t" by (simp add: taken_literal)
    then have "reason_phrase w s = and_then (taken (while_took 0 None not_eol t) t) (\<lambda>_ r'. Parsed () r')"
      using while_any [of not_eol t]
      by (cases "while_took 0 None not_eol t") (simp_all add: reason_phrase_def partial_laws [OF assms] taken_def [of "Took _"] taken_def [of RanOut])
    then show ?thesis using s by (auto simp: and_then_Parsed taken_while e)
  next
    case False
    then have "reason_phrase w s = (if s = [] then Incomplete else Parsed () s)"
      by (cases s) (auto simp: reason_phrase_def partial_laws [OF assms] taken_def literal_took_def starts_with_def)
    then show ?thesis using False by auto
  qed
  also have "\<dots> \<longleftrightarrow> (\<exists>q. pred_option (list_all not_eol) q \<and> s = reason_written q @ CRLF @ r)"
  proof -
    have "(\<exists>q. P q) \<longleftrightarrow> P None \<or> (\<exists>x. P (Some x))" for P :: "bytes option \<Rightarrow> bool" by (metis option.exhaust)
    then show ?thesis by (auto simp: reason_written_def)
  qed
  finally show ?thesis .
qed

text \<open>A field line as it is written, and what is read of it.\<close>

definition field_written :: "bytes \<times> bytes \<Rightarrow> bytes" where
  "field_written f = (case f of (n, v) \<Rightarrow> n @ '':'' @ v @ CRLF)"

definition field_read :: "head_env \<Rightarrow> bytes \<times> bytes \<Rightarrow> bytes \<times> bytes" where
  "field_read env f = (case f of (n, v) \<Rightarrow> (the (he_name env n), trim_value v))"

definition field_fine :: "head_env \<Rightarrow> bytes \<times> bytes \<Rightarrow> bool" where
  "field_fine env f \<longleftrightarrow> (case f of (n, v) \<Rightarrow> n \<noteq> [] \<and> list_all is_tchar n \<and> list_all not_eol v \<and>
     he_name env n \<noteq> None \<and> he_value env (trim_value v))"

lemma tchar_plain: "is_tchar c \<Longrightarrow> \<not> is_space c \<and> c \<noteq> CHR '':''" "\<not> is_tchar (CHR '':'')" "\<not> is_tchar (CHR 0x0D)"
proof -
  show c: "\<not> is_tchar (CHR '':'')" "\<not> is_tchar (CHR 0x0D)" by code_simp+
  have "\<not> is_tchar (CHR '' '')" "\<not> is_tchar (CHR 0x09)" by code_simp+
  then show "is_tchar c \<Longrightarrow> \<not> is_space c \<and> c \<noteq> CHR '':''" using c by (auto simp: is_space_def)
qed

lemma field_line_Parsed:
  assumes "partial_ok (he_lexer env)"
  shows "field_line env s = Parsed f (CRLF @ r) \<longleftrightarrow> (\<exists>g. field_fine env g \<and> f = field_read env g \<and> s = field_written g @ r)"
proof
  assume p: "field_line env s = Parsed f (CRLF @ r)"
  then obtain n r1 where n: "taken (while_took 1 None is_tchar s) s = Parsed n r1"
    by (auto simp: field_line_def and_then_Parsed partial_laws [OF assms] split: if_splits)
  then obtain x r2 where l: "taken (literal_took '':'' r1) r1 = Parsed x r2"
    using p by (auto simp: field_line_def field_rest_def partial_laws [OF assms] split: if_splits parsed.splits)
  then obtain v where v: "taken (while_took 0 None not_eol r2) r2 = Parsed v (CRLF @ r)"
    "he_name env n = Some (fst f)" "he_value env (trim_value v)" "f = (fst f, trim_value v)"
    using p n by (auto simp: field_line_def field_rest_def partial_laws [OF assms] and_then_Parsed split: if_splits option.splits)
  have "s = field_written (n, v) @ r" using n l v(1) by (simp add: taken_while taken_literal field_written_def)
  moreover have "field_fine env (n, v)" using n v by (auto simp: taken_while field_fine_def)
  moreover have "f = field_read env (n, v)" using v(2,4) by (cases f) (simp add: field_read_def)
  ultimately show "\<exists>g. field_fine env g \<and> f = field_read env g \<and> s = field_written g @ r" by blast
next
  assume "\<exists>g. field_fine env g \<and> f = field_read env g \<and> s = field_written g @ r"
  then obtain n v where g: "field_fine env (n, v)" "f = field_read env (n, v)" "s = n @ '':'' @ v @ CRLF @ r"
    by (auto simp: field_written_def)
  obtain c n' where n: "n = c # n'" "is_tchar c" using g(1) by (cases n) (auto simp: field_fine_def)
  have 1: "taken (while_took (Suc 0) None is_tchar s) s = Parsed n (CHR '':'' # v @ CRLF @ r)"
    using g(1,3) n tchar_plain(2) by (simp add: taken_while field_fine_def)
  have 2: "taken (literal_took '':'' (CHR '':'' # v @ CRLF @ r)) (CHR '':'' # v @ CRLF @ r) = Parsed '':'' (v @ CRLF @ r)"
    by (simp add: taken_literal)
  have 3: "taken (while_took 0 None not_eol (v @ CRLF @ r)) (v @ CRLF @ r) = Parsed v (CRLF @ r)"
    using g(1) by (simp add: taken_while field_fine_def not_eol_def)
  have "\<not> (s \<noteq> [] \<and> is_space (hd s))" using tchar_plain(1) [OF n(2)] n(1) g(3) by simp
  then show "field_line env s = Parsed f (CRLF @ r)"
    using g(1,2) 1 2 3 by (auto simp: field_line_def field_rest_def partial_laws [OF assms] field_fine_def field_read_def)
qed

lemma field_line_stops: "partial_ok (he_lexer env) \<Longrightarrow> field_line env (CRLF @ r) = Backtrack MalformedStatusLine"
  using tchar_plain(3)
  by (simp add: field_line_def is_space_def partial_laws taken_def while_took_def at_most_def)

lemma line_Parsed:
  assumes "partial_ok (he_lexer env)"
  shows "terminated env (field_line env) s = Parsed f r \<longleftrightarrow> (\<exists>g. field_fine env g \<and> f = field_read env g \<and> s = field_written g @ r)"
  by (simp only: terminated_Parsed [OF assms] field_line_Parsed [OF assms])

lemma line_less: "partial_ok (he_lexer env) \<Longrightarrow> terminated env (field_line env) s = Parsed f r \<Longrightarrow> length r < length s"
  by (auto simp: line_Parsed field_written_def)

lemma repeat_cases:
  assumes "repeat_law rep" "\<And>v t. p s = Parsed v t \<Longrightarrow> length t < length s"
  shows "rep p s = (case p s of Incomplete \<Rightarrow> Incomplete | Backtrack e \<Rightarrow> Parsed [] s | Cut e \<Rightarrow> Cut e
    | Parsed v t \<Rightarrow> and_then (rep p t) (\<lambda>vs t'. Parsed (v # vs) t'))"
  using assms(1) assms(2) unfolding repeat_law_def by (cases "p s") auto

lemma lines_Parsed:
  assumes w: "partial_ok (he_lexer env)"
  shows "pl_repeat (he_lexer env) (terminated env (field_line env)) s = Parsed fs (CRLF @ r) \<longleftrightarrow>
    (\<exists>gs. list_all (field_fine env) gs \<and> fs = map (field_read env) gs \<and> s = concat (map field_written gs) @ CRLF @ r)"
proof (induction "length s" arbitrary: s fs rule: less_induct)
  case less
  have rep: "pl_repeat (he_lexer env) (terminated env (field_line env)) s =
      (case terminated env (field_line env) s of Incomplete \<Rightarrow> Incomplete | Backtrack e \<Rightarrow> Parsed [] s | Cut e \<Rightarrow> Cut e
       | Parsed v t \<Rightarrow> and_then (pl_repeat (he_lexer env) (terminated env (field_line env)) t) (\<lambda>vs t'. Parsed (v # vs) t'))"
    by (rule repeat_cases [OF partial_laws(3) [OF w]]) (rule line_less [OF w])
  show ?case
  proof
    assume p: "pl_repeat (he_lexer env) (terminated env (field_line env)) s = Parsed fs (CRLF @ r)"
    show "\<exists>gs. list_all (field_fine env) gs \<and> fs = map (field_read env) gs \<and> s = concat (map field_written gs) @ CRLF @ r"
    proof (cases "terminated env (field_line env) s")
      case (Parsed f t)
      then obtain g where g: "field_fine env g" "f = field_read env g" "s = field_written g @ t" using line_Parsed [OF w] by blast
      obtain fs' where f: "pl_repeat (he_lexer env) (terminated env (field_line env)) t = Parsed fs' (CRLF @ r)" "fs = f # fs'"
        using p unfolding rep Parsed by (auto simp: and_then_Parsed)
      then obtain gs where "list_all (field_fine env) gs" "fs' = map (field_read env) gs" "t = concat (map field_written gs) @ CRLF @ r"
        using less [OF line_less [OF w Parsed]] by blast
      then have "list_all (field_fine env) (g # gs) \<and> fs = map (field_read env) (g # gs) \<and> s = concat (map field_written (g # gs)) @ CRLF @ r"
        using g f(2) by simp
      then show ?thesis by blast
    next
      case (Backtrack e)
      then have "list_all (field_fine env) [] \<and> fs = map (field_read env) [] \<and> s = concat (map field_written []) @ CRLF @ r"
        using p by (simp add: rep)
      then show ?thesis by blast
    qed (use p in \<open>simp_all add: rep\<close>)
  next
    assume "\<exists>gs. list_all (field_fine env) gs \<and> fs = map (field_read env) gs \<and> s = concat (map field_written gs) @ CRLF @ r"
    then obtain gs where gs: "list_all (field_fine env) gs" "fs = map (field_read env) gs" "s = concat (map field_written gs) @ CRLF @ r" by blast
    show "pl_repeat (he_lexer env) (terminated env (field_line env)) s = Parsed fs (CRLF @ r)"
    proof (cases gs)
      case Nil
      then show ?thesis using gs field_line_stops [OF w, of r] unfolding rep by (simp add: terminated_def)
    next
      case (Cons g gs')
      let ?t = "concat (map field_written gs') @ CRLF @ r"
      have p: "terminated env (field_line env) s = Parsed (field_read env g) ?t"
        using gs(1,3) Cons unfolding line_Parsed [OF w] by (intro exI [of _ g]) simp
      have "pl_repeat (he_lexer env) (terminated env (field_line env)) ?t = Parsed (map (field_read env) gs') (CRLF @ r)"
        using less [OF line_less [OF w p]] gs(1) Cons by auto
      then show ?thesis using gs(2) Cons p unfolding rep by simp
    qed
  qed
qed

section \<open>Heads as they are written\<close>

record written_head =
  wh_version :: nat
  wh_status :: bytes
  wh_reason :: "bytes option"
  wh_fields :: "(bytes \<times> bytes) list"

definition version_written :: "nat \<Rightarrow> bytes" where
  "version_written v = (if v = 11 then ''HTTP/1.1'' else ''HTTP/1.0'')"

definition head_written :: "written_head \<Rightarrow> bytes" where
  "head_written w = version_written (wh_version w) @ '' '' @ wh_status w @ reason_written (wh_reason w) @ CRLF @
     concat (map field_written (wh_fields w)) @ CRLF"

definition head_fine :: "head_env \<Rightarrow> written_head \<Rightarrow> bool" where
  "head_fine env w \<longleftrightarrow> wh_version w \<in> {10, 11} \<and> length (wh_status w) = 3 \<and> list_all is_ascii_digit (wh_status w) \<and>
     he_status env (wh_status w) \<noteq> None \<and> pred_option (list_all not_eol) (wh_reason w) \<and> list_all (field_fine env) (wh_fields w)"

definition head_read :: "head_env \<Rightarrow> written_head \<Rightarrow> response_head" where
  "head_read env w = \<lparr>rh_version = wh_version w, rh_status = the (he_status env (wh_status w)),
     rh_headers = map (field_read env) (wh_fields w)\<rparr>"

lemma append_all: "foldl (\<lambda>h (n, v). hm_append n v h) h fs = h @ fs"
  by (induction fs arbitrary: h) (auto simp: hm_append_def)

lemma status_line_Parsed:
  assumes "partial_ok (he_lexer env)"
  shows "status_line env s = Parsed (v, n) (CRLF @ r) \<longleftrightarrow>
    (\<exists>d q. v \<in> {10, 11} \<and> length d = 3 \<and> list_all is_ascii_digit d \<and> he_status env d = Some n \<and> pred_option (list_all not_eol) q \<and>
       s = version_written v @ '' '' @ d @ reason_written q @ CRLF @ r)"
proof -
  have "status_line env s = Parsed (v, n) t \<longleftrightarrow>
    (\<exists>d r2. v \<in> {10, 11} \<and> length d = 3 \<and> list_all is_ascii_digit d \<and> he_status env d = Some n \<and>
       s = version_written v @ '' '' @ d @ r2 \<and> reason_phrase (he_lexer env) r2 = Parsed () t)" for t
    by (auto simp: status_line_def and_then_Parsed head_version_Parsed [OF assms] partial_laws(1) [OF assms] taken_literal
      status_code_Parsed [OF assms] version_written_def) blast+
  from this [of "CRLF @ r"] show ?thesis unfolding reason_Parsed [OF assms] by blast
qed

lemma head_Parsed:
  assumes w: "partial_ok (he_lexer env)"
  shows "head_parse env s = Parsed h r \<longleftrightarrow> (\<exists>x. head_fine env x \<and> h = head_read env x \<and> s = head_written x @ r)"
proof
  assume "head_parse env s = Parsed h r"
  then obtain v n r1 fs where 1: "status_line env s = Parsed (v, n) (CRLF @ r1)"
    and 2: "pl_repeat (he_lexer env) (terminated env (field_line env)) r1 = Parsed fs (CRLF @ r)"
    and h: "h = \<lparr>rh_version = v, rh_status = n, rh_headers = fs\<rparr>"
    by (auto simp: head_parse_def and_then_Parsed terminated_Parsed [OF w] crlf_Parsed [OF w] append_all)
  obtain d q where d: "v \<in> {10, 11}" "length d = 3" "list_all is_ascii_digit d" "he_status env d = Some n" "pred_option (list_all not_eol) q"
    "s = version_written v @ '' '' @ d @ reason_written q @ CRLF @ r1" using 1 unfolding status_line_Parsed [OF w] by blast
  obtain gs where g: "list_all (field_fine env) gs" "fs = map (field_read env) gs" "r1 = concat (map field_written gs) @ CRLF @ r"
    using 2 unfolding lines_Parsed [OF w] by blast
  let ?x = "\<lparr>wh_version = v, wh_status = d, wh_reason = q, wh_fields = gs\<rparr>"
  have "head_fine env ?x \<and> h = head_read env ?x \<and> s = head_written ?x @ r"
    using d g h by (simp add: head_fine_def head_read_def head_written_def)
  then show "\<exists>x. head_fine env x \<and> h = head_read env x \<and> s = head_written x @ r" by blast
next
  assume "\<exists>x. head_fine env x \<and> h = head_read env x \<and> s = head_written x @ r"
  then obtain x where x: "head_fine env x" "h = head_read env x" "s = head_written x @ r" by blast
  let ?t = "concat (map field_written (wh_fields x)) @ CRLF @ r"
  obtain n where n: "he_status env (wh_status x) = Some n" using x(1) by (auto simp: head_fine_def)
  have "status_line env s = Parsed (wh_version x, n) (CRLF @ ?t)"
    using x(1,3) n unfolding status_line_Parsed [OF w] head_fine_def
    by (intro exI [of _ "wh_status x"] exI [of _ "wh_reason x"]) (simp add: head_written_def)
  moreover have "pl_repeat (he_lexer env) (terminated env (field_line env)) ?t = Parsed (map (field_read env) (wh_fields x)) (CRLF @ r)"
    using x(1) unfolding lines_Parsed [OF w] head_fine_def by blast
  ultimately show "head_parse env s = Parsed h r"
    using x(2) n by (simp add: head_parse_def and_then_Parsed terminated_Parsed [OF w] crlf_Parsed [OF w] append_all head_read_def)
qed

section \<open>The whole parser is streaming\<close>

lemma crlf_streaming [streaming_intro]:
  assumes "partial_ok w"
  shows "streaming (crlf w s) (crlf w (s @ x)) x"
proof (cases s)
  case (Cons b t)
  have "streaming (taken (literal_took CRLF s) s) (taken (literal_took CRLF (s @ x)) (s @ x)) x" by (rule streaming_literal)
  then show ?thesis using Cons by (auto simp: crlf_def partial_laws [OF assms] intro: streaming_then)
qed (simp add: crlf_def)

lemma terminated_streaming:
  assumes "partial_ok (he_lexer env)" "streaming (p s) (p (s @ x)) x"
  shows "streaming (terminated env p s) (terminated env p (s @ x)) x"
  unfolding terminated_def by (intro streaming_then assms(2) crlf_streaming [OF assms(1)]) simp

lemma status_line_streaming:
  assumes "partial_ok (he_lexer env)"
  shows "streaming (status_line env s) (status_line env (s @ x)) x"
proof -
  have code: "streaming (status_code env r) (status_code env (r @ x)) x" for r
    unfolding status_code_def partial_laws [OF assms] by (intro streaming_then streaming_while) (auto split: option.split)
  have version: "streaming (head_version (he_lexer env) s) (head_version (he_lexer env) (s @ x)) x"
    unfolding head_version_def partial_laws [OF assms] by (intro streaming_or streaming_then streaming_literal) simp_all
  have reason: "streaming (reason_phrase (he_lexer env) r) (reason_phrase (he_lexer env) (r @ x)) x" for r
    unfolding reason_phrase_def partial_laws [OF assms] by (intro streaming_or streaming_then streaming_literal streaming_while) simp_all
  show ?thesis
    unfolding status_line_def partial_laws [OF assms]
    by (intro streaming_then version code reason streaming_literal) simp
qed

lemma field_rest_streaming:
  assumes "partial_ok (he_lexer env)" "r \<noteq> []"
  shows "streaming (field_rest env n r) (field_rest env n (r @ x)) x"
proof -
  have val: "streaming (taken (while_took 0 None not_eol t) t) (taken (while_took 0 None not_eol (t @ x)) (t @ x)) x" for t
    by (rule streaming_while) simp
  consider "taken (literal_took '':'' r) r = Parsed '':'' (tl r)" "taken (literal_took '':'' (r @ x)) (r @ x) = Parsed '':'' (tl r @ x)"
    | e e' where "taken (literal_took '':'' r) r = Backtrack e" "taken (literal_took '':'' (r @ x)) (r @ x) = Backtrack e'"
    using assms(2) by (cases r) (auto simp: taken_literal taken_literal_Backtrack)
  then show ?thesis
    by cases (auto simp: field_rest_def partial_laws [OF assms(1)] intro!: streaming_then val split: option.split)
qed

lemma field_line_streaming:
  assumes "partial_ok (he_lexer env)"
  shows "streaming (field_line env s) (field_line env (s @ x)) x"
proof (cases "s = [] \<or> is_space (hd s)")
  case True
  then show ?thesis
    by (cases s) (simp_all add: field_line_def partial_laws [OF assms] taken_def while_took_def)
next
  case False
  have "streaming (taken (while_took 1 None is_tchar s) s) (taken (while_took 1 None is_tchar (s @ x)) (s @ x)) x"
    by (rule streaming_while) simp
  then have "streaming (and_then (taken (while_took 1 None is_tchar s) s) (field_rest env))
      (and_then (taken (while_took 1 None is_tchar (s @ x)) (s @ x)) (field_rest env)) x"
    by (rule streaming_then) (auto simp: taken_while intro: field_rest_streaming [OF assms])
  then show ?thesis using False by (simp add: field_line_def partial_laws [OF assms])
qed

lemma head_streaming:
  assumes w: "partial_ok (he_lexer env)"
  shows "streaming (head_parse env s) (head_parse env (s @ x)) x"
proof -
  have line: "streaming (terminated env (field_line env) s) (terminated env (field_line env) (s @ x)) x" for s
    by (rule terminated_streaming [OF w]) (rule field_line_streaming [OF w])
  have lines: "streaming (pl_repeat (he_lexer env) (terminated env (field_line env)) s)
      (pl_repeat (he_lexer env) (terminated env (field_line env)) (s @ x)) x" for s
    by (rule repeat_streaming [OF partial_laws(3) [OF w]]) (rule line, rule line_less [OF w])
  show ?thesis
    unfolding head_parse_def
    by (auto intro!: streaming_then terminated_streaming [OF w] status_line_streaming [OF w] lines crlf_streaming [OF w])
qed

lemma parse_response_more:
  assumes w: "partial_ok (he_lexer env)" and p: "parse_response env b \<noteq> Inr None"
  shows "parse_response env (b @ x) = parse_response env b"
  using head_streaming [OF w, of b x] p by (cases "head_parse env b") (auto simp: parse_response_def)

lemma parse_response_Some:
  assumes w: "partial_ok (he_lexer env)"
  shows "parse_response env b = Inr (Some (h, n)) \<longleftrightarrow>
    (\<exists>x r. head_fine env x \<and> h = head_read env x \<and> b = head_written x @ r \<and> n = length (head_written x))"
proof -
  have "parse_response env b = Inr (Some (h, n)) \<longleftrightarrow> (\<exists>r. head_parse env b = Parsed h r \<and> n = length b - length r)"
    by (auto simp: parse_response_def split: parsed.splits)
  then show ?thesis unfolding head_Parsed [OF w] by fastforce
qed

text \<open>A concrete instance of what is used of \<open>winnow\<close>.\<close>

function ref_repeat_partial :: "(bytes \<times> bytes) head_parser \<Rightarrow> (bytes \<times> bytes) list head_parser" where
  "ref_repeat_partial p s =
     (case p s of
        Parsed x r \<Rightarrow>
          if length r < length s then and_then (ref_repeat_partial p r) (\<lambda>xs r'. Parsed (x # xs) r') else Parsed [] s
      | Incomplete \<Rightarrow> Incomplete
      | Backtrack e \<Rightarrow> Parsed [] s
      | Cut e \<Rightarrow> Cut e)"
  by pat_completeness auto
termination
  by (relation "measure (length \<circ> snd)") auto

declare ref_repeat_partial.simps [simp del]

definition ref_partial :: partial_lexer where
  "ref_partial = \<lparr>pl_literal = literal_took, pl_take_while = while_took, pl_repeat = ref_repeat_partial\<rparr>"

lemma ref_partial_ok: "partial_ok ref_partial"
  by (simp add: partial_ok_def ref_partial_def repeat_law_def ref_repeat_partial.simps)

definition demo_head_env :: head_env where
  "demo_head_env = \<lparr>he_lexer = ref_partial,
     he_status = (\<lambda>d. if d ! 0 = CHR ''0'' then None else Some (foldl (\<lambda>n c. 10 * n + (byte_val c - 48)) 0 d)),
     he_name = (\<lambda>n. Some (to_ascii_lowercase n)), he_value = list_all not_eol\<rparr>"

definition demo_head :: written_head where
  "demo_head = \<lparr>wh_version = 11, wh_status = ''200'', wh_reason = Some ''OK'', wh_fields = [(''Via'', '' p'')]\<rparr>"

lemma demo_head_lexer: "partial_ok (he_lexer demo_head_env)"
  by (simp add: demo_head_env_def ref_partial_ok)

lemma demo_head_fine: "head_fine demo_head_env demo_head"
proof -
  have "list_all is_tchar ''Via''" "list_all is_ascii_digit ''200''" "list_all not_eol ''OK''" "list_all not_eol '' p''" "trim_value '' p'' = ''p''"
    by code_simp+
  then show ?thesis by (simp add: head_fine_def demo_head_def demo_head_env_def field_fine_def not_eol_def)
qed

section \<open>The properties\<close>

text \<open>
  Property C22. What is accepted is the grammar, and nothing else: bytes are answered with a head of a certain length
  exactly when they begin with a version of HTTP/1, three digits that are a status, perhaps a reason without a line end, fields
  that are a token, a colon right after it and a value without a line end, and CRLF after each line and at the end; the head is then the status and the
  fields in order, with the space around the values gone, and the length is that of these bytes. A bare LF, a folded line and
  a space before the colon are in no such text.
\<close>

theorem parse_response_exact:
  assumes "partial_ok (he_lexer env)"
  shows "parse_response env b = Inr (Some (h, n)) \<longleftrightarrow>
    (\<exists>x r. head_fine env x \<and> h = head_read env x \<and> b = head_written x @ r \<and> n = length (head_written x))"
  by (rule parse_response_Some [OF assms])

text \<open>
  Property C24. A head is read as it was written, wherever the reads cut it: while some of it is missing the answer is "not yet",
  never an error, and from then on it is the head and its length, whatever follows.
\<close>

theorem head_reads:
  assumes w: "partial_ok (he_lexer env)" and x: "head_fine env x"
  shows "parse_response env (take k (head_written x @ r)) =
    (if k < length (head_written x) then Inr None else Inr (Some (head_read env x, length (head_written x))))"
proof -
  let ?a = "Inr (Some (head_read env x, length (head_written x)))"
  have all: "parse_response env (head_written x @ t) = ?a" for t using x unfolding parse_response_Some [OF w] by blast
  show ?thesis
  proof (cases "k < length (head_written x)")
    case True
    have "parse_response env (take k (head_written x)) = Inr None"
    proof (rule ccontr)
      assume n: "parse_response env (take k (head_written x)) \<noteq> Inr None"
      from parse_response_more [OF w n, of "drop k (head_written x)"] all [of "[]"]
      have "parse_response env (take k (head_written x)) = ?a" by simp
      then obtain y t where "take k (head_written x) = head_written y @ t" "length (head_written x) = length (head_written y)"
        unfolding parse_response_Some [OF w] by blast
      then have "length (take k (head_written x)) = length (head_written x) + length t" by simp
      then show False using True by simp
    qed
    then show ?thesis using True by simp
  next
    case False
    then show ?thesis using all by simp
  qed
qed

theorem parse_response_exact_witness:
  "\<exists>x r. head_fine demo_head_env x \<and> head_read demo_head_env demo_head = head_read demo_head_env x \<and>
     head_written demo_head @ ''hi'' = head_written x @ r \<and> length (head_written demo_head) = length (head_written x)"
  using parse_response_exact [OF demo_head_lexer, of "head_written demo_head @ ''hi''" "head_read demo_head_env demo_head"
      "length (head_written demo_head)"] demo_head_fine by blast

theorem head_reads_witness:
  "parse_response demo_head_env (take 10 (head_written demo_head)) = Inr None \<and>
   parse_response demo_head_env (head_written demo_head @ ''hi'') =
     Inr (Some (\<lparr>rh_version = 11, rh_status = 200, rh_headers = [(''via'', ''p'')]\<rparr>, 27))"
proof -
  have r: "head_read demo_head_env demo_head = \<lparr>rh_version = 11, rh_status = 200, rh_headers = [(''via'', ''p'')]\<rparr>"
    "length (head_written demo_head) = 27" by code_simp+
  show ?thesis
    using head_reads [OF demo_head_lexer demo_head_fine, of 10 "[]"] head_reads [OF demo_head_lexer demo_head_fine, of 29 "''hi''"]
    by (simp add: r)
qed

text \<open>A field line that does not begin with a name is reported as a bad status line: the repetition backtracks, and so does the final CRLF.\<close>

lemma bad_field_blames_status_line:
  "parse_response demo_head_env (''HTTP/1.1 200 OK'' @ CRLF @ '': p'' @ CRLF @ CRLF) = Inl MalformedStatusLine"
  by code_simp

end
