(* ===== verification/Http_Connect.thy ===== *)
theory Http_Connect
  imports Handshake Response_Head
begin

text \<open>
  The HTTP \<open>CONNECT\<close> handshake, \<open>crates/hclient-proxy/src/connect.rs\<close>: one request head out, one response head in, read by the
  parser of \<open>Response_Head\<close>. It keeps the contract of \<open>Handshake\<close> for streams within its bound on a head.
\<close>

section \<open>The model\<close>

record http_connect =
  hc_auth :: "bytes option"
  awaiting_head :: bool

datatype connect_error =
    HeadMalformed head_error
  | HeadTooLong nat
  | BadAuthority bytes nat
  | ColonInUsername
  | BadCredential
  | ProxyRefused nat

datatype approach = ApproachTunnel | ApproachAbsolute

text \<open>
  Beside the parser: \<open>encode::base64\<close>, which the crate \<open>base64\<close> gives; whether \<open>Authority::try_from\<close> and
  \<open>HeaderValue::from_str\<close> of the crate \<open>http\<close> accept.
\<close>

record connect_env =
  cx_head :: head_env
  cx_base64 :: "bytes \<Rightarrow> bytes"
  cx_authority :: "bytes \<Rightarrow> bool"
  cx_header_str :: "bytes \<Rightarrow> bool"

definition MAX_HEAD :: nat where
  "MAX_HEAD = 64 * 1024"

definition connect_new :: http_connect where
  "connect_new = \<lparr>hc_auth = None, awaiting_head = False\<rparr>"

definition connect_basic_auth :: "connect_env \<Rightarrow> http_connect \<Rightarrow> bytes \<Rightarrow> bytes \<Rightarrow> connect_error + http_connect" where
  "connect_basic_auth env h user password =
     (if CHR '':'' \<in> set user then Inl ColonInUsername
      else let v = ''Basic '' @ cx_base64 env (user @ '':'' @ password) in
        if cx_header_str env v then Inr (h\<lparr>hc_auth := Some v\<rparr>) else Inl BadCredential)"

definition connect_approach :: "http_connect \<Rightarrow> bool \<Rightarrow> approach" where
  "connect_approach h use_tls = (if use_tls then ApproachTunnel else ApproachAbsolute)"

definition connect_proxy_authorization :: "http_connect \<Rightarrow> bytes option" where
  "connect_proxy_authorization h = hc_auth h"

definition connect_begin :: "connect_env \<Rightarrow> http_connect \<Rightarrow> bytes \<Rightarrow> nat \<Rightarrow> connect_error + (bytes \<times> http_connect)" where
  "connect_begin env h host port =
     (let a = host @ '':'' @ dec_bytes port in
      if \<not> cx_authority env a then Inl (BadAuthority host port)
      else Inr (''CONNECT '' @ a @ '' HTTP/1.1'' @ CRLF @ ''Host: '' @ a @ CRLF @
             (case hc_auth h of None \<Rightarrow> [] | Some v \<Rightarrow> ''Proxy-Authorization: '' @ v @ CRLF) @ CRLF,
           h\<lparr>awaiting_head := True\<rparr>))"

definition connect_advance :: "connect_env \<Rightarrow> (http_connect, connect_error) advance" where
  "connect_advance env h buf =
     (if \<not> awaiting_head h then (Inr Done, h, buf)
      else case parse_response (cx_head env) buf of
        Inl e \<Rightarrow> (Inl (HeadMalformed e), h, buf)
      | Inr None \<Rightarrow>
          if length buf > MAX_HEAD then (Inl (HeadTooLong (length buf)), h, buf) else (Inr NeedMore, h, buf)
      | Inr (Some (head, len)) \<Rightarrow>
          if \<not> (200 \<le> rh_status head \<and> rh_status head < 300) then (Inl (ProxyRefused (rh_status head)), h, buf)
          else (Inr Done, h\<lparr>awaiting_head := False\<rparr>, drop len buf))"

section \<open>It keeps the contract\<close>

definition connect_fits :: "bytes \<Rightarrow> bool" where
  "connect_fits b \<longleftrightarrow> length b \<le> MAX_HEAD"

abbreviation connect_parser_ok :: "connect_env \<Rightarrow> bool" where
  "connect_parser_ok env \<equiv> partial_ok (he_lexer (cx_head env))"

lemma connect_handshake:
  assumes w: "connect_parser_ok env"
  shows "handshake (connect_advance env) (\<lambda>_. 0) connect_fits"
proof
  fix h h' b b' x s r wr p
  show "h' = h \<and> b' = b" if "connect_advance env h b = (Inr NeedMore, h', b')"
    using that by (auto simp: connect_advance_def split: if_splits sum.splits option.splits)
  show "suffix b' b" if "connect_advance env h b = (Inr s, h', b')"
    using that by (auto simp: connect_advance_def suffix_drop split: if_splits sum.splits option.splits)
  show "connect_advance env h (b @ x) = (r, h', b' @ x)"
    if a: "connect_advance env h b = (r, h', b')" "r \<noteq> Inr NeedMore" "connect_fits (b @ x)"
  proof (cases "awaiting_head h \<and> parse_response (cx_head env) b = Inr None")
    case True
    then show ?thesis using a by (auto simp: connect_advance_def connect_fits_def split: if_splits)
  next
    case False
    have n: "drop len (b @ x) = drop len b @ x" if "parse_response (cx_head env) b = Inr (Some (hd, len))" for hd len
      using that unfolding parse_response_Some [OF w] by auto
    show ?thesis
    proof (cases "awaiting_head h")
      case True
      then have p: "parse_response (cx_head env) (b @ x) = parse_response (cx_head env) b" using False parse_response_more [OF w] by blast
      show ?thesis
      proof (cases "parse_response (cx_head env) b")
        case (Inl e)
        then show ?thesis using a(1) p True by (auto simp: connect_advance_def)
      next
        case (Inr q)
        then obtain hd len where "parse_response (cx_head env) b = Inr (Some (hd, len))" using False True by (cases q) auto
        with a(1) p True n show ?thesis by (auto simp: connect_advance_def split: if_splits)
      qed
    qed (use a in \<open>auto simp: connect_advance_def\<close>)
  qed
  show "(0::nat) < 0" if "connect_advance env h b = (Inr (Write wr), h', b')"
    using that by (auto simp: connect_advance_def split: if_splits sum.splits option.splits)
  show "connect_fits b" if "connect_fits (p @ b)" using that by (simp add: connect_fits_def)
qed

section \<open>Properties\<close>

text \<open>An answer that grants the tunnel: a well-formed head with a status of \<open>2xx\<close>.\<close>

definition granting_head :: "connect_env \<Rightarrow> written_head \<Rightarrow> bool" where
  "granting_head env w \<longleftrightarrow> head_fine (cx_head env) w \<and>
     200 \<le> rh_status (head_read (cx_head env) w) \<and> rh_status (head_read (cx_head env) w) < 300"

lemma settle_connect:
  assumes w: "connect_parser_ok env" and h: "awaiting_head h"
  shows "settle 1 (connect_advance env) h s = (ws, Open left) \<longleftrightarrow> ws = [] \<and> (\<exists>x. granting_head env x \<and> s = head_written x @ left)"
proof (cases "\<exists>hd len. parse_response (cx_head env) s = Inr (Some (hd, len))")
  case True
  then obtain hd len where p: "parse_response (cx_head env) s = Inr (Some (hd, len))" by blast
  then obtain x r where x: "head_fine (cx_head env) x" "hd = head_read (cx_head env) x" "s = head_written x @ r" "len = length (head_written x)"
    unfolding parse_response_Some [OF w] by blast
  have same: "head_read (cx_head env) y = hd \<and> length (head_written y) = len" if "granting_head env y" "s = head_written y @ t" for y t
  proof -
    have "parse_response (cx_head env) s = Inr (Some (head_read (cx_head env) y, length (head_written y)))"
      using that unfolding parse_response_Some [OF w] granting_head_def by blast
    then show ?thesis using p by simp
  qed
  have "(\<exists>y. granting_head env y \<and> s = head_written y @ left) \<longleftrightarrow> 200 \<le> rh_status hd \<and> rh_status hd < 300 \<and> r = left"
  proof
    assume "\<exists>y. granting_head env y \<and> s = head_written y @ left"
    then obtain y where y: "granting_head env y" "s = head_written y @ left" by blast
    note e = same [OF y]
    have "r = drop len s" unfolding x(3,4) by simp
    moreover have "left = drop (length (head_written y)) s" unfolding y(2) by simp
    ultimately show "200 \<le> rh_status hd \<and> rh_status hd < 300 \<and> r = left"
      using e y(1) unfolding granting_head_def by simp
  next
    assume "200 \<le> rh_status hd \<and> rh_status hd < 300 \<and> r = left"
    then show "\<exists>y. granting_head env y \<and> s = head_written y @ left" using x unfolding granting_head_def by blast
  qed
  moreover have "settle 1 (connect_advance env) h s = (ws, Open left) \<longleftrightarrow> ws = [] \<and> 200 \<le> rh_status hd \<and> rh_status hd < 300 \<and> r = left"
    using p h x(3,4) by (auto simp: connect_advance_def)
  ultimately show ?thesis by blast
next
  case False
  then have "\<not> (granting_head env x \<and> s = head_written x @ left)" for x
    unfolding parse_response_Some [OF w] granting_head_def by blast
  moreover have "settle 1 (connect_advance env) h s \<noteq> (ws, Open left)"
    using False h by (auto simp: connect_advance_def split: sum.splits option.splits if_splits)
  ultimately show ?thesis by blast
qed

lemma connect_begun:
  "connect_begin env h host port = Inr (out, h') \<Longrightarrow> awaiting_head h' \<and> hc_auth h' = hc_auth h"
  by (auto simp: connect_begin_def Let_def split: if_splits)

lemma connect_drive:
  assumes w: "connect_parser_ok env" and r: "\<forall>c \<in> set reads. c \<noteq> []" "length (concat reads) \<le> MAX_HEAD" "length reads < n"
    and b: "connect_begin env h host port = Inr (out, h')"
  shows "settle 1 (connect_advance env) h' (concat reads) =
    (tl (fst (drive n (connect_begin env) (connect_advance env) h host port reads)),
     settled_of (snd (drive n (connect_begin env) (connect_advance env) h host port reads)))"
    "\<exists>ws. fst (drive n (connect_begin env) (connect_advance env) h host port reads) = out # ws"
  using handshake.drive_settles [OF connect_handshake [OF w] r(1), where h = h' and n = n and m = 1 and buf = "[]"] r b
  by (auto simp: connect_fits_def drive_def split: prod.splits)

text \<open>
  Property C8. A tunnel through an HTTP proxy opens exactly when the proxy granted one: for a stream within the bound, cut into
  reads anywhere, the driver ends with an open tunnel if and only if the stream begins with a well-formed head whose status is
  \<open>2xx\<close>; the request is then all that was written, and every byte after the head is still there for the origin.
\<close>

theorem connect_tunnel_iff:
  assumes "connect_parser_ok env" "\<forall>c \<in> set reads. c \<noteq> []" "length (concat reads) \<le> MAX_HEAD" "length reads < n"
    and "connect_begin env h host port = Inr (out, h')"
  shows "(\<exists>left rest. drive n (connect_begin env) (connect_advance env) h host port reads = (ws, Tunnel left rest) \<and>
      left @ concat rest = origin_bytes) \<longleftrightarrow>
    (\<exists>x. granting_head env x \<and> concat reads = head_written x @ origin_bytes \<and> ws = [out])"
proof -
  let ?d = "drive n (connect_begin env) (connect_advance env) h host port reads"
  note d = connect_drive [OF assms]
  have "(\<exists>left rest. ?d = (ws, Tunnel left rest) \<and> left @ concat rest = origin_bytes) \<longleftrightarrow>
      fst ?d = ws \<and> settled_of (snd ?d) = Open origin_bytes"
    by (cases ?d) (auto simp: settled_of_def split: drive_end.splits)
  also have "\<dots> \<longleftrightarrow> (\<exists>ws'. ws = out # ws' \<and> settle 1 (connect_advance env) h' (concat reads) = (ws', Open origin_bytes))"
    using d by auto
  finally have "(\<exists>left rest. ?d = (ws, Tunnel left rest) \<and> left @ concat rest = origin_bytes) \<longleftrightarrow>
      (\<exists>ws'. ws = out # ws' \<and> settle 1 (connect_advance env) h' (concat reads) = (ws', Open origin_bytes))" .
  moreover have "settle 1 (connect_advance env) h' (concat reads) = (ws', Open origin_bytes) \<longleftrightarrow>
      ws' = [] \<and> (\<exists>x. granting_head env x \<and> concat reads = head_written x @ origin_bytes)" for ws'
    by (rule settle_connect [OF assms(1)]) (use connect_begun [OF assms(5)] in blast)
  ultimately show ?thesis by blast
qed

text \<open>
  A proxy that answers with anything but a grant is an error, never a response: a well-formed head with another status ends
  the exchange as a refusal with that status, and no byte of what followed is handed on.
\<close>

theorem connect_refusal:
  assumes "connect_parser_ok env" "\<forall>c \<in> set reads. c \<noteq> []" "length (concat reads) \<le> MAX_HEAD" "length reads < n"
    and "connect_begin env h host port = Inr (out, h')"
    and "head_fine (cx_head env) x" "\<not> granting_head env x" "concat reads = head_written x @ beyond"
  shows "drive n (connect_begin env) (connect_advance env) h host port reads =
    ([out], Refused (ProxyRefused (rh_status (head_read (cx_head env) x))))"
proof -
  let ?d = "drive n (connect_begin env) (connect_advance env) h host port reads"
  have "parse_response (cx_head env) (concat reads) = Inr (Some (head_read (cx_head env) x, length (head_written x)))"
    using assms(6,8) unfolding parse_response_Some [OF assms(1)] by blast
  then have "settle 1 (connect_advance env) h' (concat reads) = ([], Refusal (ProxyRefused (rh_status (head_read (cx_head env) x))))"
    using assms(6,7) connect_begun [OF assms(5)] by (auto simp: connect_advance_def granting_head_def)
  then have "tl (fst ?d) = []" "settled_of (snd ?d) = Refusal (ProxyRefused (rh_status (head_read (cx_head env) x)))"
    using connect_drive(1) [OF assms(1-5)] by auto
  then show ?thesis using connect_drive(2) [OF assms(1-5)] by (cases ?d) (auto simp: settled_of_def split: drive_end.splits)
qed

text \<open>
  Property C10. What goes out is one request and no more: with an authority that the URI parser accepts (which holds no line end) and a
  credential that is a header value, the bytes are the lines of one head, each ended by CRLF, with no line end inside any of them.
\<close>

theorem connect_request_lines:
  assumes "connect_begin env h host port = Inr (out, h')"
    and "\<And>a. cx_authority env a \<Longrightarrow> list_all not_eol a" "pred_option (list_all not_eol) (hc_auth h)"
  shows "\<exists>ls. out = concat (map (\<lambda>l. l @ CRLF) (ls @ [[]])) \<and> list_all (\<lambda>l. l \<noteq> [] \<and> list_all not_eol l) ls \<and>
    ls = [''CONNECT '' @ host @ '':'' @ dec_bytes port @ '' HTTP/1.1'', ''Host: '' @ host @ '':'' @ dec_bytes port] @
      (case hc_auth h of None \<Rightarrow> [] | Some v \<Rightarrow> [''Proxy-Authorization: '' @ v])"
proof -
  let ?a = "host @ '':'' @ dec_bytes port"
  have "cx_authority env ?a" using assms(1) by (auto simp: connect_begin_def Let_def split: if_splits)
  then have "list_all not_eol ?a" by (rule assms(2))
  moreover have "list_all not_eol ''CONNECT ''" "list_all not_eol '' HTTP/1.1''" "list_all not_eol ''Host: ''" "list_all not_eol ''Proxy-Authorization: ''"
    by code_simp+
  ultimately show ?thesis using assms(1,3)
    by (cases "hc_auth h") (auto simp: connect_begin_def Let_def split: if_splits)
qed

section \<open>A worked exchange\<close>

definition demo_connect_env :: connect_env where
  "demo_connect_env = \<lparr>cx_head = demo_head_env, cx_base64 = (\<lambda>b. b), cx_authority = list_all (\<lambda>c. not_eol c \<and> c \<noteq> CHR '' ''),
     cx_header_str = list_all not_eol\<rparr>"

definition demo_connect_request :: bytes where
  "demo_connect_request = ''CONNECT e:443 HTTP/1.1'' @ CRLF @ ''Host: e:443'' @ CRLF @ CRLF"

definition demo_connect_reads :: "bytes list" where
  "demo_connect_reads = [take 10 (head_written demo_head), drop 10 (head_written demo_head) @ ''hi'']"

lemma demo_connect:
  "connect_parser_ok demo_connect_env" "\<forall>c \<in> set demo_connect_reads. c \<noteq> []" "length (concat demo_connect_reads) \<le> MAX_HEAD"
  "length demo_connect_reads < 9"
  "connect_begin demo_connect_env connect_new ''e'' 443 = Inr (demo_connect_request, \<lparr>hc_auth = None, awaiting_head = True\<rparr>)"
proof -
  have l: "length (head_written demo_head) = 27" by code_simp
  show "connect_parser_ok demo_connect_env" by (simp add: demo_connect_env_def demo_head_lexer)
  show "\<forall>c \<in> set demo_connect_reads. c \<noteq> []" "length demo_connect_reads < 9" using l by (auto simp: demo_connect_reads_def)
  show "length (concat demo_connect_reads) \<le> MAX_HEAD" using l by (simp add: demo_connect_reads_def MAX_HEAD_def)
  have "dec_bytes 443 = ''443''" by code_simp
  then show "connect_begin demo_connect_env connect_new ''e'' 443 = Inr (demo_connect_request, \<lparr>hc_auth = None, awaiting_head = True\<rparr>)"
    by (simp add: connect_begin_def demo_connect_env_def connect_new_def demo_connect_request_def not_eol_def)
qed

theorem connect_tunnel_iff_witness:
  "\<exists>left rest. drive 9 (connect_begin demo_connect_env) (connect_advance demo_connect_env) connect_new ''e'' 443 demo_connect_reads =
      ([demo_connect_request], Tunnel left rest) \<and> left @ concat rest = ''hi''"
proof -
  have "rh_status (head_read demo_head_env demo_head) = 200" by code_simp
  then have "granting_head demo_connect_env demo_head" using demo_head_fine by (simp add: granting_head_def demo_connect_env_def)
  moreover have "concat demo_connect_reads = head_written demo_head @ ''hi''" by (simp add: demo_connect_reads_def)
  ultimately show ?thesis using connect_tunnel_iff [OF demo_connect, of "[demo_connect_request]" "''hi''"] by blast
qed

theorem connect_refusal_witness:
  "drive 9 (connect_begin demo_connect_env) (connect_advance demo_connect_env) connect_new ''e'' 443
     [head_written (demo_head\<lparr>wh_status := ''407''\<rparr>)] = ([demo_connect_request], Refused (ProxyRefused 407))"
proof -
  let ?x = "demo_head\<lparr>wh_status := ''407''\<rparr>"
  have f: "head_fine (cx_head demo_connect_env) ?x"
    using demo_head_fine by (simp add: head_fine_def demo_connect_env_def) (simp add: demo_head_env_def is_ascii_digit_def byte_val_def)
  have s: "rh_status (head_read (cx_head demo_connect_env) ?x) = 407"
    by (simp add: head_read_def demo_connect_env_def demo_head_env_def byte_val_def)
  then have g: "\<not> granting_head demo_connect_env ?x" by (simp add: granting_head_def)
  have l: "length (head_written ?x) = 27" by code_simp
  have r: "\<forall>c \<in> set [head_written ?x]. c \<noteq> []" "length (concat [head_written ?x]) \<le> MAX_HEAD" "length [head_written ?x] < 9"
    "concat [head_written ?x] = head_written ?x @ []" using l by (auto simp: MAX_HEAD_def)
  show ?thesis using connect_refusal [OF demo_connect(1) r(1-3) demo_connect(5) f g r(4)] unfolding s .
qed

theorem connect_request_lines_witness:
  "\<exists>ls. demo_connect_request = concat (map (\<lambda>l. l @ CRLF) (ls @ [[]])) \<and> ls = [''CONNECT e:443 HTTP/1.1'', ''Host: e:443'']"
proof -
  have "list_all not_eol a" if "cx_authority demo_connect_env a" for a using that by (simp add: demo_connect_env_def list_all_iff)
  moreover have "pred_option (list_all not_eol) (hc_auth connect_new)" by (simp add: connect_new_def)
  moreover have "dec_bytes 443 = ''443''" by code_simp
  ultimately show ?thesis using connect_request_lines [OF demo_connect(5)] by (fastforce simp: connect_new_def)
qed

end
