(* ===== verification/Cookie_Match.thy ===== *)
theory Cookie_Match
  imports Uri_Resolve
begin

text \<open>
  The rules that decide where a cookie goes (\<open>crates/hclient/src/cookie/matching.rs\<close>) and the
  enumeration of the domains a store is asked for (\<open>candidate_domains\<close> of
  \<open>crates/hclient/src/cookie/store.rs\<close>). The lemmas give both rules their suffix and prefix readings,
  and show that the enumeration is the rule.
\<close>

section \<open>The model\<close>

definition is_ip_literal :: "bytes \<Rightarrow> bool" where
  "is_ip_literal h \<longleftrightarrow> parse_ip h \<noteq> None"

definition domain_matches :: "bytes \<Rightarrow> bytes \<Rightarrow> bool" where
  "domain_matches h d =
     (if h = d then True
      else if length h < length d then False
      else let prefix_len = length h - length d in
        if prefix_len = 0 \<or> \<not> ends_with h d then False
        else if h ! (prefix_len - 1) \<noteq> CHR ''.'' then False
        else \<not> is_ip_literal h)"

definition path_matches :: "bytes \<Rightarrow> bytes \<Rightarrow> bool" where
  "path_matches req cookie_path =
     (if req = cookie_path then True
      else if \<not> starts_with req cookie_path then False
      else if ends_with cookie_path ''/'' then True
      else req ! length cookie_path = CHR ''/'')"

definition default_path :: "bytes \<Rightarrow> bytes" where
  "default_path uri_path =
     (if \<not> starts_with uri_path ''/'' then ''/''
      else case rfind_byte (CHR ''/'') uri_path of
        None \<Rightarrow> ''/''
      | Some i \<Rightarrow> if i = 0 then ''/'' else take i uri_path)"

definition request_path :: "http_uri \<Rightarrow> bytes" where
  "request_path uri = (if path uri = [] then ''/'' else path uri)"

definition canonical_host :: "http_uri \<Rightarrow> bytes option" where
  "canonical_host uri =
     (case host uri of None \<Rightarrow> None | Some h \<Rightarrow>
        (let h1 = (case strip_suffix ''.'' h of None \<Rightarrow> h | Some x \<Rightarrow> x);
             h2 = (case Option.bind (strip_prefix ''['' h1) (strip_suffix '']'') of None \<Rightarrow> h1 | Some x \<Rightarrow> x) in
         if h2 = [] then None else Some (to_ascii_lowercase h2)))"

definition is_loopback :: "bytes \<Rightarrow> bool" where
  "is_loopback h =
     (if h = ''localhost'' \<or> ends_with h ''.localhost'' then True
      else case parse_ip h of Some ip \<Rightarrow> ip_is_loopback ip | None \<Rightarrow> False)"

definition is_secure_request :: "http_uri \<Rightarrow> bool" where
  "is_secure_request uri =
     (if scheme_str uri = Some ''https'' \<or> scheme_str uri = Some ''wss'' then True
      else case canonical_host uri of Some h \<Rightarrow> is_loopback h | None \<Rightarrow> False)"

text \<open>The loop of \<open>candidate_domains\<close>: every tail after a dot, longest first.\<close>

function domain_tails :: "bytes \<Rightarrow> bytes list" where
  "domain_tails r = (case split_once (CHR ''.'') r of None \<Rightarrow> [] | Some (_, tail) \<Rightarrow> tail # domain_tails tail)"
  by pat_completeness auto
termination
  by (relation "measure length") (auto simp: split_once_Some)

declare domain_tails.simps [simp del]

definition candidate_domains :: "bytes \<Rightarrow> bytes list" where
  "candidate_domains h = (if is_ip_literal h then [h] else h # domain_tails h)"

section \<open>The readings of the rules\<close>

lemma ends_with_iff: "ends_with s p \<longleftrightarrow> (\<exists>q. s = q @ p)"
proof
  assume "ends_with s p"
  then show "\<exists>q. s = q @ p" by (metis append_take_drop_id ends_with_def)
qed (auto simp: ends_with_def)

lemma starts_with_iff: "starts_with s p \<longleftrightarrow> (\<exists>r. s = p @ r)"
  by (metis append_eq_conv_conj append_take_drop_id starts_with_def)

lemma domain_matches_iff:
  "domain_matches h d \<longleftrightarrow> h = d \<or> (\<not> is_ip_literal h \<and> (\<exists>q. h = q @ ''.'' @ d))"
proof (cases "h = d")
  case False
  have "(length h \<ge> length d \<and> length h \<noteq> length d \<and> ends_with h d \<and> h ! (length h - length d - 1) = CHR ''.'') \<longleftrightarrow>
      (\<exists>q. h = q @ ''.'' @ d)" (is "?L \<longleftrightarrow> ?R")
  proof
    assume l: ?L
    then obtain p where p: "h = p @ d" by (auto simp: ends_with_iff)
    then have "p \<noteq> []" using l by auto
    then obtain q c where "p = q @ [c]" by (metis rev_exhaust)
    then show ?R using l p by (auto simp: nth_append)
  qed (auto simp: ends_with_iff nth_append)
  then show ?thesis using False by (auto simp: domain_matches_def Let_def ends_with_def)
qed (simp add: domain_matches_def)

lemma path_matches_in_range:
  "req \<noteq> cookie_path \<Longrightarrow> starts_with req cookie_path \<Longrightarrow> length cookie_path < length req"
  by (auto simp: starts_with_iff)

lemma path_matches_iff:
  "path_matches p c \<longleftrightarrow> p = c \<or> (\<exists>r. p = c @ r \<and> r \<noteq> [] \<and> (c \<noteq> [] \<and> last c = CHR ''/'' \<or> hd r = CHR ''/''))"
proof -
  have e: "ends_with c ''/'' \<longleftrightarrow> c \<noteq> [] \<and> last c = CHR ''/''"
    by (auto simp: ends_with_iff) (metis append_butlast_last_id)
  show ?thesis
    by (auto simp: path_matches_def e starts_with_iff nth_append hd_conv_nth)
qed

lemma domain_tails_iff: "d \<in> set (domain_tails h) \<longleftrightarrow> (\<exists>q. h = q @ ''.'' @ d)"
proof (induction h rule: domain_tails.induct)
  case (1 h)
  show ?case
  proof (cases "split_once (CHR ''.'') h")
    case None
    then have "CHR ''.'' \<notin> set h" "domain_tails h = []"
      by (simp add: split_once_None) (subst domain_tails.simps, simp add: None)
    then show ?thesis by auto
  next
    case (Some pt)
    obtain p t where pt: "pt = (p, t)" by force
    have h: "h = p @ CHR ''.'' # t" "CHR ''.'' \<notin> set p" using Some pt by (auto simp: split_once_Some)
    have "(\<exists>q. h = q @ ''.'' @ d) \<longleftrightarrow> d = t \<or> (\<exists>q. t = q @ ''.'' @ d)"
    proof
      assume "\<exists>q. h = q @ ''.'' @ d"
      then obtain q where "p @ CHR ''.'' # t = q @ CHR ''.'' # d" using h by auto
      then show "d = t \<or> (\<exists>q. t = q @ ''.'' @ d)"
        using h(2) by (auto simp: append_eq_append_conv2 Cons_eq_append_conv append_eq_Cons_conv)
    next
      assume "d = t \<or> (\<exists>q. t = q @ ''.'' @ d)"
      then show "\<exists>q. h = q @ ''.'' @ d"
      proof
        assume "\<exists>q. t = q @ ''.'' @ d"
        then obtain q where "t = q @ ''.'' @ d" by blast
        then have "h = (p @ CHR ''.'' # q) @ ''.'' @ d" using h by simp
        then show ?thesis by blast
      qed (use h in auto)
    qed
    moreover have "d \<in> set (domain_tails h) \<longleftrightarrow> d = t \<or> d \<in> set (domain_tails t)"
      using Some pt by (subst domain_tails.simps) simp
    ultimately show ?thesis using 1 Some pt by simp
  qed
qed

lemma domain_tails_length: "d \<in> set (domain_tails h) \<Longrightarrow> length d < length h"
  by (auto simp: domain_tails_iff)

lemma domain_tails_distinct: "distinct (domain_tails h)"
proof (induction h rule: domain_tails.induct)
  case (1 h)
  then show ?case
    by (subst domain_tails.simps) (auto split: option.splits dest: domain_tails_length)
qed

lemma default_path_absolute: "starts_with (default_path p) ''/''"
  by (cases "rfind_byte (CHR ''/'') p") (auto simp: default_path_def starts_with_def take_Cons' nth_append hd_take)

lemma default_path_matches: "starts_with p ''/'' \<Longrightarrow> path_matches p (default_path p)"
proof (cases "rfind_byte (CHR ''/'') p")
  case (Some i)
  assume s: "starts_with p ''/''"
  obtain q r where p: "p = q @ CHR ''/'' # r" "i = length q" using Some by (auto simp: rfind_byte_Some)
  show ?thesis using s Some p by (cases q) (auto simp: default_path_def path_matches_iff starts_with_iff)
qed (auto simp: default_path_def path_matches_iff starts_with_iff)

text \<open>
  The exact lookup loses nothing and leaks nothing: the candidate domains of a host are
  exactly the domains it domain-matches, each of them once, with the host itself first; and a host
  domain-matches another name only at a label boundary, an IP literal only itself.
\<close>

theorem candidate_domains_exact:
  "set (candidate_domains h) = {d. domain_matches h d} \<and> distinct (candidate_domains h) \<and>
   hd (candidate_domains h) = h \<and>
   (domain_matches h d \<longleftrightarrow> h = d \<or> (\<not> is_ip_literal h \<and> (\<exists>q. h = q @ ''.'' @ d)))"
proof (intro conjI)
  show "set (candidate_domains h) = {d. domain_matches h d}"
    using domain_tails_iff [of _ h] by (auto simp: candidate_domains_def domain_matches_iff)
  show "distinct (candidate_domains h)"
    using domain_tails_distinct [of h] domain_tails_length [of h h] by (auto simp: candidate_domains_def)
qed (simp_all add: candidate_domains_def domain_matches_iff)

end
