(* ===== verification/Cookie_Parse.thy ===== *)
theory Cookie_Parse
  imports Winnow
begin

text \<open>
  \<open>Set-Cookie\<close> parsing: \<open>crates/hclient/src/cookie/parse.rs\<close> and the \<open>Expires\<close> date of
  \<open>crates/hclient/src/cookie/date.rs\<close>. The token parsers of the \<open>winnow\<close> crate and the calendar of the
  \<open>jiff\<close> crate are parameters; the first are the record \<open>lexer\<close>, and \<open>winnow_ok\<close> states their documentation.
\<close>

section \<open>The date\<close>

definition is_delimiter :: "byte \<Rightarrow> bool" where
  "is_delimiter b \<longleftrightarrow> (let v = byte_val b in
     v = 0x09 \<or> (0x20 \<le> v \<and> v \<le> 0x2F) \<or> (0x3B \<le> v \<and> v \<le> 0x40) \<or> (0x5B \<le> v \<and> v \<le> 0x60) \<or> (0x7B \<le> v \<and> v \<le> 0x7E))"

text \<open>\<open>number(min, max)\<close>: the digits read, no digit after them, and what is left.\<close>

definition number :: "lexer \<Rightarrow> nat \<Rightarrow> nat \<Rightarrow> bytes \<Rightarrow> (nat \<times> bytes) option" where
  "number w m n t =
     (case take_while w m (Some n) is_ascii_digit t of
        None \<Rightarrow> None
      | Some k \<Rightarrow>
          (case drop k t of
             [] \<Rightarrow> Some (dec_val (take k t), [])
           | b # r \<Rightarrow> if is_ascii_digit b then None else Some (dec_val (take k t), b # r)))"

definition match_time :: "lexer \<Rightarrow> bytes \<Rightarrow> (nat \<times> nat \<times> nat) option" where
  "match_time w t =
     Option.bind (number w 1 2 t) (\<lambda>(hour, t1).
     if \<not> literal w '':'' t1 then None else
     Option.bind (number w 1 2 (drop 1 t1)) (\<lambda>(minute, t2).
     if \<not> literal w '':'' t2 then None else
     Option.bind (number w 1 2 (drop 1 t2)) (\<lambda>(second, _). Some (hour, minute, second))))"

definition MONTHS :: "(bytes \<times> nat) list" where
  "MONTHS = [(''jan'', 1), (''feb'', 2), (''mar'', 3), (''apr'', 4), (''may'', 5), (''jun'', 6),
     (''jul'', 7), (''aug'', 8), (''sep'', 9), (''oct'', 10), (''nov'', 11), (''dec'', 12)]"

definition match_month :: "lexer \<Rightarrow> bytes \<Rightarrow> nat option" where
  "match_month w t = map_option snd (find (\<lambda>(name, _). caseless w name t) MONTHS)"

record date_fields =
  df_time :: "(nat \<times> nat \<times> nat) option"
  df_day :: "nat option"
  df_month :: "nat option"
  df_year :: "nat option"

definition date_token :: "lexer \<Rightarrow> date_fields \<Rightarrow> bytes \<Rightarrow> date_fields" where
  "date_token w f t =
     (if df_time f = None \<and> match_time w t \<noteq> None then f\<lparr>df_time := match_time w t\<rparr>
      else if df_day f = None \<and> number w 1 2 t \<noteq> None then f\<lparr>df_day := map_option fst (number w 1 2 t)\<rparr>
      else if df_month f = None \<and> match_month w t \<noteq> None then f\<lparr>df_month := match_month w t\<rparr>
      else if df_year f = None \<and> number w 2 4 t \<noteq> None then f\<lparr>df_year := map_option fst (number w 2 4 t)\<rparr>
      else f)"

definition full_year :: "nat \<Rightarrow> nat" where
  "full_year y = (if 70 \<le> y \<and> y \<le> 99 then y + 1900 else if y \<le> 69 then y + 2000 else y)"

definition date_value :: "calendar \<Rightarrow> date_fields \<Rightarrow> int option" where
  "date_value cal f =
     Option.bind (df_time f) (\<lambda>(hour, minute, second).
     Option.bind (df_day f) (\<lambda>day.
     Option.bind (df_month f) (\<lambda>month.
     Option.bind (df_year f) (\<lambda>y.
       (let year = full_year y in
        if year < 1601 then None
        else if year > 32767 \<or> month > 127 \<or> day > 127 \<or> hour > 127 \<or> minute > 127 \<or> second > 127 then None
        else cal year month day hour minute second)))))"

definition date_tokens :: "bytes \<Rightarrow> bytes list" where
  "date_tokens s = filter (\<lambda>t. t \<noteq> []) (split_where is_delimiter s)"

definition parse_cookie_date :: "lexer \<Rightarrow> calendar \<Rightarrow> bytes \<Rightarrow> int option" where
  "parse_cookie_date w cal s =
     date_value cal (foldl (date_token w) \<lparr>df_time = None, df_day = None, df_month = None, df_year = None\<rparr> (date_tokens s))"

section \<open>The header\<close>

datatype same_site = SameSite_Strict | SameSite_Lax | SameSite_None

record set_cookie =
  sc_name :: bytes
  sc_value :: bytes
  sc_domain :: "bytes option"
  sc_path :: "bytes option"
  sc_expires :: "int option"
  sc_max_age :: "int option"
  sc_secure :: bool
  sc_http_only :: bool
  sc_same_site :: "same_site option"

datatype parse_error = NoNameValueSeparator | EmptyName | ControlCharacter | NonUtf8

definition is_blank :: "byte \<Rightarrow> bool" where
  "is_blank b \<longleftrightarrow> b = CHR '' '' \<or> b = CHR 0x09"

definition trim_blanks :: "bytes \<Rightarrow> bytes" where
  "trim_blanks s = rev (dropWhile is_blank (rev (dropWhile is_blank s)))"

definition is_ctl :: "byte \<Rightarrow> bool" where
  "is_ctl b \<longleftrightarrow> (let v = byte_val b in v \<le> 0x08 \<or> (0x0A \<le> v \<and> v \<le> 0x1F) \<or> v = 0x7F)"

definition to_utf8 :: "bytes \<Rightarrow> parse_error + bytes" where
  "to_utf8 s = (if is_utf8 s then Inr s else Inl NonUtf8)"

text \<open>One segment and what follows it.\<close>

definition segment :: "lexer \<Rightarrow> bytes \<Rightarrow> bytes \<times> bytes" where
  "segment w t =
     (case take_until w (CHR '';'') t of
        Some n \<Rightarrow> if literal w '';'' (drop n t) then (take n t, drop (n + 1) t) else (t, [])
      | None \<Rightarrow> (t, []))"

definition split_once_on_equals :: "lexer \<Rightarrow> bytes \<Rightarrow> bytes \<times> bytes" where
  "split_once_on_equals w s =
     (case take_until w (CHR ''='') s of
        Some n \<Rightarrow> if literal w ''='' (drop n s) then (trim_blanks (take n s), trim_blanks (drop (n + 1) s))
                  else (trim_blanks s, [])
      | None \<Rightarrow> (trim_blanks s, []))"

definition apply_attribute :: "lexer \<Rightarrow> calendar \<Rightarrow> set_cookie \<Rightarrow> bytes \<Rightarrow> bytes \<Rightarrow> set_cookie" where
  "apply_attribute w cal sc key0 val =
     (let key = to_ascii_lowercase key0 in
      if key = ''expires'' then
        (case parse_cookie_date w cal val of Some seconds \<Rightarrow> sc\<lparr>sc_expires := Some seconds\<rparr> | None \<Rightarrow> sc)
      else if key = ''max-age'' then
        (case val of
           [] \<Rightarrow> sc
         | b # _ \<Rightarrow>
             if (is_ascii_digit b \<or> b = CHR ''-'') \<and> is_utf8 val then
               (case parse_i64 val of Some seconds \<Rightarrow> sc\<lparr>sc_max_age := Some seconds\<rparr> | None \<Rightarrow> sc)
             else sc)
      else if key = ''domain'' then
        (let d = (case strip_prefix ''.'' val of Some x \<Rightarrow> x | None \<Rightarrow> val) in
         if d \<noteq> [] \<and> is_utf8 d then sc\<lparr>sc_domain := Some (to_ascii_lowercase d)\<rparr> else sc)
      else if key = ''path'' then
        (if starts_with val ''/'' \<and> is_utf8 val then sc\<lparr>sc_path := Some val\<rparr> else sc)
      else if key = ''secure'' then sc\<lparr>sc_secure := True\<rparr>
      else if key = ''httponly'' then sc\<lparr>sc_http_only := True\<rparr>
      else if key = ''samesite'' then
        (let v = to_ascii_lowercase val in
         sc\<lparr>sc_same_site := (if v = ''strict'' then Some SameSite_Strict
                              else if v = ''lax'' then Some SameSite_Lax
                              else if v = ''none'' then Some SameSite_None else None)\<rparr>)
      else sc)"

text \<open>The loop over the attributes of a header.\<close>

function attributes :: "lexer \<Rightarrow> calendar \<Rightarrow> set_cookie \<Rightarrow> bytes \<Rightarrow> set_cookie" where
  "attributes w cal sc input =
     (if input = [] then sc
      else case segment w input of (attribute, rest) \<Rightarrow>
        (case split_once_on_equals w attribute of (key, val) \<Rightarrow>
           attributes w cal (apply_attribute w cal sc key val) rest))"
  by pat_completeness auto
termination
  by (relation "measure (\<lambda>(w, cal, sc, input). length input)") (auto simp: segment_def split: option.splits if_splits)

declare attributes.simps [simp del]

definition set_cookie_parse :: "lexer \<Rightarrow> calendar \<Rightarrow> bytes \<Rightarrow> parse_error + set_cookie" where
  "set_cookie_parse w cal header =
     (case segment w header of (pair, input) \<Rightarrow>
        if CHR ''='' \<notin> set pair then Inl NoNameValueSeparator
        else case split_once_on_equals w pair of (name, val) \<Rightarrow>
          if name = [] then Inl EmptyName
          else if list_ex is_ctl (name @ val) then Inl ControlCharacter
          else case to_utf8 name of Inl e \<Rightarrow> Inl e | Inr n \<Rightarrow>
            case to_utf8 val of Inl e \<Rightarrow> Inl e | Inr v \<Rightarrow>
              Inr (attributes w cal
                \<lparr>sc_name = n, sc_value = v, sc_domain = None, sc_path = None, sc_expires = None,
                 sc_max_age = None, sc_secure = False, sc_http_only = False, sc_same_site = None\<rparr> input))"

section \<open>The header as a list of segments\<close>

lemma find_byte_split_once:
  "find_byte c s = Some n \<Longrightarrow> split_once c s = Some (take n s, drop (n + 1) s) \<and> starts_with (drop n s) [c]"
  by (auto simp: find_byte_Some split_once_Some starts_with_def)

lemma find_byte_split_once_None: "find_byte c s = None \<Longrightarrow> split_once c s = None"
  by (simp add: find_byte_None split_once_None)

lemma winnow_tokens:
  "winnow_ok w \<Longrightarrow> take_until w c s = find_byte c s" "winnow_ok w \<Longrightarrow> literal w t s = starts_with s t"
  by (simp_all add: winnow_ok_def)

lemma segment_split:
  "winnow_ok w \<Longrightarrow> segment w t = (case split_once (CHR '';'') t of Some pr \<Rightarrow> pr | None \<Rightarrow> (t, []))"
  by (cases "find_byte (CHR '';'') t")
    (auto simp: segment_def winnow_tokens dest: find_byte_split_once find_byte_split_once_None)

definition key_val :: "bytes \<Rightarrow> bytes \<times> bytes" where
  "key_val s = (case split_once (CHR ''='') s of
     Some (k, v) \<Rightarrow> (trim_blanks k, trim_blanks v) | None \<Rightarrow> (trim_blanks s, []))"

lemma split_once_on_equals_key_val: "winnow_ok w \<Longrightarrow> split_once_on_equals w s = key_val s"
  by (cases "find_byte (CHR ''='') s")
    (auto simp: split_once_on_equals_def key_val_def winnow_tokens dest: find_byte_split_once find_byte_split_once_None)

lemma split_byte_split_once:
  "split_byte c s = (case split_once c s of Some (p, r) \<Rightarrow> p # split_byte c r | None \<Rightarrow> [s])"
proof (induction s)
  case (Cons b s)
  show ?case
  proof (cases "split_once c s")
    case None
    then have "c \<notin> set s" by (simp add: split_once_None)
    then show ?thesis using Cons None by (auto simp: split_once_def)
  next
    case (Some pr)
    obtain p r where pr: "pr = (p, r)" by force
    have s: "s = p @ c # r" "c \<notin> set p" using Some pr by (auto simp: split_once_Some)
    have "split_once c (b # s) = Some (if b = c then ([], s) else (b # p, r))"
      using s by (auto simp: split_once_Some)
    then show ?thesis using Cons Some pr by auto
  qed
qed (simp add: split_once_def)

definition apply_segment :: "lexer \<Rightarrow> calendar \<Rightarrow> set_cookie \<Rightarrow> bytes \<Rightarrow> set_cookie" where
  "apply_segment w cal sc a = (case key_val a of (k, v) \<Rightarrow> apply_attribute w cal sc k v)"

lemma apply_segment_empty [simp]: "apply_segment w cal sc [] = sc"
  by (simp add: apply_segment_def key_val_def split_once_def trim_blanks_def apply_attribute_def to_ascii_lowercase_def)

lemma attributes_segments:
  assumes "winnow_ok w"
  shows "attributes w cal sc input = foldl (apply_segment w cal) sc (split_byte (CHR '';'') input)"
proof (induction "length input" arbitrary: sc input rule: less_induct)
  case less
  note seg = segment_split [OF assms, of input] and kv = split_once_on_equals_key_val [OF assms]
  show ?case
  proof (cases "split_once (CHR '';'') input")
    case None
    then have "attributes w cal sc input = (if input = [] then sc else apply_segment w cal sc input)"
      using seg by (simp add: attributes.simps [of w cal _ input] attributes.simps [of w cal _ "[]"] kv apply_segment_def split: prod.splits)
    then show ?thesis using None by (simp add: split_byte_split_once [of _ input])
  next
    case (Some pr)
    obtain p r where pr: "pr = (p, r)" by force
    have l: "length r < length input" and ne: "input \<noteq> []" using Some pr by (auto simp: split_once_Some)
    have "attributes w cal sc input = attributes w cal (apply_segment w cal sc p) r"
      using seg Some pr ne by (simp add: attributes.simps [of w cal sc input] kv apply_segment_def split: prod.splits)
    also have "\<dots> = foldl (apply_segment w cal) (apply_segment w cal sc p) (split_byte (CHR '';'') r)"
      using less l by blast
    finally show ?thesis using Some pr by (simp add: split_byte_split_once [of _ input])
  qed
qed

definition blank_cookie :: "bytes \<Rightarrow> bytes \<Rightarrow> set_cookie" where
  "blank_cookie n v = \<lparr>sc_name = n, sc_value = v, sc_domain = None, sc_path = None, sc_expires = None,
     sc_max_age = None, sc_secure = False, sc_http_only = False, sc_same_site = None\<rparr>"

definition name_value_error :: "bytes \<Rightarrow> parse_error option" where
  "name_value_error pair =
     (case key_val pair of (n, v) \<Rightarrow>
        if CHR ''='' \<notin> set pair then Some NoNameValueSeparator
        else if n = [] then Some EmptyName
        else if list_ex is_ctl (n @ v) then Some ControlCharacter
        else if \<not> is_utf8 n \<or> \<not> is_utf8 v then Some NonUtf8 else None)"

text \<open>
  A \<open>Set-Cookie\<close> header means its segments: the header is cut at every semicolon, the
  first segment is the name and the value (cut at its first equals sign, blanks trimmed) and its
  verdict alone decides between an error and a cookie, and the attributes are applied left to right,
  the last one of a kind winning; an empty or unknown segment changes nothing.
\<close>

theorem set_cookie_parse_spec:
  assumes "winnow_ok w"
  shows "set_cookie_parse w cal header =
    (let segs = split_byte (CHR '';'') header; (n, v) = key_val (hd segs) in
     case name_value_error (hd segs) of
       Some e \<Rightarrow> Inl e
     | None \<Rightarrow> Inr (foldl (apply_segment w cal) (blank_cookie n v) (tl segs)))"
proof -
  obtain p r where seg: "segment w header = (p, r)" by force
  have s: "split_byte (CHR '';'') header = [p] \<and> r = [] \<or> split_byte (CHR '';'') header = p # split_byte (CHR '';'') r"
    using seg segment_split [OF assms, of header]
    by (auto simp: split_byte_split_once [of _ header] split: option.splits)
  then have fold: "foldl (apply_segment w cal) sc (tl (split_byte (CHR '';'') header)) = attributes w cal sc r"
    and hd: "hd (split_byte (CHR '';'') header) = p" for sc
    by (auto simp: attributes_segments [OF assms])
  show ?thesis
    unfolding Let_def hd fold
    using seg by (auto simp: set_cookie_parse_def split_once_on_equals_key_val [OF assms] name_value_error_def
        to_utf8_def blank_cookie_def split: prod.splits)
qed

theorem set_cookie_parse_spec_witness:
  "set_cookie_parse ref_lexer (\<lambda>_ _ _ _ _ _. None) ''sid = abc; Domain=.Example.com; Priority=High; Secure;''
     = Inr ((blank_cookie ''sid'' ''abc'')\<lparr>sc_domain := Some ''example.com'', sc_secure := True\<rparr>)"
  unfolding set_cookie_parse_spec [OF ref_lexer_ok] by code_simp

section \<open>What an accepted header can hold\<close>

lemma set_trim_blanks: "set (trim_blanks s) \<subseteq> set s"
  unfolding trim_blanks_def by (metis set_dropWhileD set_rev subsetI)

lemma trim_blanks_ends:
  "trim_blanks s \<noteq> [] \<Longrightarrow> \<not> is_blank (hd (trim_blanks s)) \<and> \<not> is_blank (last (trim_blanks s))"
proof -
  assume ne: "trim_blanks s \<noteq> []"
  let ?d = "dropWhile is_blank s"
  have "?d \<noteq> []" using ne by (metis trim_blanks_def dropWhile.simps(1) rev.simps(1))
  then obtain x xs where d: "?d = x # xs" "\<not> is_blank x" by (metis dropWhile_hd neq_Nil_conv)
  have "trim_blanks s = x # rev (dropWhile is_blank (rev xs))"
    using d by (auto simp: trim_blanks_def dropWhile_append1 dropWhile_append2)
      (metis dropWhile_append3 rev.simps(2) rev_rev_ident dropWhile_append1 dropWhile_append append.simps)
  moreover have "\<not> is_blank (last (trim_blanks s))"
    using ne by (metis hd_dropWhile hd_rev rev_is_Nil_conv trim_blanks_def last_rev)
  ultimately show ?thesis using d by simp
qed

lemma key_val_sets:
  assumes "key_val s = (k, v)"
  shows "set k \<subseteq> set s" "set v \<subseteq> set s" "CHR ''='' \<notin> set k"
proof -
  obtain k0 v0 where kv: "k = trim_blanks k0" "v = trim_blanks v0" "set k0 \<subseteq> set s" "set v0 \<subseteq> set s" "CHR ''='' \<notin> set k0"
  proof (cases "split_once (CHR ''='') s")
    case None
    then have "k = trim_blanks s" "v = trim_blanks []" "CHR ''='' \<notin> set s"
      using assms by (simp_all add: key_val_def trim_blanks_def split_once_None [symmetric])
    then show ?thesis using that [of s "[]"] by simp
  next
    case (Some pr)
    obtain a b where ab: "pr = (a, b)" by force
    have "k = trim_blanks a" "v = trim_blanks b" using assms Some ab by (simp_all add: key_val_def)
    moreover have "s = a @ CHR ''='' # b" "CHR ''='' \<notin> set a" using Some ab by (simp_all add: split_once_Some)
    ultimately show ?thesis using that [of a b] by auto
  qed
  then show "set k \<subseteq> set s" "set v \<subseteq> set s" "CHR ''='' \<notin> set k"
    using set_trim_blanks by (metis subset_trans, metis subset_trans, metis subsetD)
qed

definition attrs_wf :: "set_cookie \<Rightarrow> bool" where
  "attrs_wf sc \<longleftrightarrow>
     (case sc_domain sc of None \<Rightarrow> True | Some d \<Rightarrow> d \<noteq> [] \<and> to_ascii_lowercase d = d \<and> CHR '';'' \<notin> set d) \<and>
     (case sc_path sc of None \<Rightarrow> True | Some p \<Rightarrow> starts_with p ''/'' \<and> CHR '';'' \<notin> set p)"

definition attr_step :: "set_cookie \<Rightarrow> set_cookie \<Rightarrow> bool" where
  "attr_step sc sc' \<longleftrightarrow> attrs_wf sc' \<and> sc_name sc' = sc_name sc \<and> sc_value sc' = sc_value sc"

lemma attr_step_if: "attr_step sc a \<Longrightarrow> attr_step sc b \<Longrightarrow> attr_step sc (if c then a else b)"
  by simp

lemma apply_attribute_keeps:
  assumes "attrs_wf sc" "CHR '';'' \<notin> set v"
  shows "attr_step sc (apply_attribute w cal sc k v)"
proof -
  have semi: "\<not> is_ascii_lower (CHR '';'')" "\<not> is_ascii_upper (CHR '';'')" by code_simp+
  let ?d = "case strip_prefix ''.'' v of Some x \<Rightarrow> x | None \<Rightarrow> v"
  have "CHR '';'' \<notin> set ?d" using assms(2) by (auto simp: strip_prefix_def dest: in_set_dropD)
  then have d: "CHR '';'' \<notin> set (to_ascii_lowercase ?d)" using in_to_ascii_lowercase [OF semi] by blast
  have same: "attr_step sc sc" and ex: "attr_step sc (sc\<lparr>sc_expires := e\<rparr>)" and ma: "attr_step sc (sc\<lparr>sc_max_age := e\<rparr>)"
    and se: "attr_step sc (sc\<lparr>sc_secure := True\<rparr>)" and ho: "attr_step sc (sc\<lparr>sc_http_only := True\<rparr>)"
    and ss: "attr_step sc (sc\<lparr>sc_same_site := x\<rparr>)" for e x
    using assms(1) by (simp_all add: attr_step_def attrs_wf_def)
  have dom: "attr_step sc (if ?d \<noteq> [] \<and> is_utf8 ?d then sc\<lparr>sc_domain := Some (to_ascii_lowercase ?d)\<rparr> else sc)"
    using assms(1) d by (auto simp: attr_step_def attrs_wf_def) (simp_all add: to_ascii_lowercase_def)
  have pa: "attr_step sc (if starts_with v ''/'' \<and> is_utf8 v then sc\<lparr>sc_path := Some v\<rparr> else sc)"
    using assms by (simp add: attr_step_def attrs_wf_def)
  show ?thesis
    unfolding apply_attribute_def Let_def
    by (intro attr_step_if same dom pa se ho ss) (auto intro: same ex ma split: option.split list.split)
qed

lemma apply_segments_keep:
  "attrs_wf sc \<Longrightarrow> (\<forall>a \<in> set segs. CHR '';'' \<notin> set a) \<Longrightarrow>
     attr_step sc (foldl (apply_segment w cal) sc segs)"
proof (induction segs arbitrary: sc)
  case (Cons a segs)
  obtain k v where kv: "key_val a = (k, v)" by force
  then have "CHR '';'' \<notin> set v" using Cons.prems(2) key_val_sets(2) by fastforce
  then have "attr_step sc (apply_segment w cal sc a)"
    using apply_attribute_keeps [OF Cons.prems(1), of v w cal k] kv by (simp add: apply_segment_def)
  then show ?case using Cons.IH [of "apply_segment w cal sc a"] Cons.prems(2) by (auto simp: attr_step_def)
qed (simp add: attr_step_def)

lemma set_cookie_safe:
  assumes "winnow_ok w" "set_cookie_parse w cal header = Inr sc"
  shows "sc_name sc \<noteq> [] \<and> CHR ''='' \<notin> set (sc_name sc) \<and>
    (\<forall>f \<in> {sc_name sc, sc_value sc}. CHR '';'' \<notin> set f \<and> \<not> list_ex is_ctl f \<and> is_utf8 f \<and>
       (f \<noteq> [] \<longrightarrow> \<not> is_blank (hd f) \<and> \<not> is_blank (last f))) \<and>
    attrs_wf sc"
proof -
  let ?segs = "split_byte (CHR '';'') header"
  obtain n v where nv: "key_val (hd ?segs) = (n, v)" by force
  have r: "name_value_error (hd ?segs) = None" "sc = foldl (apply_segment w cal) (blank_cookie n v) (tl ?segs)"
    using assms(2) nv unfolding set_cookie_parse_spec [OF assms(1)] by (auto simp: Let_def split: option.splits)
  have semi: "\<forall>a \<in> set ?segs. CHR '';'' \<notin> set a" using split_byte_pieces by blast
  then have "\<forall>a \<in> set (tl ?segs). CHR '';'' \<notin> set a" by (metis list.set_sel(2) split_byte_nonempty)
  then have k: "attr_step (blank_cookie n v) sc"
    unfolding r(2) by (intro apply_segments_keep) (simp_all add: blank_cookie_def attrs_wf_def)
  then have nm: "sc_name sc = n" "sc_value sc = v" "attrs_wf sc" by (auto simp: attr_step_def blank_cookie_def)
  have h: "CHR '';'' \<notin> set (hd ?segs)" using semi by simp
  have e: "n \<noteq> []" "\<not> list_ex is_ctl (n @ v)" "is_utf8 n" "is_utf8 v"
    using r(1) nv by (auto simp: name_value_error_def split: if_splits)
  have t: "\<exists>x. n = trim_blanks x" "\<exists>x. v = trim_blanks x"
    using nv r(1) by (auto simp: key_val_def trim_blanks_def [of "[]"] name_value_error_def split_once_None
        split: option.splits if_splits)
  have "CHR '';'' \<notin> set n" "CHR '';'' \<notin> set v" "CHR ''='' \<notin> set n" using key_val_sets [OF nv] h by blast+
  then show ?thesis using nm e t trim_blanks_ends by auto
qed

text \<open>
  Nothing that could break out of a header line is ever accepted: the name of an
  accepted cookie is not empty and holds no equals sign, name and value hold no semicolon and no
  control character, are UTF-8 and have no blank at either end, a domain is non-empty and in lower
  case, a path is absolute, and neither holds a semicolon.
\<close>

theorem set_cookie_parse_safe:
  assumes "winnow_ok w" "set_cookie_parse w cal header = Inr sc"
  shows "sc_name sc \<noteq> [] \<and> CHR ''='' \<notin> set (sc_name sc) \<and>
    (\<forall>f \<in> {sc_name sc, sc_value sc}. CHR '';'' \<notin> set f \<and> \<not> list_ex is_ctl f \<and> is_utf8 f \<and>
       (f \<noteq> [] \<longrightarrow> \<not> is_blank (hd f) \<and> \<not> is_blank (last f))) \<and>
    attrs_wf sc"
  by (rule set_cookie_safe [OF assms])

theorem set_cookie_parse_safe_witness:
  "\<exists>sc. set_cookie_parse ref_lexer (\<lambda>_ _ _ _ _ _. None) ''a = b=c ; Path=/x'' = Inr sc \<and>
     CHR '';'' \<notin> set (sc_value sc) \<and> attrs_wf sc"
proof -
  have "set_cookie_parse ref_lexer (\<lambda>_ _ _ _ _ _. None) ''a = b=c ; Path=/x''
      = Inr ((blank_cookie ''a'' ''b=c'')\<lparr>sc_path := Some ''/x''\<rparr>)" by code_simp
  from set_cookie_parse_safe [OF ref_lexer_ok this] this show ?thesis by blast
qed

section \<open>Dates as servers write them\<close>

lemma digit_no_delimiter: "is_ascii_digit b \<Longrightarrow> \<not> is_delimiter b \<and> b \<noteq> CHR '':''"
  by (auto simp: is_ascii_digit_def is_delimiter_def Let_def byte_val_def)

lemma number_digits:
  assumes "list_all is_ascii_digit ds" "m \<le> length ds" "length ds \<le> n" "r = [] \<or> \<not> is_ascii_digit (hd r)"
  shows "number ref_lexer m n (ds @ r) = Some (dec_val ds, r)"
proof -
  have "takeWhile is_ascii_digit (ds @ r) = ds"
    using assms(1,4) by (cases r) (auto simp: takeWhile_append_all list_all_iff)
  then have "take_while ref_lexer m (Some n) is_ascii_digit (ds @ r) = Some (length ds)"
    using assms(2,3) by (simp add: ref_lexer_def at_most_def)
  then show ?thesis using assms(4) by (auto simp: number_def split: list.splits)
qed

lemma number_tail: "number w m n t = Some (v, r) \<Longrightarrow> set r \<subseteq> set t"
  by (auto simp: number_def split: option.splits list.splits if_splits) (metis in_set_dropD list.set_intros)+

lemma number_no_digit: "1 \<le> m \<Longrightarrow> t = [] \<or> \<not> is_ascii_digit (hd t) \<Longrightarrow> number ref_lexer m n t = None"
  by (cases t) (auto simp: number_def ref_lexer_def at_most_def Let_def)

lemma match_time_no_colon: "CHR '':'' \<notin> set t \<Longrightarrow> match_time ref_lexer t = None"
proof (cases "number ref_lexer 1 2 t")
  case (Some vr)
  assume c: "CHR '':'' \<notin> set t"
  obtain v r where vr: "vr = (v, r)" by force
  have "CHR '':'' \<notin> set r" using number_tail Some vr c by blast
  then have "\<not> literal ref_lexer '':'' r" by (cases r) (auto simp: ref_lexer_def starts_with_def)
  then show ?thesis using Some vr by (simp add: match_time_def)
qed (simp add: match_time_def)

lemma match_time_print:
  assumes "h < 100" "mi < 100" "s < 100"
  shows "match_time ref_lexer (print2 h @ '':'' @ print2 mi @ '':'' @ print2 s) = Some (h, mi, s)"
proof -
  have colon: "\<not> is_ascii_digit (CHR '':'')" by code_simp
  have n: "number ref_lexer 1 2 (print2 a @ r) = Some (a, r)" if "a < 100" "r = [] \<or> \<not> is_ascii_digit (hd r)" for a r
    using number_digits [of "print2 a" 1 2 r] that by (simp add: dec_val_print2)
  have l: "literal ref_lexer '':'' (CHR '':'' # r)" for r by (simp add: ref_lexer_def starts_with_def)
  have n3: "number ref_lexer 1 2 (print2 s) = Some (s, [])" using n [of s "[]"] assms by simp
  show ?thesis
    using n [of h "CHR '':'' # print2 mi @ '':'' @ print2 s"] n [of mi "CHR '':'' # print2 s"] n3 assms colon
    by (simp add: match_time_def l)
qed

definition WEEKDAYS :: "bytes list" where
  "WEEKDAYS = [''Mon'', ''Tue'', ''Wed'', ''Thu'', ''Fri'', ''Sat'', ''Sun'', ''Monday'', ''Tuesday'',
     ''Wednesday'', ''Thursday'', ''Friday'', ''Saturday'', ''Sunday'']"

lemma word_tokens:
  "list_all (\<lambda>t. t \<noteq> [] \<and> \<not> is_ascii_digit (hd t) \<and> CHR '':'' \<notin> set t \<and>
     list_all (\<lambda>b. \<not> is_delimiter b) t) (''GMT'' # WEEKDAYS)"
  by (simp add: WEEKDAYS_def ascii_simps is_delimiter_def)

lemma months_names: "list_all (\<lambda>(name, m). length name = 3 \<and> list_all is_ascii_lower name) MONTHS"
  by (simp add: MONTHS_def ascii_simps)

lemma months_found: "list_all (\<lambda>(name, m). find (\<lambda>(n, _). n = name) MONTHS = Some (name, m)) MONTHS"
  by (simp add: MONTHS_def)

lemma lower_id: "list_all is_ascii_lower s \<Longrightarrow> to_ascii_lowercase s = s"
  by (induction s) (auto simp: to_ascii_lowercase_def lower_byte_def is_ascii_lower_def is_ascii_upper_def)

lemma find_cong_list: "(\<And>x. x \<in> set xs \<Longrightarrow> P x = Q x) \<Longrightarrow> find P xs = find Q xs"
  by (induction xs) auto

lemma match_month_lower:
  "match_month ref_lexer t =
     (if length t < 3 then None else map_option snd (find (\<lambda>(n, _). n = take 3 (to_ascii_lowercase t)) MONTHS))"
proof -
  have "(case x of (n, _) \<Rightarrow> caseless ref_lexer n t) = (case x of (n, _) \<Rightarrow> 3 \<le> length t \<and> n = take 3 (to_ascii_lowercase t))"
    if "x \<in> set MONTHS" for x
  proof -
    obtain n m where x: "x = (n, m)" by force
    have "length n = 3" "to_ascii_lowercase n = n" using that x months_names lower_id by (auto simp: list_all_iff)
    then show ?thesis
      using x by (auto simp: ref_lexer_def eq_ignore_ascii_case_def to_ascii_lowercase_def take_map)
  qed
  then have "find (\<lambda>(n, _). caseless ref_lexer n t) MONTHS = find (\<lambda>(n, _). 3 \<le> length t \<and> n = take 3 (to_ascii_lowercase t)) MONTHS"
    by (rule find_cong_list)
  moreover have "find (\<lambda>_. False) xs = None" for xs :: "(bytes \<times> nat) list" by (induction xs) auto
  ultimately show ?thesis by (simp add: match_month_def not_le [symmetric])
qed

lemma words_lower:
  "map (\<lambda>t. take 3 (to_ascii_lowercase t)) (''GMT'' # WEEKDAYS) =
     [''gmt'', ''mon'', ''tue'', ''wed'', ''thu'', ''fri'', ''sat'', ''sun'', ''mon'', ''tue'', ''wed'', ''thu'', ''fri'', ''sat'', ''sun'']"
  by code_simp

lemma words_are_no_months: "t \<in> set (''GMT'' # WEEKDAYS) \<Longrightarrow> match_month ref_lexer t = None"
proof -
  assume t: "t \<in> set (''GMT'' # WEEKDAYS)"
  have "take 3 (to_ascii_lowercase t) \<in> set (map (\<lambda>t. take 3 (to_ascii_lowercase t)) (''GMT'' # WEEKDAYS))"
    using t unfolding set_map by (rule imageI)
  then have "take 3 (to_ascii_lowercase t) \<in> set [''gmt'', ''mon'', ''tue'', ''wed'', ''thu'', ''fri'', ''sat'', ''sun'']"
    unfolding words_lower by auto
  moreover have "list_all (\<lambda>u. find (\<lambda>(n, _). n = u) MONTHS = None) [''gmt'', ''mon'', ''tue'', ''wed'', ''thu'', ''fri'', ''sat'', ''sun'']"
    by (simp add: MONTHS_def)
  ultimately have "find (\<lambda>(n, _). n = take 3 (to_ascii_lowercase t)) MONTHS = None"
    unfolding list_all_iff by blast
  then show ?thesis by (simp add: match_month_lower)
qed

lemma month_token:
  assumes "(name, m) \<in> set MONTHS" "to_ascii_lowercase t = name"
  shows "match_month ref_lexer t = Some m \<and> list_all (\<lambda>b. \<not> is_delimiter b \<and> \<not> is_ascii_digit b \<and> b \<noteq> CHR '':'') t \<and> t \<noteq> []"
proof (intro conjI)
  have f: "find (\<lambda>(n, _). n = name) MONTHS = Some (name, m)" "length name = 3" "list_all is_ascii_lower name"
    using months_found months_names assms(1) by (auto simp: list_all_iff)
  have l: "length t = 3" using f(2) assms(2) by (auto simp: to_ascii_lowercase_def)
  then show "t \<noteq> []" by auto
  have "take 3 (to_ascii_lowercase t) = name" using assms(2) f(2) by simp
  then show "match_month ref_lexer t = Some m" using f(1) l by (simp add: match_month_lower)
  have "is_ascii_lower b \<or> is_ascii_upper b" if "b \<in> set t" for b
  proof -
    have "is_ascii_lower (lower_byte b)" using that f(3) assms(2) by (auto simp: to_ascii_lowercase_def list_all_iff)
    then show ?thesis using lower_byte_cases [of b] by metis
  qed
  moreover have "\<not> is_delimiter b \<and> \<not> is_ascii_digit b \<and> b \<noteq> CHR '':''" if "is_ascii_lower b \<or> is_ascii_upper b" for b
    using that by (auto simp: is_delimiter_def Let_def is_ascii_digit_def is_ascii_lower_def is_ascii_upper_def byte_val_def)
  ultimately show "list_all (\<lambda>b. \<not> is_delimiter b \<and> \<not> is_ascii_digit b \<and> b \<noteq> CHR '':'') t"
    by (auto simp: list_all_iff)
qed

lemma year_token:
  assumes "year = print4 y \<and> 1601 \<le> y \<and> y < 10000 \<or> year = print2 y \<and> 1970 \<le> y \<and> y < 2070"
  shows "\<exists>y'. number ref_lexer 2 4 year = Some (y', []) \<and> full_year y' = y \<and> 1601 \<le> y \<and> y < 10000 \<and>
    list_all is_ascii_digit year \<and> year \<noteq> []"
  using assms
proof
  assume "year = print4 y \<and> 1601 \<le> y \<and> y < 10000"
  then show ?thesis
    using number_digits [of "print4 y" 2 4 "[]"] by (auto simp: dec_val_print4 full_year_def)
next
  assume a: "year = print2 y \<and> 1970 \<le> y \<and> y < 2070"
  have "dec_val (print2 y) = y mod 100" by (simp add: dec_val_def foldl_print2)
  moreover have "full_year (y mod 100) = y"
  proof (cases "y < 2000")
    case True
    then have "y = (y - 1900) + 19 * 100" "y - 1900 < 100" using a by auto
    then have "y mod 100 = y - 1900" by (metis mod_less mod_mult_self1)
    then show ?thesis using True a by (auto simp: full_year_def)
  next
    case False
    then have "y = (y - 2000) + 20 * 100" "y - 2000 < 100" using a by auto
    then have "y mod 100 = y - 2000" by (metis mod_less mod_mult_self1)
    then show ?thesis using False a by (auto simp: full_year_def)
  qed
  ultimately show ?thesis using a number_digits [of "print2 y" 2 4 "[]"] by auto
qed

text \<open>
  The dates servers write are read as they mean: a weekday name, a comma, then day,
  month (in any case) and year separated by any delimiter, a time and \<open>GMT\<close> is the calendar's answer
  for exactly those numbers, with a two-digit year read as 1970 to 2069. The deletion date
  \<open>Thu, 01-Jan-1970 00:00:01 GMT\<close> is one of them.
\<close>

theorem cookie_date_reads:
  assumes "winnow_ok w" "wd \<in> set WEEKDAYS" "is_delimiter sep" "(name, m) \<in> set MONTHS" "to_ascii_lowercase mon = name"
    and "d < 100" "h < 100" "mi < 100" "s < 100"
    and "year = print4 y \<and> 1601 \<le> y \<and> y < 10000 \<or> year = print2 y \<and> 1970 \<le> y \<and> y < 2070"
  shows "parse_cookie_date w cal (wd @ '', '' @ print2 d @ [sep] @ mon @ [sep] @ year @ '' '' @
      (print2 h @ '':'' @ print2 mi @ '':'' @ print2 s) @ '' GMT'') = cal y m d h mi s"
proof -
  let ?time = "print2 h @ '':'' @ print2 mi @ '':'' @ print2 s"
  let ?f = "\<lambda>t d m y. \<lparr>df_time = t, df_day = d, df_month = m, df_year = y\<rparr>"
  have wd: "wd \<in> set (''GMT'' # WEEKDAYS)" using assms(2) by simp
  have word: "\<not> is_ascii_digit (hd wd)" "wd \<noteq> []" "CHR '':'' \<notin> set wd" "list_all (\<lambda>b. \<not> is_delimiter b) wd"
    using word_tokens wd unfolding list_all_iff by blast+
  have gmt: "list_all (\<lambda>b. \<not> is_delimiter b) ''GMT''" using word_tokens by simp
  note month = month_token [OF assms(4,5)]
  obtain y' where y: "number ref_lexer 2 4 year = Some (y', [])" "full_year y' = y" "1601 \<le> y" "y < 10000"
    "list_all is_ascii_digit year" "year \<noteq> []"
    using assms(10) year_token by blast
  have nodelim: "list_all is_ascii_digit t \<Longrightarrow> list_all (\<lambda>b. \<not> is_delimiter b) t \<and> CHR '':'' \<notin> set t" for t
    using digit_no_delimiter by (auto simp: list_all_iff)
  have colon: "\<not> is_delimiter (CHR '':'')" by (simp add: is_delimiter_def ascii_simps)
  have del: "is_delimiter (CHR '','')" "is_delimiter (CHR '' '')" by (simp_all add: is_delimiter_def ascii_simps)
  have time: "list_all (\<lambda>b. \<not> is_delimiter b) ?time" using nodelim [OF list_all_digits(1)] colon by simp
  have pd: "list_all (\<lambda>b. \<not> is_delimiter b) (print2 d)" "CHR '':'' \<notin> set (print2 d)" "print2 d \<noteq> []"
    using nodelim [OF list_all_digits(1)] by auto
  have mn: "list_all (\<lambda>b. \<not> is_delimiter b) mon" "CHR '':'' \<notin> set mon" "mon \<noteq> []"
    using month by (auto simp: list_all_iff)
  have yn: "list_all (\<lambda>b. \<not> is_delimiter b) year" "CHR '':'' \<notin> set year" using nodelim y(5) by blast+
  have "date_tokens (wd @ '', '' @ print2 d @ [sep] @ mon @ [sep] @ year @ '' '' @ ?time @ '' GMT'') =
      [wd, print2 d, mon, year, ?time, ''GMT'']"
    using word(2) pd(3) mn(3) y(6) split_where_Cons [OF word(4) del(1)] split_where_Cons [OF pd(1) assms(3)]
      split_where_Cons [OF mn(1) assms(3)] split_where_Cons [OF yn(1) del(2)] split_where_Cons [OF time del(2)]
      split_where_word [OF gmt] del(2)
    by (simp add: date_tokens_def)
  moreover have "date_token ref_lexer (?f None None None None) wd = ?f None None None None"
    using word words_are_no_months [OF wd] by (simp add: date_token_def match_time_no_colon number_no_digit)
  moreover have "date_token ref_lexer (?f None None None None) (print2 d) = ?f None (Some d) None None"
    using pd number_digits [of "print2 d" 1 2 "[]"] assms(6) by (simp add: date_token_def match_time_no_colon dec_val_print2)
  moreover have "date_token ref_lexer (?f None (Some d) None None) mon = ?f None (Some d) (Some m) None"
    using mn month by (simp add: date_token_def match_time_no_colon)
  moreover have "date_token ref_lexer (?f None (Some d) (Some m) None) year = ?f None (Some d) (Some m) (Some y')"
    using yn y(1) by (simp add: date_token_def match_time_no_colon)
  moreover have "date_token ref_lexer (?f None (Some d) (Some m) (Some y')) ?time = ?f (Some (h, mi, s)) (Some d) (Some m) (Some y')"
    using match_time_print [OF assms(7-9)] by (simp add: date_token_def)
  moreover have "date_token ref_lexer (?f (Some (h, mi, s)) (Some d) (Some m) (Some y')) ''GMT'' = ?f (Some (h, mi, s)) (Some d) (Some m) (Some y')"
    by (simp add: date_token_def)
  moreover have "m \<le> 12" using assms(4) by (auto simp: MONTHS_def)
  ultimately show ?thesis
    using y assms(6-9) unfolding winnow_ok_unique [OF assms(1)] by (simp add: parse_cookie_date_def date_value_def)
qed

theorem cookie_date_reads_witness:
  "parse_cookie_date ref_lexer (\<lambda>y m d h mi s. if y = 1970 \<and> m = 1 \<and> d = 1 \<and> h = 0 \<and> mi = 0 \<and> s = 1 then Some 1 else None)
     ''Thu, 01-Jan-1970 00:00:01 GMT'' = Some 1"
proof -
  have p: "print2 1 = ''01''" "print2 0 = ''00''" "print4 1970 = ''1970''" by code_simp+
  have "''Thu'' \<in> set WEEKDAYS" "is_delimiter (CHR ''-'')" "(''jan'', 1) \<in> set MONTHS" "to_ascii_lowercase ''Jan'' = ''jan''"
    by code_simp+
  from cookie_date_reads [OF ref_lexer_ok this, of 1 0 0 1 "''1970''" 1970
      "\<lambda>y m d h mi s. if y = 1970 \<and> m = 1 \<and> d = 1 \<and> h = 0 \<and> mi = 0 \<and> s = 1 then Some 1 else None"]
  show ?thesis unfolding p by (simp add: p)
qed

end
