(* ===== verification/Multimap.thy ===== *)
theory Multimap
  imports Prelude
begin

text \<open>
  A \<open>HashMap<K, Vec<V>>\<close>, which is what both in-memory stores of the client hold: the list of its entries, in the
  order in which it happens to be iterated. The operations are those the stores use, and \<open>Iterator::min_by\<close>, which
  picks what is evicted.
\<close>

section \<open>Operations\<close>

type_synonym ('k, 'v) multimap = "('k \<times> 'v list) list"

text \<open>\<open>HashMap\<close> operations: \<open>get_mut\<close> on a key that is there, and \<open>remove\<close>.\<close>

definition entry_update :: "'k \<Rightarrow> ('v list \<Rightarrow> 'v list) \<Rightarrow> ('k, 'v) multimap \<Rightarrow> ('k, 'v) multimap" where
  "entry_update d f m = map (\<lambda>(d', cs). if d' = d then (d', f cs) else (d', cs)) m"

definition entry_remove :: "'k \<Rightarrow> ('k, 'v) multimap \<Rightarrow> ('k, 'v) multimap" where
  "entry_remove d m = filter (\<lambda>(d', _). d' \<noteq> d) m"

definition contents :: "('k, 'v) multimap \<Rightarrow> 'v list" where
  "contents m = concat (map snd m)"

definition push_entry :: "'k \<Rightarrow> 'v \<Rightarrow> ('k, 'v) multimap \<Rightarrow> ('k, 'v) multimap" where
  "push_entry d c m = (if d \<in> fst ` set m then entry_update d (\<lambda>cs. cs @ [c]) m else m @ [(d, [c])])"

text \<open>\<open>get_mut\<close>, and \<open>remove\<close> when what is left there is empty.\<close>

definition regroup :: "'k \<Rightarrow> 'v list \<Rightarrow> ('k, 'v) multimap \<Rightarrow> ('k, 'v) multimap" where
  "regroup k vs m = (if vs = [] then entry_remove k m else entry_update k (\<lambda>_. vs) m)"

text \<open>\<open>Iterator::min_by\<close>: the first of the least elements.\<close>

fun min_by :: "('a \<Rightarrow> 'a \<Rightarrow> bool) \<Rightarrow> 'a list \<Rightarrow> 'a option" where
  "min_by lt [] = None"
| "min_by lt (x # xs) = (case min_by lt xs of None \<Rightarrow> Some x | Some y \<Rightarrow> if lt y x then Some y else Some x)"

text \<open>What may be evicted, from one entry or from all: where it is, and what it is.\<close>

definition candidates :: "'k option \<Rightarrow> ('k, 'v) multimap \<Rightarrow> ('k \<times> nat \<times> 'v) list" where
  "candidates want m =
     concat (map (\<lambda>(d, cs). map (\<lambda>(i, c). (d, i, c)) (enumerate 0 cs))
       (filter (\<lambda>(d, _). case want of None \<Rightarrow> True | Some x \<Rightarrow> d = x) m))"

section \<open>Lemmas\<close>

lemma min_by_in: "min_by lt xs = Some x \<Longrightarrow> x \<in> set xs"
  by (induction xs arbitrary: x) (auto split: option.splits if_splits)

lemma min_by_None [simp]: "min_by lt xs = None \<longleftrightarrow> xs = []"
  by (cases xs) (auto split: option.splits)

lemma min_by_least:
  assumes "\<And>a b. lt a b \<Longrightarrow> \<not> lt b a" "\<And>a b c. \<not> lt a b \<Longrightarrow> \<not> lt b c \<Longrightarrow> \<not> lt a c"
  shows "min_by lt xs = Some x \<Longrightarrow> y \<in> set xs \<Longrightarrow> \<not> lt y x"
proof (induction xs arbitrary: x y)
  case (Cons z zs)
  have irr: "\<not> lt a a" for a using assms(1) by blast
  show ?case
  proof (cases "min_by lt zs")
    case None
    then show ?thesis using Cons.prems irr by simp
  next
    case (Some r)
    then have r: "w \<in> set zs \<Longrightarrow> \<not> lt w r" for w using Cons.IH by blast
    show ?thesis
    proof (cases "lt r z")
      case True
      then show ?thesis using Cons.prems Some r assms(1) by auto
    next
      case False
      then show ?thesis using Cons.prems Some r irr assms(2) [of y r z] by auto
    qed
  qed
qed simp

lemma candidates_in:
  "(d, i, c) \<in> set (candidates want m) \<longleftrightarrow>
     (\<exists>cs. (d, cs) \<in> set m \<and> i < length cs \<and> cs ! i = c \<and> (case want of None \<Rightarrow> True | Some x \<Rightarrow> d = x))"
  by (force simp: candidates_def in_set_enumerate_eq split: option.splits)

lemma contents_append [simp]: "contents (a @ b) = contents a @ contents b" "contents [] = []"
    "contents ((d, cs) # m) = cs @ contents m"
  by (simp_all add: contents_def)

lemma in_contents: "c \<in> set (contents m) \<longleftrightarrow> (\<exists>d cs. (d, cs) \<in> set m \<and> c \<in> set cs)"
  by (force simp: contents_def)

text \<open>An entry and its surroundings.\<close>

lemma entry_at:
  assumes "distinct (map fst m)" "map_of m d = Some cs"
  obtains pre post where "m = pre @ (d, cs) # post" "\<And>f. entry_update d f m = pre @ (d, f cs) # post"
    "entry_remove d m = pre @ post" "d \<notin> fst ` set (pre @ post)"
proof -
  obtain pre post where m: "m = pre @ (d, cs) # post" using assms(2) by (meson map_of_SomeD split_list)
  have d: "d \<notin> fst ` set pre" "d \<notin> fst ` set post" using assms(1) m by auto
  have id: "map (\<lambda>(d', cs). if d' = d then (d', f cs) else (d', cs)) xs = xs"
      "filter (\<lambda>(d', _). d' \<noteq> d) xs = xs" if "d \<notin> fst ` set xs" for xs f
    using that by (force intro: map_idI, force intro: filter_True)
  show ?thesis
    using that [OF m] d m by (auto simp: entry_update_def entry_remove_def id)
qed

lemma regroup_spec:
  assumes "distinct (map fst m)" "map_of m k = Some v"
  shows "map_of (regroup k vs m) = (map_of m)(k := if vs = [] then None else Some vs)"
    and "distinct (map fst (regroup k vs m))"
    and "length (contents (regroup k vs m)) + length v = length (contents m) + length vs"
proof -
  obtain pre post where m: "m = pre @ (k, v) # post" "\<And>f. entry_update k f m = pre @ (k, f v) # post"
    "entry_remove k m = pre @ post" "k \<notin> fst ` set (pre @ post)"
    using entry_at [OF assms] by metis
  have d: "distinct (map fst pre @ map fst post)" using assms(1) m(1) by auto
  have n: "map_of pre k = None" "map_of post k = None" using m(4) by (auto simp: map_of_eq_None_iff)
  show "map_of (regroup k vs m) = (map_of m)(k := if vs = [] then None else Some vs)"
    using n by (auto simp: regroup_def m(2,3)) (auto simp: m(1) map_add_def fun_eq_iff split: option.splits)
  show "distinct (map fst (regroup k vs m))" using d m(4) by (auto simp: regroup_def m(2,3))
  show "length (contents (regroup k vs m)) + length v = length (contents m) + length vs"
    by (simp add: regroup_def m(2,3)) (simp add: m(1))
qed

lemma push_entry_spec:
  assumes "distinct (map fst m)"
  shows "map_of (push_entry k e m) = (map_of m)(k \<mapsto> (case map_of m k of None \<Rightarrow> [e] | Some v \<Rightarrow> v @ [e]))"
    and "distinct (map fst (push_entry k e m))"
    and "length (contents (push_entry k e m)) = Suc (length (contents m))"
proof -
  have "map_of (push_entry k e m) = (map_of m)(k \<mapsto> (case map_of m k of None \<Rightarrow> [e] | Some v \<Rightarrow> v @ [e])) \<and>
    distinct (map fst (push_entry k e m)) \<and> length (contents (push_entry k e m)) = Suc (length (contents m))"
  proof (cases "map_of m k")
    case None
    then have "k \<notin> fst ` set m" by (simp add: map_of_eq_None_iff)
    then show ?thesis using assms None
      by (auto simp: push_entry_def map_add_def fun_eq_iff split: option.splits if_splits)
  next
    case (Some v)
    have k: "k \<in> fst ` set m" using map_of_SomeD [OF Some] by force
    have "push_entry k e m = regroup k (v @ [e]) m"
    proof -
      obtain pre post where "\<And>f. entry_update k f m = pre @ (k, f v) # post" using entry_at [OF assms Some] by metis
      then show ?thesis using k by (simp add: push_entry_def regroup_def)
    qed
    then show ?thesis using regroup_spec [OF assms Some, of "v @ [e]"] Some by simp
  qed
  then show "map_of (push_entry k e m) = (map_of m)(k \<mapsto> (case map_of m k of None \<Rightarrow> [e] | Some v \<Rightarrow> v @ [e]))"
    "distinct (map fst (push_entry k e m))" "length (contents (push_entry k e m)) = Suc (length (contents m))"
    by blast+
qed

lemma entry_remove_spec:
  "distinct (map fst m) \<Longrightarrow> map_of (entry_remove k m) = (map_of m)(k := None) \<and> distinct (map fst (entry_remove k m)) \<and>
   length (contents (entry_remove k m)) + (case map_of m k of None \<Rightarrow> 0 | Some v \<Rightarrow> length v) = length (contents m)"
proof (cases "map_of m k")
  case None
  then have "entry_remove k m = m" by (force simp: map_of_eq_None_iff entry_remove_def intro: filter_True)
  then show "distinct (map fst m) \<Longrightarrow> ?thesis" using None by auto
next
  case (Some v)
  then show "distinct (map fst m) \<Longrightarrow> ?thesis" using regroup_spec [of m k v "[]"] by (simp add: regroup_def)
qed

lemma map_of_all: "distinct (map fst m) \<Longrightarrow> list_all P m \<longleftrightarrow> (\<forall>k v. map_of m k = Some v \<longrightarrow> P (k, v))"
  by (auto simp: list_all_iff map_of_eq_Some_iff)

end
