(* ===== verification/Cookie_Store.thy ===== *)
theory Cookie_Store
  imports Cookie_Match Cookie_Parse Multimap "HOL-Library.Multiset"
begin

text \<open>
  Where the cookies live: \<open>Cookie\<close> (\<open>crates/hclient/src/cookie/jar.rs\<close>), its key, the
  \<open>CookieStore\<close> seam and \<open>MemoryStore\<close> (\<open>crates/hclient/src/cookie/store.rs\<close>). A \<open>SystemTime\<close> is the
  integer number of nanoseconds since the epoch. The \<open>HashMap\<close> of the store is a list of entries in
  the order in which it happens to be iterated; the seam is a locale, and the store an
  interpretation of it.
\<close>

section \<open>The model\<close>

record cookie =
  ck_name :: bytes
  ck_value :: bytes
  ck_domain :: bytes
  ck_path :: bytes
  ck_expires :: "system_time option"
  ck_creation :: system_time
  ck_last_access :: system_time
  ck_seq :: nat
  ck_host_only :: bool
  ck_persistent :: bool
  ck_secure :: bool
  ck_http_only :: bool
  ck_same_site :: "same_site option"

definition is_expired :: "cookie \<Rightarrow> system_time \<Rightarrow> bool" where
  "is_expired c now = (case ck_expires c of None \<Rightarrow> False | Some e \<Rightarrow> e \<le> now)"

record cookie_key =
  key_name :: bytes
  key_domain :: bytes
  key_path :: bytes
  key_host_only :: bool

definition key_of :: "cookie \<Rightarrow> cookie_key" where
  "key_of c = \<lparr>key_name = ck_name c, key_domain = ck_domain c, key_path = ck_path c, key_host_only = ck_host_only c\<rparr>"

record capacity =
  max_cookies :: nat
  max_per_domain :: nat

definition capacity_default :: capacity where
  "capacity_default = \<lparr>max_cookies = 3000, max_per_domain = 50\<rparr>"

type_synonym entries = "(bytes, cookie) multimap"

record held =
  by_domain :: entries
  held_count :: nat

definition held_default :: held where
  "held_default = \<lparr>by_domain = [], held_count = 0\<rparr>"

definition purge_expired :: "held \<Rightarrow> system_time \<Rightarrow> held" where
  "purge_expired h now =
     (let m = map (\<lambda>(d, cs). (d, filter (\<lambda>c. \<not> is_expired c now) cs)) (by_domain h);
          dropped = (\<Sum>(d, cs) \<leftarrow> by_domain h. length cs - length (filter (\<lambda>c. \<not> is_expired c now) cs)) in
      \<lparr>by_domain = filter (\<lambda>(d, cs). cs \<noteq> []) m, held_count = held_count h - dropped\<rparr>)"

definition lru_before :: "cookie \<Rightarrow> cookie \<Rightarrow> bool" where
  "lru_before a b \<longleftrightarrow> ck_last_access a < ck_last_access b \<or> ck_last_access a = ck_last_access b \<and> ck_seq a < ck_seq b"

definition evict_lru :: "held \<Rightarrow> bytes option \<Rightarrow> held option" where
  "evict_lru h want =
     (case min_by (\<lambda>(_, _, a) (_, _, b). lru_before a b) (candidates want (by_domain h)) of
        None \<Rightarrow> None
      | Some (d, i, _) \<Rightarrow>
          (let m = entry_update d (\<lambda>cs. take i cs @ drop (Suc i) cs) (by_domain h) in
           Some \<lparr>by_domain = filter (\<lambda>(d', cs). \<not> (d' = d \<and> cs = [])) m, held_count = held_count h - 1\<rparr>))"

definition store_get :: "held \<Rightarrow> bytes list \<Rightarrow> cookie list" where
  "store_get h ds =
     concat (map (\<lambda>d. case map_of (by_domain h) d of None \<Rightarrow> [] | Some cs \<Rightarrow> cs) ds)"

definition store_all :: "held \<Rightarrow> cookie list" where
  "store_all h = sort_key ck_seq (contents (by_domain h))"

definition store_remove :: "held \<Rightarrow> cookie_key \<Rightarrow> held" where
  "store_remove h key =
     (case map_of (by_domain h) (key_domain key) of
        None \<Rightarrow> h
      | Some cs \<Rightarrow>
          (let cs' = filter (\<lambda>c. key_of c \<noteq> key) cs in
           \<lparr>by_domain = (if cs' = [] then entry_remove (key_domain key) (by_domain h)
                         else entry_update (key_domain key) (\<lambda>_. cs') (by_domain h)),
            held_count = held_count h - (length cs - length cs')\<rparr>))"

definition store_touch :: "held \<Rightarrow> cookie_key list \<Rightarrow> system_time \<Rightarrow> held" where
  "store_touch h keys now =
     foldl (\<lambda>h key. h\<lparr>by_domain := entry_update (key_domain key)
       (map (\<lambda>c. if key_of c = key then c\<lparr>ck_last_access := now\<rparr> else c)) (by_domain h)\<rparr>) h keys"

definition store_clear :: "held \<Rightarrow> held" where
  "store_clear h = \<lparr>by_domain = [], held_count = 0\<rparr>"

definition position :: "('a \<Rightarrow> bool) \<Rightarrow> 'a list \<Rightarrow> nat option" where
  "position P xs = (if list_ex P xs then Some (length (takeWhile (\<lambda>x. \<not> P x) xs)) else None)"

section \<open>Eviction makes progress\<close>

lemma evict_shrinks:
  "evict_lru h want = Some h' \<Longrightarrow> length (contents (by_domain h')) < length (contents (by_domain h))"
proof -
  assume e: "evict_lru h want = Some h'"
  then obtain d i c where m: "min_by (\<lambda>(_, _, a) (_, _, b). lru_before a b) (candidates want (by_domain h)) = Some (d, i, c)"
    by (auto simp: evict_lru_def split: option.splits)
  obtain cs where cs: "(d, cs) \<in> set (by_domain h)" "i < length cs" using min_by_in [OF m] by (auto simp: candidates_in)
  let ?f = "\<lambda>(d', cs). if d' = d then (d', take i cs @ drop (Suc i) cs) else (d', cs)"
  have le: "length (snd (?f e)) \<le> length (snd e)" for e :: "bytes \<times> cookie list" by (auto split: prod.splits)
  have "(\<Sum>e\<leftarrow>by_domain h. length (snd (?f e))) < (\<Sum>e\<leftarrow>by_domain h. length (snd e))"
  proof -
    obtain ys zs where s: "by_domain h = ys @ (d, cs) # zs" using cs(1) by (meson split_list)
    have "(\<Sum>e\<leftarrow>xs. length (snd (?f e))) \<le> (\<Sum>e\<leftarrow>xs. length (snd e))" for xs :: entries
      by (rule sum_list_mono) (rule le)
    from this [of ys] this [of zs] show ?thesis using cs(2) by (simp add: s)
  qed
  moreover have "length (contents (filter P m)) \<le> length (contents m)" for P and m :: entries
    by (induction m) (auto simp: contents_def)
  ultimately show ?thesis using e m
    by (force simp: evict_lru_def entry_update_def contents_def length_concat comp_def Let_def intro: le_less_trans)
qed

text \<open>The two eviction loops of \<open>put\<close>.\<close>

function evict_domain :: "nat \<Rightarrow> bytes \<Rightarrow> held \<Rightarrow> held" where
  "evict_domain bound d h =
     (case map_of (by_domain h) d of
        None \<Rightarrow> h
      | Some cs \<Rightarrow>
          if length cs \<ge> bound then (case evict_lru h (Some d) of None \<Rightarrow> h | Some h' \<Rightarrow> evict_domain bound d h')
          else h)"
  by pat_completeness auto
termination
  by (relation "measure (\<lambda>(b, d, h). length (contents (by_domain h)))") (auto dest: evict_shrinks)

function evict_total :: "nat \<Rightarrow> held \<Rightarrow> held" where
  "evict_total bound h =
     (if held_count h \<ge> bound then (case evict_lru h None of None \<Rightarrow> h | Some h' \<Rightarrow> evict_total bound h') else h)"
  by pat_completeness auto
termination
  by (relation "measure (\<lambda>(b, h). length (contents (by_domain h)))") (auto dest: evict_shrinks)

declare evict_domain.simps [simp del] evict_total.simps [simp del]

definition store_put :: "capacity \<Rightarrow> held \<Rightarrow> cookie \<Rightarrow> system_time \<Rightarrow> held" where
  "store_put cap h0 c now =
     (let h = purge_expired h0 now; key = key_of c; d = key_domain key in
      if is_expired c now then store_remove h key
      else case Option.bind (map_of (by_domain h) d) (position (\<lambda>x. key_of x = key)) of
        Some i \<Rightarrow> h\<lparr>by_domain := entry_update d (\<lambda>cs. cs[i := c]) (by_domain h)\<rparr>
      | None \<Rightarrow>
          (let h1 = evict_domain (max_per_domain cap) d h;
               h2 = evict_total (max_cookies cap) h1 in
           \<lparr>by_domain = push_entry d c (by_domain h2), held_count = held_count h2 + 1\<rparr>))"

section \<open>The invariant\<close>

definition group_ok :: "bytes \<times> cookie list \<Rightarrow> bool" where
  "group_ok g = (case g of (d, cs) \<Rightarrow> cs \<noteq> [] \<and> (\<forall>c \<in> set cs. ck_domain c = d) \<and> distinct (map key_of cs))"

definition entries_wf :: "entries \<Rightarrow> bool" where
  "entries_wf m \<longleftrightarrow> distinct (map fst m) \<and> list_all group_ok m"

definition store_wf :: "held \<Rightarrow> bool" where
  "store_wf h \<longleftrightarrow> entries_wf (by_domain h) \<and> held_count h = length (contents (by_domain h))"

definition within :: "capacity \<Rightarrow> held \<Rightarrow> bool" where
  "within cap h \<longleftrightarrow> held_count h \<le> max 1 (max_cookies cap) \<and>
     list_all (\<lambda>(d, cs). length cs \<le> max 1 (max_per_domain cap)) (by_domain h)"

lemma key_of_domain [simp]: "key_domain (key_of c) = ck_domain c"
  by (simp add: key_of_def)

lemma key_of_eq: "key_of a = key_of b \<longleftrightarrow>
    ck_name a = ck_name b \<and> ck_domain a = ck_domain b \<and> ck_path a = ck_path b \<and> ck_host_only a = ck_host_only b"
  by (simp add: key_of_def)

lemma in_group:
  assumes "entries_wf m"
  shows "c \<in> set (contents m) \<and> ck_domain c = d \<longleftrightarrow> (\<exists>cs. map_of m d = Some cs \<and> c \<in> set cs)"
proof -
  have "ck_domain x = e" if "(e, cs) \<in> set m" "x \<in> set cs" for e cs x
    using that assms by (auto simp: entries_wf_def list_all_iff group_ok_def)
  then show ?thesis
    using assms unfolding in_contents by (auto simp: entries_wf_def map_of_eq_Some_iff)
qed

lemma entries_distinct: "entries_wf m \<Longrightarrow> distinct (map key_of (contents m))"
proof (induction m)
  case (Cons g m)
  obtain d cs where g: "g = (d, cs)" by force
  have wf: "entries_wf m" "group_ok (d, cs)" "d \<notin> fst ` set m" using Cons.prems g by (auto simp: entries_wf_def)
  have "ck_domain c \<noteq> d" if "c \<in> set (contents m)" for c
    using that wf(1,3) by (force simp: in_contents entries_wf_def list_all_iff group_ok_def)
  then have "key_of c \<noteq> key_of c'" if "c \<in> set cs" "c' \<in> set (contents m)" for c c'
    using that wf(2) by (auto simp: key_of_eq group_ok_def)
  then show ?case using Cons.IH wf g by (auto simp: group_ok_def)
qed simp

lemma entries_wf_replace:
  "entries_wf (pre @ (d, cs) # post) \<Longrightarrow> group_ok (d, cs') \<Longrightarrow> entries_wf (pre @ (d, cs') # post)"
  by (simp add: entries_wf_def)

lemma entries_wf_delete: "entries_wf (pre @ e # post) \<Longrightarrow> entries_wf (pre @ post)"
  by (auto simp: entries_wf_def)

lemma group_ok_filter: "group_ok (d, cs) \<Longrightarrow> filter P cs \<noteq> [] \<Longrightarrow> group_ok (d, filter P cs)"
  by (auto simp: group_ok_def distinct_map_filter)

section \<open>What each operation does\<close>

lemma purge_contents: "contents (by_domain (purge_expired h now)) = filter (\<lambda>c. \<not> is_expired c now) (contents (by_domain h))"
proof -
  have "contents (filter (\<lambda>(d, cs). cs \<noteq> []) (map (\<lambda>(d, cs). (d, filter P cs)) m)) = filter P (contents m)"
    for P and m :: entries by (induction m) auto
  then show ?thesis by (simp add: purge_expired_def Let_def)
qed

lemma purge_wf: "store_wf h \<Longrightarrow> store_wf (purge_expired h now)"
proof -
  assume wf: "store_wf h"
  let ?P = "\<lambda>c. \<not> is_expired c now"
  let ?m = "map (\<lambda>(d, cs). (d, filter ?P cs)) (by_domain h)"
  have "map fst ?m = map fst (by_domain h)" by (auto simp: comp_def split: prod.splits)
  then have "distinct (map fst (filter (\<lambda>(d, cs). cs \<noteq> []) ?m))"
    using wf by (metis distinct_map_filter store_wf_def entries_wf_def)
  moreover have "list_all group_ok (filter (\<lambda>(d, cs). cs \<noteq> []) ?m)"
    using wf by (auto simp: store_wf_def entries_wf_def list_all_iff intro!: group_ok_filter)
  moreover have "(\<Sum>(d, cs) \<leftarrow> m. length cs - length (filter ?P cs)) = length (contents m) - length (filter ?P (contents m)) \<and>
      length (filter ?P (contents m)) \<le> length (contents m)" for m :: entries
  proof (induction m)
    case (Cons g m)
    obtain d cs where g: "g = (d, cs)" by force
    show ?case using Cons g by (simp add: add_mono)
  qed simp
  ultimately show ?thesis
    using wf purge_contents [of h now]
    by (simp add: store_wf_def entries_wf_def purge_expired_def Let_def)
qed

lemma purge_within: "store_wf h \<Longrightarrow> within cap h \<Longrightarrow> within cap (purge_expired h now)"
proof -
  assume wf: "store_wf h" and w: "within cap h"
  have "length (contents (by_domain (purge_expired h now))) \<le> length (contents (by_domain h))"
    unfolding purge_contents by (rule length_filter_le)
  then have "held_count (purge_expired h now) \<le> max 1 (max_cookies cap)"
    using purge_wf [OF wf, of now] wf w by (simp add: store_wf_def within_def)
  moreover have "length (filter P cs) \<le> n" if "length cs \<le> n" for P n and cs :: "cookie list"
    using that length_filter_le [of P cs] by linarith
  ultimately show ?thesis
    using w by (auto simp: within_def purge_expired_def Let_def list_all_iff)
qed

lemma remove_spec:
  assumes "store_wf h"
  shows "store_wf (store_remove h key) \<and>
    contents (by_domain (store_remove h key)) = filter (\<lambda>c. key_of c \<noteq> key) (contents (by_domain h)) \<and>
    (within cap h \<longrightarrow> within cap (store_remove h key))"
proof (cases "map_of (by_domain h) (key_domain key)")
  case None
  have "ck_domain c \<noteq> key_domain key" if "c \<in> set (contents (by_domain h))" for c
    using that in_group [of "by_domain h" c "key_domain key"] None assms by (auto simp: store_wf_def)
  then have "filter (\<lambda>c. key_of c \<noteq> key) (contents (by_domain h)) = contents (by_domain h)"
    by (intro filter_True) (metis key_of_domain)
  then show ?thesis using None assms by (simp add: store_remove_def)
next
  case (Some cs)
  have wf: "entries_wf (by_domain h)" using assms by (simp add: store_wf_def)
  then obtain pre post where m: "by_domain h = pre @ (key_domain key, cs) # post"
    "\<And>f. entry_update (key_domain key) f (by_domain h) = pre @ (key_domain key, f cs) # post"
    "entry_remove (key_domain key) (by_domain h) = pre @ post" "key_domain key \<notin> fst ` set (pre @ post)"
    using entry_at Some by (metis entries_wf_def)
  have g: "group_ok (key_domain key, cs)" using wf m by (simp add: entries_wf_def)
  have o: "filter (\<lambda>c. key_of c \<noteq> key) (contents xs) = contents xs" if "set xs \<subseteq> set (pre @ post)" for xs
  proof (rule filter_True, rule ballI)
    fix c assume "c \<in> set (contents xs)"
    then obtain d cs where "(d, cs) \<in> set xs" and x2: "c \<in> set cs" by (auto simp: in_contents)
    then have x: "(d, cs) \<in> set (pre @ post)" using that by blast
    then have "group_ok (d, cs)" using wf m(1) by (auto simp: entries_wf_def list_all_iff)
    then have "ck_domain c = d" using x2 by (simp add: group_ok_def)
    moreover have "d \<noteq> key_domain key" using x m(4) by (metis fst_conv imageI)
    ultimately show "key_of c \<noteq> key" by force
  qed
  define cs' where "cs' = filter (\<lambda>c. key_of c \<noteq> key) cs"
  have c: "filter (\<lambda>c. key_of c \<noteq> key) (contents (by_domain h)) = contents pre @ cs' @ contents post"
    using o by (simp add: m cs'_def)
  have "entries_wf (pre @ (key_domain key, cs') # post)" if "cs' \<noteq> []"
    using wf m g that unfolding cs'_def by (metis entries_wf_replace group_ok_filter)
  moreover have "entries_wf (pre @ post)" using wf m entries_wf_delete by metis
  moreover have "length cs' \<le> length cs" unfolding cs'_def by (rule length_filter_le)
  moreover have "store_remove h key = \<lparr>by_domain = (if cs' = [] then pre @ post else pre @ (key_domain key, cs') # post),
      held_count = held_count h - (length cs - length cs')\<rparr>"
    using Some m by (simp add: store_remove_def Let_def cs'_def)
  moreover have "held_count h = length (contents pre) + length cs + length (contents post)"
    using assms m by (simp add: store_wf_def)
  ultimately show ?thesis
    using c by (auto simp: store_wf_def within_def m)
qed

lemma lru_before_order: "lru_before a b \<Longrightarrow> \<not> lru_before b a" "\<not> lru_before a b \<Longrightarrow> \<not> lru_before b c \<Longrightarrow> \<not> lru_before a c"
  by (auto simp: lru_before_def)

definition shrunk :: "entries \<Rightarrow> entries \<Rightarrow> bool" where
  "shrunk m' m \<longleftrightarrow> (\<forall>(d, cs') \<in> set m'. \<exists>cs. (d, cs) \<in> set m \<and> length cs' \<le> length cs \<and> set cs' \<subseteq> set cs)"

lemma shrunk_refl [simp]: "shrunk m m"
  by (auto simp: shrunk_def)

lemma shrunk_trans: "shrunk a b \<Longrightarrow> shrunk b c \<Longrightarrow> shrunk a c"
  unfolding shrunk_def by (fastforce dest!: bspec)

lemma shrunk_contents: "shrunk m' m \<Longrightarrow> set (contents m') \<subseteq> set (contents m)"
proof
  fix c assume s: "shrunk m' m" and "c \<in> set (contents m')"
  then obtain d cs' where c: "(d, cs') \<in> set m'" "c \<in> set cs'" by (auto simp: in_contents)
  then obtain cs where "(d, cs) \<in> set m" "set cs' \<subseteq> set cs" using s unfolding shrunk_def by blast
  then show "c \<in> set (contents m)" using c unfolding in_contents by blast
qed

lemma evict_spec:
  assumes wf: "store_wf h" and e: "evict_lru h want = Some h'"
  obtains v where "store_wf h'" "shrunk (by_domain h') (by_domain h)"
    "mset (contents (by_domain h)) = add_mset v (mset (contents (by_domain h')))"
    "want = None \<or> want = Some (ck_domain v)"
    "\<And>x. x \<in> set (contents (by_domain h)) \<Longrightarrow> want = None \<or> want = Some (ck_domain x) \<Longrightarrow> \<not> lru_before x v"
proof -
  let ?lt = "\<lambda>(_ :: bytes, _ :: nat, a) (_, _, b). lru_before a b"
  obtain d i v where mn: "min_by ?lt (candidates want (by_domain h)) = Some (d, i, v)"
    using e by (auto simp: evict_lru_def split: option.splits)
  then obtain cs where cs: "(d, cs) \<in> set (by_domain h)" "i < length cs" "cs ! i = v" "want = None \<or> want = Some d"
    using min_by_in [OF mn] by (auto simp: candidates_in split: option.splits)
  have ew: "entries_wf (by_domain h)" using wf by (simp add: store_wf_def)
  have di: "distinct (map fst (by_domain h))" using ew by (simp add: entries_wf_def)
  then have mo: "map_of (by_domain h) d = Some cs" using cs(1) by simp
  obtain pre post where m: "by_domain h = pre @ (d, cs) # post"
    "\<And>f. entry_update d f (by_domain h) = pre @ (d, f cs) # post" "d \<notin> fst ` set (pre @ post)"
    using entry_at [OF di mo] by metis
  define cs' where "cs' = take i cs @ drop (Suc i) cs"
  have split: "cs = take i cs @ v # drop (Suc i) cs" using cs id_take_nth_drop by metis
  have g: "group_ok (d, cs)" using ew m by (simp add: entries_wf_def)
  have g': "group_ok (d, cs')" if "cs' \<noteq> []"
  proof -
    have "distinct (map key_of (take i cs @ v # drop (Suc i) cs))" using g split by (simp add: group_ok_def)
    then have "distinct (map key_of cs')" unfolding cs'_def by auto
    moreover have "set cs' \<subseteq> set cs" unfolding cs'_def by (auto dest: in_set_takeD in_set_dropD)
    ultimately show ?thesis using g that by (auto simp: group_ok_def)
  qed
  have dv: "ck_domain v = d" using g cs by (auto simp: group_ok_def)
  have keep: "filter (\<lambda>(d', cs). \<not> (d' = d \<and> cs = [])) xs = xs" if "d \<notin> fst ` set xs" for xs :: entries
    using that by (force intro: filter_True)
  have bd: "by_domain h' = (if cs' = [] then pre @ post else pre @ (d, cs') # post)" "held_count h' = held_count h - 1"
  proof -
    have "d \<notin> fst ` set pre" "d \<notin> fst ` set post" using m(3) by auto
    note k = keep [OF this(1)] keep [OF this(2)]
    have "h' = \<lparr>by_domain = filter (\<lambda>(d', cs). \<not> (d' = d \<and> cs = [])) (pre @ (d, cs') # post), held_count = held_count h - 1\<rparr>"
      using e mn m(2) by (simp add: evict_lru_def Let_def cs'_def)
    then show "by_domain h' = (if cs' = [] then pre @ post else pre @ (d, cs') # post)" "held_count h' = held_count h - 1"
      unfolding filter_append filter.simps k by simp_all
  qed
  have ms: "mset (contents (by_domain h)) = add_mset v (mset (contents (by_domain h')))"
  proof -
    have "mset cs = add_mset v (mset cs')" by (subst split) (simp add: cs'_def)
    then show ?thesis unfolding bd by (simp add: m)
  qed
  have "entries_wf (by_domain h')"
    using ew m g' bd entries_wf_delete entries_wf_replace by metis
  then have w: "store_wf h'" using wf bd ms unfolding store_wf_def by (metis diff_Suc_1 size_add_mset size_mset)
  have "length cs' \<le> length cs" "set cs' \<subseteq> set cs" unfolding cs'_def by (auto dest: in_set_takeD in_set_dropD)
  then have sh: "shrunk (by_domain h') (by_domain h)" unfolding bd m(1) shrunk_def by auto
  have least: "\<not> lru_before x v" if xin: "x \<in> set (contents (by_domain h))" and xw: "want = None \<or> want = Some (ck_domain x)" for x
  proof -
    obtain cs2 where x2: "map_of (by_domain h) (ck_domain x) = Some cs2" "x \<in> set cs2"
      using in_group [OF ew, of x "ck_domain x"] xin by blast
    then obtain k where "k < length cs2" "cs2 ! k = x" by (auto simp: in_set_conv_nth)
    then have "(ck_domain x, k, x) \<in> set (candidates want (by_domain h))"
      unfolding candidates_in using xw map_of_SomeD [OF x2(1)] by (auto split: option.splits)
    moreover have lt: "?lt = (\<lambda>a b. lru_before (snd (snd a)) (snd (snd b)))" by (auto simp: fun_eq_iff)
    ultimately show ?thesis
      using min_by_least [of "\<lambda>a b. lru_before (snd (snd a)) (snd (snd b))", OF lru_before_order mn [unfolded lt]] by fastforce
  qed
  show ?thesis using that [OF w sh ms] cs(4) dv least by blast
qed

lemma evict_None: "evict_lru h want = None \<longleftrightarrow> candidates want (by_domain h) = []"
  by (auto simp: evict_lru_def Let_def split: option.splits)

lemma candidates_empty: "entries_wf m \<Longrightarrow> map_of m d = Some cs \<Longrightarrow> candidates (Some d) m \<noteq> []"
proof -
  assume wf: "entries_wf m" and mo: "map_of m d = Some cs"
  have "cs \<noteq> []" using wf map_of_SomeD [OF mo] by (auto simp: entries_wf_def list_all_iff group_ok_def)
  then have "(d, 0, cs ! 0) \<in> set (candidates (Some d) m)" using map_of_SomeD [OF mo] by (auto simp: candidates_in)
  then show ?thesis by auto
qed

lemma candidates_none: "entries_wf m \<Longrightarrow> candidates None m = [] \<Longrightarrow> m = []"
proof (rule ccontr)
  assume wf: "entries_wf m" and c: "candidates None m = []" and "m \<noteq> []"
  then obtain d cs where m: "(d, cs) \<in> set m" by (metis list.set_sel(1) surj_pair)
  then have "cs \<noteq> []" using wf by (auto simp: entries_wf_def list_all_iff group_ok_def)
  then have "(d, 0, cs ! 0) \<in> set (candidates None m)" using m by (auto simp: candidates_in)
  then show False using c by simp
qed

text \<open>
  One state after another that only lost cookies, and of each domain the least recently used ones.
\<close>

definition reduced :: "held \<Rightarrow> held \<Rightarrow> bool" where
  "reduced h' h \<longleftrightarrow> store_wf h' \<and> shrunk (by_domain h') (by_domain h) \<and>
     mset (contents (by_domain h')) \<subseteq># mset (contents (by_domain h)) \<and>
     (\<forall>x \<in> set (contents (by_domain h)) - set (contents (by_domain h')). \<forall>y \<in> set (contents (by_domain h')).
        ck_domain y = ck_domain x \<longrightarrow> \<not> lru_before y x)"

lemma reduced_refl: "store_wf h \<Longrightarrow> reduced h h"
  by (simp add: reduced_def)

lemma reduced_trans: "reduced a b \<Longrightarrow> reduced b c \<Longrightarrow> reduced a c"
proof -
  assume ab: "reduced a b" and bc: "reduced b c"
  have "set (contents (by_domain a)) \<subseteq> set (contents (by_domain b))" using ab shrunk_contents by (simp add: reduced_def)
  then have "\<not> lru_before y x" if "x \<in> set (contents (by_domain c)) - set (contents (by_domain a))"
    "y \<in> set (contents (by_domain a))" "ck_domain y = ck_domain x" for x y
    using that ab bc by (cases "x \<in> set (contents (by_domain b))") (auto simp: reduced_def)
  then show ?thesis
    using ab bc shrunk_trans subset_mset.order_trans unfolding reduced_def by blast
qed

lemma reduced_evict:
  assumes "store_wf h" "evict_lru h want = Some h'"
  shows "reduced h' h"
proof -
  obtain v where v: "store_wf h'" "shrunk (by_domain h') (by_domain h)"
    "mset (contents (by_domain h)) = add_mset v (mset (contents (by_domain h')))"
    "want = None \<or> want = Some (ck_domain v)"
    "\<And>x. x \<in> set (contents (by_domain h)) \<Longrightarrow> want = None \<or> want = Some (ck_domain x) \<Longrightarrow> \<not> lru_before x v"
    using evict_spec [OF assms] by metis
  have s: "set (contents (by_domain h)) = insert v (set (contents (by_domain h')))"
    using v(3) by (metis set_mset_add_mset_insert set_mset_mset)
  then have "\<not> lru_before y x" if "x \<in> set (contents (by_domain h)) - set (contents (by_domain h'))"
    "y \<in> set (contents (by_domain h'))" "ck_domain y = ck_domain x" for x y
    using that v(4) v(5) [of y] by auto
  then show ?thesis using v(1-3) by (auto simp: reduced_def)
qed

lemma reduced_within: "reduced h' h \<Longrightarrow> store_wf h \<Longrightarrow> within cap h \<Longrightarrow> within cap h'"
proof -
  assume r: "reduced h' h" and wf: "store_wf h" and w: "within cap h"
  have "size (mset (contents (by_domain h'))) \<le> size (mset (contents (by_domain h)))"
    using r unfolding reduced_def by (meson size_mset_mono)
  then have "held_count h' \<le> held_count h" using r wf by (simp add: reduced_def store_wf_def)
  moreover have "length cs' \<le> max 1 (max_per_domain cap)" if g: "(d, cs') \<in> set (by_domain h')" for d cs'
  proof -
    obtain cs where "(d, cs) \<in> set (by_domain h)" "length cs' \<le> length cs"
      using g r unfolding reduced_def shrunk_def by blast
    moreover have "length cs \<le> max 1 (max_per_domain cap)"
      using w calculation(1) unfolding within_def list_all_iff by blast
    ultimately show ?thesis by linarith
  qed
  ultimately show ?thesis using w by (auto simp: within_def list_all_iff)
qed

lemma evict_domain_spec:
  "store_wf h \<Longrightarrow> reduced (evict_domain b d h) h \<and>
     (\<forall>cs. map_of (by_domain (evict_domain b d h)) d = Some cs \<longrightarrow> length cs < b)"
proof (induction b d h rule: evict_domain.induct)
  case (1 b d h)
  show ?case
  proof (cases "map_of (by_domain h) d")
    case None
    then show ?thesis using 1 by (simp add: evict_domain.simps reduced_refl)
  next
    case (Some cs)
    show ?thesis
    proof (cases "length cs \<ge> b")
      case True
      have "entries_wf (by_domain h)" using 1 by (simp add: store_wf_def)
      then obtain h' where e: "evict_lru h (Some d) = Some h'"
        using candidates_empty [OF _ Some] evict_None by (metis not_None_eq)
      have r: "reduced h' h" using e reduced_evict 1 by blast
      then have "store_wf h'" by (simp add: reduced_def)
      then have "reduced (evict_domain b d h') h' \<and> (\<forall>cs. map_of (by_domain (evict_domain b d h')) d = Some cs \<longrightarrow> length cs < b)"
        using "1.IH" [OF Some True e] by blast
      moreover have "evict_domain b d h = evict_domain b d h'" using e Some True evict_domain.simps [of b d h] by simp
      ultimately show ?thesis using r reduced_trans by metis
    next
      case False
      then show ?thesis using Some 1 by (simp add: evict_domain.simps reduced_refl)
    qed
  qed
qed

lemma evict_total_spec:
  "store_wf h \<Longrightarrow> reduced (evict_total b h) h \<and> (held_count (evict_total b h) < b \<or> by_domain (evict_total b h) = [])"
proof (induction b h rule: evict_total.induct)
  case (1 b h)
  show ?case
  proof (cases "held_count h \<ge> b")
    case True
    show ?thesis
    proof (cases "evict_lru h None")
      case None
      then have "by_domain h = []" using 1 evict_None candidates_none by (metis store_wf_def)
      then show ?thesis using None True 1 by (simp add: evict_total.simps reduced_refl)
    next
      case (Some h')
      have r: "reduced h' h" using Some reduced_evict 1 by blast
      then have "store_wf h'" by (simp add: reduced_def)
      then have "reduced (evict_total b h') h' \<and> (held_count (evict_total b h') < b \<or> by_domain (evict_total b h') = [])"
        using "1.IH" [OF True Some] by blast
      moreover have "evict_total b h = evict_total b h'" using Some True evict_total.simps [of b h] by simp
      ultimately show ?thesis using r reduced_trans by metis
    qed
  next
    case False
    then show ?thesis using 1 by (simp add: evict_total.simps reduced_refl)
  qed
qed

lemma evict_domain_idle:
  "(\<And>cs. map_of (by_domain h) d = Some cs \<Longrightarrow> length cs < b) \<Longrightarrow> evict_domain b d h = h"
  by (subst evict_domain.simps) (auto split: option.splits simp: not_le [symmetric])

lemma evict_total_idle: "held_count h < b \<Longrightarrow> evict_total b h = h"
  by (subst evict_total.simps) simp

end
