(* ===== verification/Memory_Store.thy ===== *)
theory Memory_Store
  imports Cookie_Store
begin

text \<open>
  What the in-memory cookie store promises. The abstract store is a partial map from keys to
  cookies; every operation of \<open>MemoryStore\<close> is related to an operation on that map, and the
  obligations that \<open>CookieStore\<close> documents are the locale \<open>cookie_store\<close>, of which the store is an
  interpretation. The invariant and the bounds are shown for every sequence of operations.
\<close>

section \<open>The abstract store\<close>

definition lookup :: "held \<Rightarrow> cookie_key \<Rightarrow> cookie option" where
  "lookup h k = find (\<lambda>c. key_of c = k) (contents (by_domain h))"

definition alive :: "system_time \<Rightarrow> (cookie_key \<Rightarrow> cookie option) \<Rightarrow> cookie_key \<Rightarrow> cookie option" where
  "alive now m k = (case m k of None \<Rightarrow> None | Some c \<Rightarrow> if is_expired c now then None else Some c)"

lemma alive_Some: "alive now m k = Some c \<longleftrightarrow> m k = Some c \<and> \<not> is_expired c now"
  by (auto simp: alive_def split: option.splits)

lemma find_distinct:
  "distinct (map f xs) \<Longrightarrow> find (\<lambda>c. f c = k) xs = Some c \<longleftrightarrow> c \<in> set xs \<and> f c = k"
  by (induction xs) (auto simp: rev_image_eqI)

lemma lookup_Some: "store_wf h \<Longrightarrow> lookup h k = Some c \<longleftrightarrow> c \<in> set (contents (by_domain h)) \<and> key_of c = k"
  unfolding lookup_def by (rule find_distinct) (simp add: store_wf_def entries_distinct)

lemma lookup_None: "store_wf h \<Longrightarrow> lookup h k = None \<longleftrightarrow> (\<forall>c \<in> set (contents (by_domain h)). key_of c \<noteq> k)"
  by (auto simp: lookup_def find_None_iff)

lemma lookup_eqI:
  assumes "store_wf h'" "\<And>c. c \<in> set (contents (by_domain h')) \<longleftrightarrow> m (key_of c) = Some c"
    "\<And>k c. m k = Some c \<Longrightarrow> key_of c = k"
  shows "lookup h' = m"
proof
  fix k
  have "\<forall>c. lookup h' k = Some c \<longleftrightarrow> m k = Some c"
  proof
    fix c
    show "lookup h' k = Some c \<longleftrightarrow> m k = Some c"
      using lookup_Some [OF assms(1), of k c] assms(2) [of c] assms(3) [of k c] by auto
  qed
  then show "lookup h' k = m k" by (metis not_None_eq)
qed

lemma lookup_purge: "store_wf h \<Longrightarrow> lookup (purge_expired h now) = alive now (lookup h)"
  by (rule lookup_eqI) (auto simp: purge_wf purge_contents alive_Some lookup_Some)

lemma lookup_remove: "store_wf h \<Longrightarrow> lookup (store_remove h k) = (lookup h)(k := None)"
  using remove_spec [of h k]
  by (intro lookup_eqI) (auto simp: lookup_Some split: if_splits)

section \<open>Putting a cookie\<close>

lemma position_Some: "position P xs = Some i \<Longrightarrow> i < length xs \<and> P (xs ! i)"
proof -
  assume "position P xs = Some i"
  then have i: "i = length (takeWhile (\<lambda>x. \<not> P x) xs)" and ex: "\<exists>x \<in> set xs. P x"
    by (auto simp: position_def list_ex_iff split: if_splits)
  then have "i < length xs" by (metis length_takeWhile_le order_le_less takeWhile_eq_all_conv takeWhile_eq_take take_all_iff order_refl)
  then show ?thesis using i nth_length_takeWhile by blast
qed

lemma position_None: "position P xs = None \<longleftrightarrow> (\<forall>x \<in> set xs. \<not> P x)"
  by (auto simp: position_def list_ex_iff)

lemma replace_spec:
  assumes wf: "store_wf h" and d: "map_of (by_domain h) (ck_domain c) = Some cs"
    and i: "i < length cs" "key_of (cs ! i) = key_of c"
  defines "h' \<equiv> h\<lparr>by_domain := entry_update (ck_domain c) (\<lambda>cs. cs[i := c]) (by_domain h)\<rparr>"
  shows "store_wf h' \<and> lookup h' = (lookup h)(key_of c \<mapsto> c) \<and> (within cap h \<longrightarrow> within cap h')"
proof -
  have ew: "entries_wf (by_domain h)" using wf by (simp add: store_wf_def)
  then have "distinct (map fst (by_domain h))" by (simp add: entries_wf_def)
  from entry_at [OF this d] obtain pre post where m: "by_domain h = pre @ (ck_domain c, cs) # post"
    "\<And>f. entry_update (ck_domain c) f (by_domain h) = pre @ (ck_domain c, f cs) # post" by metis
  have g: "group_ok (ck_domain c, cs)" using ew m by (simp add: entries_wf_def)
  have bd: "by_domain h' = pre @ (ck_domain c, cs[i := c]) # post" "held_count h' = held_count h"
    unfolding h'_def using m by simp_all
  have "map key_of (cs[i := c]) = map key_of cs" using i by (simp add: map_update list_update_same_conv)
  then have "group_ok (ck_domain c, cs[i := c])"
    using g unfolding group_ok_def by (auto dest: subsetD [OF set_update_subset_insert])
  then have "entries_wf (by_domain h')" unfolding bd using ew m entries_wf_replace by metis
  then have wf': "store_wf h'" using wf m bd by (simp add: store_wf_def)
  have "x \<in> set (cs[i := c]) \<longleftrightarrow> x = c \<or> x \<in> set cs \<and> key_of x \<noteq> key_of c" for x
  proof -
    have "distinct (map key_of cs)" using g by (simp add: group_ok_def)
    then have "key_of (cs ! j) = key_of c \<longleftrightarrow> j = i" if "j < length cs" for j
      using that i by (metis distinct_conv_nth length_map nth_map)
    then have "x \<in> set cs \<and> key_of x \<noteq> key_of c \<longleftrightarrow> (\<exists>j < length cs. j \<noteq> i \<and> cs ! j = x)"
      by (auto simp: in_set_conv_nth)
    moreover have "x \<in> set (cs[i := c]) \<longleftrightarrow> x = c \<or> (\<exists>j < length cs. j \<noteq> i \<and> cs ! j = x)"
      using i by (auto simp: in_set_conv_nth nth_list_update split: if_splits)
    ultimately show ?thesis by blast
  qed
  moreover have "key_of x \<noteq> key_of c" if "x \<in> set (contents pre) \<union> set (contents post)" for x
  proof -
    have "key_of c \<in> key_of ` set cs" using i nth_mem [OF i(1)] by (metis imageI)
    moreover have "key_of ` set cs \<inter> key_of ` (set (contents pre) \<union> set (contents post)) = {}"
      using entries_distinct [OF ew] by (auto simp: m)
    moreover have "key_of x \<in> key_of ` (set (contents pre) \<union> set (contents post))" using that by (rule imageI)
    ultimately show ?thesis by (metis disjoint_iff)
  qed
  ultimately have "x \<in> set (contents (by_domain h')) \<longleftrightarrow> x = c \<or> x \<in> set (contents (by_domain h)) \<and> key_of x \<noteq> key_of c" for x
    unfolding bd m by auto
  then have "lookup h' = (lookup h)(key_of c \<mapsto> c)"
    using lookup_Some [OF wf] by (intro lookup_eqI [OF wf']) (auto split: if_splits)
  then show ?thesis using wf' by (auto simp: within_def bd m)
qed

lemma push_spec:
  assumes wf: "store_wf h" and new: "lookup h (key_of c) = None"
  defines "h' \<equiv> \<lparr>by_domain = push_entry (ck_domain c) c (by_domain h), held_count = held_count h + 1\<rparr>"
  shows "store_wf h' \<and> lookup h' = (lookup h)(key_of c \<mapsto> c) \<and>
    (\<forall>(d, cs) \<in> set (by_domain h'). (d, cs) \<in> set (by_domain h) \<or>
       d = ck_domain c \<and> (case map_of (by_domain h) d of None \<Rightarrow> length cs = 1 | Some cs0 \<Rightarrow> length cs = Suc (length cs0)))"
proof -
  have ew: "entries_wf (by_domain h)" using wf by (simp add: store_wf_def)
  then have di: "distinct (map fst (by_domain h))" by (simp add: entries_wf_def)
  have new': "key_of x \<noteq> key_of c" if "x \<in> set (contents (by_domain h))" for x using new that lookup_None [OF wf] by blast
  have "store_wf h' \<and> set (contents (by_domain h')) = insert c (set (contents (by_domain h))) \<and>
    (\<forall>(d, cs) \<in> set (by_domain h'). (d, cs) \<in> set (by_domain h) \<or>
       d = ck_domain c \<and> (case map_of (by_domain h) d of None \<Rightarrow> length cs = 1 | Some cs0 \<Rightarrow> length cs = Suc (length cs0)))"
  proof (cases "map_of (by_domain h) (ck_domain c)")
    case None
    then have bd: "by_domain h' = by_domain h @ [(ck_domain c, [c])]"
      unfolding h'_def push_entry_def by (simp add: map_of_eq_None_iff)
    have "entries_wf (by_domain h')" using ew None by (auto simp: bd entries_wf_def group_ok_def map_of_eq_None_iff)
    then show ?thesis using wf None by (auto simp: store_wf_def bd) (simp_all add: h'_def)
  next
    case (Some cs)
    from entry_at [OF di this] obtain pre post where m: "by_domain h = pre @ (ck_domain c, cs) # post"
      "\<And>f. entry_update (ck_domain c) f (by_domain h) = pre @ (ck_domain c, f cs) # post" by metis
    then have bd: "by_domain h' = pre @ (ck_domain c, cs @ [c]) # post"
      unfolding h'_def push_entry_def by (force simp: m)
    have "group_ok (ck_domain c, cs)" using ew m by (simp add: entries_wf_def)
    then have "group_ok (ck_domain c, cs @ [c])" using new' by (fastforce simp: group_ok_def m)
    then have "entries_wf (by_domain h')" unfolding bd using ew m entries_wf_replace by metis
    then show ?thesis using wf Some by (auto simp: store_wf_def bd m) (simp_all add: h'_def)
  qed
  moreover from this have "lookup h' = (lookup h)(key_of c \<mapsto> c)"
    using lookup_Some [OF wf] new' by (intro lookup_eqI) (auto split: if_splits)
  ultimately show ?thesis by blast
qed

lemma reduced_lookup: "reduced h' h \<Longrightarrow> store_wf h \<Longrightarrow> lookup h' \<subseteq>\<^sub>m lookup h"
  unfolding map_le_def reduced_def
  by (metis domD lookup_Some shrunk_contents subsetD)

text \<open>A put that need not make room: its key is held, or neither bound is reached.\<close>

definition has_room :: "capacity \<Rightarrow> held \<Rightarrow> cookie \<Rightarrow> system_time \<Rightarrow> bool" where
  "has_room cap h c now \<longleftrightarrow>
     (let p = purge_expired h now in
      lookup p (key_of c) \<noteq> None \<or>
      held_count p < max_cookies cap \<and>
      (case map_of (by_domain p) (ck_domain c) of None \<Rightarrow> True | Some cs \<Rightarrow> length cs < max_per_domain cap))"

definition put_map :: "(cookie_key \<Rightarrow> cookie option) \<Rightarrow> cookie \<Rightarrow> system_time \<Rightarrow> cookie_key \<Rightarrow> cookie option" where
  "put_map m c now = (alive now m)(key_of c := if is_expired c now then None else Some c)"

definition put_ok :: "capacity \<Rightarrow> held \<Rightarrow> cookie \<Rightarrow> system_time \<Rightarrow> held \<Rightarrow> bool" where
  "put_ok cap h c now h' \<longleftrightarrow> store_wf h' \<and> (within cap h \<longrightarrow> within cap h') \<and>
     lookup h' \<subseteq>\<^sub>m put_map (lookup h) c now \<and> lookup h' (key_of c) = (if is_expired c now then None else Some c) \<and>
     (is_expired c now \<or> has_room cap h c now \<longrightarrow> lookup h' = put_map (lookup h) c now)"

lemma position_held:
  assumes "store_wf h"
  shows "Option.bind (map_of (by_domain h) (ck_domain c)) (position (\<lambda>x. key_of x = key_of c)) = None \<longleftrightarrow>
    lookup h (key_of c) = None"
proof -
  have ew: "entries_wf (by_domain h)" using assms by (simp add: store_wf_def)
  have "(\<exists>x \<in> set (contents (by_domain h)). key_of x = key_of c) \<longleftrightarrow>
      (\<exists>x. (x \<in> set (contents (by_domain h)) \<and> ck_domain x = ck_domain c) \<and> key_of x = key_of c)"
    by (auto simp: key_of_eq)
  also have "\<dots> \<longleftrightarrow> (\<exists>cs. map_of (by_domain h) (ck_domain c) = Some cs \<and> (\<exists>x \<in> set cs. key_of x = key_of c))"
    unfolding in_group [OF ew] by blast
  finally have "(\<exists>x \<in> set (contents (by_domain h)). key_of x = key_of c) \<longleftrightarrow>
      (\<exists>cs. map_of (by_domain h) (ck_domain c) = Some cs \<and> (\<exists>x \<in> set cs. key_of x = key_of c))" .
  then show ?thesis
    using lookup_None [OF assms, of "key_of c"]
    by (cases "map_of (by_domain h) (ck_domain c)") (auto simp: position_None)
qed

lemma put_evicting:
  fixes cap :: capacity
  assumes wf: "store_wf h" and new: "lookup h (key_of c) = None"
  defines "h1 \<equiv> evict_domain (max_per_domain cap) (ck_domain c) h"
  defines "h2 \<equiv> evict_total (max_cookies cap) h1"
  defines "h' \<equiv> \<lparr>by_domain = push_entry (ck_domain c) c (by_domain h2), held_count = held_count h2 + 1\<rparr>"
  shows "store_wf h' \<and> (within cap h \<longrightarrow> within cap h') \<and> lookup h' \<subseteq>\<^sub>m (lookup h)(key_of c \<mapsto> c) \<and>
    lookup h' (key_of c) = Some c"
proof -
  have e1: "reduced h1 h" "\<And>cs. map_of (by_domain h1) (ck_domain c) = Some cs \<Longrightarrow> length cs < max_per_domain cap"
    using evict_domain_spec [OF wf] unfolding h1_def by blast+
  then have wf1: "store_wf h1" by (simp add: reduced_def)
  have e2: "reduced h2 h1" "held_count h2 < max_cookies cap \<or> by_domain h2 = []"
    using evict_total_spec [OF wf1] unfolding h2_def by blast+
  then have wf2: "store_wf h2" by (simp add: reduced_def)
  have r: "reduced h2 h" using e1(1) e2(1) reduced_trans by blast
  have le: "lookup h2 \<subseteq>\<^sub>m lookup h" using reduced_lookup [OF r wf] .
  then have new2: "lookup h2 (key_of c) = None" using new by (metis domIff map_le_implies_dom_le subsetD)
  note p = push_spec [OF wf2 new2, folded h'_def]
  have "within cap h'" if "within cap h"
  proof -
    have w2: "within cap h2" using reduced_within [OF r wf that] .
    have "held_count h' \<le> max 1 (max_cookies cap)"
      using e2(2) wf2 by (auto simp: h'_def store_wf_def)
    moreover have "length cs \<le> max 1 (max_per_domain cap)" if g: "(d, cs) \<in> set (by_domain h')" for d cs
    proof (cases "(d, cs) \<in> set (by_domain h2)")
      case True
      then show ?thesis using w2 unfolding within_def list_all_iff by blast
    next
      case False
      then have d: "d = ck_domain c" and l: "case map_of (by_domain h2) d of None \<Rightarrow> length cs = 1 | Some cs0 \<Rightarrow> length cs = Suc (length cs0)"
        using p g by auto
      show ?thesis
      proof (cases "map_of (by_domain h2) d")
        case (Some cs0)
        then obtain cs1 where c1: "(d, cs1) \<in> set (by_domain h1)" "length cs0 \<le> length cs1"
          using e2(1) map_of_SomeD [OF Some] unfolding reduced_def shrunk_def by blast
        have "map_of (by_domain h1) d = Some cs1" using c1 wf1 by (simp add: store_wf_def entries_wf_def)
        then show ?thesis using e1(2) d c1 l Some by fastforce
      qed (use l in simp)
    qed
    ultimately show ?thesis unfolding within_def list_all_iff by auto
  qed
  moreover have "(lookup h2)(key_of c \<mapsto> c) \<subseteq>\<^sub>m (lookup h)(key_of c \<mapsto> c)" using le by (rule map_le_upd)
  ultimately show ?thesis using p by simp
qed

text \<open>Room for one more cookie takes one eviction at most, when the store is within its bounds.\<close>

lemma evict_one:
  assumes "store_wf h" "evict_lru h want = Some h'"
  obtains v where "store_wf h'" "shrunk (by_domain h') (by_domain h)" "want = None \<or> want = Some (ck_domain v)"
    "mset (contents (by_domain h)) = add_mset v (mset (contents (by_domain h')))"
    "held_count h = Suc (held_count h')" "v \<in> set (contents (by_domain h))" "v \<notin> set (contents (by_domain h'))"
proof -
  from evict_spec [OF assms] obtain v where v: "store_wf h'" "shrunk (by_domain h') (by_domain h)"
    "mset (contents (by_domain h)) = add_mset v (mset (contents (by_domain h')))" "want = None \<or> want = Some (ck_domain v)"
    by blast
  have "size (mset (contents (by_domain h))) = Suc (size (mset (contents (by_domain h'))))" unfolding v(3) by simp
  then have c: "held_count h = Suc (held_count h')" using assms(1) v(1) by (simp add: store_wf_def)
  have "distinct (contents (by_domain h))" using assms(1) entries_distinct by (auto simp: store_wf_def distinct_map)
  then have "count (mset (contents (by_domain h))) v \<le> 1" by (simp add: distinct_count_atmost_1)
  then have n: "v \<notin> set (contents (by_domain h'))" unfolding v(3) by (simp add: count_eq_zero_iff)
  have s: "v \<in> set (contents (by_domain h))" using v(3) by (metis set_mset_mset union_single_eq_member)
  show ?thesis by (rule that [OF v(1,2,4,3) c s n])
qed

lemma evict_total_empty: "store_wf h \<Longrightarrow> held_count h = 0 \<Longrightarrow> evict_total b h = h"
proof -
  assume h: "store_wf h" "held_count h = 0"
  have "evict_lru h None = None"
  proof (rule ccontr)
    assume "evict_lru h None \<noteq> None"
    then obtain h' where "evict_lru h None = Some h'" by blast
    from evict_one [OF h(1) this] h(2) show False by auto
  qed
  then show ?thesis by (subst evict_total.simps) simp
qed

lemma evict_total_one:
  fixes cap :: capacity
  assumes "store_wf h" "held_count h \<le> max 1 (max_cookies cap)"
  shows "evict_total (max_cookies cap) h = h \<or>
    (\<exists>v. mset (contents (by_domain h)) = add_mset v (mset (contents (by_domain (evict_total (max_cookies cap) h)))))"
proof (cases "held_count h < max_cookies cap \<or> evict_lru h None = None")
  case True
  then show ?thesis by (subst (1) evict_total.simps) auto
next
  case False
  then obtain h' where e: "evict_lru h None = Some h'" by auto
  from evict_one [OF assms(1) e] obtain v where v: "store_wf h'"
    "mset (contents (by_domain h)) = add_mset v (mset (contents (by_domain h')))" "held_count h = Suc (held_count h')"
    by blast
  have "evict_total (max_cookies cap) h = evict_total (max_cookies cap) h'" using False e by (subst evict_total.simps) simp
  also have "\<dots> = h'"
    using evict_total_empty [OF v(1)] evict_total_idle [of h' "max_cookies cap"] assms(2) v(3) by (cases "max_cookies cap") auto
  finally show ?thesis using v(2) by auto
qed

lemma evict_domain_one:
  fixes cap :: capacity
  assumes wf: "store_wf h" and w: "within cap h"
  shows "evict_domain (max_per_domain cap) d h = h \<or>
    (\<exists>v. mset (contents (by_domain h)) = add_mset v (mset (contents (by_domain (evict_domain (max_per_domain cap) d h)))))"
proof (cases "case map_of (by_domain h) d of None \<Rightarrow> True | Some cs \<Rightarrow> length cs < max_per_domain cap")
  case True
  then show ?thesis using evict_domain_idle by (metis option.simps(5))
next
  case False
  then obtain cs where cs: "map_of (by_domain h) d = Some cs" "max_per_domain cap \<le> length cs"
    by (auto simp: not_less split: option.splits)
  have ew: "entries_wf (by_domain h)" using wf by (simp add: store_wf_def)
  obtain h' where e: "evict_lru h (Some d) = Some h'" using candidates_empty [OF ew cs(1)] evict_None by (metis not_None_eq)
  from evict_one [OF wf e] obtain v where v: "store_wf h'" "shrunk (by_domain h') (by_domain h)" "d = ck_domain v"
    "mset (contents (by_domain h)) = add_mset v (mset (contents (by_domain h')))"
    "v \<in> set (contents (by_domain h))" "v \<notin> set (contents (by_domain h'))" by auto
  have ew': "entries_wf (by_domain h')" using v(1) by (simp add: store_wf_def)
  have le: "length cs \<le> max 1 (max_per_domain cap)"
    using w map_of_SomeD [OF cs(1)] by (auto simp: within_def list_all_iff)
  have "length cs' < max_per_domain cap" if c: "map_of (by_domain h') d = Some cs'" for cs'
  proof -
    have dist: "distinct cs'" "cs' \<noteq> []"
      using ew' map_of_SomeD [OF c] by (auto simp: entries_wf_def list_all_iff group_ok_def distinct_map)
    have sub: "set cs' \<subseteq> set cs"
    proof -
      obtain cs2 where "(d, cs2) \<in> set (by_domain h)" "set cs' \<subseteq> set cs2"
        using v(2) map_of_SomeD [OF c] unfolding shrunk_def by blast
      moreover from this have "map_of (by_domain h) d = Some cs2" using ew by (simp add: entries_wf_def)
      ultimately show ?thesis using cs(1) by simp
    qed
    have "v \<in> set cs" using in_group [OF ew, of v d] v(3,5) cs(1) by auto
    moreover have "v \<notin> set cs'" using v(6) map_of_SomeD [OF c] unfolding in_contents by blast
    ultimately have "insert v (set cs') \<subseteq> set cs" "v \<notin> set cs'" using sub by auto
    then have "Suc (card (set cs')) \<le> card (set cs)" using card_mono [of "set cs" "insert v (set cs')"] by simp
    then have "Suc (length cs') \<le> length cs" using dist(1) card_length [of cs] by (simp add: distinct_card)
    moreover have "0 < length cs'" using dist(2) by simp
    ultimately show ?thesis using le by linarith
  qed
  then have "evict_domain (max_per_domain cap) d h' = h'" by (rule evict_domain_idle)
  moreover have "evict_domain (max_per_domain cap) d h = evict_domain (max_per_domain cap) d h'"
    using cs e by (subst evict_domain.simps) simp
  ultimately show ?thesis using v(4) by auto
qed

lemma make_room_one:
  fixes cap :: capacity and h :: held and d :: bytes
  assumes wf: "store_wf h" and w: "within cap h"
  defines "h2 \<equiv> evict_total (max_cookies cap) (evict_domain (max_per_domain cap) d h)"
  shows "h2 = h \<or> (\<exists>v. mset (contents (by_domain h)) = add_mset v (mset (contents (by_domain h2))))"
proof -
  let ?h1 = "evict_domain (max_per_domain cap) d h"
  have wf1: "store_wf ?h1" using evict_domain_spec [OF wf] by (simp add: reduced_def)
  consider "?h1 = h" | v where "mset (contents (by_domain h)) = add_mset v (mset (contents (by_domain ?h1)))"
    using evict_domain_one [OF wf w] by blast
  then show ?thesis
  proof cases
    case 1
    then show ?thesis using evict_total_one [OF wf, of cap] w by (simp add: h2_def within_def)
  next
    case (2 v)
    have "size (mset (contents (by_domain h))) = Suc (size (mset (contents (by_domain ?h1))))" unfolding 2 by simp
    then have "held_count h = Suc (held_count ?h1)" using wf wf1 by (simp add: store_wf_def)
    then have "evict_total (max_cookies cap) ?h1 = ?h1"
      using evict_total_empty [OF wf1] evict_total_idle [of ?h1 "max_cookies cap"] w by (cases "max_cookies cap") (auto simp: within_def)
    then show ?thesis using 2 by (auto simp: h2_def)
  qed
qed

lemma put_spec:
  assumes wf: "store_wf h"
  shows "put_ok cap h c now (store_put cap h c now)"
proof -
  let ?p = "purge_expired h now"
  have wfp: "store_wf ?p" and lp: "lookup ?p = alive now (lookup h)" and wi: "within cap h \<Longrightarrow> within cap ?p"
    using purge_wf lookup_purge purge_within wf by blast+
  show ?thesis
  proof (cases "is_expired c now")
    case True
    then have "store_put cap h c now = store_remove ?p (key_of c)" by (simp add: store_put_def Let_def)
    then show ?thesis
      using True remove_spec [OF wfp] lookup_remove [OF wfp] wi by (simp add: put_ok_def put_map_def lp)
  next
    case False
    show ?thesis
    proof (cases "Option.bind (map_of (by_domain ?p) (ck_domain c)) (position (\<lambda>x. key_of x = key_of c))")
      case (Some i)
      then obtain cs where cs: "map_of (by_domain ?p) (ck_domain c) = Some cs" "position (\<lambda>x. key_of x = key_of c) cs = Some i"
        by (cases "map_of (by_domain ?p) (ck_domain c)") auto
      note r = replace_spec [OF wfp cs(1) conjunct1 [OF position_Some [OF cs(2)]] conjunct2 [OF position_Some [OF cs(2)]]]
      have "store_put cap h c now = ?p\<lparr>by_domain := entry_update (ck_domain c) (\<lambda>cs. cs[i := c]) (by_domain ?p)\<rparr>"
        using False cs by (simp add: store_put_def Let_def)
      then show ?thesis using False r wi by (simp add: put_ok_def put_map_def lp)
    next
      case None
      then have new: "lookup ?p (key_of c) = None" using position_held [OF wfp] by blast
      let ?h2 = "evict_total (max_cookies cap) (evict_domain (max_per_domain cap) (ck_domain c) ?p)"
      have put: "store_put cap h c now =
          \<lparr>by_domain = push_entry (ck_domain c) c (by_domain ?h2), held_count = held_count ?h2 + 1\<rparr>"
        using False None by (simp add: store_put_def Let_def)
      have "?h2 = ?p" if "has_room cap h c now"
        using that new evict_domain_idle [of ?p "ck_domain c" "max_per_domain cap"] evict_total_idle [of ?p "max_cookies cap"]
        by (auto simp: has_room_def Let_def split: option.splits)
      then show ?thesis
        using False put_evicting [OF wfp new, of cap] push_spec [OF wfp new] wi
        unfolding put_ok_def put_map_def put lp by simp
    qed
  qed
qed

section \<open>The other operations\<close>

lemma key_of_touch [simp]: "key_of (c\<lparr>ck_last_access := t\<rparr>) = key_of c" "ck_domain (c\<lparr>ck_last_access := t\<rparr>) = ck_domain c"
  by (simp_all add: key_of_def)

definition touched :: "cookie_key list \<Rightarrow> system_time \<Rightarrow> cookie \<Rightarrow> cookie" where
  "touched ks now c = (if key_of c \<in> set ks then c\<lparr>ck_last_access := now\<rparr> else c)"

lemma key_of_touched [simp]: "key_of (touched ks now c) = key_of c" "ck_domain (touched ks now c) = ck_domain c"
  by (simp_all add: touched_def)

lemma get_spec:
  assumes "store_wf h"
  shows "c \<in> set (store_get h ds) \<longleftrightarrow> lookup h (key_of c) = Some c \<and> ck_domain c \<in> set ds"
proof -
  have ew: "entries_wf (by_domain h)" using assms by (simp add: store_wf_def)
  have "c \<in> set (store_get h ds) \<longleftrightarrow> (\<exists>d \<in> set ds. \<exists>cs. map_of (by_domain h) d = Some cs \<and> c \<in> set cs)"
    by (force simp: store_get_def split: option.splits)
  also have "\<dots> \<longleftrightarrow> (\<exists>d \<in> set ds. c \<in> set (contents (by_domain h)) \<and> ck_domain c = d)"
    by (simp only: in_group [OF ew])
  also have "\<dots> \<longleftrightarrow> lookup h (key_of c) = Some c \<and> ck_domain c \<in> set ds"
    using lookup_Some [OF assms, of "key_of c" c] by auto
  finally show ?thesis .
qed

lemma touch_entry:
  assumes "entries_wf m"
  shows "entry_update (key_domain k) (map (\<lambda>c. if key_of c = k then c\<lparr>ck_last_access := now\<rparr> else c)) m =
    map (\<lambda>(d, cs). (d, map (touched [k] now) cs)) m"
  unfolding entry_update_def
proof (rule map_cong [OF refl])
  fix e assume e: "e \<in> set m"
  obtain d cs where dc: "e = (d, cs)" by force
  have "map (touched [k] now) cs = cs" if "d \<noteq> key_domain k"
  proof (rule map_idI)
    fix c assume "c \<in> set cs"
    then have "ck_domain c = d" using e dc assms by (auto simp: entries_wf_def list_all_iff group_ok_def)
    then have "key_of c \<noteq> k" using that by auto
    then show "touched [k] now c = c" by (simp add: touched_def)
  qed
  moreover have "(\<lambda>c. if key_of c = k then c\<lparr>ck_last_access := now\<rparr> else c) = touched [k] now"
    by (auto simp: touched_def fun_eq_iff)
  ultimately show "(case e of (d', cs) \<Rightarrow> if d' = key_domain k then (d', map (\<lambda>c. if key_of c = k then c\<lparr>ck_last_access := now\<rparr> else c) cs) else (d', cs)) =
      (case e of (d, cs) \<Rightarrow> (d, map (touched [k] now) cs))"
    using dc by simp
qed

lemma touch_one:
  fixes k :: cookie_key and now :: system_time
  assumes wf: "store_wf h"
  defines "h' \<equiv> h\<lparr>by_domain := map (\<lambda>(d, cs). (d, map (touched [k] now) cs)) (by_domain h)\<rparr>"
  shows "store_wf h' \<and> contents (by_domain h') = map (touched [k] now) (contents (by_domain h)) \<and> (within cap h \<longrightarrow> within cap h')"
proof -
  have c: "contents (map (\<lambda>(d, cs). (d, map f cs)) m) = map f (contents m)" for f and m :: entries
    by (induction m) auto
  have "map key_of (map (touched [k] now) cs) = map key_of cs" for cs by (simp add: comp_def)
  then have "group_ok (d, cs) \<Longrightarrow> group_ok (d, map (touched [k] now) cs)" for d cs
    by (auto simp: group_ok_def simp del: map_map)
  moreover have f: "map fst (map (\<lambda>(d, cs). (d, map f cs)) m) = map fst m" for f and m :: entries by auto
  ultimately show ?thesis
    using wf unfolding h'_def store_wf_def entries_wf_def
    by (simp add: f c del: map_map) (auto simp: within_def list_all_iff)
qed

lemma touch_spec:
  assumes "store_wf h"
  shows "store_wf (store_touch h ks now) \<and>
    contents (by_domain (store_touch h ks now)) = map (touched ks now) (contents (by_domain h)) \<and>
    (within cap h \<longrightarrow> within cap (store_touch h ks now))"
  using assms
proof (induction ks arbitrary: h)
  case Nil
  then show ?case by (simp add: store_touch_def touched_def)
next
  case (Cons k ks)
  define h1 where "h1 = h\<lparr>by_domain := map (\<lambda>(d, cs). (d, map (touched [k] now) cs)) (by_domain h)\<rparr>"
  have "store_touch h (k # ks) now = store_touch h1 ks now"
    using touch_entry [of "by_domain h" k now] Cons.prems by (simp add: store_touch_def h1_def store_wf_def)
  moreover have "touched ks now (touched [k] now c) = touched (k # ks) now c" for c by (auto simp: touched_def)
  ultimately show ?case
    using Cons.IH [of h1] touch_one [OF Cons.prems, of k now cap, folded h1_def] by (simp add: comp_def)
qed

lemma lookup_touch: "store_wf h \<Longrightarrow> lookup (store_touch h ks now) k = map_option (touched ks now) (lookup h k)"
proof -
  assume "store_wf h"
  have "find (\<lambda>c. key_of c = k) (map (touched ks now) xs) = map_option (touched ks now) (find (\<lambda>c. key_of c = k) xs)" for xs
    by (induction xs) auto
  then show ?thesis using touch_spec [OF \<open>store_wf h\<close>] by (simp add: lookup_def)
qed

section \<open>The seam\<close>

text \<open>
  The obligations of \<open>CookieStore\<close>: exact lookups, replacement by key, deletion of what is expired,
  and \<open>touch\<close> that only changes access times. Losing cookies is allowed.
\<close>

locale cookie_store =
  fixes inv :: "'s \<Rightarrow> bool" and look :: "'s \<Rightarrow> cookie_key \<Rightarrow> cookie option"
    and sget :: "'s \<Rightarrow> bytes list \<Rightarrow> cookie list"
    and sput :: "'s \<Rightarrow> cookie \<Rightarrow> system_time \<Rightarrow> 's"
    and stouch :: "'s \<Rightarrow> cookie_key list \<Rightarrow> system_time \<Rightarrow> 's"
  assumes look_key: "inv s \<Longrightarrow> look s k = Some c \<Longrightarrow> key_of c = k"
    and get_exact: "inv s \<Longrightarrow> c \<in> set (sget s ds) \<longleftrightarrow> look s (key_of c) = Some c \<and> ck_domain c \<in> set ds"
    and put_inv: "inv s \<Longrightarrow> inv (sput s c now)"
    and put_key: "inv s \<Longrightarrow> look (sput s c now) (key_of c) = (if is_expired c now then None else Some c)"
    and put_other: "inv s \<Longrightarrow> k \<noteq> key_of c \<Longrightarrow> look (sput s c now) k = Some x \<Longrightarrow> look s k = Some x"
    and touch_inv: "inv s \<Longrightarrow> inv (stouch s ks now)"
    and touch_look: "inv s \<Longrightarrow> look (stouch s ks now) k = map_option (touched ks now) (look s k)"
begin

text \<open>Every property of cookies that a stored cookie has and an access time does not touch stays true.\<close>

lemma put_keeps:
  assumes "inv s" "\<And>k x. look s k = Some x \<Longrightarrow> P x" "P c"
  shows "look (sput s c now) k = Some x \<Longrightarrow> P x"
proof (cases "k = key_of c")
  case True
  assume "look (sput s c now) k = Some x"
  then show ?thesis using True assms(3) put_key [OF assms(1), of c now] by (auto split: if_splits)
next
  case False
  assume "look (sput s c now) k = Some x"
  then show ?thesis using False assms(2) put_other [OF assms(1) False] by blast
qed

lemma touch_keeps:
  assumes "inv s" "\<And>k x. look s k = Some x \<Longrightarrow> P x" "\<And>x t. P x \<Longrightarrow> P (x\<lparr>ck_last_access := t\<rparr>)"
  shows "look (stouch s ks now) k = Some x \<Longrightarrow> P x"
  using assms by (auto simp: touch_look touched_def split: if_splits)

lemma get_held: "inv s \<Longrightarrow> c \<in> set (sget s ds) \<Longrightarrow> look s (key_of c) = Some c"
  by (simp add: get_exact)

lemma get_after_put:
  "inv s \<Longrightarrow> \<not> is_expired c now \<Longrightarrow> c \<in> set (sget (sput s c now) ds) \<longleftrightarrow> ck_domain c \<in> set ds"
  by (simp add: get_exact put_inv put_key)

lemma find_held:
  assumes "inv s"
  shows "find (\<lambda>c. key_of c = k) (sget s [key_domain k]) = look s k"
proof (cases "look s k")
  case None
  then have "\<forall>c \<in> set (sget s [key_domain k]). key_of c \<noteq> k" using assms by (auto simp: get_exact)
  then show ?thesis using None by (simp add: find_None_iff)
next
  case (Some c)
  then have "c \<in> set (sget s [key_domain k])" "key_of c = k"
    using look_key [OF assms Some] get_exact [OF assms, of c "[key_domain k]"] by (auto simp flip: key_of_domain)
  then obtain d where "find (\<lambda>c. key_of c = k) (sget s [key_domain k]) = Some d"
    by (metis (mono_tags, lifting) find_None_iff not_None_eq)
  moreover from this have "d \<in> set (sget s [key_domain k])" "key_of d = k" by (auto simp: find_Some_iff)
  ultimately show ?thesis using get_held [OF assms] Some by metis
qed

end

interpretation mem: cookie_store store_wf lookup store_get "store_put cap" store_touch
proof unfold_locales
  fix h k c now x ks ds assume wf: "store_wf h"
  show "lookup h k = Some c \<Longrightarrow> key_of c = k" by (simp add: lookup_Some [OF wf])
  show "c \<in> set (store_get h ds) \<longleftrightarrow> lookup h (key_of c) = Some c \<and> ck_domain c \<in> set ds" by (rule get_spec [OF wf])
  show "store_wf (store_put cap h c now)" "lookup (store_put cap h c now) (key_of c) = (if is_expired c now then None else Some c)"
    using put_spec [OF wf] by (simp_all add: put_ok_def)
  show "lookup h k = Some x" if "k \<noteq> key_of c" "lookup (store_put cap h c now) k = Some x"
  proof -
    have "lookup (store_put cap h c now) \<subseteq>\<^sub>m put_map (lookup h) c now" using put_spec [OF wf] by (simp add: put_ok_def)
    then have "put_map (lookup h) c now k = Some x" using that(2) unfolding map_le_def by (metis domI)
    then show ?thesis using that(1) by (simp add: put_map_def alive_Some)
  qed
  show "store_wf (store_touch h ks now)" using touch_spec [OF wf] by blast
  show "lookup (store_touch h ks now) k = map_option (touched ks now) (lookup h k)" by (rule lookup_touch [OF wf])
qed

section \<open>Every sequence of operations\<close>

datatype store_op = Put cookie system_time | Remove cookie_key | Touch "cookie_key list" system_time | Clear

primrec run_op :: "capacity \<Rightarrow> held \<Rightarrow> store_op \<Rightarrow> held" where
  "run_op cap h (Put c now) = store_put cap h c now"
| "run_op cap h (Remove k) = store_remove h k"
| "run_op cap h (Touch ks now) = store_touch h ks now"
| "run_op cap h Clear = store_clear h"

lemma run_op_keeps:
  fixes cap :: capacity
  assumes "store_wf h" "within cap h"
  shows "store_wf (run_op cap h p) \<and> within cap (run_op cap h p)"
proof (cases p)
  case (Put c now)
  then show ?thesis using put_spec [OF assms(1), of cap c now] assms by (simp add: put_ok_def)
next
  case (Remove k)
  then show ?thesis using remove_spec [OF assms(1)] assms by simp
next
  case (Touch ks now)
  then show ?thesis using touch_spec [OF assms(1)] assms by simp
qed (simp add: store_clear_def store_wf_def entries_wf_def within_def)

text \<open>
  Whatever operations a store has seen, its invariant holds: every cookie is filed under
  its own domain, no two cookies share a key, no domain is empty, the count is the number of cookies,
  and the count and the cookies of each domain are within the configured bounds (a bound of zero
  behaves as one).
\<close>

theorem memory_store_invariant:
  "let h = foldl (run_op cap) held_default ops in
    store_wf h \<and> held_count h = length (store_all h) \<and> distinct (map key_of (store_all h)) \<and>
    held_count h \<le> max 1 (max_cookies cap) \<and>
    list_all (\<lambda>(d, cs). cs \<noteq> [] \<and> length cs \<le> max 1 (max_per_domain cap) \<and>
      list_all (\<lambda>c. ck_domain c = d) cs) (by_domain h)"
proof -
  have "store_wf (foldl (run_op cap) h0 ops) \<and> within cap (foldl (run_op cap) h0 ops)"
    if "store_wf h0" "within cap h0" for h0
    using that run_op_keeps by (induction ops arbitrary: h0) auto
  moreover have "store_wf held_default" "within cap held_default"
    by (simp_all add: held_default_def store_wf_def entries_wf_def within_def)
  moreover define h where "h = foldl (run_op cap) held_default ops"
  ultimately have w: "store_wf h" "within cap h" by blast+
  have "distinct (map key_of (contents (by_domain h)))" using w(1) entries_distinct by (simp add: store_wf_def)
  then have "distinct (map key_of (store_all h))"
    unfolding store_all_def by (metis mset_map mset_sort mset_eq_imp_distinct_iff)
  moreover have "list_all group_ok (by_domain h)" using w(1) by (simp add: store_wf_def entries_wf_def)
  ultimately show ?thesis
    unfolding h_def [symmetric] Let_def
    using w by (auto simp: within_def store_wf_def store_all_def list_all_iff group_ok_def)
qed

text \<open>
  Property C19. The store implements a map from keys to cookies: \<open>get\<close> answers exactly the cookies of
  the domains it is asked for, \<open>remove\<close> forgets one key, \<open>touch\<close> changes access times only, \<open>clear\<close>
  empties it, and \<open>put\<close> drops what has expired and binds the key of the cookie to it (or unbinds it
  when the cookie has expired itself); a put may lose other cookies, but none when it replaces one or
  when neither bound is reached.
\<close>

theorem memory_store_refines:
  assumes "store_wf h"
  shows "set (store_get h ds) = {c. lookup h (key_of c) = Some c \<and> ck_domain c \<in> set ds} \<and>
    lookup (store_remove h k) = (lookup h)(k := None) \<and>
    lookup (store_touch h ks now) = map_option (touched ks now) \<circ> lookup h \<and>
    lookup (store_clear h) = Map.empty \<and>
    lookup (store_put cap h c now) \<subseteq>\<^sub>m put_map (lookup h) c now \<and>
    lookup (store_put cap h c now) (key_of c) = (if is_expired c now then None else Some c) \<and>
    (is_expired c now \<or> has_room cap h c now \<longrightarrow> lookup (store_put cap h c now) = put_map (lookup h) c now)"
proof (intro conjI)
  show "set (store_get h ds) = {c. lookup h (key_of c) = Some c \<and> ck_domain c \<in> set ds}"
    using get_spec [OF assms] by blast
  show "lookup (store_touch h ks now) = map_option (touched ks now) \<circ> lookup h"
    using lookup_touch [OF assms] by (auto simp: fun_eq_iff)
  show "lookup (store_clear h) = Map.empty" by (simp add: store_clear_def lookup_def fun_eq_iff)
qed (use put_spec [OF assms, of cap c now] lookup_remove [OF assms] in \<open>auto simp: put_ok_def\<close>)

definition demo_cookie :: "bytes \<Rightarrow> bytes \<Rightarrow> system_time \<Rightarrow> nat \<Rightarrow> cookie" where
  "demo_cookie n d t q = \<lparr>ck_name = n, ck_value = ''v'', ck_domain = d, ck_path = ''/'', ck_expires = None, ck_creation = t,
     ck_last_access = t, ck_seq = q, ck_host_only = True, ck_persistent = False, ck_secure = False,
     ck_http_only = False, ck_same_site = None\<rparr>"

lemma store_wf_default: "store_wf held_default"
  by (simp add: held_default_def store_wf_def entries_wf_def)

theorem memory_store_refines_witness:
  "lookup (store_put capacity_default held_default (demo_cookie ''a'' ''x.org'' 5 0) 5)
     (key_of (demo_cookie ''a'' ''x.org'' 5 0)) = Some (demo_cookie ''a'' ''x.org'' 5 0)"
proof -
  have "\<not> is_expired (demo_cookie ''a'' ''x.org'' 5 0) 5" by (simp add: demo_cookie_def is_expired_def)
  then show ?thesis
    using memory_store_refines [OF store_wf_default, of "[]" _ "[]" 5 capacity_default "demo_cookie ''a'' ''x.org'' 5 0"]
    by simp
qed

text \<open>
  What has to go is what was used least recently: when a put loses a cookie that had not
  expired and whose key it does not replace, no cookie of the same domain that it keeps was used
  before the lost one (or at the same time and stored before it).
\<close>

theorem memory_store_evicts_lru:
  assumes "store_wf h" "lookup h (key_of x) = Some x" "\<not> is_expired x now" "key_of x \<noteq> key_of c"
    and "lookup (store_put cap h c now) (key_of x) = None"
    and "lookup (store_put cap h c now) (key_of y) = Some y" "y \<noteq> c" "ck_domain y = ck_domain x"
  shows "\<not> lru_before y x"
proof -
  let ?p = "purge_expired h now" and ?put = "store_put cap h c now"
  let ?h1 = "evict_domain (max_per_domain cap) (ck_domain c) ?p"
  let ?h2 = "evict_total (max_cookies cap) ?h1"
  have wfp: "store_wf ?p" using purge_wf assms(1) by blast
  have xp: "lookup ?p (key_of x) = Some x" using assms(2,3) lookup_purge [OF assms(1)] by (simp add: alive_Some)
  have ok: "put_ok cap h c now ?put" by (rule put_spec [OF assms(1)])
  have nf: "put_map (lookup h) c now (key_of x) = Some x"
    using assms(2-4) by (simp add: put_map_def alive_Some)
  then have no: "\<not> is_expired c now \<and> \<not> has_room cap h c now" using ok assms(5) unfolding put_ok_def by auto
  then have new: "lookup ?p (key_of c) = None" by (auto simp: has_room_def Let_def)
  then have none: "Option.bind (map_of (by_domain ?p) (ck_domain c)) (position (\<lambda>x. key_of x = key_of c)) = None"
    using position_held [OF wfp] by blast
  have put: "?put = \<lparr>by_domain = push_entry (ck_domain c) c (by_domain ?h2), held_count = held_count ?h2 + 1\<rparr>"
    using no none by (simp add: store_put_def Let_def)
  have r1: "reduced ?h1 ?p" using evict_domain_spec [OF wfp] by blast
  then have "store_wf ?h1" by (simp add: reduced_def)
  then have r: "reduced ?h2 ?p" using evict_total_spec reduced_trans r1 by blast
  then have wf2: "store_wf ?h2" by (simp add: reduced_def)
  have new2: "lookup ?h2 (key_of c) = None" using new reduced_lookup [OF r wfp] by (metis domIff map_le_implies_dom_le subsetD)
  have look: "lookup ?put = (lookup ?h2)(key_of c \<mapsto> c)" unfolding put using push_spec [OF wf2 new2] by blast
  have "lookup ?h2 (key_of x) = None" using look assms(4,5) by simp
  then have x: "x \<notin> set (contents (by_domain ?h2))" using lookup_None [OF wf2] by blast
  have "key_of y \<noteq> key_of c" using assms(6,7) look by (metis fun_upd_same option.inject)
  then have "lookup ?h2 (key_of y) = Some y" using assms(6) look by simp
  then have y: "y \<in> set (contents (by_domain ?h2))" using lookup_Some [OF wf2] by blast
  have "x \<in> set (contents (by_domain ?p))" using xp lookup_Some [OF wfp] by blast
  then show ?thesis using r x y assms(8) unfolding reduced_def by blast
qed

theorem memory_store_evicts_lru_witness:
  "let cap = \<lparr>max_cookies = 9, max_per_domain = 2\<rparr>;
       a = demo_cookie ''a'' ''x'' 5 0; b = demo_cookie ''b'' ''x'' 7 1; c = demo_cookie ''c'' ''x'' 9 2;
       h = store_put cap (store_put cap held_default a 5) b 7 in
   lookup (store_put cap h c 9) (key_of a) = None \<and> \<not> lru_before b a"
proof -
  let ?cap = "\<lparr>max_cookies = 9, max_per_domain = 2\<rparr>"
  let ?a = "demo_cookie ''a'' ''x'' 5 0" and ?b = "demo_cookie ''b'' ''x'' 7 1" and ?c = "demo_cookie ''c'' ''x'' 9 2"
  let ?h = "store_put ?cap (store_put ?cap held_default ?a 5) ?b 7"
  have wf: "store_wf ?h" by (intro mem.put_inv store_wf_default)
  have h: "?h = \<lparr>by_domain = [(''x'', [?a, ?b])], held_count = 2\<rparr>" by code_simp
  have h': "store_put ?cap ?h ?c 9 = \<lparr>by_domain = [(''x'', [?b, ?c])], held_count = 2\<rparr>" by code_simp
  have k: "key_of ?a \<noteq> key_of ?b" "key_of ?a \<noteq> key_of ?c" "key_of ?b \<noteq> key_of ?c" by (simp_all add: key_of_def demo_cookie_def)
  have l: "lookup ?h (key_of ?a) = Some ?a" unfolding h using k by (simp add: lookup_def)
  have l': "lookup (store_put ?cap ?h ?c 9) (key_of ?a) = None" "lookup (store_put ?cap ?h ?c 9) (key_of ?b) = Some ?b"
    unfolding h' using k by (auto simp: lookup_def)
  have "\<not> is_expired ?a 9" "?b \<noteq> ?c" "ck_domain ?b = ck_domain ?a" by (simp_all add: demo_cookie_def is_expired_def)
  from memory_store_evicts_lru [OF wf l this(1) k(2) l'(1) l'(2) this(2,3)] l'(1) show ?thesis by (simp add: Let_def)
qed

text \<open>A capacity of zero does not keep a cookie out: the first put of an empty store is always held.\<close>

lemma zero_capacity_stores:
  fixes cap :: capacity
  assumes "\<not> is_expired c now"
  shows "held_count (store_put cap held_default c now) = 1"
proof -
  have p: "purge_expired held_default now = held_default" by (simp add: purge_expired_def held_default_def)
  have e: "evict_domain b d held_default = held_default" for b d by (rule evict_domain_idle) (simp add: held_default_def)
  have "evict_lru held_default None = None" by (simp add: evict_None candidates_def held_default_def)
  then have t: "evict_total b held_default = held_default" for b by (subst evict_total.simps) simp
  have "Option.bind (map_of (by_domain held_default) (ck_domain c)) (position (\<lambda>x. key_of x = key_of c)) = None"
    by (simp add: held_default_def)
  then show ?thesis using assms by (simp add: store_put_def Let_def p e t) (simp add: held_default_def)
qed

text \<open>And it loses one at most, of a store within its bounds.\<close>

lemma put_loses_one:
  fixes cap :: capacity
  assumes "store_wf h" "within cap h"
  shows "\<exists>v. \<forall>x. lookup h (key_of x) = Some x \<and> \<not> is_expired x now \<and> key_of x \<noteq> key_of c \<and>
    lookup (store_put cap h c now) (key_of x) = None \<longrightarrow> x = v"
proof (cases "is_expired c now \<or> has_room cap h c now")
  case True
  then have "lookup (store_put cap h c now) = put_map (lookup h) c now" using put_spec [OF assms(1)] unfolding put_ok_def by blast
  then show ?thesis by (simp add: put_map_def alive_Some) (metis alive_Some option.distinct(1))
next
  case False
  let ?p = "purge_expired h now" and ?put = "store_put cap h c now"
  define h2 where "h2 = evict_total (max_cookies cap) (evict_domain (max_per_domain cap) (ck_domain c) ?p)"
  have wfp: "store_wf ?p" and wp: "within cap ?p" using purge_wf [OF assms(1)] purge_within [OF assms] by blast+
  have new: "lookup ?p (key_of c) = None" using False by (auto simp: has_room_def Let_def)
  have none: "Option.bind (map_of (by_domain ?p) (ck_domain c)) (position (\<lambda>x. key_of x = key_of c)) = None"
    using position_held [OF wfp] new by blast
  have put: "?put = \<lparr>by_domain = push_entry (ck_domain c) c (by_domain h2), held_count = held_count h2 + 1\<rparr>"
    using False none by (simp add: store_put_def Let_def h2_def)
  have "store_wf (evict_domain (max_per_domain cap) (ck_domain c) ?p)" using evict_domain_spec [OF wfp] by (simp add: reduced_def)
  then have r: "reduced h2 ?p" using evict_total_spec evict_domain_spec [OF wfp] reduced_trans unfolding h2_def by blast
  then have wf2: "store_wf h2" by (simp add: reduced_def)
  have "lookup h2 (key_of c) = None" using new reduced_lookup [OF r wfp] by (metis domIff map_le_implies_dom_le subsetD)
  then have look: "lookup ?put = (lookup h2)(key_of c \<mapsto> c)" unfolding put using push_spec [OF wf2] by blast
  have lost: "x \<in> set (contents (by_domain ?p))" "x \<notin> set (contents (by_domain h2))"
    if "lookup h (key_of x) = Some x \<and> \<not> is_expired x now \<and> key_of x \<noteq> key_of c \<and> lookup ?put (key_of x) = None" for x
  proof -
    have "lookup ?p (key_of x) = Some x" using that lookup_purge [OF assms(1)] by (simp add: alive_Some)
    then show "x \<in> set (contents (by_domain ?p))" using lookup_Some [OF wfp] by blast
    have "lookup h2 (key_of x) = None" using that unfolding look by (simp split: if_splits)
    then show "x \<notin> set (contents (by_domain h2))" using lookup_None [OF wf2] by blast
  qed
  from make_room_one [OF wfp wp, of "ck_domain c", folded h2_def]
  consider "h2 = ?p" | v where "mset (contents (by_domain ?p)) = add_mset v (mset (contents (by_domain h2)))" by blast
  then show ?thesis
  proof cases
    case 1
    then show ?thesis using lost by metis
  next
    case (2 v)
    then have "set (contents (by_domain ?p)) = insert v (set (contents (by_domain h2)))"
      by (metis set_mset_add_mset_insert set_mset_mset)
    then have "\<forall>x. lookup h (key_of x) = Some x \<and> \<not> is_expired x now \<and> key_of x \<noteq> key_of c \<and> lookup ?put (key_of x) = None \<longrightarrow> x = v"
      using lost by blast
    then show ?thesis by blast
  qed
qed

end
