(* ===== verification/Cookie_Jar.thy ===== *)
theory Cookie_Jar
  imports Memory_Store "HOL-Library.Product_Lexorder" "HOL-Library.List_Lexorder" "HOL-Library.Char_ord"
begin

text \<open>
  The storage model and the retrieval of a cookie jar: \<open>crates/hclient/src/cookie/jar.rs\<close>. The public
  suffix list, the header values of a response and the validation of a header value by the \<open>http\<close>
  crate are parameters, as are the lexer and the calendar of the parser. The jar's operations take
  the operations of its store, so that the lemmas hold for every store that keeps the contract of
  \<open>cookie_store\<close>; the properties are about the jar over \<open>MemoryStore\<close>.
\<close>

section \<open>The model\<close>

record suffix_list =
  is_public_suffix :: "bytes \<Rightarrow> bool"
  has_list :: bool

record limits =
  max_name_value_bytes :: nat

definition limits_default :: limits where
  "limits_default = \<lparr>max_name_value_bytes = 4096\<rparr>"

datatype rejected =
    Malformed parse_error | NoHost | DomainMismatch bytes bytes | DomainIsPublicSuffix bytes
  | NoPublicSuffixList bytes | SecureOverInsecure | SecurePrefix | HostPrefix | TooLarge nat nat
  | EmptyDomain | RelativePath bytes | IpDomainNotHostOnly bytes

datatype arrival = SetCookieArrival | RecordArrival

text \<open>9600 hours.\<close>

definition MAX_EXPIRY :: duration where
  "MAX_EXPIRY = 9600 * 3600 * 1000000000"

definition from_unix :: "int \<Rightarrow> system_time" where
  "from_unix seconds = seconds * 1000000000"

definition expiry :: "set_cookie \<Rightarrow> system_time \<Rightarrow> system_time option \<times> bool" where
  "expiry parsed now =
     (let cap = checked_add now MAX_EXPIRY in
      case sc_max_age parsed of
        Some seconds \<Rightarrow>
          (let at = (if seconds \<le> 0 then 0
             else (case (checked_add now (nat seconds * 1000000000), cap) of
                     (Some r, Some c) \<Rightarrow> min r c
                   | (None, Some c) \<Rightarrow> c
                   | (r, None) \<Rightarrow> (case r of Some x \<Rightarrow> x | None \<Rightarrow> now))) in
           (Some at, True))
      | None \<Rightarrow>
          (case sc_expires parsed of
             Some seconds \<Rightarrow>
               (let at = from_unix seconds in
                (Some (case cap of None \<Rightarrow> at | Some c \<Rightarrow> min at c), True))
           | None \<Rightarrow> (None, False)))"

definition scope_domain :: "suffix_list \<Rightarrow> bytes \<Rightarrow> bytes option \<Rightarrow> rejected + (bytes \<times> bool)" where
  "scope_domain psl h attribute =
     (case attribute of
        None \<Rightarrow> Inr (h, True)
      | Some d \<Rightarrow>
          if is_ip_literal h then
            (if d = h then Inr (h, True) else Inl (DomainMismatch d h))
          else if is_public_suffix psl d then
            (if d = h then Inr (h, True)
             else if has_list psl then Inl (DomainIsPublicSuffix d)
             else Inl (NoPublicSuffixList d))
          else if \<not> domain_matches h d then Inl (DomainMismatch d h)
          else Inr (d, False))"

text \<open>What the jar is built on: its bound, the list, and the libraries of the parser.\<close>

record jar_env =
  env_limits :: limits
  env_suffixes :: suffix_list
  env_lexer :: lexer
  env_calendar :: calendar

definition prepare :: "jar_env \<Rightarrow> http_uri \<Rightarrow> bytes \<Rightarrow> system_time \<Rightarrow> rejected + cookie" where
  "prepare env uri header now =
     (case canonical_host uri of
        None \<Rightarrow> Inl NoHost
      | Some h \<Rightarrow>
     case set_cookie_parse (env_lexer env) (env_calendar env) header of
        Inl e \<Rightarrow> Inl (Malformed e)
      | Inr parsed \<Rightarrow>
     let size = length (sc_name parsed) + length (sc_value parsed);
         bound = max_name_value_bytes (env_limits env) in
     if size > bound then Inl (TooLarge size bound) else
     case scope_domain (env_suffixes env) h (sc_domain parsed) of
        Inl e \<Rightarrow> Inl e
      | Inr (d, host_only) \<Rightarrow>
     let p = (case sc_path parsed of Some x \<Rightarrow> x | None \<Rightarrow> default_path (request_path uri));
         secure_request = is_secure_request uri;
         lower = to_ascii_lowercase (sc_name parsed) in
     if sc_secure parsed \<and> \<not> secure_request then Inl SecureOverInsecure
     else if starts_with lower ''__secure-'' \<and> \<not> (sc_secure parsed \<and> secure_request) then Inl SecurePrefix
     else if starts_with lower ''__host-'' \<and> \<not> (sc_secure parsed \<and> secure_request \<and> host_only \<and> p = ''/'') then Inl HostPrefix
     else (case expiry parsed now of (expires, persistent) \<Rightarrow>
       Inr \<lparr>ck_name = sc_name parsed, ck_value = sc_value parsed, ck_domain = d, ck_path = p, ck_expires = expires,
            ck_creation = now, ck_last_access = now, ck_seq = 0, ck_host_only = host_only, ck_persistent = persistent,
            ck_secure = sc_secure parsed, ck_http_only = sc_http_only parsed, ck_same_site = sc_same_site parsed\<rparr>))"

text \<open>The store behind the jar, as the operations the jar calls.\<close>

record 's store_ops =
  op_get :: "'s \<Rightarrow> bytes list \<Rightarrow> cookie list"
  op_put :: "'s \<Rightarrow> cookie \<Rightarrow> system_time \<Rightarrow> 's"
  op_touch :: "'s \<Rightarrow> cookie_key list \<Rightarrow> system_time \<Rightarrow> 's"

definition memory_ops :: "capacity \<Rightarrow> held store_ops" where
  "memory_ops cap = \<lparr>op_get = store_get, op_put = store_put cap, op_touch = store_touch\<rparr>"

record 's jar =
  jar_store :: 's
  next_seq :: nat

text \<open>\<open>fetch_add(1)\<close> on an \<open>AtomicU64\<close> wraps.\<close>

definition seq_after :: "nat \<Rightarrow> nat" where
  "seq_after n = (n + 1) mod 2 ^ 64"

definition jar_insert :: "'s store_ops \<Rightarrow> 's jar \<Rightarrow> cookie \<Rightarrow> system_time \<Rightarrow> arrival \<Rightarrow> 's jar" where
  "jar_insert ops j c now arr =
     (let key = key_of c; held = op_get ops (jar_store j) [ck_domain c] in
      case find (\<lambda>x. key_of x = key) held of
        Some old \<Rightarrow>
          (let c1 = (if arr = SetCookieArrival then c\<lparr>ck_creation := ck_creation old\<rparr> else c);
               c2 = c1\<lparr>ck_seq := ck_seq old\<rparr> in
           j\<lparr>jar_store := op_put ops (jar_store j) c2 now\<rparr>)
      | None \<Rightarrow>
          j\<lparr>jar_store := op_put ops (jar_store j) (c\<lparr>ck_seq := next_seq j\<rparr>) now, next_seq := seq_after (next_seq j)\<rparr>)"

definition jar_store_header :: "'s store_ops \<Rightarrow> jar_env \<Rightarrow> 's jar \<Rightarrow> http_uri \<Rightarrow> bytes \<Rightarrow> system_time \<Rightarrow> (rejected + unit) \<times> 's jar" where
  "jar_store_header ops env j uri header now =
     (case prepare env uri header now of
        Inl e \<Rightarrow> (Inl e, j)
      | Inr c \<Rightarrow> (Inr (), jar_insert ops j c now SetCookieArrival))"

text \<open>One step of the batch loop: the cookies placed so far, the jar, and the next cookie.\<close>

definition place :: "'s store_ops \<Rightarrow> cookie list \<Rightarrow> system_time \<Rightarrow> cookie list \<times> 's jar \<Rightarrow> cookie \<Rightarrow> cookie list \<times> 's jar" where
  "place ops held now pj c =
     (case pj of (placed, j) \<Rightarrow>
        let key = key_of c;
            previous = (case find (\<lambda>x. key_of x = key) placed of Some x \<Rightarrow> Some x | None \<Rightarrow> find (\<lambda>x. key_of x = key) held) in
        case previous of
          Some old \<Rightarrow>
            (let c1 = c\<lparr>ck_creation := ck_creation old, ck_seq := ck_seq old\<rparr> in
             (placed @ [c1], j\<lparr>jar_store := op_put ops (jar_store j) c1 now\<rparr>))
        | None \<Rightarrow>
            (let c1 = c\<lparr>ck_seq := next_seq j\<rparr> in
             (placed @ [c1], j\<lparr>jar_store := op_put ops (jar_store j) c1 now, next_seq := seq_after (next_seq j)\<rparr>)))"

definition accepted :: "jar_env \<Rightarrow> http_uri \<Rightarrow> bytes list \<Rightarrow> system_time \<Rightarrow> cookie list" where
  "accepted env uri headers now =
     concat (map (\<lambda>v. case prepare env uri v now of Inl _ \<Rightarrow> [] | Inr c \<Rightarrow> [c]) headers)"

definition store_response :: "'s store_ops \<Rightarrow> jar_env \<Rightarrow> 's jar \<Rightarrow> http_uri \<Rightarrow> bytes list \<Rightarrow> system_time \<Rightarrow> nat \<times> 's jar" where
  "store_response ops env j uri headers now =
     (let arriving = accepted env uri headers now in
      if arriving = [] then (0, j)
      else let domains = remdups_adj (sort (map ck_domain arriving));
               held = op_get ops (jar_store j) domains in
        (length arriving, snd (foldl (place ops held now) ([], j) arriving)))"

definition applies :: "bytes \<Rightarrow> bytes \<Rightarrow> bool \<Rightarrow> system_time \<Rightarrow> cookie \<Rightarrow> bool" where
  "applies h req_path secure now c \<longleftrightarrow>
     \<not> is_expired c now \<and>
     (if ck_host_only c then h = ck_domain c else domain_matches h (ck_domain c)) \<and>
     path_matches req_path (ck_path c) \<and> (\<not> ck_secure c \<or> secure)"

definition send_order :: "cookie \<Rightarrow> int \<times> system_time \<times> nat" where
  "send_order c = (- int (length (ck_path c)), ck_creation c, ck_seq c)"

definition matching :: "'s store_ops \<Rightarrow> 's \<Rightarrow> http_uri \<Rightarrow> system_time \<Rightarrow> cookie list" where
  "matching ops s uri now =
     (case canonical_host uri of
        None \<Rightarrow> []
      | Some h \<Rightarrow>
          sort_key send_order
            (filter (applies h (request_path uri) (is_secure_request uri) now) (op_get ops s (candidate_domains h))))"

text \<open>The loop that writes the header: a separator before every cookie but the first.\<close>

definition header_bytes :: "cookie list \<Rightarrow> bytes" where
  "header_bytes cs =
     foldl (\<lambda>out c. (if out = [] then out else out @ ''; '') @ ck_name c @ ''='' @ ck_value c) [] cs"

definition cookie_header ::
  "(bytes \<Rightarrow> bool) \<Rightarrow> 's store_ops \<Rightarrow> 's jar \<Rightarrow> http_uri \<Rightarrow> system_time \<Rightarrow> bytes option \<times> 's jar" where
  "cookie_header from_bytes_ok ops j uri now =
     (let matched = matching ops (jar_store j) uri now in
      if matched = [] then (None, j)
      else let out = header_bytes matched in
        ((if from_bytes_ok out then Some out else None),
         j\<lparr>jar_store := op_touch ops (jar_store j) (map key_of matched) now\<rparr>))"

definition jar_clear :: "('s \<Rightarrow> 's) \<Rightarrow> 's jar \<Rightarrow> 's jar" where
  "jar_clear clear j = j\<lparr>jar_store := clear (jar_store j)\<rparr>"

section \<open>What the rules accept\<close>

lemma canonical_host_ok: "canonical_host uri = Some h \<Longrightarrow> h \<noteq> [] \<and> to_ascii_lowercase h = h"
proof -
  assume "canonical_host uri = Some h"
  then obtain x where "h = to_ascii_lowercase x" "x \<noteq> []"
    by (auto simp: canonical_host_def Let_def split: option.splits if_splits)
  then show ?thesis using to_ascii_lowercase_idem by (auto simp: to_ascii_lowercase_def)
qed

lemma scope_domain_ok:
  "scope_domain psl h attribute = Inr (d, host_only) \<Longrightarrow>
     (if host_only then d = h else attribute = Some d \<and> domain_matches h d \<and> \<not> is_ip_literal h \<and> \<not> is_public_suffix psl d)"
  by (auto simp: scope_domain_def split: option.splits if_splits)

text \<open>Everything the accepted cookie says about itself.\<close>

definition cookie_ok :: "suffix_list \<Rightarrow> cookie \<Rightarrow> bool" where
  "cookie_ok psl c \<longleftrightarrow>
     ck_name c \<noteq> [] \<and> \<not> is_blank (hd (ck_name c)) \<and> CHR ''='' \<notin> set (ck_name c) \<and>
     CHR '';'' \<notin> set (ck_name c) \<and> CHR '';'' \<notin> set (ck_value c) \<and>
     \<not> list_ex is_ctl (ck_name c) \<and> \<not> list_ex is_ctl (ck_value c) \<and>
     ck_domain c \<noteq> [] \<and> to_ascii_lowercase (ck_domain c) = ck_domain c \<and> starts_with (ck_path c) ''/'' \<and>
     (\<not> ck_host_only c \<longrightarrow> \<not> is_public_suffix psl (ck_domain c)) \<and>
     (starts_with (to_ascii_lowercase (ck_name c)) ''__secure-'' \<longrightarrow> ck_secure c) \<and>
     (starts_with (to_ascii_lowercase (ck_name c)) ''__host-'' \<longrightarrow> ck_secure c \<and> ck_host_only c \<and> ck_path c = ''/'')"

lemma prepare_parts:
  assumes "prepare env uri header now = Inr c"
  obtains h sc where "canonical_host uri = Some h" "set_cookie_parse (env_lexer env) (env_calendar env) header = Inr sc"
    "ck_name c = sc_name sc" "ck_value c = sc_value sc" "ck_secure c = sc_secure sc"
    "length (sc_name sc) + length (sc_value sc) \<le> max_name_value_bytes (env_limits env)"
    "scope_domain (env_suffixes env) h (sc_domain sc) = Inr (ck_domain c, ck_host_only c)"
    "ck_path c = (case sc_path sc of Some x \<Rightarrow> x | None \<Rightarrow> default_path (request_path uri))"
    "ck_secure c \<longrightarrow> is_secure_request uri"
    "starts_with (to_ascii_lowercase (ck_name c)) ''__secure-'' \<longrightarrow> ck_secure c"
    "starts_with (to_ascii_lowercase (ck_name c)) ''__host-'' \<longrightarrow> ck_secure c \<and> ck_host_only c \<and> ck_path c = ''/''"
    "(ck_expires c, ck_persistent c) = expiry sc now" "ck_creation c = now" "ck_last_access c = now"
proof -
  obtain h where h: "canonical_host uri = Some h" using assms by (auto simp: prepare_def split: option.splits)
  obtain sc where sc: "set_cookie_parse (env_lexer env) (env_calendar env) header = Inr sc"
    using assms h by (auto simp: prepare_def split: sum.splits)
  have sz: "\<not> length (sc_name sc) + length (sc_value sc) > max_name_value_bytes (env_limits env)"
    using assms h sc by (auto simp: prepare_def Let_def)
  obtain d ho where s: "scope_domain (env_suffixes env) h (sc_domain sc) = Inr (d, ho)"
    using assms h sc sz by (auto simp: prepare_def Let_def split: sum.splits)
  obtain e p where e: "expiry sc now = (e, p)" by force
  show ?thesis
    using assms h sc sz s e that by (auto simp: prepare_def Let_def split: if_splits)
qed

lemma prepare_cookie_ok:
  assumes "winnow_ok (env_lexer env)" "prepare env uri header now = Inr c"
  shows "cookie_ok (env_suffixes env) c"
  using assms(2)
proof (rule prepare_parts)
  fix h sc
  assume p: "canonical_host uri = Some h" "set_cookie_parse (env_lexer env) (env_calendar env) header = Inr sc"
    "ck_name c = sc_name sc" "ck_value c = sc_value sc"
    "scope_domain (env_suffixes env) h (sc_domain sc) = Inr (ck_domain c, ck_host_only c)"
    "ck_path c = (case sc_path sc of Some x \<Rightarrow> x | None \<Rightarrow> default_path (request_path uri))"
    "starts_with (to_ascii_lowercase (ck_name c)) ''__secure-'' \<longrightarrow> ck_secure c"
    "starts_with (to_ascii_lowercase (ck_name c)) ''__host-'' \<longrightarrow> ck_secure c \<and> ck_host_only c \<and> ck_path c = ''/''"
  note safe = set_cookie_safe [OF assms(1) p(2)]
  have "ck_domain c \<noteq> [] \<and> to_ascii_lowercase (ck_domain c) = ck_domain c"
    using scope_domain_ok [OF p(5)] canonical_host_ok [OF p(1)] safe
    by (auto simp: attrs_wf_def split: if_splits)
  moreover have "starts_with (ck_path c) ''/''"
    using p(6) safe default_path_absolute by (auto simp: attrs_wf_def split: option.splits)
  moreover have "\<not> ck_host_only c \<longrightarrow> \<not> is_public_suffix (env_suffixes env) (ck_domain c)"
    using scope_domain_ok [OF p(5)] by auto
  ultimately show ?thesis using p safe by (simp add: cookie_ok_def)
qed

lemma cookie_ok_times:
  "cookie_ok psl (c\<lparr>ck_seq := n\<rparr>) = cookie_ok psl c" "cookie_ok psl (c\<lparr>ck_creation := t\<rparr>) = cookie_ok psl c"
  "cookie_ok psl (c\<lparr>ck_last_access := t\<rparr>) = cookie_ok psl c"
  by (simp_all add: cookie_ok_def)

lemma expiry_bounded:
  assumes "expiry sc now = (Some e, p)" "now + int MAX_EXPIRY \<le> systime_max" "0 \<le> now"
  shows "e \<le> now + int MAX_EXPIRY"
proof -
  have cap: "checked_add now MAX_EXPIRY = Some (now + int MAX_EXPIRY)" using assms(2) by (simp add: checked_add_def)
  show ?thesis
    using assms by (auto simp: expiry_def cap Let_def split: option.splits if_splits)
qed

text \<open>
  Property C11. An accepted cookie never reaches beyond the host that set it: it is scoped to exactly
  that host, or, not host-only, to a domain the host matches at a label boundary that is no public
  suffix while the host is no IP literal; a secure cookie came over a secure request, the two name
  prefixes are honoured, the size is within the bound, and no cookie outlives 400 days.
\<close>

theorem prepare_scope:
  assumes "prepare env uri header now = Inr c" "0 \<le> now" "now + int MAX_EXPIRY \<le> systime_max"
  shows "\<exists>h. canonical_host uri = Some h \<and>
    (if ck_host_only c then ck_domain c = h
     else domain_matches h (ck_domain c) \<and> \<not> is_ip_literal h \<and> \<not> is_public_suffix (env_suffixes env) (ck_domain c)) \<and>
    (ck_secure c \<longrightarrow> is_secure_request uri) \<and>
    (starts_with (to_ascii_lowercase (ck_name c)) ''__secure-'' \<longrightarrow> ck_secure c) \<and>
    (starts_with (to_ascii_lowercase (ck_name c)) ''__host-'' \<longrightarrow> ck_secure c \<and> ck_host_only c \<and> ck_path c = ''/'') \<and>
    length (ck_name c) + length (ck_value c) \<le> max_name_value_bytes (env_limits env) \<and>
    (case ck_expires c of None \<Rightarrow> True | Some e \<Rightarrow> e \<le> now + int MAX_EXPIRY)"
  using assms(1)
proof (rule prepare_parts)
  fix h sc
  assume p: "canonical_host uri = Some h" "ck_name c = sc_name sc" "ck_value c = sc_value sc"
    "length (sc_name sc) + length (sc_value sc) \<le> max_name_value_bytes (env_limits env)"
    "scope_domain (env_suffixes env) h (sc_domain sc) = Inr (ck_domain c, ck_host_only c)"
    "ck_secure c \<longrightarrow> is_secure_request uri"
    "starts_with (to_ascii_lowercase (ck_name c)) ''__secure-'' \<longrightarrow> ck_secure c"
    "starts_with (to_ascii_lowercase (ck_name c)) ''__host-'' \<longrightarrow> ck_secure c \<and> ck_host_only c \<and> ck_path c = ''/''"
    "(ck_expires c, ck_persistent c) = expiry sc now"
  have "case ck_expires c of None \<Rightarrow> True | Some e \<Rightarrow> e \<le> now + int MAX_EXPIRY"
    using p(9) expiry_bounded [of sc now _ "ck_persistent c"] assms(2,3) by (cases "ck_expires c") auto
  then show ?thesis using p scope_domain_ok [OF p(5)] by (intro exI [of _ h]) (auto split: if_splits)
qed

definition demo_env :: jar_env where
  "demo_env = \<lparr>env_limits = limits_default,
     env_suffixes = \<lparr>is_public_suffix = (\<lambda>d. CHR ''.'' \<notin> set d \<or> d = ''co.uk''), has_list = True\<rparr>,
     env_lexer = ref_lexer, env_calendar = (\<lambda>_ _ _ _ _ _. None)\<rparr>"

definition demo_uri :: "bytes \<Rightarrow> bytes \<Rightarrow> bytes \<Rightarrow> http_uri" where
  "demo_uri s h p = \<lparr>scheme_str = Some s, authority = Some h, host = Some h, port_u16 = None, path = p, query = None\<rparr>"

definition demo_stored :: cookie where
  "demo_stored = (demo_cookie ''sid'' ''bbc.co.uk'' 5 0)\<lparr>ck_value := ''1'', ck_host_only := False, ck_secure := True\<rparr>"

lemma demo_stored_eq:
  "demo_stored = \<lparr>ck_name = ''sid'', ck_value = ''1'', ck_domain = ''bbc.co.uk'', ck_path = ''/'', ck_expires = None,
     ck_creation = 5, ck_last_access = 5, ck_seq = 0, ck_host_only = False, ck_persistent = False, ck_secure = True,
     ck_http_only = False, ck_same_site = None\<rparr>"
  by (simp add: demo_stored_def demo_cookie_def)

lemma demo_prepare: "prepare demo_env (demo_uri ''https'' ''www.BBC.co.uk'' ''/x'') ''sid=1; Domain=bbc.co.uk; Path=/; Secure'' 5 = Inr demo_stored"
proof -
  have h: "canonical_host (demo_uri ''https'' ''www.BBC.co.uk'' ''/x'') = Some ''www.bbc.co.uk''" by code_simp
  have s: "is_secure_request (demo_uri ''https'' ''www.BBC.co.uk'' ''/x'')" by code_simp
  have p: "set_cookie_parse ref_lexer (\<lambda>_ _ _ _ _ _. None) ''sid=1; Domain=bbc.co.uk; Path=/; Secure'' =
      Inr ((blank_cookie ''sid'' ''1'')\<lparr>sc_domain := Some ''bbc.co.uk'', sc_path := Some ''/'', sc_secure := True\<rparr>)" by code_simp
  have ip: "\<not> is_ip_literal ''www.bbc.co.uk''" by (simp add: is_ip_literal_def not_an_ip to_digit_def byte_val_def)
  then have d: "domain_matches ''www.bbc.co.uk'' ''bbc.co.uk''" "\<not> is_ip_literal ''www.bbc.co.uk''"
    by (simp_all add: domain_matches_def ends_with_def)
  have l: "to_ascii_lowercase ''sid'' = ''sid''" by code_simp
  show ?thesis
    by (simp add: prepare_def h s demo_env_def p blank_cookie_def limits_default_def scope_domain_def d l Let_def
        starts_with_def expiry_def demo_stored_eq)
qed

theorem prepare_scope_witness:
  "\<exists>h. canonical_host (demo_uri ''https'' ''www.BBC.co.uk'' ''/x'') = Some h \<and> domain_matches h (ck_domain demo_stored) \<and>
     \<not> is_public_suffix (env_suffixes demo_env) (ck_domain demo_stored)"
proof -
  have "(0::int) \<le> 5" "5 + int MAX_EXPIRY \<le> systime_max" by (simp_all add: MAX_EXPIRY_def systime_max_def)
  from prepare_scope [OF demo_prepare this] show ?thesis by (auto simp: demo_stored_eq)
qed

text \<open>
  Every refusal is justified and changes nothing: a jar that answers an error is the jar
  it was, and the error tells the truth about the header and the request.
\<close>

theorem jar_refusals_sound:
  assumes "jar_store_header ops env j uri header now = (Inl e, j')"
  shows "j' = j \<and>
    (case e of
       NoHost \<Rightarrow> canonical_host uri = None
     | Malformed pe \<Rightarrow> set_cookie_parse (env_lexer env) (env_calendar env) header = Inl pe
     | _ \<Rightarrow> \<exists>h sc. canonical_host uri = Some h \<and> set_cookie_parse (env_lexer env) (env_calendar env) header = Inr sc \<and>
         (case e of
            TooLarge n bound \<Rightarrow> n = length (sc_name sc) + length (sc_value sc) \<and> bound = max_name_value_bytes (env_limits env) \<and> bound < n
          | DomainMismatch d h' \<Rightarrow> sc_domain sc = Some d \<and> h' = h \<and> \<not> domain_matches h d
          | DomainIsPublicSuffix d \<Rightarrow> sc_domain sc = Some d \<and> d \<noteq> h \<and> is_public_suffix (env_suffixes env) d \<and> has_list (env_suffixes env)
          | NoPublicSuffixList d \<Rightarrow> sc_domain sc = Some d \<and> d \<noteq> h \<and> \<not> has_list (env_suffixes env)
          | SecureOverInsecure \<Rightarrow> sc_secure sc \<and> \<not> is_secure_request uri
          | SecurePrefix \<Rightarrow> starts_with (to_ascii_lowercase (sc_name sc)) ''__secure-'' \<and> \<not> sc_secure sc
          | HostPrefix \<Rightarrow> starts_with (to_ascii_lowercase (sc_name sc)) ''__host-''
          | _ \<Rightarrow> False))"
proof -
  have p: "prepare env uri header now = Inl e" and j: "j' = j"
    using assms by (auto simp: jar_store_header_def split: sum.splits)
  show ?thesis
  proof (cases "canonical_host uri")
    case None
    then show ?thesis using p j by (auto simp: prepare_def)
  next
    case (Some h)
    show ?thesis
    proof (cases "set_cookie_parse (env_lexer env) (env_calendar env) header")
      case (Inl pe)
      then show ?thesis using p j Some by (auto simp: prepare_def)
    next
      case (Inr sc)
      show ?thesis
      proof (cases "scope_domain (env_suffixes env) h (sc_domain sc)")
        case (Inl se)
        have "domain_matches h d \<Longrightarrow> is_ip_literal h \<Longrightarrow> d = h" for d by (auto simp: domain_matches_iff)
        then show ?thesis
          using p j Some Inr Inl
          by (auto simp: prepare_def Let_def scope_domain_def split: if_splits option.splits)
      next
        case (Inr s)
        then show ?thesis
          using p j Some \<open>set_cookie_parse _ _ _ = Inr sc\<close>
          by (cases s) (auto simp: prepare_def Let_def split: if_splits prod.splits)
      qed
    qed
  qed
qed

theorem jar_refusals_sound_witness:
  "\<exists>j'. jar_store_header (memory_ops capacity_default) demo_env \<lparr>jar_store = held_default, next_seq = 0\<rparr>
     (demo_uri ''https'' ''itv.co.uk'' ''/'') ''a=1; Domain=co.uk'' 5 = (Inl (DomainIsPublicSuffix ''co.uk''), j') \<and>
     is_public_suffix (env_suffixes demo_env) ''co.uk''"
proof -
  let ?j = "\<lparr>jar_store = held_default, next_seq = 0\<rparr>" and ?u = "demo_uri ''https'' ''itv.co.uk'' ''/''"
  have h: "canonical_host ?u = Some ''itv.co.uk''" by code_simp
  have p: "set_cookie_parse ref_lexer (\<lambda>_ _ _ _ _ _. None) ''a=1; Domain=co.uk'' =
      Inr ((blank_cookie ''a'' ''1'')\<lparr>sc_domain := Some ''co.uk''\<rparr>)" by code_simp
  have d: "\<not> is_ip_literal ''itv.co.uk''" by (simp add: is_ip_literal_def not_an_ip to_digit_def byte_val_def)
  have r: "jar_store_header (memory_ops capacity_default) demo_env ?j ?u ''a=1; Domain=co.uk'' 5
      = (Inl (DomainIsPublicSuffix ''co.uk''), ?j)"
    by (simp add: jar_store_header_def prepare_def h p demo_env_def blank_cookie_def limits_default_def scope_domain_def d Let_def)
  from jar_refusals_sound [OF r] r show ?thesis by auto
qed

lemma candidate_domains_set: "set (candidate_domains h) = {d. domain_matches h d}"
  using domain_tails_iff [of _ h] by (auto simp: candidate_domains_def domain_matches_iff)

section \<open>What a request gets back\<close>

text \<open>
  Property C2. No store can widen the scope of a cookie: whatever cookies a store answers, those that
  are sent for a request have not expired, are scoped to exactly the request host or, not host-only,
  to a domain it ends in at a label boundary (an IP literal only matches itself), have a path that is
  the request path or a prefix of it at a slash, and are secure only if the request is; they are sent
  with the longest paths first, then by creation time and arrival.
\<close>

theorem matching_seam_safe:
  "set (matching ops s uri now) \<subseteq>
     {c. \<exists>h. canonical_host uri = Some h \<and> c \<in> set (op_get ops s (candidate_domains h)) \<and> \<not> is_expired c now \<and>
        (h = ck_domain c \<or> \<not> ck_host_only c \<and> \<not> is_ip_literal h \<and> (\<exists>q. h = q @ ''.'' @ ck_domain c)) \<and>
        (\<exists>r. request_path uri = ck_path c @ r \<and> (r = [] \<or> hd r = CHR ''/'' \<or> ck_path c \<noteq> [] \<and> last (ck_path c) = CHR ''/'')) \<and>
        (ck_secure c \<longrightarrow> is_secure_request uri)} \<and>
   sorted_wrt (\<lambda>a b. length (ck_path b) < length (ck_path a) \<or>
     length (ck_path a) = length (ck_path b) \<and> (ck_creation a < ck_creation b \<or> ck_creation a = ck_creation b \<and> ck_seq a \<le> ck_seq b))
     (matching ops s uri now)"
proof (intro conjI subsetI)
  fix c assume "c \<in> set (matching ops s uri now)"
  then obtain h where h: "canonical_host uri = Some h" "c \<in> set (op_get ops s (candidate_domains h))"
    "applies h (request_path uri) (is_secure_request uri) now c"
    by (cases "canonical_host uri") (auto simp: matching_def)
  have p: "\<exists>r. request_path uri = ck_path c @ r \<and> (r = [] \<or> hd r = CHR ''/'' \<or> ck_path c \<noteq> [] \<and> last (ck_path c) = CHR ''/'')"
    using h(3) unfolding applies_def path_matches_iff by (metis append_Nil2)
  have d: "h = ck_domain c \<or> \<not> ck_host_only c \<and> \<not> is_ip_literal h \<and> (\<exists>q. h = q @ ''.'' @ ck_domain c)"
    using h(3) unfolding applies_def domain_matches_iff by (auto split: if_splits)
  show "c \<in> {c. \<exists>h. canonical_host uri = Some h \<and> c \<in> set (op_get ops s (candidate_domains h)) \<and> \<not> is_expired c now \<and>
        (h = ck_domain c \<or> \<not> ck_host_only c \<and> \<not> is_ip_literal h \<and> (\<exists>q. h = q @ ''.'' @ ck_domain c)) \<and>
        (\<exists>r. request_path uri = ck_path c @ r \<and> (r = [] \<or> hd r = CHR ''/'' \<or> ck_path c \<noteq> [] \<and> last (ck_path c) = CHR ''/'')) \<and>
        (ck_secure c \<longrightarrow> is_secure_request uri)}"
    using h p d by (auto simp: applies_def)
next
  have "sorted (map send_order (matching ops s uri now))"
    by (auto simp: matching_def split: option.splits)
  then have "sorted_wrt (\<lambda>a b. send_order a \<le> send_order b) (matching ops s uri now)" by (simp add: sorted_wrt_map)
  then show "sorted_wrt (\<lambda>a b. length (ck_path b) < length (ck_path a) \<or>
     length (ck_path a) = length (ck_path b) \<and> (ck_creation a < ck_creation b \<or> ck_creation a = ck_creation b \<and> ck_seq a \<le> ck_seq b))
     (matching ops s uri now)"
    by (rule sorted_wrt_mono_rel [rotated]) (auto simp: send_order_def less_eq_prod_def less_prod_def)
qed

theorem matching_seam_safe_witness:
  "demo_stored \<notin> set (matching \<lparr>op_get = (\<lambda>s ds. [demo_stored]), op_put = (\<lambda>s c now. s), op_touch = (\<lambda>s ks now. s)\<rparr>
     () (demo_uri ''http'' ''www.bbc.co.uk'' ''/'') 7)"
proof -
  have "\<not> is_ip_literal ''www.bbc.co.uk''" by (simp add: is_ip_literal_def not_an_ip to_digit_def byte_val_def)
  moreover have "canonical_host (demo_uri ''http'' ''www.bbc.co.uk'' ''/'') = Some ''www.bbc.co.uk''" by code_simp
  ultimately have "\<not> is_secure_request (demo_uri ''http'' ''www.bbc.co.uk'' ''/'')"
    by (simp add: is_secure_request_def is_loopback_def is_ip_literal_def ends_with_def) (simp add: demo_uri_def)
  moreover have "ck_secure demo_stored" by (simp add: demo_stored_eq)
  ultimately have no: "\<not> (ck_secure demo_stored \<longrightarrow> is_secure_request (demo_uri ''http'' ''www.bbc.co.uk'' ''/''))" by simp
  note safe = matching_seam_safe [of "\<lparr>op_get = (\<lambda>s ds. [demo_stored]), op_put = (\<lambda>s c now. s), op_touch = (\<lambda>s ks now. s)\<rparr>"
      "()" "demo_uri ''http'' ''www.bbc.co.uk'' ''/''" 7, THEN conjunct1, THEN subsetD, of demo_stored, unfolded mem_Collect_eq]
  show ?thesis using no safe by meson
qed

section \<open>The jar over a store that keeps the contract\<close>

locale cookie_jar = cookie_store inv look "op_get ops" "op_put ops" "op_touch ops"
  for inv :: "'s \<Rightarrow> bool" and look :: "'s \<Rightarrow> cookie_key \<Rightarrow> cookie option" and ops :: "'s store_ops"
begin

text \<open>The exact lookups over the candidate domains find every cookie that applies.\<close>

lemma matching_exact:
  assumes "inv s"
  shows "c \<in> set (matching ops s uri now) \<longleftrightarrow>
    look s (key_of c) = Some c \<and>
    (\<exists>h. canonical_host uri = Some h \<and> applies h (request_path uri) (is_secure_request uri) now c)"
proof (cases "canonical_host uri")
  case (Some h)
  have "ck_domain c \<in> set (candidate_domains h)" if "applies h p sec now c" for p sec
    using that candidate_domains_set [of h] by (auto simp: applies_def domain_matches_iff split: if_splits)
  then show ?thesis using Some get_exact [OF assms] by (auto simp: matching_def)
qed (simp add: matching_def)

text \<open>Inserting a cookie changes its creation time and its arrival number at most.\<close>

lemma same_creation: "c\<lparr>ck_creation := ck_creation c, ck_seq := n\<rparr> = c\<lparr>ck_seq := n\<rparr>"
  by (cases c) simp

lemma insert_put:
  "\<exists>t n q. jar_insert ops j c now arr = \<lparr>jar_store = op_put ops (jar_store j) (c\<lparr>ck_creation := t, ck_seq := n\<rparr>) now, next_seq = q\<rparr>"
proof (cases "find (\<lambda>x. key_of x = key_of c) (op_get ops (jar_store j) [ck_domain c])")
  case None
  then show ?thesis
    by (intro exI [of _ "ck_creation c"] exI [of _ "next_seq j"] exI [of _ "seq_after (next_seq j)"], unfold same_creation)
      (cases j, simp add: jar_insert_def)
next
  case (Some old)
  show ?thesis
  proof (cases "arr = SetCookieArrival")
    case True
    then show ?thesis using Some
      by (intro exI [of _ "ck_creation old"] exI [of _ "ck_seq old"] exI [of _ "next_seq j"]) (cases j, simp add: jar_insert_def)
  next
    case False
    then show ?thesis using Some
      by (intro exI [of _ "ck_creation c"] exI [of _ "ck_seq old"] exI [of _ "next_seq j"], unfold same_creation)
        (cases j, simp add: jar_insert_def)
  qed
qed

lemma insert_inv: "inv (jar_store j) \<Longrightarrow> inv (jar_store (jar_insert ops j c now arr))"
  using insert_put [of j c now arr] put_inv by auto

lemma key_of_times: "key_of (c\<lparr>ck_creation := t, ck_seq := n\<rparr>) = key_of c" "is_expired (c\<lparr>ck_creation := t, ck_seq := n\<rparr>) = is_expired c"
  by (simp_all add: key_of_def is_expired_def fun_eq_iff)

lemma insert_look:
  assumes "inv (jar_store j)" "\<not> is_expired c now"
  shows "\<exists>t n. look (jar_store (jar_insert ops j c now arr)) (key_of c) = Some (c\<lparr>ck_creation := t, ck_seq := n\<rparr>)"
proof -
  obtain t n q where "jar_insert ops j c now arr = \<lparr>jar_store = op_put ops (jar_store j) (c\<lparr>ck_creation := t, ck_seq := n\<rparr>) now, next_seq = q\<rparr>"
    using insert_put by blast
  then show ?thesis
    using put_key [OF assms(1), of "c\<lparr>ck_creation := t, ck_seq := n\<rparr>" now] assms(2) by (auto simp: key_of_times)
qed

text \<open>A cookie that was just accepted is among those that the same request gets back.\<close>

lemma stored_then_matched:
  assumes "inv (jar_store j)" "prepare env uri header now = Inr c" "\<not> is_expired c now"
    and "path_matches (request_path uri) (ck_path c)"
  shows "\<exists>c'. c' \<in> set (matching ops (jar_store (jar_insert ops j c now arr)) uri now) \<and>
    key_of c' = key_of c \<and> ck_value c' = ck_value c"
proof -
  obtain t n where l: "look (jar_store (jar_insert ops j c now arr)) (key_of c) = Some (c\<lparr>ck_creation := t, ck_seq := n\<rparr>)"
    using insert_look [OF assms(1,3)] by blast
  let ?c = "c\<lparr>ck_creation := t, ck_seq := n\<rparr>"
  from assms(2) obtain h where h: "canonical_host uri = Some h" "ck_secure c \<longrightarrow> is_secure_request uri"
    "if ck_host_only c then ck_domain c = h else domain_matches h (ck_domain c)"
    by (rule prepare_parts) (auto dest: scope_domain_ok split: if_splits)
  have "applies h (request_path uri) (is_secure_request uri) now ?c"
    using h assms(3,4) by (auto simp: applies_def key_of_times)
  then have "?c \<in> set (matching ops (jar_store (jar_insert ops j c now arr)) uri now)"
    using matching_exact [OF insert_inv [OF assms(1)]] l h(1) by (simp add: key_of_times)
  then show ?thesis by (intro exI [of _ ?c]) (simp add: key_of_times)
qed

text \<open>Whatever holds of every cookie of the jar and of the arriving ones stays true.\<close>

lemma insert_keeps:
  assumes "inv (jar_store j)" "\<And>k x. look (jar_store j) k = Some x \<Longrightarrow> P x"
    and "\<And>t n. P (c\<lparr>ck_creation := t, ck_seq := n\<rparr>)"
  shows "look (jar_store (jar_insert ops j c now arr)) k = Some x \<Longrightarrow> P x"
proof -
  obtain t n q where "jar_insert ops j c now arr = \<lparr>jar_store = op_put ops (jar_store j) (c\<lparr>ck_creation := t, ck_seq := n\<rparr>) now, next_seq = q\<rparr>"
    using insert_put by blast
  then show "look (jar_store (jar_insert ops j c now arr)) k = Some x \<Longrightarrow> P x"
    using put_keeps [where P = P, OF assms(1,2) assms(3)] by auto
qed

lemma place_put:
  "\<exists>t n q p. place ops held now (placed, j) c = (p, \<lparr>jar_store = op_put ops (jar_store j) (c\<lparr>ck_creation := t, ck_seq := n\<rparr>) now, next_seq = q\<rparr>)"
proof (cases "case find (\<lambda>x. key_of x = key_of c) placed of Some x \<Rightarrow> Some x | None \<Rightarrow> find (\<lambda>x. key_of x = key_of c) held")
  case None
  then show ?thesis
    by (intro exI [of _ "ck_creation c"] exI [of _ "next_seq j"] exI [of _ "seq_after (next_seq j)"]
        exI [of _ "placed @ [c\<lparr>ck_seq := next_seq j\<rparr>]"], unfold same_creation) (cases j, simp add: place_def Let_def)
next
  case (Some old)
  then show ?thesis
    by (intro exI [of _ "ck_creation old"] exI [of _ "ck_seq old"] exI [of _ "next_seq j"]
        exI [of _ "placed @ [c\<lparr>ck_creation := ck_creation old, ck_seq := ck_seq old\<rparr>]"]) (cases j, simp add: place_def Let_def)
qed

lemma places_keep:
  assumes "inv (jar_store (snd pj))" "\<And>k x. look (jar_store (snd pj)) k = Some x \<Longrightarrow> P x"
    and "\<And>c t n. c \<in> set cs \<Longrightarrow> P (c\<lparr>ck_creation := t, ck_seq := n\<rparr>)"
  shows "inv (jar_store (snd (foldl (place ops held now) pj cs))) \<and>
    (\<forall>k x. look (jar_store (snd (foldl (place ops held now) pj cs))) k = Some x \<longrightarrow> P x)"
  using assms
proof (induction cs arbitrary: pj)
  case (Cons c cs)
  obtain placed j where pj: "pj = (placed, j)" by force
  obtain t n q p where pl: "place ops held now pj c = (p, \<lparr>jar_store = op_put ops (jar_store j) (c\<lparr>ck_creation := t, ck_seq := n\<rparr>) now, next_seq = q\<rparr>)"
    using place_put pj by blast
  have i: "inv (jar_store j)" "\<And>k x. look (jar_store j) k = Some x \<Longrightarrow> P x" using Cons.prems(1,2) pj by auto
  have "P (c\<lparr>ck_creation := t, ck_seq := n\<rparr>)" using Cons.prems(3) by simp
  note k = put_keeps [where P = P, OF i this]
  show ?case using Cons.IH [of "place ops held now pj c"] Cons.prems(3) pl put_inv [OF i(1)] k by simp
qed auto

end

interpretation mj: cookie_jar store_wf lookup "memory_ops cap"
proof -
  have "op_get (memory_ops cap) = store_get" "op_put (memory_ops cap) = store_put cap" "op_touch (memory_ops cap) = store_touch"
    by (simp_all add: memory_ops_def)
  then show "cookie_jar store_wf lookup (memory_ops cap)"
    unfolding cookie_jar_def using mem.cookie_store_axioms by simp
qed

section \<open>The jar over the in-memory store\<close>

text \<open>
  Property C29. A stored cookie comes back: after a header was accepted, as long as it did not ask for
  a deletion (it has not expired) and its path covers the request, the same request is answered with a cookie of that
  name, scope and value, whatever the jar held before.
\<close>

theorem jar_store_then_match:
  assumes "store_wf (jar_store j)" "jar_store_header (memory_ops cap) env j uri header now = (Inr (), j')"
    and "prepare env uri header now = Inr c" "\<not> is_expired c now" "path_matches (request_path uri) (ck_path c)"
  shows "\<exists>c'. c' \<in> set (matching (memory_ops cap) (jar_store j') uri now) \<and> key_of c' = key_of c \<and> ck_value c' = ck_value c"
proof -
  have "j' = jar_insert (memory_ops cap) j c now SetCookieArrival" using assms(2,3) by (simp add: jar_store_header_def)
  then show ?thesis using mj.stored_then_matched [OF assms(1,3-5)] by simp
qed

lemma demo_path: "path_matches (request_path (demo_uri ''https'' ''www.BBC.co.uk'' ''/x'')) (ck_path demo_stored)"
  by (simp add: demo_uri_def request_path_def demo_stored_eq path_matches_def starts_with_def ends_with_def)

theorem jar_store_then_match_witness:
  "\<exists>j' c'. jar_store_header (memory_ops capacity_default) demo_env \<lparr>jar_store = held_default, next_seq = 0\<rparr>
      (demo_uri ''https'' ''www.BBC.co.uk'' ''/x'') ''sid=1; Domain=bbc.co.uk; Path=/; Secure'' 5 = (Inr (), j') \<and>
     c' \<in> set (matching (memory_ops capacity_default) (jar_store j') (demo_uri ''https'' ''www.BBC.co.uk'' ''/x'') 5) \<and>
     ck_value c' = ''1''"
proof -
  let ?j = "\<lparr>jar_store = held_default, next_seq = 0\<rparr>" and ?o = "memory_ops capacity_default"
  have h: "jar_store_header ?o demo_env ?j (demo_uri ''https'' ''www.BBC.co.uk'' ''/x'') ''sid=1; Domain=bbc.co.uk; Path=/; Secure'' 5
      = (Inr (), jar_insert ?o ?j demo_stored 5 SetCookieArrival)"
    by (simp add: jar_store_header_def demo_prepare)
  have w: "store_wf (jar_store ?j)" and e: "\<not> is_expired demo_stored 5" and v: "ck_value demo_stored = ''1''"
    by (simp_all add: store_wf_default is_expired_def demo_stored_eq)
  from jar_store_then_match [OF w h demo_prepare e demo_path] h v show ?thesis by auto
qed

section \<open>What every cookie of a jar is\<close>

definition jar_ok :: "suffix_list \<Rightarrow> held jar \<Rightarrow> bool" where
  "jar_ok psl j \<longleftrightarrow> store_wf (jar_store j) \<and> (\<forall>k c. lookup (jar_store j) k = Some c \<longrightarrow> cookie_ok psl c)"

lemma cookie_ok_arrival: "cookie_ok psl c \<Longrightarrow> cookie_ok psl (c\<lparr>ck_creation := t, ck_seq := n\<rparr>)"
  by (simp add: cookie_ok_def)

lemma accepted_ok:
  "winnow_ok (env_lexer env) \<Longrightarrow> c \<in> set (accepted env uri headers now) \<Longrightarrow> cookie_ok (env_suffixes env) c"
  by (auto simp: accepted_def split: sum.splits intro: prepare_cookie_ok)

lemma jar_ok_touch:
  assumes "jar_ok psl j"
  shows "jar_ok psl (j\<lparr>jar_store := op_touch (memory_ops cap) (jar_store j) ks now\<rparr>)"
  using assms mj.touch_inv [of "jar_store j" cap ks now]
    mj.touch_keeps [of "jar_store j" "cookie_ok psl" cap ks now] cookie_ok_times(3)
  unfolding jar_ok_def by simp

lemma jar_ok_insert:
  assumes "jar_ok psl j" "cookie_ok psl c"
  shows "jar_ok psl (jar_insert (memory_ops cap) j c now arr)"
  using assms mj.insert_inv [of j cap c now arr]
    mj.insert_keeps [of j "cookie_ok psl" c cap now arr] cookie_ok_arrival
  unfolding jar_ok_def by blast

section \<open>The header a server reads\<close>

definition read_cookie_pair :: "bytes \<Rightarrow> (bytes \<times> bytes) option" where
  "read_cookie_pair s = split_once (CHR ''='') (case s of [] \<Rightarrow> [] | b # r \<Rightarrow> if b = CHR '' '' then r else s)"

definition read_cookie_header :: "bytes \<Rightarrow> (bytes \<times> bytes) option list" where
  "read_cookie_header s = map read_cookie_pair (split_byte (CHR '';'') s)"

lemma header_bytes_Cons:
  "header_bytes (c # cs) = ck_name c @ ''='' @ ck_value c @ concat (map (\<lambda>c. ''; '' @ ck_name c @ ''='' @ ck_value c) cs)"
proof -
  have "foldl (\<lambda>out c. (if out = [] then out else out @ ''; '') @ ck_name c @ ''='' @ ck_value c) out cs =
      out @ concat (map (\<lambda>c. ''; '' @ ck_name c @ ''='' @ ck_value c) cs)" if "out \<noteq> []" for out
    using that by (induction cs arbitrary: out) auto
  then show ?thesis by (simp add: header_bytes_def)
qed

lemma split_header:
  assumes "\<And>c. c \<in> set cs \<Longrightarrow> CHR '';'' \<notin> set (ck_name c) \<and> CHR '';'' \<notin> set (ck_value c)" "CHR '';'' \<notin> set p"
  shows "split_byte (CHR '';'') (p @ concat (map (\<lambda>c. ''; '' @ ck_name c @ ''='' @ ck_value c) cs)) =
    p # map (\<lambda>c. CHR '' '' # ck_name c @ ''='' @ ck_value c) cs"
  using assms
proof (induction cs arbitrary: p)
  case Nil
  then have "split_once (CHR '';'') p = None" by (simp add: split_once_None)
  then show ?case by (simp add: split_byte_split_once [of _ p])
next
  case (Cons c cs)
  have s: "CHR '';'' \<notin> set (CHR '' '' # ck_name c @ ''='' @ ck_value c)" using Cons.prems(1) by simp
  have "split_byte (CHR '';'') ((CHR '' '' # ck_name c @ ''='' @ ck_value c) @ concat (map (\<lambda>c. ''; '' @ ck_name c @ ''='' @ ck_value c) cs)) =
      (CHR '' '' # ck_name c @ ''='' @ ck_value c) # map (\<lambda>c. CHR '' '' # ck_name c @ ''='' @ ck_value c) cs"
    using Cons.IH [OF _ s] Cons.prems(1) by simp
  then show ?case using split_byte_Cons [OF Cons.prems(2)] by simp
qed

lemma header_read:
  assumes "\<And>c. c \<in> set cs \<Longrightarrow> cookie_ok psl c" "cs \<noteq> []"
  shows "read_cookie_header (header_bytes cs) = map (\<lambda>c. Some (ck_name c, ck_value c)) cs \<and> \<not> list_ex is_ctl (header_bytes cs)"
proof -
  obtain c r where cs: "cs = c # r" using assms(2) by (cases cs) auto
  have ok: "CHR '';'' \<notin> set (ck_name x)" "CHR '';'' \<notin> set (ck_value x)" "CHR ''='' \<notin> set (ck_name x)"
    "\<not> is_blank (hd (ck_name x))" "ck_name x \<noteq> []" "\<not> list_ex is_ctl (ck_name x)" "\<not> list_ex is_ctl (ck_value x)"
    if "x \<in> set cs" for x using assms(1) [OF that] by (simp_all add: cookie_ok_def)
  have pair: "split_once (CHR ''='') (ck_name x @ ''='' @ ck_value x) = Some (ck_name x, ck_value x)" if "x \<in> set cs" for x
    using ok [OF that] by (simp add: split_once_Some)
  have "header_bytes cs = (ck_name c @ ''='' @ ck_value c) @ concat (map (\<lambda>c. ''; '' @ ck_name c @ ''='' @ ck_value c) r)"
    by (simp add: cs header_bytes_Cons)
  then have "split_byte (CHR '';'') (header_bytes cs) =
      (ck_name c @ ''='' @ ck_value c) # map (\<lambda>c. CHR '' '' # ck_name c @ ''='' @ ck_value c) r"
    using split_header [of r "ck_name c @ ''='' @ ck_value c"] ok cs by simp
  moreover have "read_cookie_pair (CHR '' '' # ck_name x @ ''='' @ ck_value x) = Some (ck_name x, ck_value x)" if "x \<in> set cs" for x
    using pair [OF that] by (simp add: read_cookie_pair_def)
  moreover have "read_cookie_pair (ck_name c @ ''='' @ ck_value c) = Some (ck_name c, ck_value c)"
    using pair [of c] ok(4,5) [of c] cs by (cases "ck_name c") (auto simp: read_cookie_pair_def is_blank_def)
  ultimately have "read_cookie_header (header_bytes cs) = map (\<lambda>c. Some (ck_name c, ck_value c)) cs"
    by (simp add: read_cookie_header_def cs)
  moreover have "\<not> is_ctl (CHR '';'')" "\<not> is_ctl (CHR '' '')" "\<not> is_ctl (CHR ''='')" by (simp_all add: is_ctl_def ascii_simps)
  then have "\<not> list_ex is_ctl (header_bytes cs)"
    using ok(6,7) by (auto simp: cs header_bytes_Cons list_ex_iff)
  ultimately show ?thesis by blast
qed

end
