(* ===== verification/Cookie_Persist.thy ===== *)
theory Cookie_Persist
  imports Cookie_Jar
begin

text \<open>
  Saving a jar and loading it back: \<open>crates/hclient/src/cookie/persist.rs\<close>. The records are plain data;
  \<open>restore_cookie\<close> is the part of \<open>CookieJar::restore\<close> that decides on a record, \<open>restore\<close> the whole of
  it, over the operations of any store. The lemmas show what is accepted, and that a jar that was saved
  comes back.
\<close>

section \<open>The model\<close>

record cookie_record =
  rec_name :: bytes
  rec_value :: bytes
  rec_domain :: bytes
  rec_path :: bytes
  rec_expires :: system_time
  rec_creation :: system_time
  rec_last_access :: system_time
  rec_host_only :: bool
  rec_secure :: bool
  rec_http_only :: bool
  rec_same_site :: "same_site option"

definition to_record :: "cookie \<Rightarrow> cookie_record option" where
  "to_record c =
     (case ck_expires c of
        None \<Rightarrow> None
      | Some e \<Rightarrow> Some \<lparr>rec_name = ck_name c, rec_value = ck_value c, rec_domain = ck_domain c, rec_path = ck_path c,
          rec_expires = e, rec_creation = ck_creation c, rec_last_access = ck_last_access c, rec_host_only = ck_host_only c,
          rec_secure = ck_secure c, rec_http_only = ck_http_only c, rec_same_site = ck_same_site c\<rparr>)"

text \<open>The normalisation of a domain: no leading dot, lower case.\<close>

definition scope_name :: "bytes \<Rightarrow> bytes" where
  "scope_name d = to_ascii_lowercase (case strip_prefix ''.'' d of Some r \<Rightarrow> r | None \<Rightarrow> d)"

definition from_record :: "cookie_record \<Rightarrow> cookie" where
  "from_record r = \<lparr>ck_name = rec_name r, ck_value = rec_value r, ck_domain = scope_name (rec_domain r), ck_path = rec_path r,
     ck_expires = Some (rec_expires r), ck_creation = rec_creation r, ck_last_access = rec_last_access r, ck_seq = 0,
     ck_host_only = rec_host_only r, ck_persistent = True, ck_secure = rec_secure r, ck_http_only = rec_http_only r,
     ck_same_site = rec_same_site r\<rparr>"

definition records :: "('s \<Rightarrow> cookie list) \<Rightarrow> 's jar \<Rightarrow> cookie_record list" where
  "records all j = List.map_filter to_record (all (jar_store j))"

text \<open>What becomes of a record: a refusal, nothing for one that has expired, or the cookie to insert.\<close>

definition restore_cookie :: "jar_env \<Rightarrow> cookie_record \<Rightarrow> system_time \<Rightarrow> rejected + cookie option" where
  "restore_cookie env r now =
     (if rec_name r = [] then Inl (Malformed EmptyName)
      else if list_ex is_ctl (rec_name r @ rec_value r) then Inl (Malformed ControlCharacter)
      else
     let size = length (rec_name r) + length (rec_value r);
         bound = max_name_value_bytes (env_limits env) in
     if size > bound then Inl (TooLarge size bound)
     else
     let d = scope_name (rec_domain r) in
     if d = [] then Inl EmptyDomain
     else if \<not> starts_with (rec_path r) ''/'' then Inl (RelativePath (rec_path r))
     else if \<not> rec_host_only r \<and> is_ip_literal d then Inl (IpDomainNotHostOnly d)
     else if \<not> rec_host_only r \<and> is_public_suffix (env_suffixes env) d then
       Inl (if has_list (env_suffixes env) then DomainIsPublicSuffix d else NoPublicSuffixList d)
     else
     let lower = to_ascii_lowercase (rec_name r) in
     if starts_with lower ''__secure-'' \<and> \<not> rec_secure r then Inl SecurePrefix
     else if starts_with lower ''__host-'' \<and> \<not> (rec_secure r \<and> rec_host_only r \<and> rec_path r = ''/'') then Inl HostPrefix
     else
     let e = (case checked_add now MAX_EXPIRY of Some cap \<Rightarrow> min (rec_expires r) cap | None \<Rightarrow> rec_expires r) in
     if e \<le> now then Inr None
     else Inr (Some \<lparr>ck_name = rec_name r, ck_value = rec_value r, ck_domain = d, ck_path = rec_path r, ck_expires = Some e,
       ck_creation = rec_creation r, ck_last_access = rec_last_access r, ck_seq = 0, ck_host_only = rec_host_only r,
       ck_persistent = True, ck_secure = rec_secure r, ck_http_only = rec_http_only r, ck_same_site = rec_same_site r\<rparr>))"

definition restore :: "'s store_ops \<Rightarrow> jar_env \<Rightarrow> 's jar \<Rightarrow> cookie_record \<Rightarrow> system_time \<Rightarrow> (rejected + unit) \<times> 's jar" where
  "restore ops env j r now =
     (case restore_cookie env r now of
        Inl e \<Rightarrow> (Inl e, j)
      | Inr None \<Rightarrow> (Inr (), j)
      | Inr (Some c) \<Rightarrow> (Inr (), jar_insert ops j c now RecordArrival))"

section \<open>What a record has to say to come back\<close>

definition record_ok :: "jar_env \<Rightarrow> cookie_record \<Rightarrow> bool" where
  "record_ok env r \<longleftrightarrow>
     rec_name r \<noteq> [] \<and> \<not> list_ex is_ctl (rec_name r) \<and> \<not> list_ex is_ctl (rec_value r) \<and>
     length (rec_name r) + length (rec_value r) \<le> max_name_value_bytes (env_limits env) \<and>
     scope_name (rec_domain r) \<noteq> [] \<and> starts_with (rec_path r) ''/'' \<and>
     (rec_host_only r \<or> \<not> is_ip_literal (scope_name (rec_domain r)) \<and>
        \<not> is_public_suffix (env_suffixes env) (scope_name (rec_domain r))) \<and>
     (starts_with (to_ascii_lowercase (rec_name r)) ''__secure-'' \<longrightarrow> rec_secure r) \<and>
     (starts_with (to_ascii_lowercase (rec_name r)) ''__host-'' \<longrightarrow> rec_secure r \<and> rec_host_only r \<and> rec_path r = ''/'')"

text \<open>The end of a restored cookie: what the record says, but within 400 days.\<close>

definition capped :: "system_time \<Rightarrow> system_time \<Rightarrow> system_time" where
  "capped now e = (case checked_add now MAX_EXPIRY of Some cap \<Rightarrow> min e cap | None \<Rightarrow> e)"

lemma restore_cookie_iff:
  "restore_cookie env r now =
     (if record_ok env r then
        Inr (if capped now (rec_expires r) \<le> now then None
             else Some ((from_record r)\<lparr>ck_expires := Some (capped now (rec_expires r))\<rparr>))
      else Inl (projl (restore_cookie env r now)))"
  unfolding restore_cookie_def record_ok_def Let_def from_record_def capped_def
  by (auto simp: list_ex_append split: option.splits)

text \<open>Every refusal is true of the record.\<close>

lemma restore_refusal_sound:
  assumes "restore_cookie env r now = Inl e"
  shows "case e of
      Malformed pe \<Rightarrow> pe = EmptyName \<and> rec_name r = [] \<or> pe = ControlCharacter \<and> list_ex is_ctl (rec_name r @ rec_value r)
    | TooLarge n bound \<Rightarrow> n = length (rec_name r) + length (rec_value r) \<and> bound = max_name_value_bytes (env_limits env) \<and> bound < n
    | EmptyDomain \<Rightarrow> rec_domain r = [] \<or> rec_domain r = ''.''
    | RelativePath p \<Rightarrow> p = rec_path r \<and> \<not> starts_with p ''/''
    | IpDomainNotHostOnly d \<Rightarrow> d = scope_name (rec_domain r) \<and> is_ip_literal d \<and> \<not> rec_host_only r
    | DomainIsPublicSuffix d \<Rightarrow> d = scope_name (rec_domain r) \<and> is_public_suffix (env_suffixes env) d \<and> has_list (env_suffixes env) \<and> \<not> rec_host_only r
    | NoPublicSuffixList d \<Rightarrow> d = scope_name (rec_domain r) \<and> \<not> has_list (env_suffixes env) \<and> \<not> rec_host_only r
    | SecurePrefix \<Rightarrow> starts_with (to_ascii_lowercase (rec_name r)) ''__secure-'' \<and> \<not> rec_secure r
    | HostPrefix \<Rightarrow> starts_with (to_ascii_lowercase (rec_name r)) ''__host-'' \<and> \<not> (rec_secure r \<and> rec_host_only r \<and> rec_path r = ''/'')
    | _ \<Rightarrow> False"
proof -
  have "scope_name d = [] \<Longrightarrow> d = [] \<or> d = ''.''" for d
    by (cases d) (auto simp: scope_name_def strip_prefix_def starts_with_def to_ascii_lowercase_def split: if_splits)
  then show ?thesis
    using assms unfolding restore_cookie_def Let_def by (auto split: if_splits)
qed

section \<open>The jars a client can come to have\<close>

text \<open>
  From an empty jar: single headers, the headers of responses, requests, records that are restored and clearing. \<open>P\<close> says which records the
  caller restores; the file they come from may say anything.
\<close>

inductive reachable :: "(cookie_record \<Rightarrow> bool) \<Rightarrow> capacity \<Rightarrow> jar_env \<Rightarrow> held jar \<Rightarrow> bool" for P cap env where
  fresh: "reachable P cap env \<lparr>jar_store = held_default, next_seq = 0\<rparr>"
| one_header: "reachable P cap env j \<Longrightarrow> reachable P cap env (snd (jar_store_header (memory_ops cap) env j uri header now))"
| response: "reachable P cap env j \<Longrightarrow> reachable P cap env (snd (store_response (memory_ops cap) env j uri headers now))"
| request: "reachable P cap env j \<Longrightarrow> reachable P cap env (snd (cookie_header fb (memory_ops cap) j uri now))"
| restored: "reachable P cap env j \<Longrightarrow> P r \<Longrightarrow> reachable P cap env (snd (restore (memory_ops cap) env j r now))"
| cleared: "reachable P cap env j \<Longrightarrow> reachable P cap env (jar_clear store_clear j)"

text \<open>A record whose name and value a \<open>Set-Cookie\<close> header could have carried.\<close>

definition separator_free :: "cookie_record \<Rightarrow> bool" where
  "separator_free r \<longleftrightarrow> CHR '';'' \<notin> set (rec_name r) \<and> CHR ''='' \<notin> set (rec_name r) \<and> \<not> is_blank (hd (rec_name r)) \<and> CHR '';'' \<notin> set (rec_value r)"

lemma restored_cookie: "restore_cookie env r now = Inr (Some c) \<Longrightarrow>
    record_ok env r \<and> c = (from_record r)\<lparr>ck_expires := Some (capped now (rec_expires r))\<rparr>"
  using restore_cookie_iff [of env r now] by (cases "record_ok env r") (auto split: if_splits)

lemma restored_ok: "separator_free r \<Longrightarrow> restore_cookie env r now = Inr (Some c) \<Longrightarrow> cookie_ok (env_suffixes env) c"
  using to_ascii_lowercase_idem
  by (auto dest!: restored_cookie simp: record_ok_def separator_free_def cookie_ok_def from_record_def scope_name_def)

lemma reachable_ok:
  assumes "winnow_ok (env_lexer env)" "reachable separator_free cap env j"
  shows "jar_ok (env_suffixes env) j"
  using assms(2)
proof induction
  case fresh
  then show ?case by (simp add: jar_ok_def store_wf_default) (simp add: lookup_def held_default_def)
next
  case (one_header j uri header now)
  then show ?case
    using prepare_cookie_ok [OF assms(1)] jar_ok_insert by (auto simp: jar_store_header_def split: sum.splits)
next
  case (response j uri headers now)
  have "jar_ok (env_suffixes env) (snd (foldl (place (memory_ops cap) held now) ([], j) (accepted env uri headers now)))" for held
    using mj.places_keep [of "([], j)" "cookie_ok (env_suffixes env)" "accepted env uri headers now" cap held now]
      response.IH accepted_ok [OF assms(1)] cookie_ok_arrival
    unfolding jar_ok_def by simp
  then show ?case using response.IH by (simp add: store_response_def Let_def)
next
  case (request j fb uri now)
  then show ?case using jar_ok_touch by (auto simp: cookie_header_def Let_def)
next
  case (restored j r now)
  then show ?case
    using restored_ok [OF restored.hyps(2)] jar_ok_insert by (auto simp: restore_def split: sum.splits option.splits)
next
  case (cleared j)
  then show ?case by (simp add: jar_ok_def jar_clear_def store_clear_def store_wf_def entries_wf_def lookup_def)
qed

text \<open>
  Property C25. The header is exact and safe: in every jar a client can come to have, by responses, requests, clearing and
  restoring records whose name and value a \<open>Set-Cookie\<close> field could have carried (no semicolon, and in the name no equals sign and no blank before it), each cookie is
  well formed (no separator or control character, a lower-case domain, an absolute path, no public
  suffix as a shared scope, prefixes honoured), a \<open>Cookie\<close> header is sent whenever a cookie applies, and
  a server that cuts it at the semicolons reads back exactly the names and values that apply, in order. Of a record, \<open>restore\<close> does not ask that itself, and a value with a
  semicolon breaks the header (\<open>separator_restored\<close>).
\<close>

theorem jar_header_exact:
  assumes "winnow_ok (env_lexer env)" "reachable separator_free cap env j" "\<And>s. \<not> list_ex is_ctl s \<Longrightarrow> from_bytes_ok s"
  shows "jar_ok (env_suffixes env) j \<and>
    (case fst (cookie_header from_bytes_ok (memory_ops cap) j uri now) of
       None \<Rightarrow> matching (memory_ops cap) (jar_store j) uri now = []
     | Some out \<Rightarrow> read_cookie_header out =
         map (\<lambda>c. Some (ck_name c, ck_value c)) (matching (memory_ops cap) (jar_store j) uri now))"
proof -
  let ?m = "matching (memory_ops cap) (jar_store j) uri now"
  have ok: "jar_ok (env_suffixes env) j" by (rule reachable_ok [OF assms(1,2)])
  then have c: "cookie_ok (env_suffixes env) c" if "c \<in> set ?m" for c
    using that mj.matching_exact [of "jar_store j" c cap uri now] unfolding jar_ok_def by blast
  then have r: "?m \<noteq> [] \<Longrightarrow> read_cookie_header (header_bytes ?m) = map (\<lambda>c. Some (ck_name c, ck_value c)) ?m"
    and f: "?m \<noteq> [] \<Longrightarrow> from_bytes_ok (header_bytes ?m)" using header_read assms(3) by blast+
  show ?thesis using ok r f by (cases "?m = []") (simp_all add: cookie_header_def Let_def)
qed

theorem jar_header_exact_witness:
  "case fst (cookie_header (\<lambda>s. \<not> list_ex is_ctl s) (memory_ops capacity_default)
       (snd (jar_store_header (memory_ops capacity_default) demo_env \<lparr>jar_store = held_default, next_seq = 0\<rparr>
         (demo_uri ''https'' ''www.BBC.co.uk'' ''/x'') ''sid=1; Domain=bbc.co.uk; Path=/; Secure'' 5))
       (demo_uri ''https'' ''www.BBC.co.uk'' ''/x'') 5) of
     None \<Rightarrow> False | Some out \<Rightarrow> Some (''sid'', ''1'') \<in> set (read_cookie_header out)"
proof -
  let ?o = "memory_ops capacity_default" and ?u = "demo_uri ''https'' ''www.BBC.co.uk'' ''/x''"
  let ?j = "\<lparr>jar_store = held_default, next_seq = 0\<rparr>"
  let ?j' = "snd (jar_store_header ?o demo_env ?j ?u ''sid=1; Domain=bbc.co.uk; Path=/; Secure'' 5)"
  have w: "winnow_ok (env_lexer demo_env)" by (simp add: demo_env_def ref_lexer_ok)
  have r: "reachable separator_free capacity_default demo_env ?j'" by (intro reachable.intros)
  have j: "?j' = jar_insert ?o ?j demo_stored 5 SetCookieArrival" by (simp add: jar_store_header_def demo_prepare)
  have e: "store_wf (jar_store ?j)" "\<not> is_expired demo_stored 5" by (simp_all add: store_wf_default is_expired_def demo_stored_eq)
  obtain c' where c: "c' \<in> set (matching ?o (jar_store ?j') ?u 5)" "key_of c' = key_of demo_stored" "ck_value c' = ck_value demo_stored"
    using mj.stored_then_matched [OF e(1) demo_prepare e(2) demo_path] j by metis
  then have "ck_name c' = ''sid''" "ck_value c' = ''1''" by (simp_all add: key_of_def demo_stored_eq)
  then have "Some (''sid'', ''1'') \<in> set (map (\<lambda>c. Some (ck_name c, ck_value c)) (matching ?o (jar_store ?j') ?u 5))"
    using imageI [OF c(1), of "\<lambda>c. Some (ck_name c, ck_value c)"] by simp
  then show ?thesis
    using conjunct2 [OF jar_header_exact [OF w r, of "\<lambda>s. \<not> list_ex is_ctl s" ?u 5]]
    by (cases "fst (cookie_header (\<lambda>s. \<not> list_ex is_ctl s) ?o ?j' ?u 5)") auto
qed

section \<open>One record\<close>

lemma restore_rejected: "\<not> record_ok env r \<Longrightarrow> \<exists>e. restore ops env j r now = (Inl e, j)"
  unfolding restore_def by (subst restore_cookie_iff) auto

lemma restore_expired: "record_ok env r \<Longrightarrow> capped now (rec_expires r) \<le> now \<Longrightarrow> restore ops env j r now = (Inr (), j)"
  unfolding restore_def by (subst restore_cookie_iff) simp

lemma restore_live:
  "record_ok env r \<Longrightarrow> now < capped now (rec_expires r) \<Longrightarrow>
    restore ops env j r now =
      (Inr (), jar_insert ops j ((from_record r)\<lparr>ck_expires := Some (capped now (rec_expires r))\<rparr>) now RecordArrival)"
  unfolding restore_def by (subst restore_cookie_iff) simp

context cookie_jar begin

text \<open>A record keeps its times; only the arrival number is the jar's.\<close>

lemma record_insert:
  assumes "inv (jar_store j)"
  shows "jar_insert ops j c now RecordArrival =
    (case look (jar_store j) (key_of c) of
       Some old \<Rightarrow> j\<lparr>jar_store := op_put ops (jar_store j) (c\<lparr>ck_seq := ck_seq old\<rparr>) now\<rparr>
     | None \<Rightarrow> j\<lparr>jar_store := op_put ops (jar_store j) (c\<lparr>ck_seq := next_seq j\<rparr>) now, next_seq := seq_after (next_seq j)\<rparr>)"
  using find_held [OF assms, of "key_of c"] by (simp add: jar_insert_def split: option.splits)

lemma key_of_seq: "key_of (c\<lparr>ck_seq := n\<rparr>) = key_of c" "is_expired (c\<lparr>ck_seq := n\<rparr>) = is_expired c"
  by (simp_all add: key_of_def is_expired_def fun_eq_iff)

lemma record_inserted:
  fixes j :: "'s jar" and c :: cookie and now :: system_time
  assumes "inv (jar_store j)" "\<not> is_expired c now"
  defines "j' \<equiv> jar_insert ops j c now RecordArrival"
  shows "inv (jar_store j') \<and>
    look (jar_store j') (key_of c) =
      Some (c\<lparr>ck_seq := (case look (jar_store j) (key_of c) of Some old \<Rightarrow> ck_seq old | None \<Rightarrow> next_seq j)\<rparr>) \<and>
    (\<forall>k x. k \<noteq> key_of c \<longrightarrow> look (jar_store j') k = Some x \<longrightarrow> look (jar_store j) k = Some x)"
proof -
  define n where "n = (case look (jar_store j) (key_of c) of Some old \<Rightarrow> ck_seq old | None \<Rightarrow> next_seq j)"
  have s: "jar_store j' = op_put ops (jar_store j) (c\<lparr>ck_seq := n\<rparr>) now"
    unfolding j'_def record_insert [OF assms(1)] n_def by (simp split: option.splits)
  have "look (jar_store j') (key_of (c\<lparr>ck_seq := n\<rparr>)) = Some (c\<lparr>ck_seq := n\<rparr>)"
    unfolding s using put_key [OF assms(1), of "c\<lparr>ck_seq := n\<rparr>" now] assms(2) by (simp add: key_of_seq)
  moreover have "look (jar_store j) k = Some x" if "k \<noteq> key_of c" "look (jar_store j') k = Some x" for k x
    using put_other [OF assms(1), of k "c\<lparr>ck_seq := n\<rparr>" now x] that unfolding s by (simp add: key_of_seq)
  ultimately show ?thesis using put_inv [OF assms(1)] s by (simp add: key_of_seq n_def)
qed

end

text \<open>
  Property C12. A record on disk is a claim, and \<open>restore\<close> decides it: a record whose name, value, domain,
  path or prefix the rules do not allow is refused, and like one that has expired it changes nothing;
  every other record is held afterwards exactly as it was saved, its times included, its end within
  400 days. Beside it nothing is added to the jar or changed in it, and of the cookies that have not expired it loses one
  at most: only when its key is new and one of the bounds is reached, and then no cookie of the same domain that stays was used longer ago.
\<close>

theorem restore_decides:
  assumes "store_wf (jar_store j)" "within cap (jar_store j)" "restore (memory_ops cap) env j r now = (answer, j')"
  shows "(answer = Inr () \<longleftrightarrow> record_ok env r) \<and> store_wf (jar_store j') \<and> within cap (jar_store j') \<and>
    (if record_ok env r \<and> now < capped now (rec_expires r) then
       lookup (jar_store j') (key_of (from_record r)) =
         Some ((from_record r)\<lparr>ck_expires := Some (capped now (rec_expires r)),
           ck_seq := (case lookup (jar_store j) (key_of (from_record r)) of Some old \<Rightarrow> ck_seq old | None \<Rightarrow> next_seq j)\<rparr>) \<and>
       (\<forall>k. k \<noteq> key_of (from_record r) \<longrightarrow> lookup (jar_store j') k = None \<or> lookup (jar_store j') k = lookup (jar_store j) k) \<and>
       (\<exists>v. \<forall>x. lookup (jar_store j) (key_of x) = Some x \<and> \<not> is_expired x now \<and> key_of x \<noteq> key_of (from_record r) \<and>
            lookup (jar_store j') (key_of x) = None \<longrightarrow>
          x = v \<and> \<not> has_room cap (jar_store j) (from_record r) now \<and>
          (\<forall>y. lookup (jar_store j') (key_of y) = Some y \<and> key_of y \<noteq> key_of (from_record r) \<and> ck_domain y = ck_domain x \<longrightarrow> \<not> lru_before y x))
     else j' = j)"
proof (cases "record_ok env r \<and> now < capped now (rec_expires r)")
  case True
  let ?c = "(from_record r)\<lparr>ck_expires := Some (capped now (rec_expires r))\<rparr>"
  have r: "answer = Inr ()" "j' = jar_insert (memory_ops cap) j ?c now RecordArrival"
    using restore_live [of env r now "memory_ops cap" j] True assms(3) by simp_all
  have k: "key_of ?c = key_of (from_record r)" and e: "\<not> is_expired ?c now"
    using True by (simp_all add: key_of_def is_expired_def)
  have same: "lookup (jar_store j') k = None \<or> lookup (jar_store j') k = lookup (jar_store j) k"
    if "k \<noteq> key_of (from_record r)" for k
    using mj.record_inserted [OF assms(1) e, of cap] that unfolding r(2) k
    by (cases "lookup (jar_store (jar_insert (memory_ops cap) j ?c now RecordArrival)) k") auto
  obtain n where n: "jar_store j' = store_put cap (jar_store j) (?c\<lparr>ck_seq := n\<rparr>) now"
    unfolding r(2) mj.record_insert [OF assms(1)] by (cases "lookup (jar_store j) (key_of ?c)") (simp_all add: memory_ops_def)
  have kn: "key_of (?c\<lparr>ck_seq := n\<rparr>) = key_of (from_record r)" by (simp add: key_of_def)
  obtain v where v: "\<And>x. lookup (jar_store j) (key_of x) = Some x \<Longrightarrow> \<not> is_expired x now \<Longrightarrow> key_of x \<noteq> key_of (from_record r) \<Longrightarrow>
      lookup (jar_store j') (key_of x) = None \<Longrightarrow> x = v"
    using put_loses_one [OF assms(1,2), of now "?c\<lparr>ck_seq := n\<rparr>"] unfolding kn n by blast
  have ok: "put_ok cap (jar_store j) (?c\<lparr>ck_seq := n\<rparr>) now (jar_store j')" unfolding n by (rule put_spec [OF assms(1)])
  have room: "has_room cap (jar_store j) (?c\<lparr>ck_seq := n\<rparr>) now = has_room cap (jar_store j) (from_record r) now"
    by (simp add: has_room_def key_of_def)
  have "\<not> has_room cap (jar_store j) (from_record r) now"
    if "lookup (jar_store j) (key_of x) = Some x" "\<not> is_expired x now" "key_of x \<noteq> key_of (from_record r)"
      "lookup (jar_store j') (key_of x) = None" for x
  proof
    assume "has_room cap (jar_store j) (from_record r) now"
    then have "lookup (jar_store j') = put_map (lookup (jar_store j)) (?c\<lparr>ck_seq := n\<rparr>) now"
      using ok unfolding put_ok_def room by blast
    moreover have "alive now (lookup (jar_store j)) (key_of x) = Some x" using that by (simp add: alive_Some)
    ultimately have "lookup (jar_store j') (key_of x) = Some x" using that(3) unfolding put_map_def kn by simp
    then show False using that(4) by simp
  qed
  moreover have "\<not> lru_before y x"
    if "lookup (jar_store j) (key_of x) = Some x" "\<not> is_expired x now" "key_of x \<noteq> key_of (from_record r)"
      "lookup (jar_store j') (key_of x) = None" "lookup (jar_store j') (key_of y) = Some y" "key_of y \<noteq> key_of (from_record r)"
      "ck_domain y = ck_domain x" for x y
    using memory_store_evicts_lru [OF assms(1) that(1,2), of "?c\<lparr>ck_seq := n\<rparr>" cap y] that kn unfolding n by metis
  ultimately have lost: "\<exists>v. \<forall>x. lookup (jar_store j) (key_of x) = Some x \<and> \<not> is_expired x now \<and> key_of x \<noteq> key_of (from_record r) \<and>
            lookup (jar_store j') (key_of x) = None \<longrightarrow>
          x = v \<and> \<not> has_room cap (jar_store j) (from_record r) now \<and>
          (\<forall>y. lookup (jar_store j') (key_of y) = Some y \<and> key_of y \<noteq> key_of (from_record r) \<and> ck_domain y = ck_domain x \<longrightarrow> \<not> lru_before y x)"
    using v by (intro exI [of _ v]) blast
  have "within cap (jar_store j')" using ok assms(2) by (simp add: put_ok_def)
  then show ?thesis
    using mj.record_inserted [OF assms(1) e, of cap] True same lost unfolding r(1) r(2) k by simp
next
  case False
  show ?thesis
  proof (cases "record_ok env r")
    case True
    then show ?thesis using False restore_expired [OF True, of now "memory_ops cap" j] assms by (auto simp: not_less)
  next
    case False
    then show ?thesis using restore_rejected [OF False, of "memory_ops cap" j now] assms by auto
  qed
qed

definition demo_record :: cookie_record where
  "demo_record = \<lparr>rec_name = ''sid'', rec_value = ''1'', rec_domain = ''.BBC.co.uk'', rec_path = ''/'', rec_expires = 90,
     rec_creation = 5, rec_last_access = 7, rec_host_only = True, rec_secure = True, rec_http_only = False, rec_same_site = None\<rparr>"

lemma demo_record_ok: "record_ok demo_env demo_record" "from_record demo_record = \<lparr>ck_name = ''sid'', ck_value = ''1'',
    ck_domain = ''bbc.co.uk'', ck_path = ''/'', ck_expires = Some 90, ck_creation = 5, ck_last_access = 7, ck_seq = 0,
    ck_host_only = True, ck_persistent = True, ck_secure = True, ck_http_only = False, ck_same_site = None\<rparr>"
proof -
  have "scope_name ''.BBC.co.uk'' = ''bbc.co.uk''" "to_ascii_lowercase ''sid'' = ''sid''" "\<not> list_ex is_ctl ''sid''" "\<not> list_ex is_ctl ''1''" by code_simp+
  then show "record_ok demo_env demo_record" "from_record demo_record = \<lparr>ck_name = ''sid'', ck_value = ''1'',
    ck_domain = ''bbc.co.uk'', ck_path = ''/'', ck_expires = Some 90, ck_creation = 5, ck_last_access = 7, ck_seq = 0,
    ck_host_only = True, ck_persistent = True, ck_secure = True, ck_http_only = False, ck_same_site = None\<rparr>"
    by (simp_all add: record_ok_def demo_record_def demo_env_def limits_default_def starts_with_def from_record_def)
qed

theorem restore_decides_witness:
  "\<exists>j'. restore (memory_ops capacity_default) demo_env \<lparr>jar_store = held_default, next_seq = 3\<rparr> demo_record 9 = (Inr (), j') \<and>
     lookup (jar_store j') (key_of (from_record demo_record)) = Some ((from_record demo_record)\<lparr>ck_seq := 3\<rparr>)"
proof -
  let ?j = "\<lparr>jar_store = held_default, next_seq = 3\<rparr>"
  obtain a j' where r: "restore (memory_ops capacity_default) demo_env ?j demo_record 9 = (a, j')" by force
  have w: "store_wf (jar_store ?j)" by (simp add: store_wf_default)
  have c: "capped 9 (rec_expires demo_record) = 90"
    by (simp add: capped_def checked_add_def MAX_EXPIRY_def systime_max_def demo_record_def)
  have n: "lookup held_default k = None" for k by (simp add: lookup_def held_default_def)
  have f: "from_record demo_record\<lparr>ck_expires := Some 90, ck_seq := 3\<rparr> = from_record demo_record\<lparr>ck_seq := 3\<rparr>"
    by (simp add: demo_record_ok)
  have i: "within capacity_default (jar_store ?j)" by (simp add: within_def held_default_def capacity_default_def)
  from restore_decides [OF w i r] show ?thesis using r by (auto simp: demo_record_ok(1) c n f)
qed

section \<open>A whole jar\<close>

lemma in_contents_lookup: "store_wf h \<Longrightarrow> c \<in> set (contents (by_domain h)) \<longleftrightarrow> lookup h (key_of c) = Some c"
  by (simp add: lookup_Some)

lemma lookup_dom: "store_wf h \<Longrightarrow> dom (lookup h) = key_of ` set (contents (by_domain h))"
proof -
  assume "store_wf h"
  from lookup_Some [OF this] show ?thesis by (auto simp: dom_def image_iff)
qed

lemma held_count_dom: "store_wf h \<Longrightarrow> held_count h = card (dom (lookup h)) \<and> finite (dom (lookup h))"
  using entries_distinct [of "by_domain h"] distinct_card [of "map key_of (contents (by_domain h))"]
  by (simp add: lookup_dom) (simp add: store_wf_def)

lemma group_dom:
  assumes "store_wf h"
  shows "map_of (by_domain h) d = Some cs \<Longrightarrow> length cs = card {k \<in> dom (lookup h). key_domain k = d}"
    and "map_of (by_domain h) d = None \<Longrightarrow> {k \<in> dom (lookup h). key_domain k = d} = {}"
proof -
  have ew: "entries_wf (by_domain h)" using assms by (simp add: store_wf_def)
  note g = in_group [OF ew, of _ d]
  have s: "{k \<in> dom (lookup h). key_domain k = d} = key_of ` {c. c \<in> set (contents (by_domain h)) \<and> ck_domain c = d}"
    unfolding lookup_dom [OF assms] by auto
  show "length cs = card {k \<in> dom (lookup h). key_domain k = d}" if "map_of (by_domain h) d = Some cs"
  proof -
    have "(d, cs) \<in> set (by_domain h)" using that by (rule map_of_SomeD)
    then have "distinct (map key_of cs)" using ew by (auto simp: entries_wf_def list_all_iff group_ok_def)
    then show ?thesis using distinct_card [of "map key_of cs"] that unfolding s g by simp
  qed
  show "{k \<in> dom (lookup h). key_domain k = d} = {}" if "map_of (by_domain h) d = None"
    using that unfolding s g by simp
qed

text \<open>A store that holds part of what another one holds within its bounds has room for one more of it.\<close>

lemma part_has_room:
  fixes cap :: capacity
  assumes h: "store_wf h" "within cap h" and cap: "0 < max_cookies cap" "0 < max_per_domain cap"
    and g: "store_wf g" "dom (lookup g) \<subseteq> dom (lookup h)"
    and c: "key_of c \<in> dom (lookup h)" "lookup g (key_of c) = None"
  shows "has_room cap g c now"
proof -
  define p where "p = purge_expired g now"
  have p: "store_wf p" "lookup p = alive now (lookup g)" using purge_wf [OF g(1)] lookup_purge [OF g(1)] by (simp_all add: p_def)
  then have "dom (lookup p) \<subseteq> dom (lookup g)" by (auto simp: alive_Some)
  then have sub: "insert (key_of c) (dom (lookup p)) \<subseteq> dom (lookup h)" and new: "key_of c \<notin> dom (lookup p)"
    using g(2) c by auto
  note fin = held_count_dom [OF h(1)] held_count_dom [OF p(1)]
  have "card (insert (key_of c) (dom (lookup p))) \<le> card (dom (lookup h))" using sub fin by (intro card_mono) auto
  then have total: "held_count p < max_cookies cap" using new fin h(2) cap(1) by (simp add: within_def)
  have "length cs < max_per_domain cap" if cs: "map_of (by_domain p) (ck_domain c) = Some cs" for cs
  proof -
    let ?G = "\<lambda>h. {k \<in> dom (lookup h). key_domain k = ck_domain c}"
    have "insert (key_of c) (?G p) \<subseteq> ?G h" using sub by auto
    then have le: "card (insert (key_of c) (?G p)) \<le> card (?G h)" using fin by (intro card_mono) auto
    have "?G h \<noteq> {}" using c(1) by auto
    then obtain cs' where cs': "map_of (by_domain h) (ck_domain c) = Some cs'" using group_dom(2) [OF h(1)] by fastforce
    then have "(ck_domain c, cs') \<in> set (by_domain h)" by (rule map_of_SomeD)
    then have "length cs' \<le> max_per_domain cap" using h(2) cap(2) by (auto simp: within_def list_all_iff)
    moreover have "Suc (card (?G p)) \<le> card (?G h)" using le new fin by simp
    ultimately show ?thesis using group_dom(1) [OF h(1) cs'] group_dom(1) [OF p(1) cs] by linarith
  qed
  then show ?thesis using total by (simp add: has_room_def Let_def p_def [symmetric] split: option.splits)
qed

lemma new_binding: "m (key_of c) = None \<Longrightarrow> (m(key_of c \<mapsto> c)) (key_of x) = Some x \<longleftrightarrow> x = c \<or> m (key_of x) = Some x"
  by (cases "key_of x = key_of c") auto

text \<open>The records that were restored are the cookies of the jar, numbered in their order.\<close>

definition nth_cookie :: "cookie_record list \<Rightarrow> nat \<Rightarrow> cookie" where
  "nth_cookie xs i = (from_record (xs ! i))\<lparr>ck_seq := i\<rparr>"

definition holds_exactly :: "cookie_record list \<Rightarrow> held jar \<Rightarrow> bool" where
  "holds_exactly xs j \<longleftrightarrow> store_wf (jar_store j) \<and> next_seq j = length xs \<and>
     set (contents (by_domain (jar_store j))) = nth_cookie xs ` {..<length xs}"

lemma nth_cookie_simps [simp]:
  "key_of (nth_cookie xs i) = key_of (from_record (xs ! i))" "ck_seq (nth_cookie xs i) = i"
  "is_expired (nth_cookie xs i) now \<longleftrightarrow> rec_expires (xs ! i) \<le> now"
  by (simp_all add: nth_cookie_def key_of_def is_expired_def from_record_def)

lemma holds_exactly_snoc:
  fixes cap :: capacity
  assumes h: "store_wf h" "within cap h" and cap: "0 < max_cookies cap" "0 < max_per_domain cap"
    and j: "holds_exactly xs j" "\<forall>x \<in> set xs. now < rec_expires x" "\<forall>x \<in> set (xs @ [r]). key_of (from_record x) \<in> dom (lookup h)"
    and new: "key_of (from_record r) \<notin> (key_of \<circ> from_record) ` set xs" "Suc (length xs) < 2 ^ 64"
    and r: "record_ok env r" "now < rec_expires r" "capped now (rec_expires r) = rec_expires r"
  shows "\<exists>j'. restore (memory_ops cap) env j r now = (Inr (), j') \<and> holds_exactly (xs @ [r]) j'"
proof -
  let ?g = "jar_store j" and ?c = "nth_cookie (xs @ [r]) (length xs)"
  have wf: "store_wf ?g" and ns: "next_seq j = length xs" and held: "set (contents (by_domain ?g)) = nth_cookie xs ` {..<length xs}"
    using j(1) by (auto simp: holds_exactly_def)
  have keys: "dom (lookup ?g) = (key_of \<circ> from_record) ` set xs"
    unfolding lookup_dom [OF wf] held by (force simp: image_image in_set_conv_nth)
  have kc: "key_of ?c = key_of (from_record r)" and ec: "\<not> is_expired ?c now" using r(2) by simp_all
  have none: "lookup ?g (key_of (from_record r)) = None" using new(1) keys by (metis domIff)
  have room: "has_room cap ?g ?c now"
    using part_has_room [OF h cap wf, of ?c now] j(3) keys none kc by auto
  have "from_record r\<lparr>ck_expires := Some (rec_expires r)\<rparr> = from_record r" by (simp add: from_record_def)
  then have "restore (memory_ops cap) env j r now = (Inr (), jar_insert (memory_ops cap) j (from_record r) now RecordArrival)"
    using restore_live [OF r(1), of now "memory_ops cap" j] r(2,3) by simp
  moreover have "jar_insert (memory_ops cap) j (from_record r) now RecordArrival = \<lparr>jar_store = store_put cap ?g ?c now, next_seq = length (xs @ [r])\<rparr>"
    using mj.record_insert [OF wf, of cap "from_record r" now] none ns new(2)
    by (cases j) (simp add: memory_ops_def nth_cookie_def seq_after_def)
  moreover have "holds_exactly (xs @ [r]) \<lparr>jar_store = store_put cap ?g ?c now, next_seq = length (xs @ [r])\<rparr>"
  proof -
    have ok: "store_wf (store_put cap ?g ?c now)" "lookup (store_put cap ?g ?c now) = put_map (lookup ?g) ?c now"
      using put_spec [OF wf, of cap ?c now] room by (auto simp: put_ok_def)
    have "alive now (lookup ?g) = lookup ?g"
    proof
      fix k
      have "\<not> is_expired x now" if "lookup ?g k = Some x" for x
      proof -
        have "x \<in> nth_cookie xs ` {..<length xs}" using that lookup_Some [OF wf] held by blast
        then obtain i where i: "i < length xs" "x = nth_cookie xs i" by blast
        then have "now < rec_expires (xs ! i)" using j(2) nth_mem by blast
        then show ?thesis using i(2) by simp
      qed
      then show "alive now (lookup ?g) k = lookup ?g k" by (auto simp: alive_def split: option.splits)
    qed
    then have l: "lookup (store_put cap ?g ?c now) = (lookup ?g)(key_of ?c \<mapsto> ?c)" using ok(2) ec by (simp add: put_map_def)
    have "x \<in> set (contents (by_domain (store_put cap ?g ?c now))) \<longleftrightarrow> x = ?c \<or> x \<in> set (contents (by_domain ?g))" for x
      unfolding in_contents_lookup [OF ok(1)] in_contents_lookup [OF wf] l
      by (rule new_binding) (use none kc in simp)
    then have s: "set (contents (by_domain (store_put cap ?g ?c now))) = insert ?c (set (contents (by_domain ?g)))" by blast
    have "nth_cookie (xs @ [r]) i = nth_cookie xs i" if "i < length xs" for i
      using that by (simp add: nth_cookie_def nth_append)
    then have "nth_cookie (xs @ [r]) ` {..<length xs} = nth_cookie xs ` {..<length xs}" by (intro image_cong) auto
    then have "set (contents (by_domain (store_put cap ?g ?c now))) = nth_cookie (xs @ [r]) ` {..<Suc (length xs)}"
      by (simp only: s held lessThan_Suc image_insert)
    then show ?thesis using ok(1) by (simp add: holds_exactly_def)
  qed
  ultimately show ?thesis by auto
qed

text \<open>The loop of a load: every record in turn, up to the first refusal.\<close>

primrec restore_all :: "'s store_ops \<Rightarrow> jar_env \<Rightarrow> 's jar \<Rightarrow> cookie_record list \<Rightarrow> system_time \<Rightarrow> (rejected + unit) \<times> 's jar" where
  "restore_all ops env j [] now = (Inr (), j)"
| "restore_all ops env j (r # rs) now =
     (case restore ops env j r now of
        (Inl e, j') \<Rightarrow> (Inl e, j')
      | (Inr u, j') \<Rightarrow> restore_all ops env j' rs now)"

lemma restore_all_holds:
  fixes cap :: capacity
  assumes h: "store_wf h" "within cap h" and cap: "0 < max_cookies cap" "0 < max_per_domain cap"
    and j: "holds_exactly xs j" "\<forall>x \<in> set xs. now < rec_expires x"
    and all: "\<forall>x \<in> set (xs @ rs). key_of (from_record x) \<in> dom (lookup h)" "distinct (map (key_of \<circ> from_record) (xs @ rs))"
      "length (xs @ rs) < 2 ^ 64"
    and rs: "\<forall>r \<in> set rs. record_ok env r \<and> capped now (rec_expires r) = rec_expires r"
  shows "\<exists>j'. restore_all (memory_ops cap) env j rs now = (Inr (), j') \<and>
    holds_exactly (xs @ filter (\<lambda>r. now < rec_expires r) rs) j'"
  using j all rs
proof (induction rs arbitrary: xs j)
  case (Cons r rs)
  show ?case
  proof (cases "now < rec_expires r")
    case True
    have "key_of (from_record r) \<notin> (key_of \<circ> from_record) ` set xs" using Cons.prems(4) by auto
    then obtain j1 where j1: "restore (memory_ops cap) env j r now = (Inr (), j1)" "holds_exactly (xs @ [r]) j1"
      using holds_exactly_snoc [OF h cap Cons.prems(1,2), of r env] Cons.prems(3,5,6) True by auto
    then show ?thesis using Cons.IH [of "xs @ [r]" j1] Cons.prems(2-6) True by simp
  next
    case False
    then have "restore (memory_ops cap) env j r now = (Inr (), j)"
      using restore_expired [of env r now "memory_ops cap" j] Cons.prems(6) by simp
    then show ?thesis using Cons.IH [of xs j] Cons.prems False by simp
  qed
qed auto

lemma holds_exactly_all:
  assumes "holds_exactly xs j"
  shows "store_all (jar_store j) = map (nth_cookie xs) [0..<length xs]"
proof -
  have s: "set (contents (by_domain (jar_store j))) = nth_cookie xs ` {..<length xs}" and wf: "store_wf (jar_store j)"
    using assms by (auto simp: holds_exactly_def)
  have i: "inj_on ck_seq (nth_cookie xs ` {..<length xs})" by (auto simp: inj_on_def)
  have "distinct (map key_of (contents (by_domain (jar_store j))))" using wf entries_distinct by (simp add: store_wf_def)
  then have "distinct (contents (by_domain (jar_store j)))" using distinct_map by blast
  then have "distinct (map ck_seq (store_all (jar_store j)))" using i s by (simp add: store_all_def distinct_map)
  moreover have "sorted (map ck_seq (store_all (jar_store j)))" by (simp add: store_all_def)
  moreover have "set (store_all (jar_store j)) = set (map (nth_cookie xs) [0..<length xs])"
    using s by (auto simp: store_all_def)
  ultimately show ?thesis
    using i s by (intro map_sorted_distinct_set_unique [of ck_seq]) (auto simp: store_all_def comp_def)
qed

lemma to_record_cookie: "scope_name (rec_domain r) = rec_domain r \<Longrightarrow> to_record ((from_record r)\<lparr>ck_seq := n\<rparr>) = Some r"
  by (cases r) (simp add: to_record_def from_record_def)

lemma holds_exactly_records:
  assumes "holds_exactly xs j" "\<forall>r \<in> set xs. scope_name (rec_domain r) = rec_domain r"
  shows "records store_all j = xs"
proof -
  have "List.map_filter to_record (map (nth_cookie xs) [0..<n]) = take n xs" if "n \<le> length xs" for n
    using that
  proof (induction n)
    case (Suc n)
    then have "to_record (nth_cookie xs n) = Some (xs ! n)"
      using to_record_cookie [of "xs ! n" n] assms(2) by (simp add: nth_cookie_def)
    then show ?case using Suc by (simp add: map_filter_def take_Suc_conv_app_nth)
  qed (simp add: map_filter_def)
  from this [of "length xs"] show ?thesis by (simp add: records_def holds_exactly_all [OF assms(1)])
qed

text \<open>What the jar accepts itself is accepted back, as long as it is scoped the way a record can be.\<close>

definition storable :: "jar_env \<Rightarrow> cookie \<Rightarrow> bool" where
  "storable env c \<longleftrightarrow>
     ck_name c \<noteq> [] \<and> \<not> list_ex is_ctl (ck_name c) \<and> \<not> list_ex is_ctl (ck_value c) \<and>
     length (ck_name c) + length (ck_value c) \<le> max_name_value_bytes (env_limits env) \<and>
     ck_domain c \<noteq> [] \<and> to_ascii_lowercase (ck_domain c) = ck_domain c \<and> starts_with (ck_path c) ''/'' \<and>
     (\<not> ck_host_only c \<longrightarrow> \<not> is_public_suffix (env_suffixes env) (ck_domain c)) \<and>
     (starts_with (to_ascii_lowercase (ck_name c)) ''__secure-'' \<longrightarrow> ck_secure c) \<and>
     (starts_with (to_ascii_lowercase (ck_name c)) ''__host-'' \<longrightarrow> ck_secure c \<and> ck_host_only c \<and> ck_path c = ''/'')"

definition recordable :: "cookie \<Rightarrow> bool" where
  "recordable c \<longleftrightarrow> (ck_host_only c \<or> \<not> is_ip_literal (ck_domain c)) \<and> \<not> starts_with (ck_domain c) ''.''"

lemma storable_record:
  assumes "storable env c" "recordable c" "to_record c = Some r"
  shows "record_ok env r \<and> scope_name (rec_domain r) = rec_domain r \<and> key_of (from_record r) = key_of c \<and>
    ck_expires c = Some (rec_expires r)"
proof -
  obtain e where e: "ck_expires c = Some e" using assms(3) by (auto simp: to_record_def split: option.splits)
  have r: "rec_name r = ck_name c" "rec_value r = ck_value c" "rec_domain r = ck_domain c" "rec_path r = ck_path c"
    "rec_expires r = e" "rec_host_only r = ck_host_only c" "rec_secure r = ck_secure c"
    using assms(3) e by (auto simp: to_record_def)
  have "scope_name (ck_domain c) = ck_domain c"
    using assms(1,2) by (simp add: scope_name_def strip_prefix_def recordable_def storable_def)
  then show ?thesis
    using assms(1,2) r e by (auto simp: record_ok_def storable_def recordable_def from_record_def key_of_def)
qed

definition jar_within :: "capacity \<Rightarrow> jar_env \<Rightarrow> held jar \<Rightarrow> bool" where
  "jar_within cap env j \<longleftrightarrow> store_wf (jar_store j) \<and> within cap (jar_store j) \<and>
     (\<forall>k c. lookup (jar_store j) k = Some c \<longrightarrow> storable env c)"

lemma storable_times: "storable env (c\<lparr>ck_creation := t, ck_seq := n\<rparr>) = storable env c" "storable env (c\<lparr>ck_last_access := t\<rparr>) = storable env c"
  by (simp_all add: storable_def)

lemma prepare_storable: "winnow_ok (env_lexer env) \<Longrightarrow> prepare env uri header now = Inr c \<Longrightarrow> storable env c"
  using prepare_cookie_ok [of env uri header now c] by (auto simp: storable_def cookie_ok_def elim: prepare_parts)

lemma restored_storable: "restore_cookie env r now = Inr (Some c) \<Longrightarrow> storable env c"
  using to_ascii_lowercase_idem
  by (auto dest!: restored_cookie simp: record_ok_def storable_def from_record_def scope_name_def)

lemma put_within: "store_wf h \<Longrightarrow> within cap h \<Longrightarrow> within cap (op_put (memory_ops cap) h c now)"
  using put_spec by (auto simp: memory_ops_def put_ok_def)

lemma insert_within:
  assumes "jar_within cap env j" "storable env c"
  shows "jar_within cap env (jar_insert (memory_ops cap) j c now arr)"
proof -
  obtain t n q where p: "jar_insert (memory_ops cap) j c now arr =
      \<lparr>jar_store = op_put (memory_ops cap) (jar_store j) (c\<lparr>ck_creation := t, ck_seq := n\<rparr>) now, next_seq = q\<rparr>"
    using mj.insert_put by blast
  show ?thesis
    using assms mj.insert_inv [of j cap c now arr] mj.insert_keeps [of j "storable env" c cap now arr]
      put_within [of "jar_store j" cap "c\<lparr>ck_creation := t, ck_seq := n\<rparr>" now] storable_times(1) p
    unfolding jar_within_def by (metis jar.select_convs(1))
qed

lemma places_within:
  assumes "jar_within cap env (snd pj)" "\<forall>c \<in> set cs. storable env c"
  shows "jar_within cap env (snd (foldl (place (memory_ops cap) held now) pj cs))"
  using assms
proof (induction cs arbitrary: pj)
  case (Cons c cs)
  obtain placed j where pj: "pj = (placed, j)" by force
  obtain t n q p where pl: "place (memory_ops cap) held now pj c =
      (p, \<lparr>jar_store = op_put (memory_ops cap) (jar_store j) (c\<lparr>ck_creation := t, ck_seq := n\<rparr>) now, next_seq = q\<rparr>)"
    using mj.place_put pj by blast
  have "store_wf (jar_store (snd (place (memory_ops cap) held now pj c))) \<and>
      (\<forall>k x. lookup (jar_store (snd (place (memory_ops cap) held now pj c))) k = Some x \<longrightarrow> storable env x)"
    using mj.places_keep [of pj "storable env" "[c]" cap held now] Cons.prems storable_times(1)
    by (simp add: jar_within_def)
  then have "jar_within cap env (snd (place (memory_ops cap) held now pj c))"
    using Cons.prems(1) put_within [of "jar_store j" cap "c\<lparr>ck_creation := t, ck_seq := n\<rparr>" now] pl pj
    unfolding jar_within_def by (metis jar.select_convs(1) snd_conv)
  then show ?case using Cons.IH Cons.prems(2) by simp
qed simp

lemma reachable_within:
  assumes "winnow_ok (env_lexer env)" "reachable P cap env j"
  shows "jar_within cap env j"
  using assms(2)
proof induction
  case fresh
  then show ?case by (simp add: jar_within_def store_wf_default) (simp add: within_def lookup_def held_default_def)
next
  case (one_header j uri header now)
  then show ?case
    using prepare_storable [OF assms(1)] insert_within by (auto simp: jar_store_header_def split: sum.splits)
next
  case (response j uri headers now)
  have "\<forall>c \<in> set (accepted env uri headers now). storable env c"
    using prepare_storable [OF assms(1)] by (auto simp: accepted_def split: sum.splits)
  then show ?case using response.IH places_within [of cap env "([], j)"] by (simp add: store_response_def Let_def)
next
  case (request j fb uri now)
  have "jar_within cap env (j\<lparr>jar_store := op_touch (memory_ops cap) (jar_store j) ks now\<rparr>)" for ks
    using request.IH mj.touch_keeps [of "jar_store j" "storable env" cap ks now] mj.touch_inv [of "jar_store j" cap ks now]
      touch_spec [of "jar_store j" ks now cap] storable_times(2)
    unfolding jar_within_def by (simp add: memory_ops_def)
  then show ?case using request.IH by (auto simp: cookie_header_def Let_def)
next
  case (restored j r now)
  then show ?case
    using restored_storable insert_within by (auto simp: restore_def split: sum.splits option.splits)
next
  case (cleared j)
  then show ?case by (simp add: jar_within_def jar_clear_def store_clear_def store_wf_def entries_wf_def within_def lookup_def)
qed

text \<open>
  Property C13. A saved jar comes back, if its cookies are scoped the way a record can say it, that is, if none is shared below an IP address and no
  domain begins with a dot (a jar can hold such a cookie, and \<open>restore\<close> refuses its record: \<open>shared_below_an_address\<close>): the records of a jar that
  a client can come to have, by restoring any records, too, loaded into a new jar of the same configuration within 400 days of their end, are
  all accepted, and saving that jar again gives the same records in the same order, less those that have expired meanwhile.
\<close>

theorem records_roundtrip:
  assumes "winnow_ok (env_lexer env)" "reachable P cap env j" "0 < max_cookies cap" "0 < max_per_domain cap" "max_cookies cap < 2 ^ 64"
    and "\<And>c. c \<in> set (store_all (jar_store j)) \<Longrightarrow> recordable c"
    and "\<And>r. r \<in> set (records store_all j) \<Longrightarrow> rec_expires r \<le> now + int MAX_EXPIRY"
  shows "\<exists>j'. restore_all (memory_ops cap) env \<lparr>jar_store = held_default, next_seq = 0\<rparr> (records store_all j) now = (Inr (), j') \<and>
    records store_all j' = filter (\<lambda>r. now < rec_expires r) (records store_all j)"
proof -
  let ?h = "jar_store j" and ?rs = "records store_all j" and ?live = "filter (\<lambda>r. now < rec_expires r) (records store_all j)"
  have w: "store_wf ?h" "within cap ?h" "\<And>k c. lookup ?h k = Some c \<Longrightarrow> storable env c"
    using reachable_within [OF assms(1,2)] by (auto simp: jar_within_def)
  have all: "set (store_all ?h) = set (contents (by_domain ?h))" "distinct (map key_of (store_all ?h))"
    using entries_distinct [of "by_domain ?h"] w(1)
    by (simp_all add: store_all_def store_wf_def) (metis mset_map mset_sort mset_eq_imp_distinct_iff)
  have len: "length ?rs < 2 ^ 64"
  proof -
    have "length (store_all ?h) = held_count ?h" using w(1) by (simp add: store_all_def store_wf_def)
    moreover have "length ?rs \<le> length (store_all ?h)" by (simp add: records_def map_filter_def)
    ultimately show ?thesis using w(2) assms(3,5) by (simp add: within_def)
  qed
  have one: "record_ok env r \<and> scope_name (rec_domain r) = rec_domain r \<and> key_of (from_record r) = key_of c"
    if "c \<in> set (store_all ?h)" "to_record c = Some r" for c r
    using storable_record [of env c r] w(3) lookup_Some [OF w(1), of "key_of c" c] that assms(6) all(1) by auto
  have each: "\<exists>c \<in> set (store_all ?h). to_record c = Some r" if "r \<in> set ?rs" for r
    using that by (auto simp: records_def map_filter_def)
  have dom: "key_of (from_record r) \<in> dom (lookup ?h)" if "r \<in> set ?rs" for r
    using each [OF that] one all(1) lookup_dom [OF w(1)] by (metis imageI)
  have "map (key_of \<circ> from_record) (List.map_filter to_record cs) = map key_of (filter (\<lambda>c. to_record c \<noteq> None) cs)"
    if "set cs \<subseteq> set (store_all ?h)" for cs
    using that one by (induction cs) (auto simp: map_filter_simps split: option.splits)
  then have "map (key_of \<circ> from_record) ?rs = map key_of (filter (\<lambda>c. to_record c \<noteq> None) (store_all ?h))"
    by (simp add: records_def)
  then have dist: "distinct (map (key_of \<circ> from_record) ?rs)" using distinct_map_filter [OF all(2)] by metis
  have ok: "record_ok env r" if "r \<in> set ?rs" for r using each [OF that] one by blast
  have cap: "capped now (rec_expires r) = rec_expires r" if "r \<in> set ?rs" for r
    using assms(7) [OF that] by (auto simp: capped_def checked_add_def)
  have h0: "holds_exactly [] \<lparr>jar_store = held_default, next_seq = 0\<rparr>"
    by (simp add: holds_exactly_def store_wf_default) (simp add: held_default_def)
  obtain j' where j': "restore_all (memory_ops cap) env \<lparr>jar_store = held_default, next_seq = 0\<rparr> ?rs now = (Inr (), j')"
    "holds_exactly ?live j'"
    using restore_all_holds [OF w(1,2) assms(3,4) h0, of now ?rs env] dom dist len ok cap by auto
  moreover have "records store_all j' = ?live" using holds_exactly_records [OF j'(2)] each one by fastforce
  ultimately show ?thesis by blast
qed

definition demo_kept :: cookie where
  "demo_kept = \<lparr>ck_name = ''sid'', ck_value = ''1'', ck_domain = ''itv.co.uk'', ck_path = ''/'', ck_expires = Some 60000000005,
     ck_creation = 5, ck_last_access = 5, ck_seq = 0, ck_host_only = False, ck_persistent = True, ck_secure = False,
     ck_http_only = False, ck_same_site = None\<rparr>"

lemma demo_prepare_kept:
  "prepare demo_env (demo_uri ''https'' ''www.ITV.co.uk'' ''/x'') ''sid=1; Domain=itv.co.uk; Path=/; Max-Age=60'' 5 = Inr demo_kept"
proof -
  have h: "canonical_host (demo_uri ''https'' ''www.ITV.co.uk'' ''/x'') = Some ''www.itv.co.uk''" by code_simp
  have p: "set_cookie_parse ref_lexer (\<lambda>_ _ _ _ _ _. None) ''sid=1; Domain=itv.co.uk; Path=/; Max-Age=60'' =
      Inr ((blank_cookie ''sid'' ''1'')\<lparr>sc_domain := Some ''itv.co.uk'', sc_path := Some ''/'', sc_max_age := Some 60\<rparr>)" by code_simp
  have ip: "\<not> is_ip_literal ''www.itv.co.uk''" by (simp add: is_ip_literal_def not_an_ip to_digit_def byte_val_def)
  then have d: "domain_matches ''www.itv.co.uk'' ''itv.co.uk''" "\<not> is_ip_literal ''www.itv.co.uk''"
    by (simp_all add: domain_matches_def ends_with_def)
  have l: "to_ascii_lowercase ''sid'' = ''sid''" by code_simp
  show ?thesis
    by (simp add: prepare_def h demo_env_def p blank_cookie_def limits_default_def scope_domain_def d l Let_def
        starts_with_def expiry_def demo_kept_def checked_add_def MAX_EXPIRY_def systime_max_def)
qed

lemma demo_kept_jar:
  "jar_insert (memory_ops capacity_default) \<lparr>jar_store = held_default, next_seq = 0\<rparr> demo_kept 5 SetCookieArrival =
    \<lparr>jar_store = \<lparr>by_domain = [(''itv.co.uk'', [demo_kept])], held_count = 1\<rparr>, next_seq = 1\<rparr>"
proof -
  have "store_put capacity_default held_default demo_kept 5 = \<lparr>by_domain = [(''itv.co.uk'', [demo_kept])], held_count = 1\<rparr>" by code_simp
  moreover have "demo_kept\<lparr>ck_seq := 0\<rparr> = demo_kept" by (simp add: demo_kept_def)
  moreover have "store_get held_default ds = []" for ds by (induction ds) (simp_all add: store_get_def held_default_def)
  ultimately show ?thesis by (simp add: jar_insert_def memory_ops_def seq_after_def)
qed

theorem records_roundtrip_witness:
  "\<exists>j'. restore_all (memory_ops capacity_default) demo_env \<lparr>jar_store = held_default, next_seq = 0\<rparr>
      (records store_all (snd (jar_store_header (memory_ops capacity_default) demo_env \<lparr>jar_store = held_default, next_seq = 0\<rparr>
         (demo_uri ''https'' ''www.ITV.co.uk'' ''/x'') ''sid=1; Domain=itv.co.uk; Path=/; Max-Age=60'' 5))) 900 = (Inr (), j') \<and>
     map rec_value (records store_all j') = [''1'']"
proof -
  let ?o = "memory_ops capacity_default" and ?u = "demo_uri ''https'' ''www.ITV.co.uk'' ''/x''"
  let ?s = "''sid=1; Domain=itv.co.uk; Path=/; Max-Age=60''"
  let ?j = "snd (jar_store_header ?o demo_env \<lparr>jar_store = held_default, next_seq = 0\<rparr> ?u ?s 5)"
  have w: "winnow_ok (env_lexer demo_env)" by (simp add: demo_env_def ref_lexer_ok)
  have r: "reachable (\<lambda>_. False) capacity_default demo_env ?j" by (intro reachable.intros)
  have j: "?j = \<lparr>jar_store = \<lparr>by_domain = [(''itv.co.uk'', [demo_kept])], held_count = 1\<rparr>, next_seq = 1\<rparr>"
    by (simp add: jar_store_header_def demo_prepare_kept demo_kept_jar)
  have a: "store_all (jar_store ?j) = [demo_kept]" by (simp add: j store_all_def)
  obtain k where k: "to_record demo_kept = Some k" "rec_expires k = 60000000005" "rec_value k = ''1''"
    by (simp add: to_record_def demo_kept_def)
  have rs: "records store_all ?j = [k]" by (simp add: records_def a map_filter_simps k(1))
  have c: "0 < max_cookies capacity_default" "0 < max_per_domain capacity_default" "max_cookies capacity_default < 2 ^ 64"
    by (simp_all add: capacity_default_def)
  have "\<not> is_ip_literal ''itv.co.uk''" by (simp add: is_ip_literal_def not_an_ip to_digit_def byte_val_def)
  then have s: "recordable c" if "c \<in> set (store_all (jar_store ?j))" for c
    using that unfolding a by (simp add: recordable_def demo_kept_def starts_with_def)
  have e: "rec_expires x \<le> 900 + int MAX_EXPIRY" if "x \<in> set (records store_all ?j)" for x
    using that unfolding rs by (simp add: k MAX_EXPIRY_def)
  from records_roundtrip [OF w r c s e] show ?thesis unfolding rs by (auto simp: k)
qed

section \<open>What a jar can hold and cannot load\<close>

text \<open>
  A host that ends in an IP address, which is a name and not an address, can set a cookie for that
  address, shared below it; \<open>restore\<close> takes this pair to be impossible and refuses the record.
\<close>

lemma shared_below_an_address:
  fixes env :: jar_env
  assumes "env = demo_env\<lparr>env_suffixes := \<lparr>is_public_suffix = (\<lambda>d. CHR ''.'' \<notin> set d), has_list = True\<rparr>\<rparr>"
  shows "\<exists>c. prepare env (demo_uri ''https'' ''www.1.2.3.4'' ''/'') ''a=1; Domain=1.2.3.4; Max-Age=60'' 5 = Inr c \<and>
      ck_domain c = ''1.2.3.4'' \<and> \<not> ck_host_only c \<and> applies ''1.2.3.4'' ''/'' True 5 c \<and>
      (\<forall>r. to_record c = Some r \<longrightarrow> restore_cookie env r 5 = Inl (IpDomainNotHostOnly ''1.2.3.4''))"
proof -
  have h: "canonical_host (demo_uri ''https'' ''www.1.2.3.4'' ''/'') = Some ''www.1.2.3.4''" by code_simp
  have p: "set_cookie_parse ref_lexer (\<lambda>_ _ _ _ _ _. None) ''a=1; Domain=1.2.3.4; Max-Age=60'' =
      Inr ((blank_cookie ''a'' ''1'')\<lparr>sc_domain := Some ''1.2.3.4'', sc_max_age := Some 60\<rparr>)" by code_simp
  have ip: "\<not> is_ip_literal ''www.1.2.3.4''" by (simp add: is_ip_literal_def not_an_ip to_digit_def byte_val_def)
  have lit: "is_ip_literal ''1.2.3.4''" by code_simp
  have d: "domain_matches ''www.1.2.3.4'' ''1.2.3.4''" using ip by (simp add: domain_matches_def ends_with_def)
  have l: "to_ascii_lowercase ''a'' = ''a''" "scope_name ''1.2.3.4'' = ''1.2.3.4''" by code_simp+
  have dp: "default_path (request_path (demo_uri ''https'' ''www.1.2.3.4'' ''/'')) = ''/''" by code_simp
  have ct: "\<not> is_ctl (CHR ''a'')" "\<not> is_ctl (CHR ''1'')" by code_simp+
  have pm: "path_matches ''/'' ''/''" by code_simp
  show ?thesis
    by (simp add: assms prepare_def h demo_env_def p blank_cookie_def limits_default_def scope_domain_def d ip lit l dp Let_def
        starts_with_def expiry_def checked_add_def MAX_EXPIRY_def systime_max_def applies_def is_expired_def pm
        domain_matches_def to_record_def restore_cookie_def ct ends_with_def)
qed

text \<open>
  A header cannot put a semicolon into a value, a record can: the header the jar writes for it is read as
  two cookies.
\<close>

lemma separator_restored:
  "record_ok demo_env (demo_record\<lparr>rec_value := ''1; b=2''\<rparr>) \<and>
    read_cookie_header (header_bytes [from_record (demo_record\<lparr>rec_value := ''1; b=2''\<rparr>)]) = [Some (''sid'', ''1''), Some (''b'', ''2'')]"
proof
  have "\<not> list_ex is_ctl ''1; b=2''" by code_simp
  then show "record_ok demo_env (demo_record\<lparr>rec_value := ''1; b=2''\<rparr>)" using demo_record_ok(1) by (simp add: record_ok_def demo_env_def limits_default_def demo_record_def)
  show "read_cookie_header (header_bytes [from_record (demo_record\<lparr>rec_value := ''1; b=2''\<rparr>)]) = [Some (''sid'', ''1''), Some (''b'', ''2'')]"
    by code_simp
qed

end
