(* ===== verification/Kv_Store.thy ===== *)
theory Kv_Store
  imports Std_Text "HOL-Library.AList" "HOL-Library.Multiset"
begin

text \<open>
  The byte-level key/value seam of \<open>crates/hclient-core/src/kv.rs\<close>: the trait \<open>KeyValueStore\<close> as the
  record of its operations, and the \<open>MemoryStore\<close> that implements it. The two nested hash maps are
  association lists, whose order stands for the order a map iterates in. An operation that returns
  \<open>()\<close> returns the new state; the futures of this store are ready at once.

  The laws a client may rely on are the locale \<open>kv_store\<close>, of which the memory store is an
  interpretation.
\<close>

section \<open>Slots\<close>

text \<open>
  \<open>Instant\<close> is only compared: \<open>partial_cmp\<close> is an argument of the operations, as the bound
  \<open>PartialOrd\<close> makes it one of the code.
\<close>

datatype ordering = Less | Equal | Greater

type_synonym 'i partial_cmp = "'i \<Rightarrow> 'i \<Rightarrow> ordering option"

record 'i slot =
  slot_value :: bytes
  slot_expires :: "'i option"

definition is_live :: "'i partial_cmp \<Rightarrow> 'i slot \<Rightarrow> 'i \<Rightarrow> bool" where
  "is_live cmp s now =
     (case slot_expires s of None \<Rightarrow> True | Some e \<Rightarrow> \<not> (cmp e now = Some Less \<or> cmp e now = Some Equal))"

type_synonym 'i keyspace = "(bytes \<times> 'i slot list) list"
type_synonym 'i namespaces = "(bytes \<times> 'i keyspace) list"

section \<open>The operations\<close>

text \<open>\<open>held.entry(k).or_default()\<close>: what is held under \<open>k\<close>, or an empty value.\<close>

definition or_default :: "(bytes \<times> 'a list) list \<Rightarrow> bytes \<Rightarrow> 'a list" where
  "or_default m k = (case map_of m k of None \<Rightarrow> [] | Some x \<Rightarrow> x)"

definition read_one :: "'i partial_cmp \<Rightarrow> 'i namespaces \<Rightarrow> bytes \<Rightarrow> bytes \<Rightarrow> 'i \<Rightarrow> bytes list" where
  "read_one cmp held ns key now =
     (case Option.bind (map_of held ns) (\<lambda>keys. map_of keys key) of
        None \<Rightarrow> []
      | Some slots \<Rightarrow> map slot_value (filter (\<lambda>s. is_live cmp s now) slots))"

definition memory_new :: "'i namespaces" where
  "memory_new = []"

definition memory_get :: "'i partial_cmp \<Rightarrow> 'i namespaces \<Rightarrow> bytes \<Rightarrow> bytes \<Rightarrow> 'i \<Rightarrow> bytes list" where
  "memory_get cmp held ns key now = read_one cmp held ns key now"

definition memory_get_many ::
    "'i partial_cmp \<Rightarrow> 'i namespaces \<Rightarrow> bytes \<Rightarrow> bytes list \<Rightarrow> 'i \<Rightarrow> bytes list list" where
  "memory_get_many cmp held ns keys now = map (\<lambda>k. read_one cmp held ns k now) keys"

definition memory_put ::
    "'i partial_cmp \<Rightarrow> 'i namespaces \<Rightarrow> bytes \<Rightarrow> bytes \<Rightarrow> bytes \<Rightarrow> 'i option \<Rightarrow> 'i \<Rightarrow> 'i namespaces" where
  "memory_put cmp held ns key v exp now =
     (let keys = or_default held ns;
          slots = or_default keys key;
          slots = filter (\<lambda>s. is_live cmp s now) slots @ [\<lparr>slot_value = v, slot_expires = exp\<rparr>]
      in AList.update ns (AList.update key slots keys) held)"

definition memory_remove :: "'i namespaces \<Rightarrow> bytes \<Rightarrow> bytes \<Rightarrow> 'i namespaces" where
  "memory_remove held ns key =
     (case map_of held ns of
        None \<Rightarrow> held
      | Some keys \<Rightarrow>
          let keys = AList.delete key keys
          in if keys = [] then AList.delete ns held else AList.update ns keys held)"

definition memory_clear :: "'i namespaces \<Rightarrow> bytes \<Rightarrow> 'i namespaces" where
  "memory_clear held ns = AList.delete ns held"

text \<open>The two scans share all but the test on the key.\<close>

definition scan_where ::
    "'i partial_cmp \<Rightarrow> 'i namespaces \<Rightarrow> bytes \<Rightarrow> (bytes \<Rightarrow> bool) \<Rightarrow> 'i \<Rightarrow> (bytes \<times> bytes) list" where
  "scan_where cmp held ns P now =
     concat (map (\<lambda>(k, slots). map (\<lambda>s. (k, slot_value s)) (filter (\<lambda>s. is_live cmp s now) slots))
       (filter (\<lambda>(k, _). P k) (or_default held ns)))"

definition memory_scan ::
    "'i partial_cmp \<Rightarrow> 'i namespaces \<Rightarrow> bytes \<Rightarrow> bytes \<Rightarrow> 'i \<Rightarrow> (bytes \<times> bytes) list" where
  "memory_scan cmp held ns pre now = scan_where cmp held ns (\<lambda>k. starts_with k pre) now"

definition memory_scan_many ::
    "'i partial_cmp \<Rightarrow> 'i namespaces \<Rightarrow> bytes \<Rightarrow> bytes list \<Rightarrow> 'i \<Rightarrow> (bytes \<times> bytes) list" where
  "memory_scan_many cmp held ns pres now =
     scan_where cmp held ns (\<lambda>k. list_ex (\<lambda>p. starts_with k p) pres) now"

definition memory_remove_prefix :: "'i namespaces \<Rightarrow> bytes \<Rightarrow> bytes \<Rightarrow> 'i namespaces" where
  "memory_remove_prefix held ns pre =
     (case map_of held ns of
        None \<Rightarrow> held
      | Some keys \<Rightarrow>
          let keys = filter (\<lambda>(k, _). \<not> starts_with k pre) keys
          in if keys = [] then AList.delete ns held else AList.update ns keys held)"

section \<open>The store as a map from namespace and key to slots\<close>

definition view :: "'i namespaces \<Rightarrow> bytes \<Rightarrow> bytes \<Rightarrow> 'i slot list" where
  "view held ns key = or_default (or_default held ns) key"

text \<open>Keys are unique, and neither a key without a slot nor a namespace without a key is kept.\<close>

definition kv_wf :: "'i namespaces \<Rightarrow> bool" where
  "kv_wf held \<longleftrightarrow> distinct (map fst held) \<and>
     (\<forall>(ns, keys) \<in> set held. keys \<noteq> [] \<and> distinct (map fst keys) \<and> (\<forall>(k, slots) \<in> set keys. slots \<noteq> []))"

definition keyspace_wf :: "'i keyspace \<Rightarrow> bool" where
  "keyspace_wf keys \<longleftrightarrow> distinct (map fst keys) \<and> (\<forall>(k, slots) \<in> set keys. slots \<noteq> [])"

lemma kv_wf_alt:
  "kv_wf held \<longleftrightarrow> distinct (map fst held) \<and> (\<forall>(ns, keys) \<in> set held. keys \<noteq> [] \<and> keyspace_wf keys)"
  by (auto simp: kv_wf_def keyspace_wf_def split_beta)

lemma or_default_update [simp]: "or_default (AList.update k v m) k' = (if k' = k then v else or_default m k')"
  by (simp add: or_default_def update_conv')

lemma or_default_delete [simp]: "or_default (AList.delete k m) k' = (if k' = k then [] else or_default m k')"
  by (simp add: or_default_def delete_conv')

lemma map_of_filter_key: "map_of (filter (\<lambda>(k, _). P k) m) k = (if P k then map_of m k else None)"
  by (induction m) auto

lemma or_default_filter [simp]: "or_default (filter (\<lambda>(k, _). P k) m) k = (if P k then or_default m k else [])"
  by (simp add: or_default_def map_of_filter_key)

lemma or_default_keyspace: "kv_wf held \<Longrightarrow> keyspace_wf (or_default held ns)"
  by (cases "map_of held ns") (auto simp: or_default_def kv_wf_alt keyspace_wf_def split_beta dest!: map_of_SomeD)

lemma set_update_subset: "set (AList.update k v m) \<subseteq> insert (k, v) (set m)"
  by (induction m) auto

lemma set_delete_subset: "set (AList.delete k m) \<subseteq> set m"
  by (induction m) auto

lemma kv_wf_update:
  "kv_wf held \<Longrightarrow> keys \<noteq> [] \<Longrightarrow> keyspace_wf keys \<Longrightarrow> kv_wf (AList.update ns keys held)"
  using set_update_subset [of ns keys held] by (fastforce simp: kv_wf_alt distinct_update)

lemma kv_wf_delete: "kv_wf held \<Longrightarrow> kv_wf (AList.delete ns held)"
  using set_delete_subset [of ns held] by (fastforce simp: kv_wf_alt distinct_delete)

lemma keyspace_wf_update: "keyspace_wf keys \<Longrightarrow> slots \<noteq> [] \<Longrightarrow> keyspace_wf (AList.update k slots keys)"
  using set_update_subset [of k slots keys] by (fastforce simp: keyspace_wf_def distinct_update)

lemma keyspace_wf_delete: "keyspace_wf keys \<Longrightarrow> keyspace_wf (AList.delete k keys)"
  using set_delete_subset [of k keys] by (fastforce simp: keyspace_wf_def distinct_delete)

lemma keyspace_wf_filter: "keyspace_wf keys \<Longrightarrow> keyspace_wf (filter P keys)"
  by (auto simp: keyspace_wf_def distinct_map_filter)

lemma update_ne [simp]: "AList.update k v m \<noteq> []"
  by (cases m) auto

lemma put_wf: "kv_wf held \<Longrightarrow> kv_wf (memory_put cmp held ns key v e now)"
  by (simp add: memory_put_def Let_def kv_wf_update keyspace_wf_update or_default_keyspace)

text \<open>Both removals write the keys that are left back, or drop the namespace with its last key.\<close>

definition write_back :: "'i namespaces \<Rightarrow> bytes \<Rightarrow> 'i keyspace \<Rightarrow> 'i namespaces" where
  "write_back held ns keys = (if keys = [] then AList.delete ns held else AList.update ns keys held)"

lemma remove_write_back:
  "memory_remove held ns key =
     (case map_of held ns of None \<Rightarrow> held | Some keys \<Rightarrow> write_back held ns (AList.delete key keys))"
  by (simp add: memory_remove_def write_back_def Let_def split: option.split)

lemma remove_prefix_write_back:
  "memory_remove_prefix held ns pre =
     (case map_of held ns of None \<Rightarrow> held
      | Some keys \<Rightarrow> write_back held ns (filter (\<lambda>(k, _). \<not> starts_with k pre) keys))"
  by (simp add: memory_remove_prefix_def write_back_def Let_def split: option.split)

lemma write_back_wf: "kv_wf held \<Longrightarrow> keyspace_wf keys \<Longrightarrow> kv_wf (write_back held ns keys)"
  by (simp add: write_back_def kv_wf_update kv_wf_delete)

lemma or_default_Some: "map_of m k = Some x \<Longrightarrow> or_default m k = x"
  by (simp add: or_default_def)

lemma or_default_None: "map_of m k = None \<Longrightarrow> or_default m k = []"
  by (simp add: or_default_def)

lemma remove_wf: "kv_wf held \<Longrightarrow> kv_wf (memory_remove held ns key)"
  using or_default_keyspace [of held ns]
  by (cases "map_of held ns") (simp_all add: remove_write_back write_back_wf keyspace_wf_delete or_default_Some)

lemma remove_prefix_wf: "kv_wf held \<Longrightarrow> kv_wf (memory_remove_prefix held ns pre)"
  using or_default_keyspace [of held ns]
  by (cases "map_of held ns") (simp_all add: remove_prefix_write_back write_back_wf keyspace_wf_filter or_default_Some)

lemma read_one_view: "read_one cmp held ns key now = map slot_value (filter (\<lambda>s. is_live cmp s now) (view held ns key))"
  by (auto simp: read_one_def view_def or_default_def split: option.splits bind_splits)

lemma view_put:
  "view (memory_put cmp held ns key v e now) ns' key' =
     (if ns' = ns \<and> key' = key
      then filter (\<lambda>s. is_live cmp s now) (view held ns key) @ [\<lparr>slot_value = v, slot_expires = e\<rparr>]
      else view held ns' key')"
  by (auto simp: view_def memory_put_def Let_def)

lemma or_default_Nil [simp]: "or_default [] k = []"
  by (simp add: or_default_def)

lemma view_write_back: "view (write_back held ns keys) ns' k = (if ns' = ns then or_default keys k else view held ns' k)"
  by (simp add: view_def write_back_def)

lemma view_remove: "view (memory_remove held ns key) ns' key' = (if ns' = ns \<and> key' = key then [] else view held ns' key')"
  by (cases "map_of held ns") (auto simp: remove_write_back view_write_back, auto simp: view_def or_default_None or_default_Some)

lemma view_clear: "view (memory_clear held ns) ns' key = (if ns' = ns then [] else view held ns' key)"
  by (simp add: view_def memory_clear_def)

lemma view_remove_prefix:
  "view (memory_remove_prefix held ns pre) ns' key =
     (if ns' = ns \<and> starts_with key pre then [] else view held ns' key)"
  by (cases "map_of held ns")
    (auto simp: remove_prefix_write_back view_write_back, auto simp: view_def or_default_None or_default_Some)

lemma clear_wf: "kv_wf held \<Longrightarrow> kv_wf (memory_clear held ns)"
  by (simp add: memory_clear_def kv_wf_delete)

lemma new_wf: "kv_wf memory_new" "view memory_new ns k = []"
  by (simp_all add: memory_new_def kv_wf_def view_def)

text \<open>A scan answers, for each key that passes the test, the live values of that key, once each.\<close>

lemma scan_tagged:
  "map snd (filter (\<lambda>(k', _). k' = k) (map (\<lambda>s. (k0, f s)) xs)) = (if k0 = k then map f xs else [])"
  by (induction xs) auto

lemma scan_of_key:
  "distinct (map fst keys) \<Longrightarrow>
   map snd (filter (\<lambda>(k', _). k' = k)
     (concat (map (\<lambda>(k, slots). map (\<lambda>s. (k, slot_value s)) (filter Q slots)) (filter (\<lambda>(k, _). P k) keys)))) =
   (if P k then map slot_value (filter Q (or_default keys k)) else [])"
proof (induction keys)
  case (Cons p keys)
  obtain k0 slots where p: "p = (k0, slots)" by (cases p)
  have ne: "or_default keys k0 = []"
    using Cons.prems p by (auto simp: or_default_def split: option.split dest!: map_of_SomeD) (force)
  have d: "or_default ((k0, slots) # keys) k = (if k = k0 then slots else or_default keys k)" by (simp add: or_default_def)
  show ?case using Cons ne by (auto simp: p d scan_tagged)
qed simp

lemma scan_where_values:
  "kv_wf held \<Longrightarrow>
   map snd (filter (\<lambda>(k', _). k' = k) (scan_where cmp held ns P now)) =
     (if P k then memory_get cmp held ns k now else [])"
  using or_default_keyspace [of held ns]
  by (simp add: scan_where_def scan_of_key keyspace_wf_def memory_get_def read_one_view view_def)

section \<open>The seam\<close>

text \<open>The trait, as the record of its operations, at the instants every store of the workspace uses.\<close>

definition systime_cmp :: "system_time partial_cmp" where
  "systime_cmp a b = Some (if a < b then Less else if a = b then Equal else Greater)"

record 's key_value_store =
  kv_get :: "'s \<Rightarrow> bytes \<Rightarrow> bytes \<Rightarrow> system_time \<Rightarrow> bytes list"
  kv_get_many :: "'s \<Rightarrow> bytes \<Rightarrow> bytes list \<Rightarrow> system_time \<Rightarrow> bytes list list"
  kv_put :: "'s \<Rightarrow> bytes \<Rightarrow> bytes \<Rightarrow> bytes \<Rightarrow> system_time option \<Rightarrow> system_time \<Rightarrow> 's"
  kv_remove :: "'s \<Rightarrow> bytes \<Rightarrow> bytes \<Rightarrow> 's"
  kv_clear :: "'s \<Rightarrow> bytes \<Rightarrow> 's"
  kv_scan :: "'s \<Rightarrow> bytes \<Rightarrow> bytes \<Rightarrow> system_time \<Rightarrow> (bytes \<times> bytes) list"
  kv_scan_many :: "'s \<Rightarrow> bytes \<Rightarrow> bytes list \<Rightarrow> system_time \<Rightarrow> (bytes \<times> bytes) list"
  kv_remove_prefix :: "'s \<Rightarrow> bytes \<Rightarrow> bytes \<Rightarrow> 's"

definition memory_kv :: "system_time namespaces key_value_store" where
  "memory_kv = \<lparr>kv_get = memory_get systime_cmp, kv_get_many = memory_get_many systime_cmp,
     kv_put = memory_put systime_cmp, kv_remove = memory_remove, kv_clear = memory_clear,
     kv_scan = memory_scan systime_cmp, kv_scan_many = memory_scan_many systime_cmp,
     kv_remove_prefix = memory_remove_prefix\<rparr>"

text \<open>
  What the documentation of the trait promises: reads do not answer what has expired, a batch answers
  one entry per key and in their order, a put adds one value beside what is there (a store may drop
  what has expired when it does), and a removal forgets one key, one namespace or one prefix and
  nothing else. The order of the values under a key is no part of it.
\<close>

definition unexpired :: "system_time option \<Rightarrow> system_time \<Rightarrow> bool" where
  "unexpired e now = (case e of None \<Rightarrow> True | Some t \<Rightarrow> now < t)"

locale kv_store =
  fixes K :: "'s key_value_store" and inv :: "'s \<Rightarrow> bool"
  assumes get_many_law: "kv_get_many K s ns ks now = map (\<lambda>k. kv_get K s ns k now) ks"
    and put_law: "inv s \<Longrightarrow> t \<le> now \<Longrightarrow>
      mset (kv_get K (kv_put K s ns k v e t) ns k now) =
        mset (kv_get K s ns k now) + (if unexpired e now then {#v#} else {#})"
    and put_other: "inv s \<Longrightarrow> ns' \<noteq> ns \<or> k' \<noteq> k \<Longrightarrow> kv_get K (kv_put K s ns k v e t) ns' k' now = kv_get K s ns' k' now"
    and remove_law: "inv s \<Longrightarrow> kv_get K (kv_remove K s ns k) ns' k' now = (if ns' = ns \<and> k' = k then [] else kv_get K s ns' k' now)"
    and clear_law: "inv s \<Longrightarrow> kv_get K (kv_clear K s ns) ns' k' now = (if ns' = ns then [] else kv_get K s ns' k' now)"
    and remove_prefix_law: "inv s \<Longrightarrow> kv_get K (kv_remove_prefix K s ns p) ns' k' now =
        (if ns' = ns \<and> starts_with k' p then [] else kv_get K s ns' k' now)"
    and scan_law: "inv s \<Longrightarrow> map snd (filter (\<lambda>(k', _). k' = k) (kv_scan K s ns p now)) =
        (if starts_with k p then kv_get K s ns k now else [])"
    and scan_many_law: "inv s \<Longrightarrow> map snd (filter (\<lambda>(k', _). k' = k) (kv_scan_many K s ns ps now)) =
        (if list_ex (starts_with k) ps then kv_get K s ns k now else [])"
    and put_inv: "inv s \<Longrightarrow> inv (kv_put K s ns k v e t)"
    and remove_inv: "inv s \<Longrightarrow> inv (kv_remove K s ns k)"
    and clear_inv: "inv s \<Longrightarrow> inv (kv_clear K s ns)"
    and remove_prefix_inv: "inv s \<Longrightarrow> inv (kv_remove_prefix K s ns p)"
begin

lemmas inv_intros = put_inv remove_inv clear_inv remove_prefix_inv

text \<open>A wrapper that keeps one value per key removes before it writes.\<close>

lemma replace_get:
  assumes "inv s" "t \<le> now"
  shows "kv_get K (kv_put K (kv_remove K s ns k) ns k v None t) ns' k' now =
    (if ns' = ns \<and> k' = k then [v] else kv_get K s ns' k' now)"
proof (cases "ns' = ns \<and> k' = k")
  case True
  then have "mset (kv_get K (kv_put K (kv_remove K s ns k) ns k v None t) ns' k' now) = {#v#}"
    using put_law [OF remove_inv [OF assms(1)] assms(2)] remove_law [OF assms(1)] by (simp add: unexpired_def)
  then show ?thesis using True by simp
qed (use put_other remove_law assms inv_intros in \<open>auto\<close>)

lemma set_scan: "inv s \<Longrightarrow> (k, v) \<in> set (kv_scan K s ns p now) \<longleftrightarrow> starts_with k p \<and> v \<in> set (kv_get K s ns k now)"
proof -
  assume "inv s"
  have "(k, v) \<in> set xs \<longleftrightarrow> v \<in> set (map snd (filter (\<lambda>(k', _). k' = k) xs))" for xs by force
  from this [of "kv_scan K s ns p now"] show ?thesis unfolding scan_law [OF \<open>inv s\<close>] by simp
qed
end

lemma is_live_systime: "is_live systime_cmp s now = unexpired (slot_expires s) now"
  by (auto simp: is_live_def unexpired_def systime_cmp_def split: option.split)

lemma unexpired_earlier: "unexpired e now \<Longrightarrow> t \<le> now \<Longrightarrow> unexpired e t"
  by (auto simp: unexpired_def split: option.splits)

interpretation memory: kv_store memory_kv kv_wf
proof unfold_locales
  fix s :: "system_time namespaces" and ns ns' k k' p v e and t now :: system_time and ks ps
  show "kv_get_many memory_kv s ns ks now = map (\<lambda>k. kv_get memory_kv s ns k now) ks"
    by (simp add: memory_kv_def memory_get_many_def memory_get_def)
  assume wf: "kv_wf s"
  show "mset (kv_get memory_kv (kv_put memory_kv s ns k v e t) ns k now) =
    mset (kv_get memory_kv s ns k now) + (if unexpired e now then {#v#} else {#})" if "t \<le> now"
  proof -
    have "filter (\<lambda>x. is_live systime_cmp x now) (filter (\<lambda>x. is_live systime_cmp x t) xs) = filter (\<lambda>x. is_live systime_cmp x now) xs" for xs
      using unexpired_earlier [OF _ that] by (auto simp: is_live_systime intro!: filter_cong)
    then show ?thesis by (simp add: memory_kv_def memory_get_def read_one_view view_put) (simp add: is_live_systime)
  qed
  show "kv_get memory_kv (kv_put memory_kv s ns k v e t) ns' k' now = kv_get memory_kv s ns' k' now" if "ns' \<noteq> ns \<or> k' \<noteq> k"
    using that by (auto simp: memory_kv_def memory_get_def read_one_view view_put)
  show "map snd (filter (\<lambda>(k', _). k' = k) (kv_scan memory_kv s ns p now)) = (if starts_with k p then kv_get memory_kv s ns k now else [])"
    using scan_where_values [OF wf] by (simp add: memory_kv_def memory_scan_def)
  show "map snd (filter (\<lambda>(k', _). k' = k) (kv_scan_many memory_kv s ns ps now)) =
      (if list_ex (starts_with k) ps then kv_get memory_kv s ns k now else [])"
    using scan_where_values [OF wf] by (simp add: memory_kv_def memory_scan_many_def)
qed (simp_all add: memory_kv_def memory_get_def read_one_view view_remove view_clear view_remove_prefix
      put_wf remove_wf clear_wf remove_prefix_wf)

section \<open>The refinement\<close>

text \<open>
  Property C21. The in-memory store implements a map from namespace and key to the values put there:
  whatever the order of instants is, a put drops what has expired at its own key only and appends, the
  three removals forget exactly the key, the namespace or the keys with the prefix, a read answers the
  values that have not expired and a scan the same values under their keys, once each however many
  prefixes match; no empty key or namespace is left behind.
\<close>

theorem memory_kv_refines:
  assumes "kv_wf s"
  shows "kv_wf (memory_put cmp s ns k v e now) \<and> kv_wf (memory_remove s ns k) \<and> kv_wf (memory_clear s ns) \<and> kv_wf (memory_remove_prefix s ns p) \<and>
    view (memory_put cmp s ns k v e now) =
      (view s)(ns := (view s ns)(k := filter (\<lambda>x. is_live cmp x now) (view s ns k) @ [\<lparr>slot_value = v, slot_expires = e\<rparr>])) \<and>
    view (memory_remove s ns k) = (view s)(ns := (view s ns)(k := [])) \<and>
    view (memory_clear s ns) = (view s)(ns := \<lambda>_. []) \<and>
    view (memory_remove_prefix s ns p) = (view s)(ns := \<lambda>k. if starts_with k p then [] else view s ns k) \<and>
    memory_get_many cmp s ns ks now = map (\<lambda>k. map slot_value (filter (\<lambda>x. is_live cmp x now) (view s ns k))) ks \<and>
    map snd (filter (\<lambda>(k', _). k' = k) (memory_scan_many cmp s ns ps now)) =
      (if list_ex (starts_with k) ps then memory_get cmp s ns k now else []) \<and>
    (view s = (\<lambda>_ _. []) \<longleftrightarrow> s = memory_new)"
proof -
  have "view s = (\<lambda>_ _. []) \<longleftrightarrow> s = memory_new"
  proof
    assume nil: "view s = (\<lambda>_ _. [])"
    show "s = memory_new"
    proof (cases s)
      case (Cons p r)
      obtain ns0 k0 sl r' where p: "p = (ns0, (k0, sl) # r')" and sl: "sl \<noteq> []"
        using assms Cons by (cases p; cases "snd p") (auto simp: kv_wf_def)
      have "view s ns0 k0 = sl" by (simp add: Cons p view_def or_default_def)
      then show ?thesis using nil sl by simp
    qed (simp add: memory_new_def)
  qed (simp add: fun_eq_iff new_wf)
  moreover have "map snd (filter (\<lambda>(k', _). k' = k) (memory_scan_many cmp s ns ps now)) =
      (if list_ex (starts_with k) ps then memory_get cmp s ns k now else [])"
    using scan_where_values [OF assms] by (simp add: memory_scan_many_def)
  ultimately show ?thesis
    using assms by (auto simp: fun_eq_iff put_wf remove_wf clear_wf remove_prefix_wf view_put view_remove view_clear
      view_remove_prefix memory_get_many_def read_one_view)
qed

theorem memory_kv_refines_witness:
  "let s = memory_put systime_cmp memory_new ''hsts'' ''com.a'' ''x'' (Some 5) 0 in
    kv_wf s \<and> view (memory_put systime_cmp s ''hsts'' ''com.a'' ''y'' None 5) ''hsts'' ''com.a'' = [\<lparr>slot_value = ''y'', slot_expires = None\<rparr>]"
proof -
  define s where "s = memory_put systime_cmp memory_new ''hsts'' ''com.a'' ''x'' (Some 5) 0"
  have wf: "kv_wf s" unfolding s_def by (intro put_wf new_wf)
  have "filter (\<lambda>x. is_live systime_cmp x 5) (view s ''hsts'' ''com.a'') = []" unfolding s_def by code_simp
  then show ?thesis
    using memory_kv_refines [OF wf, where cmp = systime_cmp and ns = "''hsts''" and k = "''com.a''" and v = "''y''" and e = None and now = 5] wf
    unfolding s_def [symmetric] Let_def by simp
qed

end
