(* ===== verification/Hsts_Store.thy ===== *)
theory Hsts_Store
  imports Kv_Store
begin

text \<open>
  The HSTS policy store of \<open>crates/hclient/src/hsts\<close>: the entry and the trait \<open>HstsStore\<close> of
  \<open>store.rs\<close>, the enumeration of the superdomains of a host, and the \<open>KvStore\<close> of \<open>kv.rs\<close>, which
  keeps entries as bytes in any \<open>KeyValueStore\<close> under the reversed labels of their domain.

  The contract of the trait is the locale \<open>hsts_contract\<close>; that every byte store satisfying
  \<open>kv_store\<close> gives one is a \<open>sublocale\<close>.
\<close>

section \<open>Entries and the trait\<close>

record entry =
  e_domain :: bytes
  e_expires_at :: system_time
  e_include_subdomains :: bool

record 's hsts_store =
  hs_get :: "'s \<Rightarrow> bytes list \<Rightarrow> entry list"
  hs_put :: "'s \<Rightarrow> entry \<Rightarrow> 's"
  hs_remove :: "'s \<Rightarrow> bytes \<Rightarrow> 's"
  hs_clear :: "'s \<Rightarrow> 's"

section \<open>Candidate domains\<close>

function superdomains :: "bytes \<Rightarrow> bytes list" where
  "superdomains rest =
     (case split_once (CHR ''.'') rest of
        None \<Rightarrow> []
      | Some (_, tail) \<Rightarrow> if tail = [] then [] else to_ascii_lowercase tail # superdomains tail)"
  by pat_completeness auto
termination
  by (relation "measure length") (auto simp: split_once_Some)

declare superdomains.simps [simp del]

definition hsts_candidate_domains :: "bytes \<Rightarrow> bytes list" where
  "hsts_candidate_domains h = to_ascii_lowercase h # superdomains h"

section \<open>Keys\<close>

definition kv_is_ip_literal :: "bytes \<Rightarrow> bool" where
  "kv_is_ip_literal h \<longleftrightarrow> CHR '':'' \<in> set h \<or>
     (h \<noteq> [] \<and> list_all (\<lambda>l. l \<noteq> [] \<and> list_all is_ascii_digit l) (split_byte (CHR ''.'') h))"

definition push_label :: "bytes \<Rightarrow> bytes \<Rightarrow> bytes" where
  "push_label out label = (if out = [] then out else out @ ''.'') @ label"

definition reverse_labels :: "bytes \<Rightarrow> bytes" where
  "reverse_labels d =
     (if kv_is_ip_literal d then d else foldl push_label [] (rev (split_byte (CHR ''.'') d)))"

section \<open>The encoding\<close>

definition NS :: bytes where
  "NS = ''hsts''"

definition HEAD :: nat where
  "HEAD = 9"

text \<open>\<open>u64::to_le_bytes\<close> and \<open>u64::from_le_bytes\<close>, for any number of bytes.\<close>

primrec to_le_bytes :: "nat \<Rightarrow> nat \<Rightarrow> bytes" where
  "to_le_bytes 0 n = []"
| "to_le_bytes (Suc k) n = char_of n # to_le_bytes k (n div 256)"

primrec from_le_bytes :: "bytes \<Rightarrow> nat" where
  "from_le_bytes [] = 0"
| "from_le_bytes (b # bs) = byte_val b + 256 * from_le_bytes bs"

definition expiry_secs :: "system_time \<Rightarrow> nat" where
  "expiry_secs t = (if t < 0 then 0 else nat (t div 1000000000))"

definition entry_encode :: "entry \<Rightarrow> bytes" where
  "entry_encode e =
     to_le_bytes 8 (expiry_secs (e_expires_at e)) @ [char_of (if e_include_subdomains e then 1 else 0 :: nat)] @ e_domain e"

definition at_epoch_plus :: "nat \<Rightarrow> system_time option" where
  "at_epoch_plus secs = checked_add 0 (from_secs secs)"

definition entry_decode :: "bytes \<Rightarrow> entry option" where
  "entry_decode bs =
     (if length bs < HEAD then None else
      let head = take HEAD bs; d = drop HEAD bs; secs = from_le_bytes (take 8 head) in
      Option.bind
        (if byte_val (head ! 8) = 0 then Some False else if byte_val (head ! 8) = 1 then Some True else None)
        (\<lambda>subs. if \<not> is_utf8 d then None else if d = [] then None else
          Option.bind (at_epoch_plus secs) (\<lambda>t.
            Some \<lparr>e_domain = d, e_expires_at = t, e_include_subdomains = subs\<rparr>)))"

section \<open>The store over a byte store\<close>

definition kvs_get :: "'s key_value_store \<Rightarrow> 's \<Rightarrow> bytes list \<Rightarrow> entry list" where
  "kvs_get K s domains =
     List.map_filter entry_decode (concat (kv_get_many K s NS (map reverse_labels domains) 0))"

definition kvs_put :: "'s key_value_store \<Rightarrow> 's \<Rightarrow> entry \<Rightarrow> 's" where
  "kvs_put K s e =
     (let key = reverse_labels (e_domain e)
      in kv_put K (kv_remove K s NS key) NS key (entry_encode e) None 0)"

definition kvs_remove :: "'s key_value_store \<Rightarrow> 's \<Rightarrow> bytes \<Rightarrow> 's" where
  "kvs_remove K s d = kv_remove K s NS (reverse_labels d)"

definition kvs_clear :: "'s key_value_store \<Rightarrow> 's \<Rightarrow> 's" where
  "kvs_clear K s = kv_clear K s NS"

definition kv_hsts :: "'s key_value_store \<Rightarrow> 's hsts_store" where
  "kv_hsts K = \<lparr>hs_get = kvs_get K, hs_put = kvs_put K, hs_remove = kvs_remove K, hs_clear = kvs_clear K\<rparr>"

section \<open>Reversal is injective on names that do not end in a dot\<close>

definition name_ok :: "bytes \<Rightarrow> bool" where
  "name_ok d \<longleftrightarrow> d \<noteq> [] \<and> last d \<noteq> CHR ''.''"

lemma split_byte_joined:
  "c \<notin> set w \<Longrightarrow> list_all (\<lambda>v. c \<notin> set v) ws \<Longrightarrow> split_byte c (w @ concat (map ((#) c) ws)) = w # ws"
  by (induction ws arbitrary: w) (auto simp: split_byte_word split_byte_Cons)

lemma split_byte_inj: "split_byte c s = split_byte c t \<Longrightarrow> s = t"
  by (metis list.inject split_byte_join)

lemma push_labels: "out \<noteq> [] \<Longrightarrow> foldl push_label out ls = out @ concat (map ((#) (CHR ''.'')) ls)"
  by (induction ls arbitrary: out) (auto simp: push_label_def)

lemma split_byte_empty: "split_byte c s = [[]] \<longleftrightarrow> s = []"
  using split_byte_join [of c s] by auto

lemma last_split_byte: "d \<noteq> [] \<Longrightarrow> last (split_byte c d) = [] \<longleftrightarrow> last d = c"
  by (induction d) (auto simp: split_byte_empty split: list.splits)

lemma labels_of_reversed:
  assumes "name_ok d" "\<not> kv_is_ip_literal d"
  shows "split_byte (CHR ''.'') (reverse_labels d) = rev (split_byte (CHR ''.'') d)"
proof -
  obtain ls l where ls: "split_byte (CHR ''.'') d = ls @ [l]"
    by (cases "split_byte (CHR ''.'') d" rule: rev_cases) auto
  have "l \<noteq> []" using last_split_byte [of d "CHR ''.''"] assms(1) by (simp add: name_ok_def ls)
  then have "reverse_labels d = l @ concat (map ((#) (CHR ''.'')) (rev ls))"
    using assms(2) by (simp add: reverse_labels_def ls push_label_def [of "[]"] push_labels)
  moreover have "list_all (\<lambda>v. CHR ''.'' \<notin> set v) (ls @ [l])"
    unfolding ls [symmetric] by (auto simp: list_all_iff dest: split_byte_pieces)
  ultimately show ?thesis by (simp add: ls split_byte_joined)
qed

lemma set_split_byte: "(\<exists>w \<in> set (split_byte c s). b \<in> set w) \<longleftrightarrow> b \<in> set s \<and> b \<noteq> c"
  by (induction s) (auto split: list.splits if_splits)

lemma kv_is_ip_literal_labels:
  assumes "set (split_byte (CHR ''.'') d) = set (split_byte (CHR ''.'') d')" "d \<noteq> []" "d' \<noteq> []"
  shows "kv_is_ip_literal d = kv_is_ip_literal d'"
proof -
  have "CHR '':'' \<in> set d \<longleftrightarrow> CHR '':'' \<in> set d'"
    using set_split_byte [of "CHR ''.''" d "CHR '':''"] set_split_byte [of "CHR ''.''" d' "CHR '':''"] assms(1) by simp
  then show ?thesis using assms by (simp add: kv_is_ip_literal_def list_all_iff)
qed

lemma reverse_labels_inj:
  assumes ok: "name_ok d" "name_ok d'" and eq: "reverse_labels d = reverse_labels d'"
  shows "d = d'"
proof -
  let ?sp = "split_byte (CHR ''.'')"
  have sp: "set (?sp (reverse_labels x)) = set (?sp x)" if "name_ok x" for x
    using labels_of_reversed [OF that] by (cases "kv_is_ip_literal x") (auto simp: reverse_labels_def)
  have same: "kv_is_ip_literal d = kv_is_ip_literal d'"
    using kv_is_ip_literal_labels [of d d'] sp [OF ok(1)] sp [OF ok(2)] eq ok by (auto simp: name_ok_def)
  show ?thesis
  proof (cases "kv_is_ip_literal d")
    case True
    then show ?thesis using same eq by (simp add: reverse_labels_def)
  next
    case False
    then have "rev (?sp d) = rev (?sp d')" using labels_of_reversed ok same eq by metis
    then show ?thesis by (simp add: split_byte_inj)
  qed
qed

section \<open>Superdomains\<close>

lemma lower_dot: "to_ascii_lowercase s = q @ CHR ''.'' # d \<Longrightarrow> \<exists>q' d'. s = q' @ CHR ''.'' # d' \<and> q = to_ascii_lowercase q' \<and> d = to_ascii_lowercase d'"
proof -
  assume a: "to_ascii_lowercase s = q @ CHR ''.'' # d"
  then obtain q' b d' where s: "s = q' @ b # d'" "q = to_ascii_lowercase q'" "lower_byte b = CHR ''.''" "d = to_ascii_lowercase d'"
    by (auto simp: to_ascii_lowercase_def map_eq_append_conv Cons_eq_map_conv map_eq_Cons_conv)
  moreover have "b = CHR ''.''" using s(3) lower_byte_eq [of "CHR ''.''" b] by (simp add: is_ascii_lower_def is_ascii_upper_def byte_val_def)
  ultimately show ?thesis by blast
qed

lemma superdomains_suffix:
  "d \<noteq> [] \<Longrightarrow> d \<in> set (superdomains h) \<longleftrightarrow> (\<exists>q. to_ascii_lowercase h = q @ CHR ''.'' # d)"
proof (induction h rule: superdomains.induct)
  case (1 rest)
  show ?case
  proof (cases "split_once (CHR ''.'') rest")
    case None
    then have "CHR ''.'' \<notin> set rest" by (simp add: split_once_None)
    then have "\<nexists>q. to_ascii_lowercase rest = q @ CHR ''.'' # d" using lower_dot by fastforce
    then show ?thesis using None by (simp add: superdomains.simps [of rest])
  next
    case (Some pr)
    obtain p tail where pr: "pr = (p, tail)" by (cases pr)
    then have rest: "rest = p @ CHR ''.'' # tail" "CHR ''.'' \<notin> set p" using Some by (simp_all add: split_once_Some)
    have split: "(\<exists>q. to_ascii_lowercase rest = q @ CHR ''.'' # d) \<longleftrightarrow> d = to_ascii_lowercase tail \<or> (\<exists>q. to_ascii_lowercase tail = q @ CHR ''.'' # d)"
    proof
      assume "\<exists>q. to_ascii_lowercase rest = q @ CHR ''.'' # d"
      then obtain q' d' where s: "rest = q' @ CHR ''.'' # d'" "d = to_ascii_lowercase d'" using lower_dot by blast
      then have "p @ CHR ''.'' # tail = q' @ CHR ''.'' # d'" using rest by simp
      then have "q' = p \<and> d' = tail \<or> (\<exists>r. q' = p @ CHR ''.'' # r \<and> tail = r @ CHR ''.'' # d')"
        using rest(2) by (auto simp: append_eq_append_conv2 Cons_eq_append_conv append_eq_Cons_conv)
      then show "d = to_ascii_lowercase tail \<or> (\<exists>q. to_ascii_lowercase tail = q @ CHR ''.'' # d)"
        using s(2) by (auto simp: to_ascii_lowercase_def lower_byte_def is_ascii_upper_def byte_val_def)
    next
      have l: "to_ascii_lowercase rest = to_ascii_lowercase p @ CHR ''.'' # to_ascii_lowercase tail"
        by (simp add: rest to_ascii_lowercase_def lower_byte_def is_ascii_upper_def byte_val_def)
      assume "d = to_ascii_lowercase tail \<or> (\<exists>q. to_ascii_lowercase tail = q @ CHR ''.'' # d)"
      then show "\<exists>q. to_ascii_lowercase rest = q @ CHR ''.'' # d" unfolding l by (metis append_assoc append_Cons)
    qed
    show ?thesis
    proof (cases "tail = []")
      case True
      then show ?thesis using Some pr split 1(2) by (auto simp: superdomains.simps [of rest] to_ascii_lowercase_def)
    next
      case False
      then show ?thesis using 1(1) [OF Some pr [symmetric] False 1(2)] Some pr split by (simp add: superdomains.simps [of rest])
    qed
  qed
qed

lemma superdomains_nonempty: "[] \<notin> set (superdomains h)"
proof (induction h rule: superdomains.induct)
  case (1 rest)
  show ?case using 1 by (cases "split_once (CHR ''.'') rest") (auto simp: superdomains.simps [of rest] to_ascii_lowercase_def)
qed

lemma lower_last: "s \<noteq> [] \<Longrightarrow> last (to_ascii_lowercase s) = CHR ''.'' \<longleftrightarrow> last s = CHR ''.''"
  using lower_byte_eq [of "CHR ''.''" "last s"]
  by (auto simp: to_ascii_lowercase_def last_map is_ascii_lower_def is_ascii_upper_def byte_val_def)

lemma superdomains_exact:
  assumes "name_ok h"
  shows "d \<in> set (superdomains h) \<longleftrightarrow> (\<exists>q. to_ascii_lowercase h = q @ CHR ''.'' # d)"
proof (cases "d = []")
  case True
  have "to_ascii_lowercase h \<noteq> q @ [CHR ''.'']" for q
    using assms lower_last [of h] by (metis last_snoc name_ok_def)
  then show ?thesis using superdomains_nonempty [of h] True by simp
qed (rule superdomains_suffix)

section \<open>The round trip\<close>

lemma length_to_le_bytes [simp]: "length (to_le_bytes k n) = k"
  by (induction k arbitrary: n) auto

lemma from_to_le_bytes: "from_le_bytes (to_le_bytes k n) = n mod 256 ^ k"
proof (induction k arbitrary: n)
  case (Suc k)
  then show ?case by (simp add: byte_val_char_of mod_mult2_eq)
qed simp

text \<open>What is left of an entry: its expiry, to the second below.\<close>

definition rounded :: "entry \<Rightarrow> entry" where
  "rounded e = e\<lparr>e_expires_at := int (expiry_secs (e_expires_at e)) * 1000000000\<rparr>"

definition entry_ok :: "entry \<Rightarrow> bool" where
  "entry_ok e \<longleftrightarrow> name_ok (e_domain e) \<and> is_utf8 (e_domain e) \<and> 0 \<le> e_expires_at e \<and> e_expires_at e \<le> systime_max"

lemma expiry_secs_bound: "t \<le> systime_max \<Longrightarrow> expiry_secs t \<le> 9223372036854775807"
proof -
  assume "t \<le> systime_max"
  then have "t div 1000000000 \<le> systime_max div 1000000000" by (intro zdiv_mono1) auto
  then show ?thesis by (simp add: expiry_secs_def systime_max_def nat_le_iff)
qed

lemma decode_encode:
  assumes "is_utf8 (e_domain e)" "e_domain e \<noteq> []" "e_expires_at e \<le> systime_max"
  shows "entry_decode (entry_encode e) = Some (rounded e)"
proof -
  let ?n = "expiry_secs (e_expires_at e)"
  have b: "?n \<le> 9223372036854775807" using expiry_secs_bound assms(3) by blast
  then have le: "from_le_bytes (to_le_bytes 8 ?n) = ?n" by (simp add: from_to_le_bytes)
  have at: "at_epoch_plus ?n = Some (int ?n * 1000000000)"
    using b by (simp add: at_epoch_plus_def checked_add_def from_secs_def nanos_per_sec_def systime_max_def)
  have cut: "take 9 (entry_encode e) ! 8 = char_of (if e_include_subdomains e then 1 else 0 :: nat)"
    "take 8 (take 9 (entry_encode e)) = to_le_bytes 8 ?n" "drop 9 (entry_encode e) = e_domain e" "\<not> length (entry_encode e) < 9"
    by (simp_all add: entry_encode_def nth_append)
  show ?thesis
    unfolding entry_decode_def HEAD_def Let_def cut le at
    using assms by (simp add: cut byte_val_char_of rounded_def)
qed
lemma rounded_simps [simp]:
  "e_domain (rounded e) = e_domain e" "e_include_subdomains (rounded e) = e_include_subdomains e"
  by (simp_all add: rounded_def)

lemma rounded_expiry:
  "0 \<le> e_expires_at e \<Longrightarrow> e_expires_at (rounded e) \<le> e_expires_at e \<and> e_expires_at e < e_expires_at (rounded e) + 1000000000"
proof -
  assume t: "0 \<le> e_expires_at e"
  have "e_expires_at (rounded e) = e_expires_at e div 1000000000 * 1000000000"
    using t by (simp add: rounded_def expiry_secs_def pos_imp_zdiv_nonneg_iff)
  moreover have "e_expires_at e = e_expires_at e div 1000000000 * 1000000000 + e_expires_at e mod 1000000000"
    by (rule div_mult_mod_eq [symmetric])
  moreover have "0 \<le> e_expires_at e mod 1000000000" "e_expires_at e mod 1000000000 < 1000000000" by simp_all
  ultimately show ?thesis by linarith
qed

lemma in_map_filter: "x \<in> set (List.map_filter f ys) \<longleftrightarrow> (\<exists>y \<in> set ys. f y = Some x)"
  by (induction ys) (auto simp: map_filter_simps split: option.splits)

section \<open>The contract\<close>

text \<open>
  What \<open>HstsStore\<close> asks of a store: \<open>get\<close> answers exact names only and for each of them, \<open>put\<close> keeps
  one entry per domain, \<open>remove\<close> and \<open>clear\<close> forget. \<open>keep\<close> is what a store keeps of an entry: no
  more than the entry said, and less than a second less.
\<close>

locale hsts_contract =
  fixes S :: "'s hsts_store" and inv :: "'s \<Rightarrow> bool" and keep :: "entry \<Rightarrow> entry"
  assumes get_each: "hs_get S s ds = concat (map (\<lambda>d. hs_get S s [d]) ds)"
    and put_get: "inv s \<Longrightarrow> entry_ok e \<Longrightarrow> name_ok d \<Longrightarrow>
      hs_get S (hs_put S s e) [d] = (if d = e_domain e then [keep e] else hs_get S s [d])"
    and remove_get: "inv s \<Longrightarrow> name_ok d \<Longrightarrow> name_ok d' \<Longrightarrow>
      hs_get S (hs_remove S s d') [d] = (if d = d' then [] else hs_get S s [d])"
    and clear_get: "inv s \<Longrightarrow> hs_get S (hs_clear S s) ds = []"
    and inv_ops: "inv s \<Longrightarrow> inv (hs_put S s e)" "inv s \<Longrightarrow> inv (hs_remove S s d)" "inv s \<Longrightarrow> inv (hs_clear S s)"
    and keep_fields: "e_domain (keep e) = e_domain e" "e_include_subdomains (keep e) = e_include_subdomains e"
    and keep_expiry: "entry_ok e \<Longrightarrow> 0 \<le> e_expires_at (keep e) \<and> e_expires_at (keep e) \<le> e_expires_at e \<and> e_expires_at e < e_expires_at (keep e) + 1000000000"

sublocale kv_store \<subseteq> hs: hsts_contract "kv_hsts K" inv rounded
proof unfold_locales
  have g: "hs_get (kv_hsts K) s [d] = List.map_filter entry_decode (kv_get K s NS (reverse_labels d) 0)" for s d
    by (simp add: kv_hsts_def kvs_get_def get_many_law)
  fix s ds e d d'
  show "hs_get (kv_hsts K) s ds = concat (map (\<lambda>d. hs_get (kv_hsts K) s [d]) ds)"
    unfolding g by (simp add: kv_hsts_def kvs_get_def get_many_law map_filter_def filter_concat map_concat comp_def)
  show "hs_get (kv_hsts K) (hs_put (kv_hsts K) s e) [d] = (if d = e_domain e then [rounded e] else hs_get (kv_hsts K) s [d])"
    if "inv s" "entry_ok e" "name_ok d"
  proof -
    have "reverse_labels d = reverse_labels (e_domain e) \<longleftrightarrow> d = e_domain e"
      using reverse_labels_inj that by (auto simp: entry_ok_def)
    moreover have "entry_decode (entry_encode e) = Some (rounded e)"
      using decode_encode that(2) by (simp add: entry_ok_def name_ok_def)
    ultimately show ?thesis
      unfolding g using that(1) by (simp add: kv_hsts_def kvs_put_def Let_def replace_get map_filter_simps)
  qed
  show "hs_get (kv_hsts K) (hs_remove (kv_hsts K) s d') [d] = (if d = d' then [] else hs_get (kv_hsts K) s [d])"
    if "inv s" "name_ok d" "name_ok d'"
    unfolding g using that reverse_labels_inj by (auto simp: kv_hsts_def kvs_remove_def remove_law map_filter_simps)
  show "hs_get (kv_hsts K) (hs_clear (kv_hsts K) s) ds = []" if "inv s"
    using that by (auto simp: kv_hsts_def kvs_get_def kvs_clear_def get_many_law clear_law map_filter_def)
  show "e_domain (rounded e) = e_domain e" "e_include_subdomains (rounded e) = e_include_subdomains e" by simp_all
  show "0 \<le> e_expires_at (rounded e) \<and> e_expires_at (rounded e) \<le> e_expires_at e \<and> e_expires_at e < e_expires_at (rounded e) + 1000000000"
    if "entry_ok e" using rounded_expiry [of e] that by (simp add: entry_ok_def) (simp add: rounded_def)
qed (simp_all add: kv_hsts_def kvs_put_def kvs_remove_def kvs_clear_def Let_def inv_intros)

section \<open>Codec\<close>

lemma to_from_le_bytes: "to_le_bytes (length bs) (from_le_bytes bs) = bs"
proof (induction bs)
  case (Cons b bs)
  have "byte_val b < 256" by (simp add: byte_val_def)
  then have "(byte_val b + 256 * from_le_bytes bs) div 256 = from_le_bytes bs" by simp
  moreover have "char_of (byte_val b + 256 * from_le_bytes bs) = b"
    by (metis byte_val_def char_of_char char_of_mod_256 mod_mult_self2 of_nat_id)
  ultimately show ?case using Cons by simp
qed simp

lemma decode_SomeD:
  assumes "entry_decode bs = Some e"
  obtains secs flag where "bs = to_le_bytes 8 secs @ [flag] @ e_domain e" "secs \<le> 9223372036854775807"
    "e_expires_at e = int secs * 1000000000" "flag = char_of (if e_include_subdomains e then 1 else 0 :: nat)"
    "is_utf8 (e_domain e)" "e_domain e \<noteq> []"
proof -
  have len: "9 \<le> length bs" using assms by (auto simp: entry_decode_def HEAD_def split: if_splits)
  define flag where "flag = bs ! 8"
  define secs where "secs = from_le_bytes (take 8 bs)"
  have tk: "take 9 bs ! 8 = flag" "take 8 (take 9 bs) = take 8 bs" by (simp_all add: flag_def)
  obtain subs t where *: "(if byte_val flag = 0 then Some False else if byte_val flag = 1 then Some True else None) = Some subs"
    "is_utf8 (drop 9 bs)" "drop 9 bs \<noteq> []" "at_epoch_plus secs = Some t"
    "e = \<lparr>e_domain = drop 9 bs, e_expires_at = t, e_include_subdomains = subs\<rparr>"
    using assms len by (auto simp: entry_decode_def HEAD_def tk secs_def Let_def bind_eq_Some_conv split: if_splits)
  have "char_of (byte_val flag) = flag" by (simp add: byte_val_def)
  then have "flag = char_of (if subs then 1 else 0 :: nat)" using *(1) by (metis option.inject option.distinct(1))
  moreover have "t = int secs * 1000000000" "secs \<le> 9223372036854775807"
    using *(4) by (auto simp: at_epoch_plus_def checked_add_def from_secs_def nanos_per_sec_def systime_max_def split: if_splits)
  moreover have "bs = take 8 bs @ [flag] @ drop 9 bs" using len id_take_nth_drop [of 8 bs] by (simp add: flag_def)
  moreover have "take 8 bs = to_le_bytes 8 secs" using to_from_le_bytes [of "take 8 bs"] len by (simp add: secs_def)
  ultimately show ?thesis using that [of secs flag] *(2,3,5) by simp
qed

text \<open>
  The stored form of a policy is canonical: the decoder accepts exactly the bytes the encoder
  writes for an entry with a non-empty UTF-8 domain and an expiry in whole seconds within the range of the
  clock, and answers that entry; anything else (truncated, another flag byte, a timestamp beyond the clock) is
  refused. An entry written with a finer expiry is read back with the expiry cut to the second.
\<close>

theorem entry_codec_exact:
  "(entry_decode bs = Some e \<longleftrightarrow>
      bs = entry_encode e \<and> is_utf8 (e_domain e) \<and> e_domain e \<noteq> [] \<and>
      e_expires_at e \<in> {0..systime_max} \<and> e_expires_at e mod 1000000000 = 0) \<and>
   entry_encode (rounded e) = entry_encode e"
proof (intro conjI iffI)
  assume "entry_decode bs = Some e"
  then obtain secs flag where *: "bs = to_le_bytes 8 secs @ [flag] @ e_domain e" "secs \<le> 9223372036854775807"
    "e_expires_at e = int secs * 1000000000" "flag = char_of (if e_include_subdomains e then 1 else 0 :: nat)"
    "is_utf8 (e_domain e)" "e_domain e \<noteq> []" by (rule decode_SomeD)
  then show "bs = entry_encode e" "is_utf8 (e_domain e)" "e_domain e \<noteq> []" "e_expires_at e \<in> {0..systime_max}" "e_expires_at e mod 1000000000 = 0"
    by (simp_all add: entry_encode_def expiry_secs_def systime_max_def)
next
  assume a: "bs = entry_encode e \<and> is_utf8 (e_domain e) \<and> e_domain e \<noteq> [] \<and>
      e_expires_at e \<in> {0..systime_max} \<and> e_expires_at e mod 1000000000 = 0"
  then have "rounded e = e" by (simp add: rounded_def expiry_secs_def pos_imp_zdiv_nonneg_iff mod_0_imp_dvd)
  then show "entry_decode bs = Some e" using decode_encode [of e] a by simp
next
  show "entry_encode (rounded e) = entry_encode e"
    by (simp add: entry_encode_def) (simp add: rounded_def expiry_secs_def pos_imp_zdiv_nonneg_iff)
qed

text \<open>
  The reversal drops a final dot: the keys of a name and of its fully qualified form are the same, so that a
  policy put for one replaces the policy of the other, and is then not found under the name it is asked for.
\<close>

lemma trailing_dot_collides:
  "reverse_labels ''a.test.'' = reverse_labels ''a.test'' \<and>
   kvs_get memory_kv (kvs_put memory_kv (kvs_put memory_kv memory_new
       \<lparr>e_domain = ''a.test'', e_expires_at = 5000000000, e_include_subdomains = False\<rparr>)
       \<lparr>e_domain = ''a.test.'', e_expires_at = 7000000000, e_include_subdomains = False\<rparr>) [''a.test''] =
     [\<lparr>e_domain = ''a.test.'', e_expires_at = 7000000000, e_include_subdomains = False\<rparr>] \<and>
   kvs_get memory_kv (kvs_remove memory_kv (kvs_put memory_kv memory_new
       \<lparr>e_domain = ''a.test'', e_expires_at = 5000000000, e_include_subdomains = False\<rparr>) ''a.test.'') [''a.test''] = []"
proof -
  have k: "reverse_labels ''a.test.'' = reverse_labels ''a.test''" by code_simp
  have g: "kvs_get memory_kv s [d] = List.map_filter entry_decode (kv_get memory_kv s NS (reverse_labels d) 0)" for s d
    by (simp add: kvs_get_def memory.get_many_law)
  have "is_utf8 ''a.test.''" by code_simp
  then have "entry_decode (entry_encode \<lparr>e_domain = ''a.test.'', e_expires_at = 7000000000, e_include_subdomains = False\<rparr>) =
      Some \<lparr>e_domain = ''a.test.'', e_expires_at = 7000000000, e_include_subdomains = False\<rparr>"
    by (subst decode_encode) (simp_all add: systime_max_def rounded_def expiry_secs_def)
  moreover have "kv_wf (kvs_put memory_kv memory_new e)" for e
    by (simp add: kvs_put_def Let_def memory.inv_intros new_wf)
  ultimately show ?thesis
    by (simp add: k g kvs_put_def [of _ "kvs_put _ _ _"] kvs_remove_def Let_def memory.replace_get memory.remove_law map_filter_simps)
qed

end
