(* ===== verification/Hsts_Directives.thy ===== *)
theory Hsts_Directives
  imports Field_List
begin

text \<open>
  The \<open>Strict-Transport-Security\<close> field value, \<open>crates/hclient/src/hsts/parse.rs\<close>. A field value is a string of ASCII (\<open>HeaderValue::to_str\<close>), so a \<open>char\<close> is a byte.
\<close>

section \<open>The directive list\<close>

record raw =
  r_name :: bytes
  r_value :: "bytes option"

definition raw_directive :: "lexer \<Rightarrow> 'r grammar \<Rightarrow> raw reader" where
  "raw_directive w g s =
     (let (nm, s1) = (case token w s of None \<Rightarrow> ([], s) | Some x \<Rightarrow> x);
          (v, r) = opt_value w g (quoted_string w g) s1
      in Some (\<lparr>r_name = nm, r_value = v\<rparr>, r))"

record directives =
  max_age :: nat
  include_subdomains :: bool

fun judge :: "raw list \<Rightarrow> nat option \<Rightarrow> bool option \<Rightarrow> directives option" where
  "judge [] ma subs =
     (case ma of None \<Rightarrow> None
      | Some a \<Rightarrow> Some \<lparr>max_age = a, include_subdomains = (case subs of None \<Rightarrow> False | Some b \<Rightarrow> b)\<rparr>)"
| "judge (r # rs) ma subs =
     (if eq_ignore_ascii_case (r_name r) ''max-age'' then
        (case r_value r of
           None \<Rightarrow> None
         | Some v \<Rightarrow>
             if v = [] \<or> \<not> list_all is_ascii_digit v then None
             else if ma \<noteq> None then None
             else judge rs (Some (case parse_u64 v of None \<Rightarrow> u64_max | Some n \<Rightarrow> n)) subs)
      else if eq_ignore_ascii_case (r_name r) ''includesubdomains'' then
        (if r_value r \<noteq> None then None
         else if subs \<noteq> None then None
         else judge rs ma (Some True))
      else judge rs ma subs)"

definition directives_parse :: "lexer \<Rightarrow> raw grammar \<Rightarrow> bytes \<Rightarrow> directives option" where
  "directives_parse w g value =
     (case separated0 g (raw_directive w g) (separator w g (CHR '';'')) value of (rs, r) \<Rightarrow>
        if ows g r \<noteq> [] then None else judge rs None None)"

section \<open>The judgement, without its loop\<close>

definition named :: "bytes \<Rightarrow> raw list \<Rightarrow> bytes option list" where
  "named n rs = map r_value (filter (\<lambda>r. eq_ignore_ascii_case (r_name r) n) rs)"

definition age_value :: "bytes \<Rightarrow> nat" where
  "age_value v = min (dec_val v) u64_max"

definition meaning :: "raw list \<Rightarrow> directives option" where
  "meaning rs =
     (case (named ''max-age'' rs, named ''includesubdomains'' rs) of
        ([Some v], subs) \<Rightarrow>
          if v \<noteq> [] \<and> list_all is_ascii_digit v \<and> (subs = [] \<or> subs = [None])
          then Some \<lparr>max_age = age_value v, include_subdomains = (subs \<noteq> [])\<rparr> else None
      | _ \<Rightarrow> None)"

lemma digits_age_value:
  assumes "v \<noteq> []" "list_all is_ascii_digit v"
  shows "(case parse_u64 v of None \<Rightarrow> u64_max | Some n \<Rightarrow> n) = age_value v"
proof -
  have "hd v \<noteq> CHR ''+''" using assms by (cases v) (auto simp: is_ascii_digit_def byte_val_def)
  then have "(case v of [] \<Rightarrow> [] | c # r \<Rightarrow> if c = CHR ''+'' then r else c # r) = v" using assms(1) by (cases v) auto
  then show ?thesis using assms by (simp add: parse_u64_def age_value_def)
qed

lemma names_differ: "eq_ignore_ascii_case n ''max-age'' \<Longrightarrow> \<not> eq_ignore_ascii_case n ''includesubdomains''"
proof -
  have "to_ascii_lowercase ''max-age'' \<noteq> to_ascii_lowercase ''includesubdomains''" by code_simp
  then show "eq_ignore_ascii_case n ''max-age'' \<Longrightarrow> ?thesis" by (simp add: eq_ignore_ascii_case_def)
qed

lemma named_simps [simp]:
  "named n [] = []"
  "named n (r # rs) = (if eq_ignore_ascii_case (r_name r) n then r_value r # named n rs else named n rs)"
  by (simp_all add: named_def)

lemma judge_age_set: "judge rs (Some a) subs =
   (if named ''max-age'' rs = [] \<and> (case subs of None \<Rightarrow> named ''includesubdomains'' rs = [] \<or> named ''includesubdomains'' rs = [None] | Some _ \<Rightarrow> named ''includesubdomains'' rs = [])
    then Some \<lparr>max_age = a, include_subdomains = (case subs of None \<Rightarrow> named ''includesubdomains'' rs \<noteq> [] | Some b \<Rightarrow> b)\<rparr> else None)"
  by (induction rs arbitrary: subs) (auto simp: names_differ split: option.splits)

lemma judge_meaning:
  "judge rs None subs =
     (case (named ''max-age'' rs, named ''includesubdomains'' rs) of
        ([Some v], is) \<Rightarrow>
          if v \<noteq> [] \<and> list_all is_ascii_digit v \<and> (case subs of None \<Rightarrow> is = [] \<or> is = [None] | Some _ \<Rightarrow> is = [])
          then Some \<lparr>max_age = age_value v, include_subdomains = (case subs of None \<Rightarrow> is \<noteq> [] | Some b \<Rightarrow> b)\<rparr> else None
      | _ \<Rightarrow> None)"
proof (induction rs arbitrary: subs)
  case (Cons r rs)
  consider "eq_ignore_ascii_case (r_name r) ''max-age''" "\<not> eq_ignore_ascii_case (r_name r) ''includesubdomains''"
    | "\<not> eq_ignore_ascii_case (r_name r) ''max-age''" "eq_ignore_ascii_case (r_name r) ''includesubdomains''"
    | "\<not> eq_ignore_ascii_case (r_name r) ''max-age''" "\<not> eq_ignore_ascii_case (r_name r) ''includesubdomains''"
    using names_differ by blast
  then show ?case
  proof cases
    case 1
    then show ?thesis
      by (auto simp: judge_age_set digits_age_value split: option.splits list.splits)
  next
    case 2
    then show ?thesis by (auto simp: Cons.IH split: option.splits list.splits)
  next
    case 3
    then show ?thesis by (simp add: Cons.IH)
  qed
qed simp

section \<open>Reading back what the grammar writes\<close>

definition raw_of :: "written \<Rightarrow> raw" where
  "raw_of d = \<lparr>r_name = w_name d, r_value = map_option (\<lambda>(_, _, v). value_as id v) (w_value d)\<rparr>"

lemma raw_directive_reads:
  assumes w: "winnow_ok w" and g: "grammar_ok g" and d: "written_ok d" and s: "stops (CHR '';'') s"
  shows "raw_directive w g (write_dir d @ s) = Some (raw_of d, s)"
proof -
  have "opt_value w g (quoted_string w g) (write_opt d @ s) = (map_option (\<lambda>(_, _, v). value_as id v) (w_value d), s)"
  proof (rule opt_value_reads [OF w g d s])
    show "quoted_string w g (write_value (Quoted v) @ t) = Some (id v, t)" if "list_all is_ascii v" for v t
      using quoted_string_reads [OF w g that] by simp
    show "quoted_string w g t = None" if "t = [] \<or> hd t \<noteq> CHR 0x22" for t
      using that by (auto simp: quoted_string_def literal_byte [OF w])
  qed simp
  moreover have "(case token w (write_dir d @ s) of None \<Rightarrow> ([], write_dir d @ s) | Some x \<Rightarrow> x) = (w_name d, write_opt d @ s)"
    using name_reads [OF w d s] by (simp add: write_dir_def)
  ultimately show ?thesis by (simp add: raw_directive_def raw_of_def)
qed

lemma all_true: "list_all (\<lambda>(_, _, _). True) ds"
  by (simp add: list_all_iff)

interpretation sts: field_list "CHR '';''" raw_directive raw_of "\<lambda>_. True"
  by unfold_locales (simp_all add: not_tchar is_space_def raw_directive_reads)

lemma judge_is_meaning: "judge rs None None = meaning rs"
  unfolding judge_meaning meaning_def option.case ..

lemma parse_written:
  assumes "winnow_ok w" "grammar_ok g" "list_ok d ds fin"
  shows "directives_parse w g (write_list (CHR '';'') d ds fin) = meaning (raw_of d # map (\<lambda>(_, _, d). raw_of d) ds)"
proof -
  have "dropWhile is_space fin = []" using list_ok_spaces [OF assms(3)] by (simp add: list_all_iff)
  then show ?thesis
    unfolding directives_parse_def sts.list_reads [OF assms TrueI all_true] prod.case ows_eq [OF assms(2)] judge_is_meaning by (simp only: simp_thms if_False)
qed

definition demo_value :: bytes where
  "demo_value = ''Max-Age='' @ [CHR 0x22] @ ''600'' @ [CHR 0x22] @ '' ; preload;includeSubDomains''"

lemma demo_parse:
  "directives_parse ref_lexer ref_grammar demo_value =
     Some \<lparr>max_age = 600, include_subdomains = True\<rparr>"
proof -
  let ?d = "\<lparr>w_name = ''Max-Age'', w_value = Some ([], [], Quoted ''600'')\<rparr>"
  let ?ds = "[('' '', '' '', \<lparr>w_name = ''preload'', w_value = None\<rparr>), ([], [], \<lparr>w_name = ''includeSubDomains'', w_value = None\<rparr>)]"
  have "list_ok ?d ?ds []" by code_simp
  from parse_written [OF ref_lexer_ok ref_grammar_ok this]
  have "directives_parse ref_lexer ref_grammar (write_list (CHR '';'') ?d ?ds []) = meaning (raw_of ?d # map (\<lambda>(_, _, d). raw_of d) ?ds)" .
  moreover have "write_list (CHR '';'') ?d ?ds [] = demo_value" by code_simp
  moreover have "named ''max-age'' (raw_of ?d # map (\<lambda>(_, _, d). raw_of d) ?ds) = [Some ''600'']"
    "named ''includesubdomains'' (raw_of ?d # map (\<lambda>(_, _, d). raw_of d) ?ds) = [None]" "list_all is_ascii_digit ''600''" by code_simp+
  moreover have "age_value ''600'' = 600" by (simp add: age_value_def dec_val_def byte_val_def u64_max_def)
  ultimately show ?thesis by (simp add: meaning_def del: named_simps)
qed

text \<open>
  A \<open>Strict-Transport-Security\<close> value built from the grammar, whatever the spacing, the quoting
  and the empty directives, is read as the directives it lists: it is accepted exactly when there is one
  \<open>max-age\<close>, with digits only, and at most one \<open>includeSubDomains\<close>, without a value, names compared without
  case; the age is its decimal value, capped at the largest 64-bit number, and unknown directives are ignored.
\<close>

theorem directives_parse_grammar:
  assumes "winnow_ok w" "grammar_ok g" "list_ok d ds fin"
  shows "directives_parse w g (write_list (CHR '';'') d ds fin) = meaning (raw_of d # map (\<lambda>(_, _, d). raw_of d) ds)"
  using assms by (rule parse_written)

theorem directives_parse_grammar_witness:
  "directives_parse ref_lexer ref_grammar (''Max-Age='' @ [CHR 0x22] @ ''600'' @ [CHR 0x22] @ '' ; preload;includeSubDomains'') =
     Some \<lparr>max_age = 600, include_subdomains = True\<rparr>"
proof -
  let ?d = "\<lparr>w_name = ''Max-Age'', w_value = Some ([], [], Quoted ''600'')\<rparr>"
  let ?ds = "[('' '', '' '', \<lparr>w_name = ''preload'', w_value = None\<rparr>), ([], [], \<lparr>w_name = ''includeSubDomains'', w_value = None\<rparr>)]"
  have "list_ok ?d ?ds []" by code_simp
  from directives_parse_grammar [OF ref_lexer_ok ref_grammar_ok this]
  have "directives_parse ref_lexer ref_grammar (write_list (CHR '';'') ?d ?ds []) = meaning (raw_of ?d # map (\<lambda>(_, _, d). raw_of d) ?ds)" .
  moreover have "write_list (CHR '';'') ?d ?ds [] = ''Max-Age='' @ [CHR 0x22] @ ''600'' @ [CHR 0x22] @ '' ; preload;includeSubDomains''" by code_simp
  moreover have "named ''max-age'' (raw_of ?d # map (\<lambda>(_, _, d). raw_of d) ?ds) = [Some ''600'']"
    "named ''includesubdomains'' (raw_of ?d # map (\<lambda>(_, _, d). raw_of d) ?ds) = [None]" "list_all is_ascii_digit ''600''" by code_simp+
  moreover have "age_value ''600'' = 600" by (simp add: age_value_def dec_val_def byte_val_def u64_max_def)
  ultimately show ?thesis by (simp add: meaning_def del: named_simps)
qed

end
