(* ===== verification/Hsts.thy ===== *)
theory Hsts
  imports Hsts_Store Hsts_Directives Uri_Resolve
begin

text \<open>
  The HSTS rules of \<open>crates/hclient/src/hsts/mod.rs\<close>, over any \<open>HstsStore\<close>, and the two places the
  client calls them from (\<open>upgrade_scheme\<close> and \<open>note_hsts\<close> of \<open>crates/hclient/src/client.rs\<close>).

  What the rules take from the \<open>http\<close> crate is the record \<open>hsts_env\<close>: \<open>HeaderValue::to_str\<close>, the path and
  query of a URI, the parsing of an authority and \<open>Uri::from_parts\<close>; the first value of the
  \<open>Strict-Transport-Security\<close> field is an argument.
\<close>

section \<open>The rules\<close>

record hsts_env =
  env_lexer :: lexer
  env_grammar :: "raw grammar"
  env_to_str :: "bytes \<Rightarrow> bytes option"
  env_path_and_query :: "http_uri \<Rightarrow> bytes option"
  env_authority :: "bytes \<Rightarrow> bytes option"
  env_from_parts :: "bytes \<Rightarrow> bytes \<Rightarrow> bytes \<Rightarrow> http_uri option"

text \<open>9600 hours.\<close>

definition MAX_AGE_CAP :: duration where
  "MAX_AGE_CAP = from_secs (9600 * 3600)"

definition hsts_is_ip_literal :: "bytes \<Rightarrow> bool" where
  "hsts_is_ip_literal h \<longleftrightarrow>
     parse_ip (case Option.bind (strip_prefix ''['' h) (strip_suffix '']'') of None \<Rightarrow> h | Some b \<Rightarrow> b) \<noteq> None"

definition is_known :: "'s hsts_store \<Rightarrow> 's \<Rightarrow> bytes \<Rightarrow> system_time \<Rightarrow> bool \<times> 's" where
  "is_known S s h now =
     (let candidates = hsts_candidate_domains h;
          found = hs_get S s candidates;
          expired = map e_domain (filter (\<lambda>e. e_expires_at e \<le> now) found);
          covered = list_ex (\<lambda>e. e_domain e = candidates ! 0 \<or> e_include_subdomains e)
                      (filter (\<lambda>e. \<not> e_expires_at e \<le> now) found)
      in (covered, foldl (hs_remove S) s expired))"

definition rebuilt_authority :: "bytes \<Rightarrow> nat option \<Rightarrow> bytes" where
  "rebuilt_authority h port =
     (case port of
        None \<Rightarrow> h
      | Some p \<Rightarrow> if p = 80 then h @ '':443'' else h @ '':'' @ dec_bytes p)"

definition hsts_upgrade :: "hsts_env \<Rightarrow> 's hsts_store \<Rightarrow> 's \<Rightarrow> http_uri \<Rightarrow> system_time \<Rightarrow> http_uri option \<times> 's" where
  "hsts_upgrade env S s uri now =
     (if scheme_str uri \<noteq> Some ''http'' then (None, s) else
      case host uri of
        None \<Rightarrow> (None, s)
      | Some h \<Rightarrow>
          if hsts_is_ip_literal h then (None, s) else
          (case is_known S s h now of
             (False, s') \<Rightarrow> (None, s')
           | (True, s') \<Rightarrow>
               (Option.bind (authority uri) (\<lambda>_.
                Option.bind (env_authority env (rebuilt_authority h (port_u16 uri))) (\<lambda>a.
                env_from_parts env ''https'' a (case env_path_and_query env uri of None \<Rightarrow> ''/'' | Some pq \<Rightarrow> pq))), s')))"

definition hsts_note :: "hsts_env \<Rightarrow> 's hsts_store \<Rightarrow> 's \<Rightarrow> http_uri \<Rightarrow> bytes option \<Rightarrow> bool \<Rightarrow> system_time \<Rightarrow> 's" where
  "hsts_note env S s uri field secure now =
     (if \<not> secure then s else
      case host uri of
        None \<Rightarrow> s
      | Some h \<Rightarrow>
          if hsts_is_ip_literal h then s else
          (case Option.bind (Option.bind field (env_to_str env)) (directives_parse (env_lexer env) (env_grammar env)) of
             None \<Rightarrow> s
           | Some ds \<Rightarrow>
               let d = to_ascii_lowercase h in
               if max_age ds = 0 then hs_remove S s d
               else
                 let t = (case checked_add now (min MAX_AGE_CAP (from_secs (max_age ds))) of None \<Rightarrow> now | Some t \<Rightarrow> t)
                 in hs_put S s \<lparr>e_domain = d, e_expires_at = t, e_include_subdomains = include_subdomains ds\<rparr>))"

section \<open>The client\<close>

definition upgrade_scheme ::
    "hsts_env \<Rightarrow> 's hsts_store \<Rightarrow> 's option \<Rightarrow> http_uri \<Rightarrow> system_time \<Rightarrow> http_uri \<times> 's option" where
  "upgrade_scheme env S hsts uri now =
     (case hsts of
        None \<Rightarrow> (uri, None)
      | Some s \<Rightarrow> (case hsts_upgrade env S s uri now of (u, s') \<Rightarrow> (case u of None \<Rightarrow> uri | Some u \<Rightarrow> u, Some s')))"

definition note_hsts ::
    "hsts_env \<Rightarrow> 's hsts_store \<Rightarrow> 's option \<Rightarrow> http_uri \<Rightarrow> bytes option \<Rightarrow> system_time \<Rightarrow> 's option" where
  "note_hsts env S hsts uri field now =
     map_option (\<lambda>s. hsts_note env S s uri field (scheme_str uri = Some ''https'') now) hsts"

section \<open>The abstract policy set\<close>

text \<open>What a store knows of a domain, and when a set of policies covers a host (RFC 6797, 8.2 and 8.3).\<close>

definition policy :: "'s hsts_store \<Rightarrow> 's \<Rightarrow> bytes \<Rightarrow> entry option" where
  "policy S s d = (case hs_get S s [d] of [] \<Rightarrow> None | e # _ \<Rightarrow> Some e)"

definition in_scope :: "bytes \<Rightarrow> bytes \<Rightarrow> bool \<Rightarrow> bool" where
  "in_scope h d subs \<longleftrightarrow> to_ascii_lowercase h = d \<or> subs \<and> (\<exists>q. to_ascii_lowercase h = q @ ''.'' @ d)"

definition covers :: "(bytes \<Rightarrow> entry option) \<Rightarrow> bytes \<Rightarrow> system_time \<Rightarrow> bool" where
  "covers m h now \<longleftrightarrow> (\<exists>d e. m d = Some e \<and> now < e_expires_at e \<and> in_scope h d (e_include_subdomains e))"

text \<open>The entries are filed under their own domain, one for each.\<close>

definition filed :: "'s hsts_store \<Rightarrow> 's \<Rightarrow> bool" where
  "filed S s \<longleftrightarrow> (\<forall>d. name_ok d \<longrightarrow> hs_get S s [d] = [] \<or> (\<exists>e. hs_get S s [d] = [e] \<and> e_domain e = d))"

lemma filed_get: "filed S s \<Longrightarrow> name_ok d \<Longrightarrow> hs_get S s [d] = (case policy S s d of None \<Rightarrow> [] | Some e \<Rightarrow> [e])"
  by (auto simp: filed_def policy_def)

lemma filed_domain: "filed S s \<Longrightarrow> name_ok d \<Longrightarrow> policy S s d = Some e \<Longrightarrow> e_domain e = d"
  by (force simp: filed_def policy_def split: list.splits)

lemma name_ok_lower [simp]: "name_ok (to_ascii_lowercase h) = name_ok h"
  using lower_byte_eq [of "CHR ''.''" "last h"]
  by (auto simp: name_ok_def to_ascii_lowercase_def last_map is_ascii_lower_def is_ascii_upper_def byte_val_def)

lemma candidates_in_scope:
  "name_ok h \<Longrightarrow> d \<in> set (hsts_candidate_domains h) \<longleftrightarrow> in_scope h d True"
  by (auto simp: hsts_candidate_domains_def superdomains_exact in_scope_def)

lemma scope_name_ok: "name_ok h \<Longrightarrow> in_scope h d subs \<Longrightarrow> name_ok d"
proof -
  assume h: "name_ok h" and d: "in_scope h d subs"
  have "name_ok (to_ascii_lowercase h)" using h by simp
  then show ?thesis using d by (auto simp: in_scope_def name_ok_def split: if_splits)
qed

section \<open>The rules, over any store that keeps the contract\<close>

context hsts_contract
begin

definition good :: "'s \<Rightarrow> bool" where
  "good s \<longleftrightarrow> inv s \<and> filed S s"

lemma policy_eqI: "hs_get S s [d] = hs_get S s' [d] \<Longrightarrow> policy S s d = policy S s' d"
  by (simp add: policy_def)

lemma put_policy:
  assumes "good s" "entry_ok e"
  shows "good (hs_put S s e) \<and> (\<forall>d. name_ok d \<longrightarrow> policy S (hs_put S s e) d = (if d = e_domain e then Some (keep e) else policy S s d))"
  using assms by (auto simp: good_def filed_def policy_def put_get inv_ops keep_fields)

lemma remove_policy:
  assumes "good s" "name_ok d'"
  shows "good (hs_remove S s d') \<and> (\<forall>d. name_ok d \<longrightarrow> policy S (hs_remove S s d') d = (if d = d' then None else policy S s d))"
  using assms by (auto simp: good_def filed_def policy_def remove_get inv_ops)

lemma remove_many:
  "good s \<Longrightarrow> list_all name_ok ds \<Longrightarrow>
   good (foldl (hs_remove S) s ds) \<and>
   (\<forall>d. name_ok d \<longrightarrow> policy S (foldl (hs_remove S) s ds) d = (if d \<in> set ds then None else policy S s d))"
proof (induction ds arbitrary: s)
  case (Cons x ds)
  have "good (hs_remove S s x)" "\<And>d. name_ok d \<Longrightarrow> policy S (hs_remove S s x) d = (if d = x then None else policy S s d)"
    using remove_policy [OF Cons.prems(1), of x] Cons.prems(2) by auto
  then show ?case using Cons.IH [of "hs_remove S s x"] Cons.prems(2) by auto
qed simp

lemma found_iff:
  assumes "good s" "name_ok h"
  shows "e \<in> set (hs_get S s (hsts_candidate_domains h)) \<longleftrightarrow> policy S s (e_domain e) = Some e \<and> in_scope h (e_domain e) True"
proof -
  have "e \<in> set (hs_get S s (hsts_candidate_domains h)) \<longleftrightarrow> (\<exists>d. in_scope h d True \<and> e \<in> set (hs_get S s [d]))"
    by (subst get_each) (auto simp: candidates_in_scope [OF assms(2)])
  also have "\<dots> \<longleftrightarrow> (\<exists>d. in_scope h d True \<and> policy S s d = Some e)"
  proof -
    have "e \<in> set (hs_get S s [d]) \<longleftrightarrow> policy S s d = Some e" if "in_scope h d True" for d
      using filed_get [of S s d] assms(1) scope_name_ok [OF assms(2) that] by (auto simp: good_def split: option.splits)
    then show ?thesis by blast
  qed
  also have "\<dots> \<longleftrightarrow> policy S s (e_domain e) = Some e \<and> in_scope h (e_domain e) True"
    using assms scope_name_ok [OF assms(2)] filed_domain by (metis good_def)
  finally show ?thesis .
qed

lemma is_known_spec:
  assumes "good s" "name_ok h"
  shows "fst (is_known S s h now) = covers (policy S s) h now \<and> good (snd (is_known S s h now)) \<and>
    (\<forall>d. name_ok d \<longrightarrow> policy S (snd (is_known S s h now)) d =
      (case policy S s d of None \<Rightarrow> None | Some e \<Rightarrow> if in_scope h d True \<and> e_expires_at e \<le> now then None else Some e))"
proof -
  define found where "found = hs_get S s (hsts_candidate_domains h)"
  define gone where "gone = map e_domain (filter (\<lambda>e. e_expires_at e \<le> now) found)"
  have f: "e \<in> set found \<longleftrightarrow> policy S s (e_domain e) = Some e \<and> in_scope h (e_domain e) True" for e
    unfolding found_def by (rule found_iff [OF assms])
  have dom: "policy S s d = Some e \<Longrightarrow> in_scope h d b \<Longrightarrow> e_domain e = d" for d e b
    using assms filed_domain scope_name_ok [OF assms(2)] by (metis good_def)
  have first: "hsts_candidate_domains h ! 0 = to_ascii_lowercase h" by (simp add: hsts_candidate_domains_def)
  have scope: "in_scope h d True \<and> (d = to_ascii_lowercase h \<or> b) \<longleftrightarrow> in_scope h d b" for d b by (auto simp: in_scope_def)
  have "list_ex (\<lambda>e. e_domain e = to_ascii_lowercase h \<or> e_include_subdomains e) (filter (\<lambda>e. \<not> e_expires_at e \<le> now) found)
      \<longleftrightarrow> (\<exists>e. policy S s (e_domain e) = Some e \<and> now < e_expires_at e \<and> in_scope h (e_domain e) (e_include_subdomains e))"
    using f scope by (auto simp: list_ex_iff not_le)
  also have "\<dots> \<longleftrightarrow> covers (policy S s) h now" unfolding covers_def using dom by fastforce
  finally have cov: "fst (is_known S s h now) = covers (policy S s) h now"
    by (simp add: is_known_def Let_def found_def [symmetric] first)
  have snd: "snd (is_known S s h now) = foldl (hs_remove S) s gone" by (simp add: is_known_def Let_def found_def gone_def)
  have "list_all name_ok gone" using f scope_name_ok [OF assms(2)] by (auto simp: gone_def list_all_iff)
  note rm = remove_many [OF assms(1) this]
  have "d \<in> set gone \<longleftrightarrow> (\<exists>e. policy S s d = Some e \<and> in_scope h d True \<and> e_expires_at e \<le> now)" for d
    unfolding gone_def using f dom by (auto simp: image_iff) metis
  then show ?thesis using cov rm unfolding snd by (auto split: option.splits)
qed
end

section \<open>What a note does\<close>

text \<open>Hosts as an \<open>http::Uri\<close> has them, ASCII, and not in the fully qualified form with a final dot.\<close>

definition host_ok :: "bytes \<Rightarrow> bool" where
  "host_ok h \<longleftrightarrow> name_ok h \<and> list_all is_ascii h"

text \<open>The directives a response asserts: over a secure transport, from a name, with a value that parses.\<close>

definition asserted :: "hsts_env \<Rightarrow> http_uri \<Rightarrow> bytes option \<Rightarrow> bool \<Rightarrow> directives option" where
  "asserted env uri field secure =
     (case host uri of
        None \<Rightarrow> None
      | Some h \<Rightarrow>
          if secure \<and> \<not> hsts_is_ip_literal h
          then Option.bind (Option.bind field (env_to_str env)) (directives_parse (env_lexer env) (env_grammar env)) else None)"

definition lease :: "system_time \<Rightarrow> nat \<Rightarrow> system_time" where
  "lease now age = (case checked_add now (min MAX_AGE_CAP (from_secs age)) of None \<Rightarrow> now | Some t \<Rightarrow> t)"

lemma note_None: "asserted env uri field secure = None \<Longrightarrow> hsts_note env S s uri field secure now = s"
  by (auto simp: asserted_def hsts_note_def split: option.splits if_splits)

lemma note_Some:
  "asserted env uri field secure = Some ds \<Longrightarrow> host uri = Some h \<Longrightarrow>
   hsts_note env S s uri field secure now =
     (if max_age ds = 0 then hs_remove S s (to_ascii_lowercase h)
      else hs_put S s \<lparr>e_domain = to_ascii_lowercase h, e_expires_at = lease now (max_age ds), e_include_subdomains = include_subdomains ds\<rparr>)"
  by (auto simp: asserted_def hsts_note_def lease_def Let_def split: if_splits)

lemma ascii_lower: "list_all is_ascii h \<Longrightarrow> list_all is_ascii (to_ascii_lowercase h)"
  by (auto simp: list_all_iff to_ascii_lowercase_def lower_byte_def is_ascii_def is_ascii_upper_def byte_val_def)

lemma lease_range: "0 \<le> now \<Longrightarrow> now \<le> systime_max \<Longrightarrow> 0 \<le> lease now age \<and> lease now age \<le> systime_max"
  by (auto simp: lease_def checked_add_def)

lemma noted_entry_ok:
  "host_ok h \<Longrightarrow> 0 \<le> now \<Longrightarrow> now \<le> systime_max \<Longrightarrow>
   entry_ok \<lparr>e_domain = to_ascii_lowercase h, e_expires_at = lease now age, e_include_subdomains = b\<rparr>"
  using lease_range [of now age] by (simp add: entry_ok_def host_ok_def ascii_lower is_utf8_ascii)

definition noted_policy :: "(entry \<Rightarrow> entry) \<Rightarrow> (bytes \<Rightarrow> entry option) \<Rightarrow> bytes \<Rightarrow> directives option \<Rightarrow> system_time \<Rightarrow> bytes \<Rightarrow> entry option" where
  "noted_policy keep m h ads now =
     (case ads of
        None \<Rightarrow> m
      | Some ds \<Rightarrow>
          m(to_ascii_lowercase h :=
             (if max_age ds = 0 then None
              else Some (keep \<lparr>e_domain = to_ascii_lowercase h, e_expires_at = lease now (max_age ds),
                e_include_subdomains = include_subdomains ds\<rparr>))))"

context hsts_contract
begin

lemma note_spec:
  assumes "good s" "host uri = Some h" "host_ok h" "0 \<le> now" "now \<le> systime_max"
  shows "good (hsts_note env S s uri field secure now) \<and>
    (\<forall>d. name_ok d \<longrightarrow> policy S (hsts_note env S s uri field secure now) d =
      noted_policy keep (policy S s) h (asserted env uri field secure) now d)"
proof (cases "asserted env uri field secure")
  case None
  then show ?thesis using assms(1) by (simp add: note_None noted_policy_def)
next
  case (Some ds)
  have n: "name_ok (to_ascii_lowercase h)" using assms(3) by (simp add: host_ok_def)
  show ?thesis
    using remove_policy [OF assms(1) n] put_policy [OF assms(1) noted_entry_ok [OF assms(3-5), of "max_age ds" "include_subdomains ds"]]
    by (auto simp: note_Some [OF Some assms(2)] noted_policy_def Some)
qed

lemma clear_policy: "good s \<Longrightarrow> good (hs_clear S s) \<and> policy S (hs_clear S s) d = None"
  by (simp add: good_def filed_def policy_def clear_get inv_ops)

lemma upgrade_state:
  "snd (hsts_upgrade env S s uri now) =
     (case host uri of
        None \<Rightarrow> s
      | Some h \<Rightarrow> if scheme_str uri = Some ''http'' \<and> \<not> hsts_is_ip_literal h then snd (is_known S s h now) else s)"
  by (auto simp: hsts_upgrade_def split: option.splits prod.splits bool.splits)

end

section \<open>The in-memory policy set\<close>

abbreviation in_memory :: "system_time namespaces hsts_store" where
  "in_memory \<equiv> kv_hsts memory_kv"

text \<open>
  Everything that changes the store: the rules, and the other components that keep their own namespace in
  the same byte store.
\<close>

datatype hsts_op =
    Note http_uri "bytes option" bool system_time
  | Upgrade http_uri system_time
  | ClearAll
  | OtherPut bytes bytes bytes "system_time option" system_time
  | OtherRemove bytes bytes
  | OtherClear bytes

primrec hsts_run :: "hsts_env \<Rightarrow> system_time namespaces \<Rightarrow> hsts_op \<Rightarrow> system_time namespaces" where
  "hsts_run env s (Note uri field secure now) = hsts_note env in_memory s uri field secure now"
| "hsts_run env s (Upgrade uri now) = snd (hsts_upgrade env in_memory s uri now)"
| "hsts_run env s ClearAll = hs_clear in_memory s"
| "hsts_run env s (OtherPut ns k v e t) = kv_put memory_kv s ns k v e t"
| "hsts_run env s (OtherRemove ns k) = kv_remove memory_kv s ns k"
| "hsts_run env s (OtherClear ns) = kv_clear memory_kv s ns"

definition uri_ok :: "http_uri \<Rightarrow> bool" where
  "uri_ok u \<longleftrightarrow> (case host u of None \<Rightarrow> True | Some h \<Rightarrow> host_ok h)"

primrec op_ok :: "hsts_op \<Rightarrow> bool" where
  "op_ok (Note uri field secure now) \<longleftrightarrow> uri_ok uri \<and> 0 \<le> now \<and> now \<le> systime_max"
| "op_ok (Upgrade uri now) \<longleftrightarrow> uri_ok uri"
| "op_ok ClearAll \<longleftrightarrow> True"
| "op_ok (OtherPut ns k v e t) \<longleftrightarrow> ns \<noteq> NS"
| "op_ok (OtherRemove ns k) \<longleftrightarrow> ns \<noteq> NS"
| "op_ok (OtherClear ns) \<longleftrightarrow> ns \<noteq> NS"

lemma in_memory_get: "hs_get in_memory s [d] = List.map_filter entry_decode (kv_get memory_kv s NS (reverse_labels d) 0)"
  by (simp add: kv_hsts_def kvs_get_def memory.get_many_law)

lemma good_new: "memory.hs.good memory_new"
  unfolding memory.hs.good_def filed_def in_memory_get
  by (simp add: new_wf memory_kv_def memory_get_def read_one_view map_filter_simps)

lemma other_policy:
  assumes "\<And>k. kv_get memory_kv s' NS k 0 = kv_get memory_kv s NS k 0"
  shows "policy in_memory s' = policy in_memory s" "filed in_memory s' = filed in_memory s"
  using assms by (simp_all add: policy_def filed_def in_memory_get fun_eq_iff)

lemma upgrade_policy:
  assumes "memory.hs.good s" "uri_ok uri"
  shows "memory.hs.good (snd (hsts_upgrade env in_memory s uri now)) \<and>
    (\<forall>d e. name_ok d \<longrightarrow> policy in_memory s d = Some e \<longrightarrow> now < e_expires_at e \<longrightarrow>
       policy in_memory (snd (hsts_upgrade env in_memory s uri now)) d = Some e)"
proof (cases "host uri")
  case None
  then show ?thesis using assms(1) by (simp add: memory.hs.upgrade_state)
next
  case (Some h)
  then have "name_ok h" using assms(2) by (simp add: uri_ok_def host_ok_def)
  from memory.hs.is_known_spec [OF assms(1) this, of now] show ?thesis
    using assms(1) Some by (simp add: memory.hs.upgrade_state)
qed

definition foreign :: "hsts_op \<Rightarrow> bool" where
  "foreign x \<longleftrightarrow> (case x of Note _ _ _ _ \<Rightarrow> False | Upgrade _ _ \<Rightarrow> False | ClearAll \<Rightarrow> False | _ \<Rightarrow> True)"

lemma foreign_run:
  assumes "memory.hs.good s" "op_ok x" "foreign x"
  shows "memory.hs.good (hsts_run env s x) \<and> policy in_memory (hsts_run env s x) = policy in_memory s"
proof -
  have wf: "kv_wf s" using assms(1) by (simp add: memory.hs.good_def)
  have "kv_get memory_kv (hsts_run env s x) NS k 0 = kv_get memory_kv s NS k 0" for k
    using assms(2,3) by (cases x) (simp_all add: foreign_def memory.put_other [OF wf] memory.remove_law [OF wf] memory.clear_law [OF wf])
  moreover have "kv_wf (hsts_run env s x)"
    using assms(3) wf by (cases x) (simp_all add: foreign_def memory.inv_intros)
  ultimately show ?thesis using other_policy [of "hsts_run env s x" s] assms(1) by (simp add: memory.hs.good_def)
qed

lemma run_good:
  assumes "memory.hs.good s" "op_ok x"
  shows "memory.hs.good (hsts_run env s x)"
proof (cases x)
  case (Note uri field secure now)
  show ?thesis
  proof (cases "host uri")
    case (Some h)
    then show ?thesis using memory.hs.note_spec [OF assms(1) Some] Note assms(2) by (simp add: uri_ok_def)
  qed (use assms(1) in \<open>simp add: Note hsts_note_def\<close>)
next
  case (Upgrade uri now)
  then show ?thesis using upgrade_policy [OF assms(1)] assms(2) by simp
next
  case ClearAll
  then show ?thesis using memory.hs.clear_policy [OF assms(1)] by simp
qed (use foreign_run [OF assms] in \<open>auto simp: foreign_def\<close>)

lemma runs_good: "list_all op_ok xs \<Longrightarrow> memory.hs.good s \<Longrightarrow> memory.hs.good (foldl (hsts_run env) s xs)"
  by (induction xs arbitrary: s) (auto simp: run_good)

section \<open>What is kept under a key\<close>

text \<open>
  The key a policy is kept under drops a final dot, so that a host shares its policy with its fully qualified form
  (\<open>trailing_dot_collides\<close>); two names without a final dot share a key only when they are the same
  (\<open>reverse_labels_inj\<close>).
\<close>

definition host_key :: "bytes \<Rightarrow> bytes" where
  "host_key h = reverse_labels (to_ascii_lowercase h)"

text \<open>Every entry is kept under the key of its own domain, which a put sees to.\<close>

definition keyed :: "'s key_value_store \<Rightarrow> 's \<Rightarrow> bool" where
  "keyed K s \<longleftrightarrow> (\<forall>k. \<forall>v \<in> set (kv_get K s NS k 0). pred_option (\<lambda>e. reverse_labels (e_domain e) = k) (entry_decode v))"

lemma keyedD: "keyed K s \<Longrightarrow> v \<in> set (kv_get K s NS k 0) \<Longrightarrow> entry_decode v = Some e \<Longrightarrow> reverse_labels (e_domain e) = k"
  by (fastforce simp: keyed_def)

lemma keyed_cong: "(\<And>k. kv_get K s' NS k 0 = kv_get K s NS k 0) \<Longrightarrow> keyed K s' = keyed K s"
  by (simp add: keyed_def)

lemma decode_encode_domain: "entry_decode (entry_encode e) = Some e' \<Longrightarrow> e_domain e' = e_domain e"
  by (auto simp: entry_decode_def entry_encode_def HEAD_def Let_def bind_eq_Some_conv split: if_splits)

context kv_store
begin

lemma kv_hsts_get:
  "e \<in> set (hs_get (kv_hsts K) s ds) \<longleftrightarrow> (\<exists>d \<in> set ds. \<exists>v \<in> set (kv_get K s NS (reverse_labels d) 0). entry_decode v = Some e)"
  by (auto simp: kv_hsts_def kvs_get_def get_many_law in_map_filter)

lemma put_key:
  "inv s \<Longrightarrow> kv_get K (hs_put (kv_hsts K) s e) NS k 0 = (if k = reverse_labels (e_domain e) then [entry_encode e] else kv_get K s NS k 0)"
  by (simp add: kv_hsts_def kvs_put_def Let_def replace_get)

lemma remove_key:
  "inv s \<Longrightarrow> kv_get K (hs_remove (kv_hsts K) s d) NS k 0 = (if k = reverse_labels d then [] else kv_get K s NS k 0)"
  by (simp add: kv_hsts_def kvs_remove_def remove_law)

lemma put_keyed:
  assumes "inv s" "keyed K s"
  shows "keyed K (hs_put (kv_hsts K) s e)"
  unfolding keyed_def
proof (intro allI ballI)
  fix k v
  assume v: "v \<in> set (kv_get K (hs_put (kv_hsts K) s e) NS k 0)"
  show "pred_option (\<lambda>e. reverse_labels (e_domain e) = k) (entry_decode v)"
  proof (cases "k = reverse_labels (e_domain e)")
    case True
    then have "v = entry_encode e" using v assms(1) by (simp add: put_key)
    then show ?thesis unfolding True option.pred_set using decode_encode_domain by (auto simp: elem_set)
  next
    case False
    then have "v \<in> set (kv_get K s NS k 0)" using v assms(1) by (simp add: put_key)
    then show ?thesis using assms(2) unfolding keyed_def by blast
  qed
qed

lemma remove_keyed: "inv s \<Longrightarrow> keyed K s \<Longrightarrow> keyed K (hs_remove (kv_hsts K) s d)"
  by (simp add: keyed_def remove_key)

lemma removes_key:
  "inv s \<Longrightarrow> keyed K s \<Longrightarrow> inv (foldl (hs_remove (kv_hsts K)) s ds) \<and> keyed K (foldl (hs_remove (kv_hsts K)) s ds) \<and>
     kv_get K (foldl (hs_remove (kv_hsts K)) s ds) NS k 0 = (if k \<in> reverse_labels ` set ds then [] else kv_get K s NS k 0)"
proof (induction ds arbitrary: s)
  case (Cons d ds)
  then show ?case using hs.inv_ops(2) remove_keyed by (auto simp: remove_key)
qed simp

text \<open>A lookup of any host forgets only what has expired.\<close>

lemma is_known_key:
  assumes "inv s" "keyed K s"
  shows "inv (snd (is_known (kv_hsts K) s h now)) \<and> keyed K (snd (is_known (kv_hsts K) s h now)) \<and>
    (kv_get K s NS k 0 = [v] \<longrightarrow> entry_decode v = Some e \<longrightarrow> now < e_expires_at e \<longrightarrow>
       kv_get K (snd (is_known (kv_hsts K) s h now)) NS k 0 = [v])"
proof -
  define gone where "gone = map e_domain (filter (\<lambda>e. e_expires_at e \<le> now) (hs_get (kv_hsts K) s (hsts_candidate_domains h)))"
  have snd: "snd (is_known (kv_hsts K) s h now) = foldl (hs_remove (kv_hsts K)) s gone" by (simp add: is_known_def Let_def gone_def)
  have "k \<notin> reverse_labels ` set gone" if "kv_get K s NS k 0 = [v]" "entry_decode v = Some e" "now < e_expires_at e"
  proof
    assume "k \<in> reverse_labels ` set gone"
    then obtain f d w where f: "k = reverse_labels (e_domain f)" "e_expires_at f \<le> now"
      "w \<in> set (kv_get K s NS (reverse_labels d) 0)" "entry_decode w = Some f"
      unfolding gone_def by (auto simp: kv_hsts_get)
    have "reverse_labels d = k" using keyedD [OF assms(2) f(3,4)] f(1) by simp
    then show False using f that by auto
  qed
  then show ?thesis using removes_key [OF assms, of gone k] unfolding snd by auto
qed

lemma is_known_covered:
  assumes "kv_get K s NS (reverse_labels (e_domain e)) 0 = [v]" "entry_decode v = Some e" "now < e_expires_at e"
    "in_scope h (e_domain e) (e_include_subdomains e)" "e_domain e \<noteq> []"
  shows "fst (is_known (kv_hsts K) s h now)"
proof -
  have "e_domain e \<in> set (hsts_candidate_domains h)"
    using assms(4) superdomains_suffix [OF assms(5), of h] by (auto simp: in_scope_def hsts_candidate_domains_def)
  moreover have "v \<in> set (kv_get K s NS (reverse_labels (e_domain e)) 0)" using assms(1) by simp
  ultimately have "e \<in> set (hs_get (kv_hsts K) s (hsts_candidate_domains h))" unfolding kv_hsts_get using assms(2) by blast
  moreover have "e_domain e = hsts_candidate_domains h ! 0 \<or> e_include_subdomains e"
    using assms(4) by (auto simp: in_scope_def hsts_candidate_domains_def)
  ultimately show ?thesis using assms(3) by (auto simp: is_known_def Let_def list_ex_iff)
qed

end

text \<open>The other components keep to their own namespaces.\<close>

primrec own_namespace :: "hsts_op \<Rightarrow> bool" where
  "own_namespace (Note uri field secure now) \<longleftrightarrow> True"
| "own_namespace (Upgrade uri now) \<longleftrightarrow> True"
| "own_namespace ClearAll \<longleftrightarrow> True"
| "own_namespace (OtherPut ns k v e t) \<longleftrightarrow> ns \<noteq> NS"
| "own_namespace (OtherRemove ns k) \<longleftrightarrow> ns \<noteq> NS"
| "own_namespace (OtherClear ns) \<longleftrightarrow> ns \<noteq> NS"

text \<open>
  Operations that leave what is kept under a key alone until a time: notes of hosts with another key, whatever is
  looked up before that time, and the other components.
\<close>

primrec spares :: "bytes \<Rightarrow> system_time \<Rightarrow> hsts_op \<Rightarrow> bool" where
  "spares k t (Note uri field secure now) \<longleftrightarrow> map_option host_key (host uri) \<noteq> Some k"
| "spares k t (Upgrade uri now) \<longleftrightarrow> now < t"
| "spares k t ClearAll \<longleftrightarrow> False"
| "spares k t (OtherPut ns k' v e now) \<longleftrightarrow> ns \<noteq> NS"
| "spares k t (OtherRemove ns k') \<longleftrightarrow> ns \<noteq> NS"
| "spares k t (OtherClear ns) \<longleftrightarrow> ns \<noteq> NS"

abbreviation tidy :: "system_time namespaces \<Rightarrow> bool" where
  "tidy s \<equiv> kv_wf s \<and> keyed memory_kv s"

lemma tidy_new: "tidy memory_new"
  by (simp add: keyed_def new_wf memory_kv_def memory_get_def read_one_view)

lemma note_cases:
  "(\<And>h e. host uri = Some h \<Longrightarrow> e_domain e = to_ascii_lowercase h \<Longrightarrow> P (hs_put S s e)) \<Longrightarrow>
   (\<And>h. host uri = Some h \<Longrightarrow> P (hs_remove S s (to_ascii_lowercase h))) \<Longrightarrow> P s \<Longrightarrow> P (hsts_note env S s uri field secure now)"
proof (cases "asserted env uri field secure")
  case (Some ds)
  assume a: "\<And>h e. host uri = Some h \<Longrightarrow> e_domain e = to_ascii_lowercase h \<Longrightarrow> P (hs_put S s e)"
    "\<And>h. host uri = Some h \<Longrightarrow> P (hs_remove S s (to_ascii_lowercase h))"
  obtain h where "host uri = Some h" using Some by (auto simp: asserted_def split: option.splits)
  then show "P (hsts_note env S s uri field secure now)" using a by (simp add: note_Some [OF Some])
qed (simp add: note_None)

lemma run_tidy:
  assumes "tidy s" "own_namespace x"
  shows "tidy (hsts_run env s x)"
proof (cases x)
  case (Note uri field secure now)
  have "tidy (hsts_note env in_memory s uri field secure now)"
    by (rule note_cases)
      (use assms(1) memory.put_keyed memory.remove_keyed memory.hs.inv_ops in \<open>auto\<close>)
  then show ?thesis using Note by simp
next
  case (Upgrade uri now)
  then show ?thesis using assms(1) memory.is_known_key [of s] by (auto simp: memory.hs.upgrade_state split: option.splits)
next
  case ClearAll
  then show ?thesis using assms(1) by (simp add: keyed_def kv_hsts_def kvs_clear_def memory.clear_law memory.inv_intros)
next
  case (OtherPut ns k v e t)
  then show ?thesis using assms keyed_cong [of memory_kv "kv_put memory_kv s ns k v e t" s] by (simp add: memory.put_other memory.inv_intros)
next
  case (OtherRemove ns k)
  then show ?thesis using assms keyed_cong [of memory_kv "kv_remove memory_kv s ns k" s] by (simp add: memory.remove_law memory.inv_intros)
next
  case (OtherClear ns)
  then show ?thesis using assms keyed_cong [of memory_kv "kv_clear memory_kv s ns" s] by (simp add: memory.clear_law memory.inv_intros)
qed

lemma runs_tidy: "list_all own_namespace xs \<Longrightarrow> tidy s \<Longrightarrow> tidy (foldl (hsts_run env) s xs)"
  by (induction xs arbitrary: s) (auto simp: run_tidy)

lemma run_spares:
  assumes "tidy s" "spares k t x" "kv_get memory_kv s NS k 0 = [v]" "entry_decode v = Some e" "t \<le> e_expires_at e"
  shows "tidy (hsts_run env s x) \<and> kv_get memory_kv (hsts_run env s x) NS k 0 = [v]"
proof
  have "own_namespace x" using assms(2) by (cases x) auto
  then show "tidy (hsts_run env s x)" by (rule run_tidy [OF assms(1)])
  show "kv_get memory_kv (hsts_run env s x) NS k 0 = [v]"
  proof (cases x)
    case (Note uri field secure now)
    have "kv_get memory_kv (hsts_note env in_memory s uri field secure now) NS k 0 = [v]"
      by (rule note_cases) (use assms Note in \<open>auto simp: memory.put_key memory.remove_key host_key_def\<close>)
    then show ?thesis using Note by simp
  next
    case (Upgrade uri now)
    then show ?thesis using assms memory.is_known_key [of s, where k = k and v = v and e = e and now = now]
      by (auto simp: memory.hs.upgrade_state split: option.splits)
  qed (use assms in \<open>auto simp: memory.put_other memory.remove_law memory.clear_law\<close>)
qed

lemma runs_spare:
  assumes "entry_decode v = Some e" "t \<le> e_expires_at e"
  shows "tidy s \<Longrightarrow> list_all (spares k t) xs \<Longrightarrow> kv_get memory_kv s NS k 0 = [v] \<Longrightarrow>
    kv_get memory_kv (foldl (hsts_run env) s xs) NS k 0 = [v]"
proof (induction xs arbitrary: s)
  case (Cons x xs)
  then show ?case using run_spares [OF _ _ _ assms, of s k x] by simp
qed simp

section \<open>Properties\<close>

definition path_query :: "hsts_env \<Rightarrow> http_uri \<Rightarrow> bytes" where
  "path_query env u = (case env_path_and_query env u of None \<Rightarrow> ''/'' | Some pq \<Rightarrow> pq)"

definition upgraded_port :: "nat option \<Rightarrow> nat option" where
  "upgraded_port = map_option (\<lambda>p. if p = 80 then 443 else p)"

text \<open>
  What the rules rely on of the \<open>http\<close> crate, for the URI in hand: the text of its host and port is read as an authority
  again, as it is written, and \<open>Uri::from_parts\<close> gives a URI that has the parts it was built from.
\<close>

definition uri_build_ok :: "hsts_env \<Rightarrow> http_uri \<Rightarrow> bool" where
  "uri_build_ok env u \<longleftrightarrow>
     (case host u of
        None \<Rightarrow> True
      | Some h \<Rightarrow>
          env_authority env (rebuilt_authority h (port_u16 u)) = Some (rebuilt_authority h (port_u16 u)) \<and>
          (case env_from_parts env ''https'' (rebuilt_authority h (port_u16 u)) (path_query env u) of
             None \<Rightarrow> False
           | Some u' \<Rightarrow>
               scheme_str u' = Some ''https'' \<and> authority u' = Some (rebuilt_authority h (port_u16 u)) \<and>
               host u' = Some h \<and> port_u16 u' = upgraded_port (port_u16 u) \<and>
               env_path_and_query env u' = Some (path_query env u)))"

text \<open>A host comes with an authority.\<close>

definition has_authority :: "http_uri \<Rightarrow> bool" where
  "has_authority u \<longleftrightarrow> host u = None \<or> authority u \<noteq> None"

lemma upgrade_cases:
  assumes "uri_build_ok env uri" "has_authority uri"
  shows "case fst (hsts_upgrade env S s uri now) of
      Some u \<Rightarrow> \<exists>h. scheme_str uri = Some ''http'' \<and> host uri = Some h \<and> \<not> hsts_is_ip_literal h \<and> fst (is_known S s h now) \<and>
        scheme_str u = Some ''https'' \<and> authority u = Some (rebuilt_authority h (port_u16 uri)) \<and>
        host u = Some h \<and> port_u16 u = upgraded_port (port_u16 uri) \<and>
        env_path_and_query env u = Some (path_query env uri)
    | None \<Rightarrow> (case host uri of None \<Rightarrow> snd (hsts_upgrade env S s uri now) = s
        | Some h \<Rightarrow> if scheme_str uri = Some ''http'' \<and> \<not> hsts_is_ip_literal h then \<not> fst (is_known S s h now)
            else snd (hsts_upgrade env S s uri now) = s)"
proof (cases "host uri")
  case (Some h)
  let ?a = "rebuilt_authority h (port_u16 uri)"
  obtain u where u: "env_authority env ?a = Some ?a" "env_from_parts env ''https'' ?a (path_query env uri) = Some u"
    "scheme_str u = Some ''https''" "authority u = Some ?a" "host u = Some h" "port_u16 u = upgraded_port (port_u16 uri)"
    "env_path_and_query env u = Some (path_query env uri)"
    using assms(1) Some by (auto simp: uri_build_ok_def split: option.splits)
  have au: "authority uri \<noteq> None" using assms(2) Some by (simp add: has_authority_def)
  have eq: "fst (hsts_upgrade env S s uri now) =
      (if scheme_str uri = Some ''http'' \<and> \<not> hsts_is_ip_literal h \<and> fst (is_known S s h now) then Some u else None)"
    using au u(1,2) by (auto simp: hsts_upgrade_def Some path_query_def split: prod.splits bool.splits)
  have st: "\<not> (scheme_str uri = Some ''http'' \<and> \<not> hsts_is_ip_literal h) \<Longrightarrow> snd (hsts_upgrade env S s uri now) = s"
    by (auto simp: hsts_upgrade_def Some)
  show ?thesis using u(3-) st by (auto simp: eq Some)
qed (simp add: hsts_upgrade_def)

text \<open>
  Property C35. An upgrade happens exactly for an \<open>http\<close> URI whose host is a name that is known, and then changes
  the scheme and the authority only: \<open>https\<close>, the same host, port 80 turned into 443, any other explicit port
  and the absence of a port kept, path and query kept. Every other URI is left alone, and a URI of another
  scheme or with an IP literal leaves the store alone, too.
\<close>

theorem hsts_upgrade_exact:
  assumes "uri_build_ok env uri" "has_authority uri"
  shows "case fst (hsts_upgrade env S s uri now) of
      Some u \<Rightarrow> \<exists>h. scheme_str uri = Some ''http'' \<and> host uri = Some h \<and> \<not> hsts_is_ip_literal h \<and> fst (is_known S s h now) \<and>
        scheme_str u = Some ''https'' \<and> authority u = Some (case port_u16 uri of None \<Rightarrow> h
          | Some p \<Rightarrow> if p = 80 then h @ '':443'' else h @ '':'' @ dec_bytes p) \<and>
        host u = Some h \<and> port_u16 u = map_option (\<lambda>p. if p = 80 then 443 else p) (port_u16 uri) \<and>
        env_path_and_query env u = Some (path_query env uri)
    | None \<Rightarrow> (case host uri of None \<Rightarrow> snd (hsts_upgrade env S s uri now) = s
        | Some h \<Rightarrow> if scheme_str uri = Some ''http'' \<and> \<not> hsts_is_ip_literal h then \<not> fst (is_known S s h now)
            else snd (hsts_upgrade env S s uri now) = s)"
  by (rule upgrade_cases [OF assms, unfolded rebuilt_authority_def upgraded_port_def])

definition demo_env :: hsts_env where
  "demo_env = \<lparr>env_lexer = ref_lexer, env_grammar = ref_grammar, env_to_str = Some,
     env_path_and_query = (\<lambda>u. Some (path u @ query_suffix (query u))), env_authority = Some,
     env_from_parts = (\<lambda>sc a pq. Some \<lparr>scheme_str = Some sc, authority = Some a,
       host = Some (case split_once (CHR '':'') a of None \<Rightarrow> a | Some (h, _) \<Rightarrow> h),
       port_u16 = (case split_once (CHR '':'') a of None \<Rightarrow> None | Some (_, p) \<Rightarrow> parse_u64 p), path = pq, query = None\<rparr>)\<rparr>"

definition demo_site :: "bytes \<Rightarrow> bytes \<Rightarrow> nat option \<Rightarrow> http_uri" where
  "demo_site sc h p = \<lparr>scheme_str = Some sc, authority = Some h, host = Some h, port_u16 = p, path = ''/x'', query = None\<rparr>"

lemma demo_not_ip: "\<not> hsts_is_ip_literal ''shop.test''" "\<not> hsts_is_ip_literal ''www.Shop.test''"
  by (simp_all add: hsts_is_ip_literal_def strip_prefix_def starts_with_def not_an_ip to_digit_def byte_val_def)

lemma put_get_new:
  assumes "entry_ok e" "name_ok d"
  shows "hs_get in_memory (hs_put in_memory memory_new e) [d] = (if d = e_domain e then [rounded e] else [])"
proof -
  have "hs_get in_memory memory_new [d] = []"
    by (simp add: in_memory_get) (simp add: memory_kv_def memory_get_def read_one_view new_wf(2) map_filter_simps)
  then show ?thesis using memory.hs.put_get [OF new_wf(1) assms] by simp
qed

lemma demo_known:
  "fst (is_known in_memory (hs_put in_memory memory_new \<lparr>e_domain = ''shop.test'', e_expires_at = 5000000000, e_include_subdomains = False\<rparr>) ''shop.test'' 0)"
proof -
  let ?e = "\<lparr>e_domain = ''shop.test'', e_expires_at = 5000000000, e_include_subdomains = False\<rparr>"
  have c: "hsts_candidate_domains ''shop.test'' = [''shop.test'', ''test'']" by code_simp
  have "is_utf8 ''shop.test''" and n: "name_ok ''shop.test''" "name_ok ''test''" by code_simp+
  then have ok: "entry_ok ?e" by (simp add: entry_ok_def systime_max_def)
  have "hs_get in_memory (hs_put in_memory memory_new ?e) (hsts_candidate_domains ''shop.test'') = [rounded ?e]"
    unfolding c using put_get_new [OF ok n(1)] put_get_new [OF ok n(2)] by (subst memory.hs.get_each) simp
  then show ?thesis by (simp add: is_known_def Let_def c rounded_def expiry_secs_def nanos_per_sec_def)
qed

lemma demo_build_ok:
  "uri_build_ok demo_env (demo_site ''http'' ''shop.test'' (Some 80))" "uri_build_ok demo_env (demo_site ''https'' ''shop.test'' None)"
  "uri_build_ok demo_env (demo_site ''http'' ''www.Shop.test'' (Some 80))"
proof -
  have c: "split_once (CHR '':'') ''shop.test:443'' = Some (''shop.test'', ''443'')" "split_once (CHR '':'') ''www.Shop.test:443'' = Some (''www.Shop.test'', ''443'')"
    "split_once (CHR '':'') ''shop.test'' = None"
    by code_simp+
  have p: "parse_u64 ''443'' = Some 443"
    by (simp add: parse_u64_def dec_val_def is_ascii_digit_def byte_val_def u64_max_def)
  show "uri_build_ok demo_env (demo_site ''http'' ''shop.test'' (Some 80))" "uri_build_ok demo_env (demo_site ''https'' ''shop.test'' None)"
    "uri_build_ok demo_env (demo_site ''http'' ''www.Shop.test'' (Some 80))"
    by (simp_all add: uri_build_ok_def demo_env_def demo_site_def rebuilt_authority_def upgraded_port_def path_query_def query_suffix_def c p)
qed

theorem hsts_upgrade_exact_witness:
  "let s = hs_put in_memory memory_new \<lparr>e_domain = ''shop.test'', e_expires_at = 5000000000, e_include_subdomains = False\<rparr> in
   map_option authority (fst (hsts_upgrade demo_env in_memory s (demo_site ''http'' ''shop.test'' (Some 80)) 0)) = Some (Some ''shop.test:443'') \<and>
   fst (hsts_upgrade demo_env in_memory s (demo_site ''https'' ''shop.test'' None) 0) = None"
proof -
  let ?s = "hs_put in_memory memory_new \<lparr>e_domain = ''shop.test'', e_expires_at = 5000000000, e_include_subdomains = False\<rparr>"
  have a: "has_authority (demo_site ''http'' ''shop.test'' (Some 80))" "has_authority (demo_site ''https'' ''shop.test'' None)"
    by (simp_all add: has_authority_def demo_site_def)
  have k: "fst (is_known in_memory ?s ''shop.test'' 0)" by (rule demo_known)
  show ?thesis
    using hsts_upgrade_exact [OF demo_build_ok(1) a(1), of in_memory ?s 0] hsts_upgrade_exact [OF demo_build_ok(2) a(2), of in_memory ?s 0] k demo_not_ip(1)
    by (auto simp: demo_site_def Let_def split: option.splits)
qed

text \<open>
  Property C16. For hosts written without a final dot the in-memory store with the rules implements a set of policies, one for each domain: after any
  sequence of operations on such hosts, and of other components on the same byte store, a host is known exactly when a
  policy that has not expired covers it (its own, or one of a superdomain with \<open>includeSubDomains\<close>); a
  response changes the policy of its own host only, as its directives say, with the lease bounded by 400
  days, and nothing when it is not secure, not from a name or malformed; and a lookup forgets only policies
  that have expired. A host with a final dot has to be left out, as it shares a key with the host without it and the policy of the one
  replaces that of the other (\<open>trailing_dot_collides\<close>).
\<close>

theorem hsts_refines_policy_set:
  assumes "list_all op_ok ops" "s = foldl (hsts_run env) memory_new ops"
    and "host uri = Some h" "host_ok h" "now \<in> {0..systime_max}" "name_ok d"
  shows "fst (is_known in_memory s h now) = covers (policy in_memory s) h now \<and>
    policy in_memory (hsts_note env in_memory s uri field secure now) d =
      noted_policy rounded (policy in_memory s) h (asserted env uri field secure) now d \<and>
    policy in_memory (snd (is_known in_memory s h now)) d =
      (case policy in_memory s d of None \<Rightarrow> None
       | Some e \<Rightarrow> if in_scope h d True \<and> e_expires_at e \<le> now then None else Some e) \<and>
    pred_option (\<lambda>e. e_domain e = d) (policy in_memory s d)"
proof -
  have g: "memory.hs.good s" using runs_good [OF assms(1) good_new] assms(2) by simp
  have "name_ok h" using assms(4) by (simp add: host_ok_def)
  moreover have "pred_option (\<lambda>e. e_domain e = d) (policy in_memory s d)"
    using filed_domain [of in_memory s d] g assms(6) by (auto simp: memory.hs.good_def option.pred_set)
  ultimately show ?thesis
    using memory.hs.is_known_spec [OF g, of h now] memory.hs.note_spec [OF g assms(3,4), of now] assms(5,6) by simp
qed

text \<open>
  Property C5. A host that asserts a policy over a secure transport stays protected: whatever happened before
  and whatever the client does afterwards with other hosts, written with or without a final dot, short of clearing the store, until the lease ends (rounded down to the second,
  and never more than 400 days) every \<open>http\<close> URI of that host, and of its subdomains when the policy includes them,
  in any case of letters, is sent as \<open>https\<close> instead. Another host is one whose key in the store differs: the host with a
  final dot added or taken away is not another host, as it shares the key.
\<close>

theorem hsts_note_protects:
  assumes env: "uri_build_ok env u"
    and before: "list_all own_namespace before"
    and site: "scheme_str uri = Some ''https''" "host uri = Some h" "h \<noteq> []" "list_all is_ascii h" "0 \<le> now" "now + int MAX_AGE_CAP \<le> systime_max"
    and ds: "asserted env uri field True = Some ds" "max_age ds \<noteq> 0"
    and after: "list_all (spares (host_key h) (lease now (max_age ds) - 1000000000)) after"
    and req: "scheme_str u = Some ''http''" "host u = Some h'" "has_authority u" "\<not> hsts_is_ip_literal h'"
      "in_scope h' (to_ascii_lowercase h) (include_subdomains ds)"
    and t: "t \<le> now + int (min MAX_AGE_CAP (from_secs (max_age ds))) - 1000000000"
    and s: "note_hsts env in_memory (Some (foldl (hsts_run env) memory_new before)) uri field now = Some s"
  shows "let u' = fst (upgrade_scheme env in_memory (Some (foldl (hsts_run env) s after)) u t) in
    scheme_str u' = Some ''https'' \<and> authority u' = Some (case port_u16 u of None \<Rightarrow> h'
      | Some p \<Rightarrow> if p = 80 then h' @ '':443'' else h' @ '':'' @ dec_bytes p) \<and>
    env_path_and_query env u' = Some (path_query env u)"
proof -
  let ?s0 = "foldl (hsts_run env) memory_new before" and ?s' = "foldl (hsts_run env) s after" and ?d = "to_ascii_lowercase h"
  let ?e = "\<lparr>e_domain = ?d, e_expires_at = lease now (max_age ds), e_include_subdomains = include_subdomains ds\<rparr>"
  have l: "lease now (max_age ds) = now + int (min MAX_AGE_CAP (from_secs (max_age ds)))"
    using site(6) by (auto simp: lease_def checked_add_def)
  have d: "?d \<noteq> []" "is_utf8 ?d" using site(3,4) by (simp_all add: to_ascii_lowercase_def is_utf8_ascii ascii_lower [unfolded to_ascii_lowercase_def])
  have e: "entry_decode (entry_encode ?e) = Some (rounded ?e)"
    using d l site(6) by (intro decode_encode) (simp_all add: min_def)
  have "0 \<le> e_expires_at ?e" using l site(5) by simp
  from rounded_expiry [OF this] have x: "lease now (max_age ds) - 1000000000 < e_expires_at (rounded ?e)" by simp
  have s0: "tidy ?s0" by (rule runs_tidy [OF before tidy_new])
  have "s = hsts_note env in_memory ?s0 uri field True now" using s site(1) by (simp add: note_hsts_def)
  also have "\<dots> = hs_put in_memory ?s0 ?e" using note_Some [OF ds(1) site(2), of in_memory ?s0 now] ds(2) by simp
  finally have "s = hs_put in_memory ?s0 ?e" .
  then have "tidy s" "kv_get memory_kv s NS (host_key h) 0 = [entry_encode ?e]"
    using s0 memory.put_keyed memory.hs.inv_ops by (simp_all add: memory.put_key host_key_def)
  from runs_spare [OF e _ this(1) after this(2)] x have "kv_get memory_kv ?s' NS (host_key h) 0 = [entry_encode ?e]" by simp
  then have k: "fst (is_known in_memory ?s' h' t)"
    using memory.is_known_covered [of ?s' "rounded ?e" "entry_encode ?e" t h'] e x l t req(5) d(1) by (simp add: host_key_def)
  show ?thesis
    using upgrade_cases [OF env req(3), of in_memory ?s' t] k req(1,2,4)
    unfolding rebuilt_authority_def by (auto simp: upgrade_scheme_def split: prod.split option.splits)
qed

theorem hsts_refines_policy_set_witness:
  "let s = foldl (hsts_run demo_env) memory_new [Note (demo_site ''https'' ''shop.test'' None) (Some demo_value) True 0, OtherPut ''cache'' ''k'' ''v'' None 0] in
    fst (is_known in_memory s ''www.Shop.test'' 5) = covers (policy in_memory s) ''www.Shop.test'' 5 \<and>
    policy in_memory (hsts_note demo_env in_memory memory_new (demo_site ''https'' ''shop.test'' None) (Some demo_value) True 0) ''shop.test'' =
      Some \<lparr>e_domain = ''shop.test'', e_expires_at = 600000000000, e_include_subdomains = True\<rparr>"
proof -
  let ?u = "demo_site ''https'' ''shop.test'' None" and ?v = "Some demo_value"
  let ?ops = "[Note ?u ?v True 0, OtherPut ''cache'' ''k'' ''v'' None 0]"
  have h: "host_ok ''shop.test''" "host_ok ''www.Shop.test''" "name_ok ''shop.test''" "to_ascii_lowercase ''shop.test'' = ''shop.test''" by code_simp+
  have u: "host ?u = Some ''shop.test''" by (simp add: demo_site_def)
  have ops: "list_all op_ok ?ops" using h(1) by (simp add: NS_def uri_ok_def demo_site_def systime_max_def)
  have w: "host (demo_site ''http'' ''www.Shop.test'' None) = Some ''www.Shop.test''" by (simp add: demo_site_def)
  have t: "(5::int) \<in> {0..systime_max}" "(0::int) \<in> {0..systime_max}" by (simp_all add: systime_max_def)
  have d: "asserted demo_env ?u ?v True = Some \<lparr>max_age = 600, include_subdomains = True\<rparr>"
    using demo_parse demo_not_ip(1) by (simp add: asserted_def demo_site_def demo_env_def)
  have l: "lease 0 600 = 600000000000"
    by (simp add: lease_def checked_add_def MAX_AGE_CAP_def from_secs_def nanos_per_sec_def systime_max_def)
  have "policy in_memory (hsts_note demo_env in_memory memory_new ?u ?v True 0) ''shop.test'' =
      Some (rounded \<lparr>e_domain = ''shop.test'', e_expires_at = 600000000000, e_include_subdomains = True\<rparr>)"
    using hsts_refines_policy_set [where ops = "[]" and env = demo_env and field = ?v and secure = True, OF _ refl u h(1) t(2) h(3)] h(4)
    by (simp add: noted_policy_def d l)
  then show ?thesis
    using hsts_refines_policy_set [OF ops refl w h(2) t(1) h(3), of demo_env] unfolding Let_def
    by (simp add: rounded_def expiry_secs_def)
qed

theorem hsts_note_protects_witness:
  "\<exists>s. note_hsts demo_env in_memory (Some memory_new) (demo_site ''https'' ''shop.test'' None) (Some demo_value) 0 = Some s \<and>
    authority (fst (upgrade_scheme demo_env in_memory (Some s) (demo_site ''http'' ''www.Shop.test'' (Some 80)) 500000000000)) = Some ''www.Shop.test:443''"
proof -
  obtain s where s: "note_hsts demo_env in_memory (Some (foldl (hsts_run demo_env) memory_new [])) (demo_site ''https'' ''shop.test'' None) (Some demo_value) 0 = Some s"
    by (simp add: note_hsts_def)
  let ?ds = "\<lparr>max_age = 600, include_subdomains = True\<rparr>"
  have d: "asserted demo_env (demo_site ''https'' ''shop.test'' None) (Some demo_value) True = Some ?ds" "max_age ?ds \<noteq> 0"
    using demo_parse demo_not_ip(1) by (simp_all add: asserted_def demo_site_def demo_env_def)
  have h: "host_ok ''shop.test''" "host_ok ''www.Shop.test''" "to_ascii_lowercase ''www.Shop.test'' = ''www'' @ ''.'' @ to_ascii_lowercase ''shop.test''" by code_simp+
  then have sc: "in_scope ''www.Shop.test'' (to_ascii_lowercase ''shop.test'') (include_subdomains ?ds)" unfolding in_scope_def by simp
  have a: "list_all is_ascii ''shop.test''" by code_simp
  have n: "0 + int MAX_AGE_CAP \<le> systime_max" "(500000000000::int) \<le> 0 + int (min MAX_AGE_CAP (from_secs (max_age ?ds))) - 1000000000"
    by (simp_all add: MAX_AGE_CAP_def from_secs_def nanos_per_sec_def systime_max_def)
  from hsts_note_protects [where before = "[]" and after = "[]" and u = "demo_site ''http'' ''www.Shop.test'' (Some 80)", OF demo_build_ok(3) _ _ _ _ a order_refl n(1) d _ _ _ _ demo_not_ip(2) sc n(2) s]
  have "authority (fst (upgrade_scheme demo_env in_memory (Some s) (demo_site ''http'' ''www.Shop.test'' (Some 80)) 500000000000)) = Some ''www.Shop.test:443''"
    by (simp add: demo_site_def has_authority_def Let_def)
  then show ?thesis using s by auto
qed

text \<open>
  The rule does not canonicalise the fully qualified form of a name: a host that is known without
  \<open>includeSubDomains\<close> is not known under its name with a final dot.
\<close>

lemma trailing_dot_not_known:
  "\<not> fst (is_known in_memory (hs_put in_memory memory_new \<lparr>e_domain = ''a.test'', e_expires_at = 5000000000, e_include_subdomains = False\<rparr>) ''a.test.'' 0)"
proof -
  let ?e = "\<lparr>e_domain = ''a.test'', e_expires_at = 5000000000, e_include_subdomains = False\<rparr>"
  let ?s = "hs_put in_memory memory_new ?e"
  have c: "hsts_candidate_domains ''a.test.'' = [''a.test.'', ''test.'']" by code_simp
  have "is_utf8 ''a.test''" "name_ok ''a.test''" "name_ok ''test''" by code_simp+
  then have ok: "entry_ok ?e" by (simp add: entry_ok_def systime_max_def)
  have k: "reverse_labels ''a.test.'' = reverse_labels ''a.test''" "reverse_labels ''test.'' = reverse_labels ''test''" by code_simp+
  have p: "hs_get in_memory ?s [d] = (if d = ''a.test'' then [rounded ?e] else [])" if "name_ok d" for d
    using put_get_new [OF ok that] by simp
  have "hs_get in_memory ?s (hsts_candidate_domains ''a.test.'') = [rounded ?e]"
    unfolding c using p [OF \<open>name_ok ''a.test''\<close>] p [OF \<open>name_ok ''test''\<close>] by (subst memory.hs.get_each) (simp add: in_memory_get k)
  then show ?thesis by (simp add: is_known_def Let_def c)
qed

end
