(* ===== verification/Cache_Store.thy ===== *)
theory Cache_Store
  imports Uri_Resolve Header_Map Multimap "HOL-Library.List_Lexorder" "HOL-Library.Char_ord" "HOL-Library.Multiset"
begin

text \<open>
  Where stored responses live, \<open>crates/hclient/src/cache/store.rs\<close>: the primary key of a request, the selector built from
  the fields that \<open>Vary\<close> nominates, the stored response, the seam \<open>CacheStore\<close> and \<open>MemoryStore\<close>, which evicts the
  response that was received first.

  The seam is the record \<open>cache_store\<close>, and what it promises is the locale \<open>cache_contract\<close>, of which the in-memory store
  is an interpretation: a store may lose responses, and may not invent or mix them up. The parameter \<open>hv\<close> is whether
  \<open>HeaderValue::from_bytes\<close> accepts the bytes, \<open>pq\<close> is \<open>Uri::path_and_query\<close>.
\<close>

section \<open>Keys and selectors\<close>

record cache_key =
  k_method :: bytes
  k_target :: bytes

definition cache_key_new :: "(http_uri \<Rightarrow> bytes option) \<Rightarrow> bytes \<Rightarrow> http_uri \<Rightarrow> cache_key option" where
  "cache_key_new pq method u =
     (case (scheme_str u, authority u, host u) of
        (Some sch, Some _, Some h) \<Rightarrow>
          (let scheme = to_ascii_lowercase sch;
               hst = to_ascii_lowercase h;
               port = (case port_u16 u of
                         None \<Rightarrow> []
                       | Some p \<Rightarrow> if p = 80 \<and> scheme = ''http'' \<or> p = 443 \<and> scheme = ''https'' then []
                                  else CHR '':'' # dec_bytes p);
               pth = (case pq u of None \<Rightarrow> ''/'' | Some x \<Rightarrow> x)
           in Some \<lparr>k_method = method, k_target = scheme @ ''://'' @ hst @ port @ pth\<rparr>)
      | _ \<Rightarrow> None)"

type_synonym selector = "(bytes \<times> bytes option) list"

definition combined :: "(bytes \<Rightarrow> bool) \<Rightarrow> header_map \<Rightarrow> bytes \<Rightarrow> bytes option" where
  "combined hv headers n =
     (case hm_get_all n headers of
        [] \<Rightarrow> None
      | [first] \<Rightarrow> Some first
      | first # rest \<Rightarrow>
          (let joined = first @ concat (map (\<lambda>v. '', '' @ v) rest) in if hv joined then Some joined else None))"

text \<open>\<open>Vec::dedup_by\<close>: an element goes when it is the same as the one before it.\<close>

fun dedup_by :: "('a \<Rightarrow> 'a \<Rightarrow> bool) \<Rightarrow> 'a list \<Rightarrow> 'a list" where
  "dedup_by same [] = []"
| "dedup_by same [x] = [x]"
| "dedup_by same (x # y # ys) = (if same y x then dedup_by same (x # ys) else x # dedup_by same (y # ys))"

definition selector_from_fields :: "selector \<Rightarrow> selector" where
  "selector_from_fields rows = dedup_by (\<lambda>a b. fst a = fst b) (sort_key fst rows)"

definition selector_of :: "(bytes \<Rightarrow> bool) \<Rightarrow> header_map \<Rightarrow> bytes list \<Rightarrow> selector" where
  "selector_of hv headers names =
     dedup_by (\<lambda>a b. fst a = fst b)
       (sort_key fst (map (\<lambda>n. (n, combined hv headers n)) (names @ [''authorization''])))"

definition selector_names :: "selector \<Rightarrow> bytes list" where
  "selector_names sel = map fst sel"

section \<open>Stored responses and the seam\<close>

record stored_response =
  sr_status :: nat
  sr_version :: nat
  sr_headers :: header_map
  sr_body :: bytes
  sr_selector :: selector
  sr_requested_at :: system_time
  sr_received_at :: system_time

definition freshen :: "stored_response \<Rightarrow> system_time \<Rightarrow> system_time \<Rightarrow> stored_response" where
  "freshen e requested_at received_at = e\<lparr>sr_requested_at := requested_at, sr_received_at := received_at\<rparr>"

record 's cache_store =
  cs_get :: "'s \<Rightarrow> cache_key \<Rightarrow> stored_response list"
  cs_put :: "'s \<Rightarrow> cache_key \<Rightarrow> stored_response \<Rightarrow> 's"
  cs_remove :: "'s \<Rightarrow> cache_key \<Rightarrow> selector \<Rightarrow> 's"
  cs_invalidate :: "'s \<Rightarrow> cache_key \<Rightarrow> 's"
  cs_len :: "'s \<Rightarrow> nat"
  cs_clear :: "'s \<Rightarrow> 's"

section \<open>The in-memory store\<close>

record cache_held =
  cm_entries :: "(cache_key, stored_response) multimap"
  cm_held :: nat

definition cm_default :: cache_held where
  "cm_default = \<lparr>cm_entries = [], cm_held = 0\<rparr>"

definition cm_drop_at :: "cache_held \<Rightarrow> cache_key \<Rightarrow> nat \<Rightarrow> cache_held" where
  "cm_drop_at h key idx =
     (case map_of (cm_entries h) key of
        None \<Rightarrow> h
      | Some v \<Rightarrow> \<lparr>cm_entries = regroup key (take idx v @ drop (Suc idx) v) (cm_entries h), cm_held = cm_held h - 1\<rparr>)"

definition cm_oldest :: "cache_held \<Rightarrow> (cache_key \<times> nat \<times> stored_response) option" where
  "cm_oldest h = min_by (\<lambda>(_, _, a) (_, _, b). sr_received_at a < sr_received_at b) (candidates None (cm_entries h))"

lemma cm_oldest_in:
  "cm_oldest h = Some (k, i, e) \<Longrightarrow> \<exists>v. (k, v) \<in> set (cm_entries h) \<and> i < length v \<and> v ! i = e"
  using min_by_in [of _ "candidates None (cm_entries h)" "(k, i, e)"]
  by (auto simp: cm_oldest_def candidates_in)

function evict_until_room :: "nat \<Rightarrow> cache_held \<Rightarrow> cache_held" where
  "evict_until_room capacity h =
     (if cm_held h \<ge> capacity \<and> cm_held h > 0 then
        (case cm_oldest h of None \<Rightarrow> h | Some (key, idx, _) \<Rightarrow> evict_until_room capacity (cm_drop_at h key idx))
      else h)"
  by pat_completeness auto
termination
proof (relation "measure (\<lambda>(_, h). cm_held h)", goal_cases)
  case (2 capacity h x key y idx e)
  then obtain v where "(key, v) \<in> set (cm_entries h)" using cm_oldest_in [of h key idx e] by auto
  then have "map_of (cm_entries h) key \<noteq> None" using weak_map_of_SomeI by fastforce
  with 2 show ?case by (auto simp: cm_drop_at_def)
qed simp

declare evict_until_room.simps [simp del]

definition cm_get :: "cache_held \<Rightarrow> cache_key \<Rightarrow> stored_response list" where
  "cm_get h key = (case map_of (cm_entries h) key of None \<Rightarrow> [] | Some v \<Rightarrow> v)"

definition cm_remove :: "cache_held \<Rightarrow> cache_key \<Rightarrow> selector \<Rightarrow> cache_held" where
  "cm_remove h key sel =
     (case map_of (cm_entries h) key of
        None \<Rightarrow> h
      | Some v \<Rightarrow>
          (let v' = filter (\<lambda>e. sr_selector e \<noteq> sel) v in
           \<lparr>cm_entries = regroup key v' (cm_entries h), cm_held = cm_held h - (length v - length v')\<rparr>))"

definition cm_put :: "nat \<Rightarrow> cache_held \<Rightarrow> cache_key \<Rightarrow> stored_response \<Rightarrow> cache_held" where
  "cm_put capacity h0 key e =
     (let h = cm_remove h0 key (sr_selector e) in
      if capacity = 0 then h
      else let h' = evict_until_room capacity h in
        \<lparr>cm_entries = push_entry key e (cm_entries h'), cm_held = cm_held h' + 1\<rparr>)"

definition cm_invalidate :: "cache_held \<Rightarrow> cache_key \<Rightarrow> cache_held" where
  "cm_invalidate h key =
     (case map_of (cm_entries h) key of
        None \<Rightarrow> h
      | Some v \<Rightarrow> \<lparr>cm_entries = entry_remove key (cm_entries h), cm_held = cm_held h - length v\<rparr>)"

definition cm_clear :: "cache_held \<Rightarrow> cache_held" where
  "cm_clear h = \<lparr>cm_entries = [], cm_held = 0\<rparr>"

definition memory_cache :: "nat \<Rightarrow> cache_held cache_store" where
  "memory_cache capacity = \<lparr>cs_get = cm_get, cs_put = cm_put capacity, cs_remove = cm_remove,
     cs_invalidate = cm_invalidate, cs_len = cm_held, cs_clear = cm_clear\<rparr>"

section \<open>Selectors are canonical\<close>

lemma dedup_by_set: "set (map f (dedup_by (\<lambda>a b. f a = f b) xs)) = set (map f xs)"
  by (induction "\<lambda>a b. f a = f b" xs rule: dedup_by.induct) auto

lemma dedup_by_subset: "set (dedup_by same xs) \<subseteq> set xs"
  by (induction same xs rule: dedup_by.induct) auto

lemma dedup_by_sorted:
  fixes f :: "'a \<Rightarrow> 'b::linorder"
  shows "sorted (map f xs) \<Longrightarrow> sorted_wrt (<) (map f (dedup_by (\<lambda>a b. f a = f b) xs))"
proof (induction "\<lambda>a b. f a = f b" xs rule: dedup_by.induct)
  case (3 x y ys)
  show ?case
  proof (cases "f y = f x")
    case True
    then show ?thesis using 3 by simp
  next
    case False
    have "f x < f z" if "z \<in> set (dedup_by (\<lambda>a b. f a = f b) (y # ys))" for z
    proof -
      have "z = y \<or> z \<in> set ys" using that dedup_by_subset [of _ "y # ys"] by auto
      moreover have "f x < f y" "\<And>z. z \<in> set ys \<Longrightarrow> f y \<le> f z" using 3(3) False by auto
      ultimately show ?thesis by (blast intro: less_le_trans)
    qed
    then show ?thesis using 3 False by simp
  qed
qed simp_all

lemma sorted_names_unique:
  "sorted_wrt (<) xs \<Longrightarrow> sorted_wrt (<) ys \<Longrightarrow> set xs = set ys \<Longrightarrow> xs = (ys :: 'a::linorder list)"
  by (simp add: strict_sorted_iff sorted_distinct_set_unique)

definition nominated :: "bytes list \<Rightarrow> bytes list" where
  "nominated ns = sorted_list_of_set (insert ''authorization'' (set ns))"

lemma nominated_set [simp]: "set (nominated ns) = insert ''authorization'' (set ns)"
  unfolding nominated_def by (rule set_sorted_list_of_set) simp

lemma nominated_sorted [simp]: "sorted_wrt (<) (nominated ns)"
  unfolding nominated_def by (simp add: strict_sorted_iff del: sorted_list_of_set_insert_remove)

text \<open>A selector whose values are a function of the names is that function on the sorted set of the names.\<close>

lemma selector_of_eq: "selector_of hv h ns = map (\<lambda>n. (n, combined hv h n)) (nominated ns)"
proof -
  let ?g = "\<lambda>n. (n, combined hv h n)"
  let ?s = "sort_key fst (map ?g (ns @ [''authorization'']))"
  have "set (selector_of hv h ns) \<subseteq> ?g ` set (ns @ [''authorization''])"
    unfolding selector_of_def using dedup_by_subset [of _ ?s] by auto
  then have "map ?g (map fst (selector_of hv h ns)) = selector_of hv h ns"
    by (auto simp: comp_def intro!: map_idI)
  moreover have "map fst (selector_of hv h ns) = nominated ns"
  proof (rule sorted_names_unique)
    show "sorted_wrt (<) (map fst (selector_of hv h ns))"
      unfolding selector_of_def by (rule dedup_by_sorted) simp
    show "sorted_wrt (<) (nominated ns)" by simp
    show "set (map fst (selector_of hv h ns)) = set (nominated ns)"
      unfolding selector_of_def dedup_by_set by (auto simp: image_Un image_image)
  qed
  ultimately show ?thesis by metis
qed

lemma selector_names_of: "selector_names (selector_of hv h ns) = nominated ns"
  by (simp add: selector_names_def selector_of_eq comp_def)

lemma nominated_again [simp]: "nominated (nominated ns) = nominated ns"
  by (simp add: nominated_def del: sorted_list_of_set_insert_remove)

lemma selector_of_again: "selector_of hv h (selector_names (selector_of hv h' ns)) = selector_of hv h ns"
  unfolding selector_names_of by (simp add: selector_of_eq)

lemma selector_of_agree:
  "selector_of hv h ns = selector_of hv h' ns \<longleftrightarrow>
   combined hv h ''authorization'' = combined hv h' ''authorization'' \<and> (\<forall>n \<in> set ns. combined hv h n = combined hv h' n)"
  by (simp add: selector_of_eq)

lemma selector_match_agree:
  "selector_of hv h (selector_names (selector_of hv h' ns)) = selector_of hv h' ns \<longleftrightarrow>
   combined hv h ''authorization'' = combined hv h' ''authorization'' \<and> (\<forall>n \<in> set ns. combined hv h n = combined hv h' n)"
  unfolding selector_of_again by (rule selector_of_agree)

lemma sorted_no_dedup: "sorted_wrt (<) (map f xs) \<Longrightarrow> dedup_by (\<lambda>a b. f a = f b) xs = (xs :: 'a list)" for f :: "'a \<Rightarrow> 'b::linorder"
  by (induction "\<lambda>a b. f a = f b" xs rule: dedup_by.induct) auto

lemma from_fields_rows: "mset rows = mset (selector_of hv h ns) \<Longrightarrow> selector_from_fields rows = selector_of hv h ns"
proof -
  assume m: "mset rows = mset (selector_of hv h ns)"
  have s: "sorted_wrt (<) (map fst (selector_of hv h ns))" using selector_names_of [of hv h ns] by (simp add: selector_names_def)
  have d: "distinct (map fst (selector_of hv h ns))" "sorted (map fst (selector_of hv h ns))" using s by (simp_all add: strict_sorted_iff)
  have "set (sort_key fst rows) = set (selector_of hv h ns)" using m by (metis set_mset_mset set_sort)
  moreover have "distinct (map fst (sort_key fst rows))" using d(1) m by (metis mset_eq_imp_distinct_iff mset_map mset_sort)
  ultimately have "sort_key fst rows = selector_of hv h ns"
    using d by (intro map_sorted_distinct_set_unique [of fst]) (simp_all add: distinct_map)
  then show ?thesis
    unfolding selector_from_fields_def using sorted_no_dedup [OF s] by simp
qed

text \<open>
  Selectors are canonical. The order in which \<open>Vary\<close> names its fields does not matter, nor does a name that
  is there twice; a selector that a store wrote down and reads back in any order is the same selector; and a selector
  matches a later request exactly when the request has the same combined value, or the same absence, of every nominated
  field and of \<open>Authorization\<close>, which is always one of them.
\<close>

theorem selector_canonical:
  "(set ns = set ns' \<longrightarrow> selector_of hv h ns = selector_of hv h ns') \<and>
   (mset rows = mset (selector_of hv h ns) \<longrightarrow> selector_from_fields rows = selector_of hv h ns) \<and>
   (selector_of hv h' (selector_names (selector_of hv h ns)) = selector_of hv h ns \<longleftrightarrow>
      list_all (\<lambda>n. combined hv h' n = combined hv h n) (''authorization'' # ns))"
proof (intro conjI impI)
  show "set ns = set ns' \<Longrightarrow> selector_of hv h ns = selector_of hv h ns'" by (simp only: selector_of_eq nominated_def)
qed (auto simp: selector_match_agree list_all_iff from_fields_rows)

theorem selector_canonical_witness:
  "selector_of (\<lambda>_. True) [(''accept'', ''a''), (''accept'', ''b'')] [''te'', ''accept''] =
     [(''accept'', Some ''a, b''), (''authorization'', None), (''te'', None)] \<and>
   selector_from_fields [(''te'', None), (''authorization'', None), (''accept'', Some ''a, b'')] =
     selector_of (\<lambda>_. True) [(''accept'', ''a''), (''accept'', ''b'')] [''accept'', ''te'']"
proof -
  let ?h = "[(''accept'', ''a''), (''accept'', ''b'')]"
  let ?rows = "[(''te'', None), (''authorization'', None), (''accept'', Some ''a, b'')]"
  have e: "selector_of (\<lambda>_. True) ?h [''te'', ''accept''] = [(''accept'', Some ''a, b''), (''authorization'', None), (''te'', None)]"
    by code_simp
  have "set [''te'', ''accept''] = set [''accept'', ''te'']" by auto
  then have "selector_of (\<lambda>_. True) ?h [''te'', ''accept''] = selector_of (\<lambda>_. True) ?h [''accept'', ''te'']"
    using selector_canonical by blast
  moreover have "mset ?rows = mset (selector_of (\<lambda>_. True) ?h [''te'', ''accept''])" unfolding e by simp
  then have "selector_from_fields ?rows = selector_of (\<lambda>_. True) ?h [''te'', ''accept'']" using selector_canonical by blast
  ultimately show ?thesis using e by simp
qed

section \<open>What a store promises\<close>

text \<open>
  A store may lose a response, and it may keep less of it than it was given; it does not invent one, answer one under another key, or keep
  one that was replaced or removed. \<open>kok\<close> and \<open>eok\<close> are the keys and the responses that it is made for, and \<open>fits\<close> are the
  responses that it does store.
\<close>

definition same_answer :: "stored_response \<Rightarrow> stored_response \<Rightarrow> bool" where
  "same_answer x e \<longleftrightarrow> sr_status x = sr_status e \<and> sr_body x = sr_body e \<and> sr_selector x = sr_selector e"

locale cache_contract =
  fixes C :: "'s cache_store" and ok :: "'s \<Rightarrow> bool" and kok :: "cache_key \<Rightarrow> bool" and eok fits :: "stored_response \<Rightarrow> bool"
  assumes keeps: "ok s \<Longrightarrow> kok k \<Longrightarrow> eok e \<Longrightarrow> ok (cs_put C s k e)" "ok s \<Longrightarrow> kok k \<Longrightarrow> ok (cs_remove C s k sel)"
      "ok s \<Longrightarrow> kok k \<Longrightarrow> ok (cs_invalidate C s k)" "ok s \<Longrightarrow> ok (cs_clear C s)"
    and get_put: "ok s \<Longrightarrow> kok k \<Longrightarrow> kok k' \<Longrightarrow> eok e \<Longrightarrow> x \<in> set (cs_get C (cs_put C s k e) k') \<Longrightarrow>
        k' = k \<and> same_answer x e \<or> x \<in> set (cs_get C s k')"
    and put_replaces: "ok s \<Longrightarrow> kok k \<Longrightarrow> eok e \<Longrightarrow> fits e \<Longrightarrow> x \<in> set (cs_get C (cs_put C s k e) k) \<Longrightarrow>
        sr_selector x = sr_selector e \<Longrightarrow> same_answer x e"
    and get_remove: "ok s \<Longrightarrow> kok k \<Longrightarrow> kok k' \<Longrightarrow> x \<in> set (cs_get C (cs_remove C s k sel) k') \<Longrightarrow>
        x \<in> set (cs_get C s k') \<and> \<not> (k' = k \<and> sr_selector x = sel)"
    and get_invalidate: "ok s \<Longrightarrow> kok k \<Longrightarrow> kok k' \<Longrightarrow> x \<in> set (cs_get C (cs_invalidate C s k) k') \<Longrightarrow> x \<in> set (cs_get C s k') \<and> k' \<noteq> k"
    and get_clear: "ok s \<Longrightarrow> kok k \<Longrightarrow> x \<notin> set (cs_get C (cs_clear C s) k)"

section \<open>The in-memory store keeps it\<close>

definition group_fine :: "cache_key \<times> stored_response list \<Rightarrow> bool" where
  "group_fine g = (case g of (_, v) \<Rightarrow> v \<noteq> [] \<and> distinct (map sr_selector v))"

definition cm_wf :: "cache_held \<Rightarrow> bool" where
  "cm_wf h \<longleftrightarrow> distinct (map fst (cm_entries h)) \<and> list_all group_fine (cm_entries h) \<and>
     cm_held h = length (contents (cm_entries h))"

definition cm_variants :: "cache_held \<Rightarrow> cache_key \<Rightarrow> selector \<Rightarrow> stored_response option" where
  "cm_variants h k sel = find (\<lambda>e. sr_selector e = sel) (cm_get h k)"

lemma cm_wf_group: "cm_wf h \<Longrightarrow> map_of (cm_entries h) k = Some v \<Longrightarrow> v \<noteq> [] \<and> distinct (map sr_selector v)"
  by (fastforce simp: cm_wf_def list_all_iff group_fine_def dest: map_of_SomeD)

lemma cm_wf_get: "cm_wf h \<Longrightarrow> distinct (map sr_selector (cm_get h k))"
  by (auto simp: cm_get_def dest: cm_wf_group split: option.splits)

lemma cm_wf_held: "cm_wf h \<Longrightarrow> map_of (cm_entries h) k = Some v \<Longrightarrow> length v \<le> cm_held h"
  using entry_remove_spec [of "cm_entries h" k] by (auto simp: cm_wf_def)

lemma find_selector:
  "distinct (map sr_selector v) \<Longrightarrow> find (\<lambda>e. sr_selector e = sel) v = Some e \<longleftrightarrow> e \<in> set v \<and> sr_selector e = sel"
  by (induction v) (auto simp: rev_image_eqI)

lemma cm_variants_Some: "cm_wf h \<Longrightarrow> cm_variants h k sel = Some e \<longleftrightarrow> e \<in> set (cm_get h k) \<and> sr_selector e = sel"
  unfolding cm_variants_def by (rule find_selector) (rule cm_wf_get)

lemma variants_eqI:
  assumes "cm_wf h" "\<And>k e. e \<in> set (cm_get h k) \<longleftrightarrow> f k (sr_selector e) = Some e" "\<And>k sel e. f k sel = Some e \<Longrightarrow> sr_selector e = sel"
  shows "cm_variants h = f"
proof (intro ext)
  fix k sel
  show "cm_variants h k sel = f k sel"
    using cm_variants_Some [OF assms(1), of k sel] assms(2) [of _ k] assms(3) [of k sel]
    by (cases "cm_variants h k sel"; cases "f k sel") auto
qed

text \<open>Replacing what one key holds.\<close>

lemma cm_regroup:
  assumes wf: "cm_wf h" and v: "map_of (cm_entries h) k = Some v" and "distinct (map sr_selector v')" "length v' \<le> length v"
  defines "h' \<equiv> \<lparr>cm_entries = regroup k v' (cm_entries h), cm_held = cm_held h - (length v - length v')\<rparr>"
  shows "cm_wf h' \<and> (\<forall>k'. cm_get h' k' = (if k' = k then v' else cm_get h k'))"
proof -
  have d: "distinct (map fst (cm_entries h))" using wf by (simp add: cm_wf_def)
  note r = regroup_spec [OF d v, of v']
  have "list_all group_fine (cm_entries h')"
    using r(2) cm_wf_group [OF wf] assms(3) by (auto simp: h'_def map_of_all r(1) group_fine_def split: if_splits)
  then have "cm_wf h'" using r(2,3) wf assms(4) cm_wf_held [OF wf v] by (simp add: cm_wf_def h'_def)
  then show ?thesis by (simp add: h'_def cm_get_def r(1))
qed

lemma cm_get_None: "map_of (cm_entries h) k = None \<Longrightarrow> cm_get h k = []"
  by (simp add: cm_get_def)

lemma cm_get_Some: "map_of (cm_entries h) k = Some v \<Longrightarrow> cm_get h k = v"
  by (simp add: cm_get_def)

lemma cm_remove_get:
  assumes wf: "cm_wf h"
  shows "cm_wf (cm_remove h k sel) \<and>
    (\<forall>k'. cm_get (cm_remove h k sel) k' = (if k' = k then filter (\<lambda>e. sr_selector e \<noteq> sel) (cm_get h k) else cm_get h k'))"
proof (cases "map_of (cm_entries h) k")
  case None
  then show ?thesis using wf cm_get_None [OF None] by (simp add: cm_remove_def)
next
  case (Some v)
  show ?thesis
    using cm_regroup [OF wf Some, of "filter (\<lambda>e. sr_selector e \<noteq> sel) v"] cm_wf_group [OF wf Some]
    by (simp add: cm_remove_def Some Let_def cm_get_Some distinct_map_filter)
qed

lemma cm_remove_held: "cm_held (cm_remove h k sel) \<le> cm_held h"
  by (simp add: cm_remove_def Let_def le_diff_conv split: option.splits)

lemma cm_invalidate_get:
  assumes wf: "cm_wf h"
  shows "cm_wf (cm_invalidate h k) \<and> (\<forall>k'. cm_get (cm_invalidate h k) k' = (if k' = k then [] else cm_get h k'))"
proof (cases "map_of (cm_entries h) k")
  case None
  then show ?thesis using wf cm_get_None [OF None] by (simp add: cm_invalidate_def)
next
  case (Some v)
  show ?thesis
    using cm_regroup [OF wf Some, of "[]"] by (simp add: cm_invalidate_def Some regroup_def)
qed

lemma cm_clear_get: "cm_wf (cm_clear h) \<and> cm_get (cm_clear h) k = []"
  by (simp add: cm_clear_def cm_wf_def cm_get_def)

lemma cm_drop_at_get:
  assumes wf: "cm_wf h" and e: "(k, v) \<in> set (cm_entries h)" "i < length v"
  shows "cm_wf (cm_drop_at h k i) \<and> cm_held h = Suc (cm_held (cm_drop_at h k i)) \<and>
    (\<forall>k'. cm_get (cm_drop_at h k i) k' = (if k' = k then take i v @ drop (Suc i) v else cm_get h k')) \<and> cm_get h k = v"
proof -
  have m: "map_of (cm_entries h) k = Some v" using wf e by (simp add: cm_wf_def)
  have d: "distinct (map sr_selector v)" using cm_wf_group [OF wf m] by blast
  have "distinct (map sr_selector (take i v @ drop (Suc i) v))"
  proof -
    have "map sr_selector v = map sr_selector (take i v) @ sr_selector (v ! i) # map sr_selector (drop (Suc i) v)"
      using id_take_nth_drop [OF e(2)] by (metis list.simps(9) map_append)
    then show ?thesis using d by (metis distinct_append distinct.simps(2) map_append disjoint_insert(1) list.simps(15))
  qed
  moreover have "length v \<le> cm_held h" using cm_wf_held [OF wf m] .
  ultimately show ?thesis
    using cm_regroup [OF wf m, of "take i v @ drop (Suc i) v"] e(2) cm_get_Some [OF m] by (simp add: cm_drop_at_def m)
qed

lemma cm_get_candidate: "cm_wf h \<Longrightarrow> e \<in> set (cm_get h k) \<Longrightarrow> \<exists>i. (k, i, e) \<in> set (candidates None (cm_entries h))"
proof -
  assume "e \<in> set (cm_get h k)"
  then obtain v where v: "map_of (cm_entries h) k = Some v" "e \<in> set v"
    by (cases "map_of (cm_entries h) k") (simp_all add: cm_get_def)
  then obtain i where "i < length v" "v ! i = e" by (auto simp: in_set_conv_nth)
  with v(1) show ?thesis using map_of_SomeD [of "cm_entries h" k v] by (auto simp: candidates_in)
qed

lemma cm_oldest_least:
  assumes "cm_wf h" "cm_oldest h = Some (k, i, e)" "x \<in> set (cm_get h k')"
  shows "sr_received_at e \<le> sr_received_at x"
proof -
  let ?lt = "\<lambda>a b. sr_received_at (snd (snd a)) < sr_received_at (snd (snd b))"
  obtain j where "(k', j, x) \<in> set (candidates None (cm_entries h))" using cm_get_candidate [OF assms(1,3)] by blast
  moreover have "min_by ?lt (candidates None (cm_entries h)) = Some (k, i, e)"
    using assms(2) by (simp add: cm_oldest_def case_prod_unfold)
  ultimately show ?thesis using min_by_least [of ?lt] by fastforce
qed

lemma cm_oldest_None: "cm_oldest h = None \<Longrightarrow> contents (cm_entries h) = []"
proof -
  assume "cm_oldest h = None"
  then have "candidates None (cm_entries h) = []" by (simp add: cm_oldest_def)
  then show ?thesis by (auto simp: candidates_def contents_def enumerate_eq_zip)
qed

lemma set_drop_nth: "distinct v \<Longrightarrow> i < length v \<Longrightarrow> set (take i v @ drop (Suc i) v) = set v - {v ! i}"
proof -
  assume d: "distinct v" and i: "i < length v"
  obtain a x b where v: "v = a @ x # b" "length a = i" "x = v ! i" using id_take_nth_drop [OF i] i by (metis length_take less_imp_le_nat min.absorb2)
  have "take i v @ drop (Suc i) v = a @ b" unfolding v(1) using v(2) by simp
  moreover have "x \<notin> set (a @ b)" using d v(1) by simp
  moreover have "set v = insert x (set (a @ b))" by (subst v(1)) auto
  ultimately show ?thesis unfolding v(3) [symmetric] by auto
qed

lemma cm_evict_spec:
  "cm_wf h \<Longrightarrow>
   cm_wf (evict_until_room cap h) \<and> (cm_held (evict_until_room cap h) < cap \<or> cm_held (evict_until_room cap h) = 0) \<and>
   (\<forall>k. set (cm_get (evict_until_room cap h) k) \<subseteq> set (cm_get h k)) \<and>
   (\<forall>k k' e e'. e \<in> set (cm_get h k) - set (cm_get (evict_until_room cap h) k) \<longrightarrow>
      e' \<in> set (cm_get (evict_until_room cap h) k') \<longrightarrow> sr_received_at e \<le> sr_received_at e')"
proof (induction cap h rule: evict_until_room.induct)
  case (1 cap h)
  show ?case
  proof (cases "cm_held h \<ge> cap \<and> cm_held h > 0")
    case False
    then show ?thesis using 1(2) by (simp add: evict_until_room.simps [of cap h]) linarith
  next
    case True
    have "cm_oldest h \<noteq> None"
    proof
      assume "cm_oldest h = None"
      then show False using True 1(2) cm_oldest_None [of h] by (simp add: cm_wf_def)
    qed
    then obtain k i e where o: "cm_oldest h = Some (k, i, e)" by (cases "cm_oldest h") auto
    then obtain v where v: "(k, v) \<in> set (cm_entries h)" "i < length v" "v ! i = e" using cm_oldest_in by blast
    let ?h = "cm_drop_at h k i"
    let ?r = "evict_until_room cap ?h"
    have eq: "evict_until_room cap h = ?r" using True o by (simp add: evict_until_room.simps [of cap h])
    note d = cm_drop_at_get [OF 1(2) v(1,2)]
    have IH: "cm_wf ?r \<and> (cm_held ?r < cap \<or> cm_held ?r = 0) \<and> (\<forall>k. set (cm_get ?r k) \<subseteq> set (cm_get ?h k)) \<and>
      (\<forall>k k' e e'. e \<in> set (cm_get ?h k) - set (cm_get ?r k) \<longrightarrow> e' \<in> set (cm_get ?r k') \<longrightarrow> sr_received_at e \<le> sr_received_at e')"
      by (rule 1(1) [OF True o refl refl conjunct1 [OF d]])
    have "distinct v" using cm_wf_get [OF 1(2), of k] d by (auto simp: distinct_map)
    then have g: "set (cm_get ?h k') = (if k' = k then set (cm_get h k) - {e} else set (cm_get h k'))" for k'
      using d set_drop_nth [of v i] v(2,3) by auto
    have sub: "set (cm_get ?r k') \<subseteq> set (cm_get h k')" for k'
    proof -
      have "set (cm_get ?r k') \<subseteq> set (cm_get ?h k')" using IH by blast
      then show ?thesis unfolding g [of k'] by (auto split: if_splits)
    qed
    have old: "sr_received_at x \<le> sr_received_at y" if x: "x \<in> set (cm_get h k')" "x \<notin> set (cm_get ?r k')" and y: "y \<in> set (cm_get ?r k'')" for k' k'' x y
    proof (cases "x \<in> set (cm_get ?h k')")
      case True
      then show ?thesis using IH x(2) y by blast
    next
      case False
      then have "x = e" using g [of k'] x(1) by (auto split: if_splits)
      then show ?thesis using cm_oldest_least [OF 1(2) o] sub y by blast
    qed
    show ?thesis
      unfolding eq
    proof (intro conjI allI impI)
      show "cm_wf ?r" using IH by (rule conjunct1)
      show "cm_held ?r < cap \<or> cm_held ?r = 0" using IH by (elim conjE)
    qed (use sub old in auto)
  qed
qed

lemma evict_room: "cm_held h < cap \<Longrightarrow> evict_until_room cap h = h"
  by (simp add: evict_until_room.simps [of cap h])

lemma cm_put_get:
  assumes wf: "cm_wf h" and cap: "0 < cap"
  shows "cm_wf (cm_put cap h k e) \<and> cm_held (cm_put cap h k e) \<le> max (cm_held h) cap \<and> cm_held (cm_put cap h k e) \<le> cap \<and>
    (\<forall>k'. cm_get (cm_put cap h k e) k' = cm_get (evict_until_room cap (cm_remove h k (sr_selector e))) k' @ (if k' = k then [e] else []))"
proof -
  let ?h = "evict_until_room cap (cm_remove h k (sr_selector e))"
  let ?p = "\<lparr>cm_entries = push_entry k e (cm_entries ?h), cm_held = Suc (cm_held ?h)\<rparr>"
  have wr: "cm_wf (cm_remove h k (sr_selector e))" using cm_remove_get [OF wf] by blast
  note ev = cm_evict_spec [OF wr, of cap]
  have w: "cm_wf ?h" using ev by blast
  then have d: "distinct (map fst (cm_entries ?h))" by (simp add: cm_wf_def)
  note ps = push_entry_spec [OF d, of k e]
  have g: "cm_get ?p k' = cm_get ?h k' @ (if k' = k then [e] else [])" for k'
    by (simp add: cm_get_def ps(1) split: option.splits)
  have "sr_selector e \<notin> sr_selector ` set (cm_get ?h k)"
  proof -
    have "set (cm_get ?h k) \<subseteq> set (cm_get (cm_remove h k (sr_selector e)) k)" using ev by blast
    then show ?thesis using cm_remove_get [OF wf, of k "sr_selector e"] by auto
  qed
  then have "distinct (map sr_selector (cm_get ?p k'))" for k' using cm_wf_get [OF w, of k'] by (auto simp: g)
  then have fine: "group_fine (k', v)" if "map_of (cm_entries ?p) k' = Some v" for k' v
    using that cm_wf_group [OF w, of k'] cm_get_Some [OF that] by (auto simp: group_fine_def ps(1) split: if_splits option.splits)
  have "cm_wf ?p" using ps w fine map_of_all [OF ps(2), of group_fine] by (simp add: cm_wf_def)
  moreover have "cm_put cap h k e = ?p" using cap by (simp add: cm_put_def Let_def)
  moreover have "cm_held ?p \<le> cap" using ev cap by auto
  ultimately show ?thesis using g by simp
qed

lemma cm_keeps: "cm_wf h \<Longrightarrow> cm_wf (cm_remove h k sel)" "cm_wf h \<Longrightarrow> cm_wf (cm_invalidate h k)" "cm_wf (cm_clear h)" "cm_wf cm_default"
    "cm_wf h \<Longrightarrow> cm_wf (cm_put cap h k e)"
proof -
  show "cm_wf h \<Longrightarrow> cm_wf (cm_remove h k sel)" for sel using cm_remove_get by blast
  then show "cm_wf h \<Longrightarrow> cm_wf (cm_put cap h k e)" using cm_put_get [of h cap k e] by (cases "cap = 0") (auto simp: cm_put_def)
  show "cm_wf h \<Longrightarrow> cm_wf (cm_invalidate h k)" using cm_invalidate_get by blast
qed (simp_all add: cm_clear_def cm_default_def cm_wf_def)

lemma cm_get_remove: "cm_wf h \<Longrightarrow>
   cm_get (cm_remove h k sel) k' = (if k' = k then filter (\<lambda>e. sr_selector e \<noteq> sel) (cm_get h k) else cm_get h k')"
  using cm_remove_get by blast

lemma cm_get_invalidate: "cm_wf h \<Longrightarrow> cm_get (cm_invalidate h k) k' = (if k' = k then [] else cm_get h k')"
  using cm_invalidate_get by blast

lemma variants_remove: "cm_wf h \<Longrightarrow> cm_variants (cm_remove h k sel) = (cm_variants h)(k := (cm_variants h k)(sel := None))"
  by (rule variants_eqI) (auto simp: cm_keeps cm_get_remove cm_variants_Some split: if_splits)

lemma variants_invalidate: "cm_wf h \<Longrightarrow> cm_variants (cm_invalidate h k) = (cm_variants h)(k := (\<lambda>_. None))"
  by (rule variants_eqI) (auto simp: cm_keeps cm_get_invalidate cm_variants_Some split: if_splits)

lemma variants_clear: "cm_variants (cm_clear h) = (\<lambda>_ _. None)"
  by (rule variants_eqI) (simp_all add: cm_clear_get)

lemma variants_put_old:
  assumes wf: "cm_wf h" and e': "cm_variants (cm_put cap h k e) k' sel = Some e'" "\<not> (k' = k \<and> sel = sr_selector e)"
  shows "cm_variants h k' sel = Some e'"
proof -
  have e: "e' \<in> set (cm_get (cm_put cap h k e) k')" "sr_selector e' = sel" using e'(1) cm_variants_Some [OF cm_keeps(5) [OF wf]] by blast+
  have "e' \<in> set (cm_get (cm_remove h k (sr_selector e)) k')"
  proof (cases "cap = 0")
    case False
    have "set (cm_get (evict_until_room cap (cm_remove h k (sr_selector e))) k') \<subseteq> set (cm_get (cm_remove h k (sr_selector e)) k')"
      using cm_evict_spec [OF cm_keeps(1) [OF wf]] by blast
    moreover have "cm_get (cm_put cap h k e) k' = cm_get (evict_until_room cap (cm_remove h k (sr_selector e))) k' @ (if k' = k then [e] else [])"
      using cm_put_get [OF wf, of cap k e] False by blast
    ultimately show ?thesis using e e'(2) by (auto split: if_splits)
  qed (use e in \<open>simp add: cm_put_def\<close>)
  then show ?thesis using e(2) wf by (auto simp: cm_get_remove cm_variants_Some split: if_splits)
qed

lemma variants_put_new:
  assumes wf: "cm_wf h"
  shows "cm_variants (cm_put cap h k e) k (sr_selector e) = (if cap = 0 then None else Some e)"
proof (cases "cap = 0")
  case True
  then show ?thesis by (simp add: cm_put_def variants_remove [OF wf])
next
  case False
  then have "e \<in> set (cm_get (cm_put cap h k e) k)" using cm_put_get [OF wf, of cap k e] by simp
  then show ?thesis using False cm_variants_Some [OF cm_keeps(5) [OF wf]] by simp
qed

lemma put_get_cases:
  assumes "cm_wf s" "x \<in> set (cm_get (cm_put cap s k e) k')"
  shows "if k' = k \<and> sr_selector x = sr_selector e then x = e else x \<in> set (cm_get s k')"
proof -
  have v: "cm_variants (cm_put cap s k e) k' (sr_selector x) = Some x"
    using assms cm_variants_Some [OF cm_keeps(5) [OF assms(1)]] by blast
  show ?thesis
  proof (cases "k' = k \<and> sr_selector x = sr_selector e")
    case True
    have "(if cap = 0 then None else Some e) = Some x"
      using v unfolding conjunct1 [OF True] conjunct2 [OF True] variants_put_new [OF assms(1)] .
    then show ?thesis using True by (simp split: if_splits)
  next
    case False
    then show ?thesis using variants_put_old [OF assms(1) v] assms(1) by (auto simp: cm_variants_Some)
  qed
qed

interpretation mem: cache_contract "memory_cache cap" cm_wf "\<lambda>_. True" "\<lambda>_. True" "\<lambda>_. True"
proof (unfold_locales, goal_cases)
  case (5 s k k' e x)
  then show ?case using put_get_cases [of s x cap k e k'] by (auto simp: memory_cache_def same_answer_def split: if_splits)
next
  case (6 s k e x)
  then show ?case using put_get_cases [of s x cap k e k] by (auto simp: memory_cache_def same_answer_def)
qed (auto simp: memory_cache_def cm_keeps cm_get_remove cm_get_invalidate cm_clear_get split: if_splits)

section \<open>The store refines a map\<close>

lemma cm_remove_frees: "cm_wf h \<Longrightarrow> cm_variants h k sel = Some e \<Longrightarrow> cm_held (cm_remove h k sel) < cm_held h"
proof -
  assume wf: "cm_wf h" and v: "cm_variants h k sel = Some e"
  then have e: "e \<in> set (cm_get h k)" "sr_selector e = sel" by (auto simp: cm_variants_Some)
  obtain v where m: "map_of (cm_entries h) k = Some v" "e \<in> set v"
    using e(1) by (cases "map_of (cm_entries h) k") (simp_all add: cm_get_def)
  have "length (filter (\<lambda>e. sr_selector e \<noteq> sel) v) < length v" using m(2) e(2) by (auto intro: length_filter_less)
  then show ?thesis using cm_wf_held [OF wf m(1)] by (simp add: cm_remove_def Let_def m(1))
qed

lemma variants_put_room:
  assumes wf: "cm_wf h" and room: "cm_held (cm_remove h k (sr_selector e)) < cap"
  shows "cm_variants (cm_put cap h k e) = (cm_variants h)(k := (cm_variants h k)(sr_selector e \<mapsto> e))"
proof (rule variants_eqI [OF cm_keeps(5) [OF wf]])
  have "cm_get (cm_put cap h k e) k' = cm_get (cm_remove h k (sr_selector e)) k' @ (if k' = k then [e] else [])" for k'
    using cm_put_get [OF wf, of cap k e] room by (simp add: evict_room)
  then show "x \<in> set (cm_get (cm_put cap h k e) k') \<longleftrightarrow> ((cm_variants h)(k := (cm_variants h k)(sr_selector e \<mapsto> e))) k' (sr_selector x) = Some x" for k' x
    using wf by (auto simp: cm_get_remove cm_variants_Some)
qed (use wf in \<open>auto simp: cm_variants_Some split: if_splits\<close>)

lemma put_evicts_oldest:
  assumes wf: "cm_wf h" and l: "cm_variants h k1 s1 = Some e1" "cm_variants (cm_put cap h k e) k1 s1 = None"
    and s: "cm_variants (cm_put cap h k e) k2 s2 = Some e2" and n: "(k1, s1) \<noteq> (k, sr_selector e)" "(k2, s2) \<noteq> (k, sr_selector e)"
  shows "sr_received_at e1 \<le> sr_received_at e2"
proof -
  let ?r = "cm_remove h k (sr_selector e)"
  let ?h = "evict_until_room cap ?r"
  have wr: "cm_wf ?r" and wp: "cm_wf (cm_put cap h k e)" using wf cm_keeps by blast+
  have e1: "e1 \<in> set (cm_get ?r k1)" "sr_selector e1 = s1" using l(1) n(1) wf by (auto simp: cm_get_remove cm_variants_Some)
  have cap: "0 < cap"
  proof (rule ccontr)
    assume "\<not> 0 < cap"
    then have "cm_variants (cm_put cap h k e) = (cm_variants h)(k := (cm_variants h k)(sr_selector e := None))"
      using variants_remove [OF wf] by (simp add: cm_put_def)
    then show False using l n(1) by (auto split: if_splits)
  qed
  have g: "cm_get (cm_put cap h k e) k' = cm_get ?h k' @ (if k' = k then [e] else [])" for k'
    using cm_put_get [OF wf cap, of k e] by blast
  have "e1 \<notin> set (cm_get ?h k1)"
  proof
    assume "e1 \<in> set (cm_get ?h k1)"
    then have "cm_variants (cm_put cap h k e) k1 s1 = Some e1" using e1(2) by (simp add: cm_variants_Some [OF wp] g)
    then show False using l(2) by simp
  qed
  moreover have "e2 \<in> set (cm_get ?h k2)" using s n(2) by (auto simp: cm_variants_Some [OF wp] g split: if_splits)
  ultimately show ?thesis using cm_evict_spec [OF wr, of cap] e1(1) by blast
qed

lemma put_held: "cm_wf h \<Longrightarrow> cm_held h \<le> cap \<Longrightarrow> cm_held (cm_put cap h k e) \<le> cap"
  using cm_put_get [of h cap k e] cm_remove_held [of h k "sr_selector e"] by (cases "cap = 0") (auto simp: cm_put_def)

lemma put_other:
  "cm_wf h \<Longrightarrow> (k', s') \<noteq> (k, sr_selector e) \<Longrightarrow> cm_variants (cm_put cap h k e) k' s' \<in> {cm_variants h k' s', None}"
  using variants_put_old [of h cap k e k' s'] by (cases "cm_variants (cm_put cap h k e) k' s'") auto

lemma put_room:
  assumes "cm_wf h" "cm_held h \<le> cap" "0 < cap" "cm_held h < cap \<or> cm_variants h k (sr_selector e) \<noteq> None"
  shows "cm_variants (cm_put cap h k e) = (cm_variants h)(k := (cm_variants h k)(sr_selector e \<mapsto> e))"
  using assms variants_put_room [OF assms(1), of k e cap] cm_remove_frees [OF assms(1), of k "sr_selector e"]
    cm_remove_held [of h k "sr_selector e"]
  by fastforce

text \<open>
  Property C20. The in-memory cache store is a map from a key and a selector to a response, which never holds more than
  its capacity. A put makes its response the one of its selector (unless the capacity is zero) and leaves every other as
  it was, or gone; none goes when there is room or the put replaces one; and one that goes was received no later
  than any that stays. Removing, invalidating and clearing take exactly what they name.
\<close>

theorem memory_cache_refines:
  assumes "cm_wf h" "cm_held h \<le> cap"
  shows "(let h' = cm_put cap h k e in
      cm_wf h' \<and> cm_held h' \<le> cap \<and> cm_variants h' k (sr_selector e) = (if cap = 0 then None else Some e) \<and>
      (\<forall>k' s'. (k', s') \<noteq> (k, sr_selector e) \<longrightarrow> cm_variants h' k' s' \<in> {cm_variants h k' s', None}) \<and>
      (0 < cap \<longrightarrow> cm_held h < cap \<or> cm_variants h k (sr_selector e) \<noteq> None \<longrightarrow>
         cm_variants h' = (cm_variants h)(k := (cm_variants h k)(sr_selector e \<mapsto> e))) \<and>
      (\<forall>k1 s1 e1 k2 s2 e2. (k1, s1) \<noteq> (k, sr_selector e) \<longrightarrow> (k2, s2) \<noteq> (k, sr_selector e) \<longrightarrow>
         cm_variants h k1 s1 = Some e1 \<longrightarrow> cm_variants h' k1 s1 = None \<longrightarrow> cm_variants h' k2 s2 = Some e2 \<longrightarrow>
         sr_received_at e1 \<le> sr_received_at e2)) \<and>
    cm_variants (cm_remove h k s) = (cm_variants h)(k := (cm_variants h k)(s := None)) \<and>
    cm_variants (cm_invalidate h k) = (cm_variants h)(k := (\<lambda>_. None)) \<and> cm_variants (cm_clear h) = (\<lambda>_ _. None)"
  unfolding Let_def
  by (intro conjI allI impI cm_keeps(5) put_held variants_put_new put_other put_room assms variants_remove variants_invalidate
      variants_clear; (assumption | erule (4) put_evicts_oldest [OF assms(1), rotated 3])?)

definition demo_key :: "bytes \<Rightarrow> cache_key" where
  "demo_key t = \<lparr>k_method = ''GET'', k_target = ''https://e.test/'' @ t\<rparr>"

definition demo_entry :: "bytes \<Rightarrow> system_time \<Rightarrow> stored_response" where
  "demo_entry b at = \<lparr>sr_status = 200, sr_version = 11, sr_headers = [], sr_body = b, sr_selector = [(''authorization'', None)],
     sr_requested_at = at, sr_received_at = at\<rparr>"

definition demo_cache :: cache_held where
  "demo_cache = cm_put 2 (cm_put 2 cm_default (demo_key ''a'') (demo_entry ''A'' 30)) (demo_key ''b'') (demo_entry ''B'' 10)"

theorem memory_cache_refines_witness:
  "cm_variants (cm_put 2 demo_cache (demo_key ''c'') (demo_entry ''C'' 20)) (demo_key ''c'') [(''authorization'', None)] = Some (demo_entry ''C'' 20) \<and>
   cm_held (cm_put 2 demo_cache (demo_key ''c'') (demo_entry ''C'' 20)) \<le> 2 \<and>
   cm_variants (cm_put 2 demo_cache (demo_key ''c'') (demo_entry ''C'' 20)) (demo_key ''b'') [(''authorization'', None)] = None \<and>
   cm_variants (cm_put 2 demo_cache (demo_key ''c'') (demo_entry ''C'' 20)) (demo_key ''a'') [(''authorization'', None)] = Some (demo_entry ''A'' 30)"
proof -
  have "cm_wf demo_cache" "cm_held demo_cache \<le> 2" by code_simp+
  from memory_cache_refines [OF this, of "demo_key ''c''" "demo_entry ''C'' 20"]
  have "cm_variants (cm_put 2 demo_cache (demo_key ''c'') (demo_entry ''C'' 20)) (demo_key ''c'') (sr_selector (demo_entry ''C'' 20)) = Some (demo_entry ''C'' 20) \<and>
    cm_held (cm_put 2 demo_cache (demo_key ''c'') (demo_entry ''C'' 20)) \<le> 2" by (simp add: Let_def)
  moreover have "sr_selector (demo_entry ''C'' 20) = [(''authorization'', None)]" by (simp add: demo_entry_def)
  moreover have "cm_variants (cm_put 2 demo_cache (demo_key ''c'') (demo_entry ''C'' 20)) (demo_key ''b'') [(''authorization'', None)] = None"
    "cm_variants (cm_put 2 demo_cache (demo_key ''c'') (demo_entry ''C'' 20)) (demo_key ''a'') [(''authorization'', None)] = Some (demo_entry ''A'' 30)"
    by code_simp+
  ultimately show ?thesis by simp
qed

end
