(* ===== verification/Cache_Directives.thy ===== *)
theory Cache_Directives
  imports Field_List
begin

text \<open>
  \<open>Cache-Control\<close>, \<open>crates/hclient/src/cache/directives.rs\<close>. The file has its own copies of \<open>token\<close> and \<open>ows\<close>, on bytes,
  which are those of \<open>Field_List\<close>; its quoted string is the slice between the quotes, escapes and all.
\<close>

section \<open>The parser\<close>

type_synonym cc_directive = "bytes \<times> bytes option"

definition raw_quoted_string :: "lexer \<Rightarrow> 'r grammar \<Rightarrow> bytes reader" where
  "raw_quoted_string w g s =
     (if \<not> literal w [CHR 0x22] s then None else
      let s1 = drop 1 s; r = snd (repeat0 g (quoted_char w g) s1) in
      if literal w [CHR 0x22] r then Some (take (length s1 - length r) s1, drop 1 r) else None)"

definition directive :: "lexer \<Rightarrow> 'r grammar \<Rightarrow> cc_directive reader" where
  "directive w g s =
     (case token w s of
        None \<Rightarrow> None
      | Some (nm, s1) \<Rightarrow> (case opt_value w g (raw_quoted_string w g) s1 of (arg, r) \<Rightarrow> Some ((nm, arg), r)))"

definition opt_directive :: "lexer \<Rightarrow> 'r grammar \<Rightarrow> cc_directive option reader" where
  "opt_directive w g s = (case directive w g s of None \<Rightarrow> Some (None, s) | Some (d, r) \<Rightarrow> Some (Some d, r))"

text \<open>The directives of one copy of the field, and of all of them in order, with their names in lower case.\<close>

definition field_directives :: "lexer \<Rightarrow> cc_directive option grammar \<Rightarrow> bytes \<Rightarrow> cc_directive list" where
  "field_directives w g value =
     map (\<lambda>(nm, arg). (to_ascii_lowercase nm, arg))
       (List.map_filter id (fst (separated0 g (opt_directive w g) (separator w g (CHR '','')) (ows g value))))"

definition for_each_directive :: "lexer \<Rightarrow> cc_directive option grammar \<Rightarrow> bytes list \<Rightarrow> cc_directive list" where
  "for_each_directive w g values = concat (map (field_directives w g) values)"

fun secs_loop :: "nat \<Rightarrow> bytes \<Rightarrow> nat" where
  "secs_loop v [] = v"
| "secs_loop v (b # bs) =
     (let v' = v * 10 + (byte_val b - 48) in if v' > u64_max then u64_max else secs_loop v' bs)"

definition seconds_of :: "bytes \<Rightarrow> duration option" where
  "seconds_of arg = (if arg = [] \<or> \<not> list_all is_ascii_digit arg then None else Some (from_secs (secs_loop 0 arg)))"

definition seconds :: "bytes option \<Rightarrow> duration option" where
  "seconds arg = Option.bind arg seconds_of"

record request_directives =
  rq_no_store :: bool
  rq_no_cache :: bool
  rq_only_if_cached :: bool
  rq_max_age :: "duration option"
  rq_max_stale :: "duration option option"
  rq_min_fresh :: "duration option"

record response_directives =
  rs_no_store :: bool
  rs_no_cache :: bool
  rs_private :: bool
  rs_must_revalidate :: bool
  rs_max_age :: "duration option"

definition request_default :: request_directives where
  "request_default = \<lparr>rq_no_store = False, rq_no_cache = False, rq_only_if_cached = False,
     rq_max_age = None, rq_max_stale = None, rq_min_fresh = None\<rparr>"

definition response_default :: response_directives where
  "response_default = \<lparr>rs_no_store = False, rs_no_cache = False, rs_private = False,
     rs_must_revalidate = False, rs_max_age = None\<rparr>"

definition request_step :: "request_directives \<Rightarrow> cc_directive \<Rightarrow> request_directives" where
  "request_step out d =
     (case d of (nm, arg) \<Rightarrow>
        if nm = ''no-store'' then out\<lparr>rq_no_store := True\<rparr>
        else if nm = ''no-cache'' then out\<lparr>rq_no_cache := True\<rparr>
        else if nm = ''only-if-cached'' then out\<lparr>rq_only_if_cached := True\<rparr>
        else if nm = ''max-age'' then out\<lparr>rq_max_age := seconds arg\<rparr>
        else if nm = ''min-fresh'' then out\<lparr>rq_min_fresh := seconds arg\<rparr>
        else if nm = ''max-stale'' then out\<lparr>rq_max_stale := Some (Option.bind arg seconds_of)\<rparr>
        else out)"

definition response_step :: "response_directives \<Rightarrow> cc_directive \<Rightarrow> response_directives" where
  "response_step out d =
     (case d of (nm, arg) \<Rightarrow>
        if nm = ''no-store'' then out\<lparr>rs_no_store := True\<rparr>
        else if nm = ''no-cache'' then out\<lparr>rs_no_cache := True\<rparr>
        else if nm = ''private'' then out\<lparr>rs_private := True\<rparr>
        else if nm = ''must-revalidate'' then out\<lparr>rs_must_revalidate := True\<rparr>
        else if nm = ''max-age'' then out\<lparr>rs_max_age := seconds arg\<rparr>
        else out)"

definition request_parse :: "lexer \<Rightarrow> cc_directive option grammar \<Rightarrow> bytes list \<Rightarrow> request_directives" where
  "request_parse w g values = foldl request_step request_default (for_each_directive w g values)"

definition response_parse :: "lexer \<Rightarrow> cc_directive option grammar \<Rightarrow> bytes list \<Rightarrow> response_directives" where
  "response_parse w g values = foldl response_step response_default (for_each_directive w g values)"

section \<open>Seconds\<close>

lemma secs_loop_eq: "v \<le> u64_max \<Longrightarrow> secs_loop v ds = min (foldl (\<lambda>v b. v * 10 + (byte_val b - 48)) v ds) u64_max"
proof (induction ds arbitrary: v)
  case (Cons b ds)
  have mono: "v \<le> foldl (\<lambda>v b. v * 10 + (byte_val b - 48)) v ds" for v
  proof (induction ds arbitrary: v)
    case (Cons c cs)
    from Cons [of "v * 10 + (byte_val c - 48)"] show ?case by simp
  qed simp
  show ?case
  proof (cases "v * 10 + (byte_val b - 48) > u64_max")
    case True
    then show ?thesis using mono [of "v * 10 + (byte_val b - 48)"] by simp
  next
    case False
    then show ?thesis using Cons.IH [of "v * 10 + (byte_val b - 48)"] by simp
  qed
qed simp

lemma seconds_of_eq:
  "seconds_of v = (if v \<noteq> [] \<and> list_all is_ascii_digit v then Some (from_secs (min (dec_val v) u64_max)) else None)"
  using secs_loop_eq [of 0 v] by (simp add: seconds_of_def dec_val_def)

section \<open>Reading back what the grammar writes\<close>

definition directive_of :: "written \<Rightarrow> cc_directive" where
  "directive_of d = (w_name d, map_option (\<lambda>(_, _, v). value_as escaped v) (w_value d))"

definition opt_directive_of :: "written \<Rightarrow> cc_directive option" where
  "opt_directive_of d = (if w_name d = [] then None else Some (directive_of d))"

lemma raw_quoted_reads:
  assumes "winnow_ok w" "grammar_ok g" "list_all is_ascii v"
  shows "raw_quoted_string w g (write_value (Quoted v) @ s) = Some (escaped v, s)"
  using quoted_repeat [OF assms, of s] by (simp add: raw_quoted_string_def literal_byte [OF assms(1)])

text \<open>A directive without a name is not one: a value may only follow a name.\<close>

definition cc_ok :: "written \<Rightarrow> bool" where
  "cc_ok d \<longleftrightarrow> written_ok d \<and> (w_name d = [] \<longrightarrow> w_value d = None)"

lemma opt_directive_reads:
  assumes w: "winnow_ok w" and g: "grammar_ok g" and d: "cc_ok d" and s: "stops (CHR '','') s"
  shows "opt_directive w g (write_dir d @ s) = Some (opt_directive_of d, s)"
proof -
  have ok: "written_ok d" using d by (simp add: cc_ok_def)
  have "opt_value w g (raw_quoted_string w g) (write_opt d @ s) = (map_option (\<lambda>(_, _, v). value_as escaped v) (w_value d), s)"
  proof (rule opt_value_reads [OF w g ok s])
    show "raw_quoted_string w g (write_value (Quoted v) @ t) = Some (escaped v, t)" if "list_all is_ascii v" for v t
      using raw_quoted_reads [OF w g that] .
    show "raw_quoted_string w g t = None" if "t = [] \<or> hd t \<noteq> CHR 0x22" for t
      using that by (auto simp: raw_quoted_string_def literal_byte [OF w])
  qed simp
  then show ?thesis
    using name_reads [OF w ok s] d
    by (auto simp: opt_directive_def directive_def opt_directive_of_def directive_of_def write_dir_def write_opt_def cc_ok_def)
qed

interpretation cc: field_list "CHR '',''" opt_directive opt_directive_of cc_ok
proof unfold_locales
  show "\<not> is_tchar (CHR '','')" by code_simp
qed (simp_all add: is_space_def opt_directive_reads)

lemma first_not_space:
  "list_ok d ds fin \<Longrightarrow> list_all is_space pre \<Longrightarrow> grammar_ok g \<Longrightarrow>
   ows g (pre @ write_list (CHR '','') d ds fin) = write_list (CHR '','') d ds fin"
proof -
  assume ok: "list_ok d ds fin" and pre: "list_all is_space pre" and g: "grammar_ok g"
  obtain r where r: "write_list (CHR '','') d ds fin = write_dir d @ r" "write_dir d = [] \<longrightarrow> r = [] \<or> hd r = CHR '',''"
    using cc.list_ok_tail [OF ok] by blast
  have "write_list (CHR '','') d ds fin = [] \<or> \<not> is_space (hd (write_list (CHR '','') d ds fin))"
    using r write_dir_first [OF list_ok_written [OF ok]] by (cases "write_dir d") (auto simp: is_space_def)
  then show ?thesis using takeWhile_stop [of "write_list (CHR '','') d ds fin" is_space] pre
    by (simp add: ows_eq [OF g] dropWhile_all)
qed

definition field_names :: "written list \<Rightarrow> cc_directive list" where
  "field_names ds = map (\<lambda>d. (to_ascii_lowercase (w_name d), snd (directive_of d))) (filter (\<lambda>d. w_name d \<noteq> []) ds)"

lemma map_filter_directives:
  "map (\<lambda>(nm, arg). (to_ascii_lowercase nm, arg)) (List.map_filter id (map opt_directive_of ds)) = field_names ds"
  by (induction ds) (auto simp: field_names_def opt_directive_of_def directive_of_def List.map_filter_simps)

text \<open>
  A \<open>Cache-Control\<close> value built from the grammar is read as the directives it lists, in order: with any
  spacing, with commas inside quoted arguments, with escaped quotes, and with empty elements skipped; names are compared
  in lower case and an argument is the text between its quotes.
\<close>

theorem cache_control_reads:
  assumes "winnow_ok w" "grammar_ok g" "list_ok d ds fin" "list_all is_space pre"
    and "cc_ok d" "list_all (\<lambda>(_, _, d). cc_ok d) ds"
  shows "for_each_directive w g [pre @ write_list (CHR '','') d ds fin] = field_names (d # map (\<lambda>(_, _, d). d) ds)"
proof -
  have m: "opt_directive_of d # map (\<lambda>(_, _, d). opt_directive_of d) ds = map opt_directive_of (d # map (\<lambda>(_, _, d). d) ds)"
    by (simp add: comp_def case_prod_beta)
  have "field_directives w g (pre @ write_list (CHR '','') d ds fin) = field_names (d # map (\<lambda>(_, _, d). d) ds)"
    unfolding field_directives_def first_not_space [OF assms(3,4,2)] cc.list_reads [OF assms(1-3,5,6)] fst_conv m
    by (rule map_filter_directives)
  then show ?thesis by (simp add: for_each_directive_def)
qed

theorem cache_control_reads_witness:
  "for_each_directive ref_lexer ref_grammar [''private='' @ [CHR 0x22] @ ''X-A, X-B'' @ [CHR 0x22] @ '', ,Max-Age=60''] =
     [(''private'', Some ''X-A, X-B''), (''max-age'', Some ''60'')]"
proof -
  let ?d = "\<lparr>w_name = ''private'', w_value = Some ([], [], Quoted ''X-A, X-B'')\<rparr> :: written"
  let ?ds = "[([], '' '', \<lparr>w_name = [], w_value = None\<rparr>), ([], [], \<lparr>w_name = ''Max-Age'', w_value = Some ([], [], Bare ''60'')\<rparr>)] :: (bytes \<times> bytes \<times> written) list"
  have "list_ok ?d ?ds []" "list_all is_space []" "cc_ok ?d" "list_all (\<lambda>(_, _, d). cc_ok d) ?ds" by code_simp+
  then have "for_each_directive ref_lexer ref_grammar [[] @ write_list (CHR '','') ?d ?ds []] = field_names (?d # map (\<lambda>(_, _, d). d) ?ds)"
    by (intro cache_control_reads ref_lexer_ok ref_grammar_ok)
  moreover have "[] @ write_list (CHR '','') ?d ?ds [] = ''private='' @ [CHR 0x22] @ ''X-A, X-B'' @ [CHR 0x22] @ '', ,Max-Age=60''" by code_simp
  moreover have "field_names (?d # map (\<lambda>(_, _, d). d) ?ds) = [(''private'', Some ''X-A, X-B''), (''max-age'', Some ''60'')]" by code_simp
  ultimately show ?thesis by (simp only:)
qed

text \<open>
  A later \<open>max-age\<close> whose argument is no number takes back an earlier one, and \<open>max-stale\<close> with such an argument
  accepts any staleness, as it does without one.
\<close>

lemma malformed_max_age_erases:
  "rs_max_age (foldl response_step response_default [(''max-age'', Some ''60''), (''max-age'', Some ''x'')]) = None \<and>
   rs_max_age (foldl response_step response_default [(''max-age'', Some ''60'')]) \<noteq> None"
  by (simp add: response_step_def response_default_def seconds_def seconds_of_def is_ascii_digit_def byte_val_def)

lemma malformed_max_stale_accepts_any:
  "request_step request_default (''max-stale'', Some ''x'') = request_step request_default (''max-stale'', None) \<and>
   rq_max_stale (request_step request_default (''max-stale'', Some ''x'')) = Some None"
  by (simp add: request_step_def request_default_def seconds_of_def is_ascii_digit_def byte_val_def)

end
