(* ===== verification/Http_Date.thy ===== *)
theory Http_Date
  imports Winnow
begin

text \<open>
  The three forms of an HTTP date, \<open>crates/hclient/src/cache/date.rs\<close>. The token parsers of \<open>winnow\<close> and the calendar of
  \<open>jiff\<close> are parameters; a parser answers its value and what is left.
\<close>

section \<open>The parsers\<close>

definition is_ascii_whitespace :: "byte \<Rightarrow> bool" where
  "is_ascii_whitespace b \<longleftrightarrow> byte_val b \<in> {0x20, 0x09, 0x0A, 0x0C, 0x0D}"

definition trim_ows :: "bytes \<Rightarrow> bytes" where
  "trim_ows v = rev (dropWhile is_ascii_whitespace (rev (dropWhile is_ascii_whitespace v)))"

definition DAYS :: "bytes list" where
  "DAYS = [''Mon'', ''Tue'', ''Wed'', ''Thu'', ''Fri'', ''Sat'', ''Sun'']"

definition LONG_DAYS :: "bytes list" where
  "LONG_DAYS = [''Monday'', ''Tuesday'', ''Wednesday'', ''Thursday'', ''Friday'', ''Saturday'', ''Sunday'']"

definition MONTH_NAMES :: "(bytes \<times> nat) list" where
  "MONTH_NAMES = [(''Jan'', 1), (''Feb'', 2), (''Mar'', 3), (''Apr'', 4), (''May'', 5), (''Jun'', 6),
     (''Jul'', 7), (''Aug'', 8), (''Sep'', 9), (''Oct'', 10), (''Nov'', 11), (''Dec'', 12)]"

definition skip :: "lexer \<Rightarrow> bytes \<Rightarrow> bytes \<Rightarrow> bytes option" where
  "skip w lit t = (if literal w lit t then Some (drop (length lit) t) else None)"

definition day_name :: "lexer \<Rightarrow> bool \<Rightarrow> bytes \<Rightarrow> bytes option" where
  "day_name w long t =
     (case find (\<lambda>n. literal w n t) (if long then LONG_DAYS else DAYS) of
        None \<Rightarrow> None | Some n \<Rightarrow> Some (drop (length n) t))"

definition month :: "lexer \<Rightarrow> nat reader" where
  "month w t =
     (case find (\<lambda>(n, _). literal w n t) MONTH_NAMES of
        None \<Rightarrow> None | Some (n, m) \<Rightarrow> Some (m, drop (length n) t))"

definition digits :: "lexer \<Rightarrow> nat \<Rightarrow> nat reader" where
  "digits w n t =
     (case take_while w n (Some n) is_ascii_digit t of
        None \<Rightarrow> None | Some k \<Rightarrow> Some (dec_val (take k t), drop k t))"

definition time_of_day :: "lexer \<Rightarrow> (nat \<times> nat \<times> nat) reader" where
  "time_of_day w t =
     Option.bind (digits w 2 t) (\<lambda>(h, t).
     Option.bind (skip w '':'' t) (\<lambda>t.
     Option.bind (digits w 2 t) (\<lambda>(m, t).
     Option.bind (skip w '':'' t) (\<lambda>t.
     Option.bind (digits w 2 t) (\<lambda>(s, t).
       if h > 23 \<or> m > 59 \<or> s > 60 then None else Some ((h, m, min s 59), t))))))"

definition civil :: "calendar \<Rightarrow> nat \<Rightarrow> nat \<Rightarrow> nat \<Rightarrow> nat \<times> nat \<times> nat \<Rightarrow> int option" where
  "civil cal year mon day hms =
     (case hms of (h, m, s) \<Rightarrow>
        if year \<le> 32767 \<and> mon \<le> 127 \<and> day \<le> 127 then cal year mon day h m s else None)"

definition imf_fixdate :: "lexer \<Rightarrow> calendar \<Rightarrow> int reader" where
  "imf_fixdate w cal t =
     Option.bind (day_name w False t) (\<lambda>t.
     Option.bind (Option.bind (skip w '', '' t) (digits w 2)) (\<lambda>(day, t).
     Option.bind (Option.bind (skip w '' '' t) (month w)) (\<lambda>(mon, t).
     Option.bind (Option.bind (skip w '' '' t) (digits w 4)) (\<lambda>(year, t).
     Option.bind (Option.bind (skip w '' '' t) (time_of_day w)) (\<lambda>(hms, t).
     Option.bind (skip w '' GMT'' t) (\<lambda>t.
       map_option (\<lambda>v. (v, t)) (civil cal year mon day hms)))))))"

definition rfc850 :: "lexer \<Rightarrow> calendar \<Rightarrow> int reader" where
  "rfc850 w cal t =
     Option.bind (day_name w True t) (\<lambda>t.
     Option.bind (Option.bind (skip w '', '' t) (digits w 2)) (\<lambda>(day, t).
     Option.bind (Option.bind (skip w ''-'' t) (month w)) (\<lambda>(mon, t).
     Option.bind (Option.bind (skip w ''-'' t) (digits w 2)) (\<lambda>(yy, t).
     Option.bind (Option.bind (skip w '' '' t) (time_of_day w)) (\<lambda>(hms, t).
     Option.bind (skip w '' GMT'' t) (\<lambda>t.
       map_option (\<lambda>v. (v, t)) (civil cal (if yy \<ge> 70 then 1900 + yy else 2000 + yy) mon day hms)))))))"

definition asctime :: "lexer \<Rightarrow> calendar \<Rightarrow> int reader" where
  "asctime w cal t =
     Option.bind (day_name w False t) (\<lambda>t.
     Option.bind (Option.bind (skip w '' '' t) (month w)) (\<lambda>(mon, t).
     Option.bind (Option.bind (skip w '' '' t) (\<lambda>t.
       case digits w 2 t of Some x \<Rightarrow> Some x | None \<Rightarrow> Option.bind (skip w '' '' t) (digits w 1))) (\<lambda>(day, t).
     Option.bind (Option.bind (skip w '' '' t) (time_of_day w)) (\<lambda>(hms, t).
     Option.bind (Option.bind (skip w '' '' t) (digits w 4)) (\<lambda>(year, t).
       map_option (\<lambda>v. (v, t)) (civil cal year mon day hms))))))"

definition parse_http_date :: "lexer \<Rightarrow> calendar \<Rightarrow> bytes \<Rightarrow> int option" where
  "parse_http_date w cal input =
     (let t = trim_ows input in
      case (case imf_fixdate w cal t of Some x \<Rightarrow> Some x
            | None \<Rightarrow> (case rfc850 w cal t of Some x \<Rightarrow> Some x | None \<Rightarrow> asctime w cal t)) of
        Some (v, r) \<Rightarrow> if r = [] then Some v else None
      | None \<Rightarrow> None)"

section \<open>Reading the three forms\<close>

lemma skip_reads: "skip ref_lexer lit (lit @ t) = Some t"
  by (simp add: skip_def ref_lexer_def starts_with_def)

lemma skip_Cons: "skip ref_lexer [c] (c # t) = Some t"
  using skip_reads [of "[c]"] by simp

lemma digits_reads:
  assumes "list_all is_ascii_digit ds" "length ds = n" "0 < n"
  shows "digits ref_lexer n (ds @ t) = Some (dec_val ds, t)"
proof -
  have "n \<le> length (takeWhile is_ascii_digit (ds @ t))" using assms(1,2) by (auto simp: list_all_iff)
  then show ?thesis using assms(2) by (simp add: digits_def ref_lexer_def at_most_def Let_def min_def)
qed

text \<open>No name agrees with another in its first three letters.\<close>

definition abbreviated :: "bytes list \<Rightarrow> bool" where
  "abbreviated L \<longleftrightarrow> list_all (\<lambda>n. 3 \<le> length n) L \<and> distinct (map (take 3) L)"

lemma abbreviated_names: "abbreviated DAYS" "abbreviated LONG_DAYS" "abbreviated (map fst MONTH_NAMES)"
  by code_simp+

lemma take_append_le: "k \<le> length x \<Longrightarrow> take k (x @ t) = take k x"
  by simp

lemma abbreviated_starts:
  assumes "abbreviated L" "x \<in> set L" "n \<in> set L" "starts_with (x @ t) n"
  shows "n = x"
proof -
  have l: "3 \<le> length n" "3 \<le> length x" using assms(1-3) by (auto simp: abbreviated_def list_all_iff)
  have e: "take (length n) (x @ t) = n" using assms(4) unfolding starts_with_def .
  have "take 3 n = take 3 (take (length n) (x @ t))" by (simp only: e)
  also have "\<dots> = take 3 x" using l by (simp add: take_append_le del: take_append)
  finally show ?thesis using assms(1-3) by (auto simp: abbreviated_def distinct_map inj_on_def)
qed

lemma find_only: "x \<in> set L \<Longrightarrow> P x \<Longrightarrow> (\<And>y. y \<in> set L \<Longrightarrow> P y \<Longrightarrow> y = x) \<Longrightarrow> find P L = Some x"
proof (cases "find P L")
  case None
  assume "x \<in> set L" "P x"
  then show ?thesis using None by (auto simp: find_None_iff)
next
  case (Some z)
  then have "z \<in> set L" "P z" by (auto simp: find_Some_iff)
  moreover assume "\<And>y. y \<in> set L \<Longrightarrow> P y \<Longrightarrow> y = x"
  ultimately show ?thesis using Some by blast
qed

lemma starts_with_append [simp]: "starts_with (x @ t) x"
  by (simp add: starts_with_def)

lemma day_name_reads: "n \<in> set (if long then LONG_DAYS else DAYS) \<Longrightarrow> day_name ref_lexer long (n @ t) = Some t"
proof -
  let ?L = "if long then LONG_DAYS else DAYS"
  assume n: "n \<in> set ?L"
  have "abbreviated ?L" using abbreviated_names by simp
  then have "find (\<lambda>m. starts_with (n @ t) m) ?L = Some n" using n abbreviated_starts by (intro find_only) auto
  then show ?thesis by (simp add: day_name_def ref_lexer_def)
qed

lemma month_reads: "(n, m) \<in> set MONTH_NAMES \<Longrightarrow> month ref_lexer (n @ t) = Some (m, t)"
proof -
  assume n: "(n, m) \<in> set MONTH_NAMES"
  have d: "distinct (map fst MONTH_NAMES)" by code_simp
  have "find (\<lambda>(k, _). starts_with (n @ t) k) MONTH_NAMES = Some (n, m)"
  proof (rule find_only [OF n])
    fix y assume y: "y \<in> set MONTH_NAMES" "(\<lambda>(k, _). starts_with (n @ t) k) y"
    then have "fst y = n" using abbreviated_starts [OF abbreviated_names(3), of n "fst y" t] n by force
    then show "y = (n, m)" using d n y(1) by (metis eq_key_imp_eq_value prod.collapse)
  qed simp
  then show ?thesis by (simp add: month_def ref_lexer_def)
qed

lemma month_not_digits: "(n, m) \<in> set MONTH_NAMES \<Longrightarrow> m \<le> 12"
  by (auto simp: MONTH_NAMES_def)

lemma time_reads:
  assumes "h < 24" "mi < 60" "s \<le> 60"
  shows "time_of_day ref_lexer (print2 h @ '':'' @ print2 mi @ '':'' @ print2 s @ t) = Some ((h, mi, min s 59), t)"
proof -
  have d: "digits ref_lexer 2 (print2 n @ r) = Some (n, r)" if "n < 100" for n r
    using digits_reads [of "print2 n" 2 r] that by (simp add: dec_val_print2)
  show ?thesis using assms by (simp add: time_of_day_def d skip_Cons)
qed

definition print_time :: "nat \<Rightarrow> nat \<Rightarrow> nat \<Rightarrow> bytes" where
  "print_time h mi s = print2 h @ '':'' @ print2 mi @ '':'' @ print2 s"

lemma print_time_reads: "h < 24 \<Longrightarrow> mi < 60 \<Longrightarrow> s \<le> 60 \<Longrightarrow> time_of_day ref_lexer (print_time h mi s @ t) = Some ((h, mi, min s 59), t)"
  using time_reads [of h mi s t] by (simp add: print_time_def)

lemma two_digits: "n < 100 \<Longrightarrow> digits ref_lexer 2 (print2 n @ t) = Some (n, t)"
  using digits_reads [of "print2 n" 2 t] by (simp add: dec_val_print2)

lemma four_digits: "n < 10000 \<Longrightarrow> digits ref_lexer 4 (print4 n @ t) = Some (n, t)"
  using digits_reads [of "print4 n" 4 t] by (simp add: dec_val_print4)

text \<open>The text of a date in each of the three forms.\<close>

datatype date_form = Imf | Rfc850 | Asctime

fun date_text :: "date_form \<Rightarrow> bytes \<Rightarrow> bytes \<Rightarrow> nat \<Rightarrow> nat \<Rightarrow> nat \<Rightarrow> nat \<Rightarrow> nat \<Rightarrow> bytes" where
  "date_text Imf dn mon y d h mi s = dn @ '', '' @ print2 d @ '' '' @ mon @ '' '' @ print4 y @ '' '' @ print_time h mi s @ '' GMT''"
| "date_text Rfc850 dn mon y d h mi s = dn @ '', '' @ print2 d @ ''-'' @ mon @ ''-'' @ print2 (y mod 100) @ '' '' @ print_time h mi s @ '' GMT''"
| "date_text Asctime dn mon y d h mi s =
     dn @ '' '' @ mon @ '' '' @ (if d < 10 then '' '' @ [digit d] else print2 d) @ '' '' @ print_time h mi s @ '' '' @ print4 y"

definition form_ok :: "date_form \<Rightarrow> bytes \<Rightarrow> nat \<Rightarrow> bool" where
  "form_ok f dn y \<longleftrightarrow> (if f = Rfc850 then dn \<in> set LONG_DAYS \<and> 1970 \<le> y \<and> y < 2070 else dn \<in> set DAYS \<and> y < 10000)"

lemma imf_reads:
  assumes "dn \<in> set DAYS" "(mon, m) \<in> set MONTH_NAMES" "d < 100" "y < 10000" "h < 24" "mi < 60" "s \<le> 60"
  shows "imf_fixdate ref_lexer cal (date_text Imf dn mon y d h mi s) = map_option (\<lambda>v. (v, [])) (cal y m d h mi (min s 59))"
proof -
  have dn: "day_name ref_lexer False (dn @ t) = Some t" for t using day_name_reads [of dn False t] assms(1) by simp
  have g: "skip ref_lexer '' GMT'' '' GMT'' = Some []" using skip_reads [of "'' GMT''" "[]"] by simp
  have c: "skip ref_lexer '', '' (CHR '','' # CHR '' '' # t) = Some t" for t using skip_reads [of "'', ''" t] by simp
  show ?thesis
    using assms month_not_digits [OF assms(2)] month_reads [OF assms(2)]
    by (simp add: imf_fixdate_def dn c g skip_Cons two_digits four_digits print_time_reads civil_def)
qed

lemma starts_with_Cons_Cons: "starts_with (b # t) (c # u) \<longleftrightarrow> b = c \<and> starts_with t u"
  by (auto simp: starts_with_def)

lemma imf_refuses_long: "dn \<in> set LONG_DAYS \<Longrightarrow> imf_fixdate ref_lexer cal (dn @ t) = None"
  by (auto simp: imf_fixdate_def LONG_DAYS_def DAYS_def day_name_def skip_def ref_lexer_def starts_with_Cons_Cons starts_with_def [of _ "[]"])

lemma rfc850_reads:
  assumes "dn \<in> set LONG_DAYS" "(mon, m) \<in> set MONTH_NAMES" "d < 100" "1970 \<le> y" "y < 2070" "h < 24" "mi < 60" "s \<le> 60"
  shows "rfc850 ref_lexer cal (date_text Rfc850 dn mon y d h mi s) = map_option (\<lambda>v. (v, [])) (cal y m d h mi (min s 59))"
proof -
  have dn: "day_name ref_lexer True (dn @ t) = Some t" for t using day_name_reads [of dn True t] assms(1) by simp
  have g: "skip ref_lexer '' GMT'' '' GMT'' = Some []" using skip_reads [of "'' GMT''" "[]"] by simp
  have c: "skip ref_lexer '', '' (CHR '','' # CHR '' '' # t) = Some t" for t using skip_reads [of "'', ''" t] by simp
  have y: "(if 70 \<le> y mod 100 then 1900 + y mod 100 else 2000 + y mod 100) = y"
  proof (cases "y < 2000")
    case True
    then have "y = (y - 1900) + 19 * 100" "y - 1900 < 100" using assms(4) by auto
    then have "y mod 100 = y - 1900" by (metis mod_less mod_mult_self1)
    then show ?thesis using assms(4) True by simp
  next
    case False
    then have "y = (y - 2000) + 20 * 100" "y - 2000 < 100" using assms(5) by auto
    then have "y mod 100 = y - 2000" by (metis mod_less mod_mult_self1)
    then show ?thesis using assms(5) False by simp
  qed
  have yy: "digits ref_lexer 2 (print2 (y mod 100) @ t) = Some (y mod 100, t)" for t by (rule two_digits) simp
  show ?thesis
    using assms month_not_digits [OF assms(2)] month_reads [OF assms(2)] y
    by (simp add: rfc850_def dn c g skip_Cons two_digits yy print_time_reads civil_def)
qed

lemma imf_refuses_asctime: "dn \<in> set DAYS \<Longrightarrow> imf_fixdate ref_lexer cal (dn @ '' '' @ t) = None"
proof -
  assume "dn \<in> set DAYS"
  then have "day_name ref_lexer False (dn @ '' '' @ t) = Some ('' '' @ t)" using day_name_reads [of dn False] by simp
  then show ?thesis by (simp add: imf_fixdate_def skip_def ref_lexer_def starts_with_Cons_Cons)
qed

lemma long_refuses_short:
  "list_all (\<lambda>dn. list_all (\<lambda>n. \<not> starts_with (dn @ '' '' @ t) n \<and> \<not> starts_with (dn @ '','' @ t) n) LONG_DAYS) DAYS"
  by (simp add: DAYS_def LONG_DAYS_def starts_with_Cons_Cons)

lemma rfc850_refuses_short:
  assumes "dn \<in> set DAYS"
  shows "rfc850 ref_lexer cal (dn @ '' '' @ t) = None" "rfc850 ref_lexer cal (dn @ '','' @ t) = None"
proof -
  have "find (\<lambda>n. literal ref_lexer n (dn @ '' '' @ t)) LONG_DAYS = None" "find (\<lambda>n. literal ref_lexer n (dn @ '','' @ t)) LONG_DAYS = None"
    using long_refuses_short [of t] assms by (auto simp: find_None_iff list_all_iff ref_lexer_def)
  then show "rfc850 ref_lexer cal (dn @ '' '' @ t) = None" "rfc850 ref_lexer cal (dn @ '','' @ t) = None"
    by (simp_all add: rfc850_def day_name_def)
qed

lemma short_comma_refused: "dn \<in> set DAYS \<Longrightarrow> rfc850 ref_lexer cal (dn @ '','' @ t) = None \<and> asctime ref_lexer cal (dn @ '','' @ t) = None"
proof -
  assume dn: "dn \<in> set DAYS"
  then have "day_name ref_lexer False (dn @ '','' @ t) = Some ('','' @ t)" using day_name_reads [of dn False] by simp
  then have "asctime ref_lexer cal (dn @ '','' @ t) = None" by (simp add: asctime_def skip_def ref_lexer_def starts_with_Cons_Cons)
  then show ?thesis using rfc850_refuses_short(2) [OF dn] by blast
qed

lemma asctime_refuses_long: "dn \<in> set LONG_DAYS \<Longrightarrow> asctime ref_lexer cal (dn @ t) = None"
  by (auto simp: asctime_def LONG_DAYS_def DAYS_def day_name_def skip_def ref_lexer_def starts_with_Cons_Cons starts_with_def [of _ "[]"])

lemma asctime_day:
  assumes "d < 100"
  shows "(case digits ref_lexer 2 ((if d < 10 then '' '' @ [digit d] else print2 d) @ t) of Some x \<Rightarrow> Some x
    | None \<Rightarrow> Option.bind (skip ref_lexer '' '' ((if d < 10 then '' '' @ [digit d] else print2 d) @ t)) (digits ref_lexer 1)) = Some (d, t)"
proof (cases "d < 10")
  case True
  have "digits ref_lexer 2 (CHR '' '' # digit d # t) = None"
    by (simp add: digits_def ref_lexer_def at_most_def Let_def is_ascii_digit_def byte_val_def)
  moreover have "digits ref_lexer 1 (digit d # t) = Some (d, t)"
    using digits_reads [of "[digit d]" 1 t] True by (simp add: dec_val_def)
  ultimately show ?thesis using True by (simp add: skip_Cons)
qed (use assms two_digits in simp)

lemma asctime_reads:
  assumes "dn \<in> set DAYS" "(mon, m) \<in> set MONTH_NAMES" "d < 100" "y < 10000" "h < 24" "mi < 60" "s \<le> 60"
  shows "asctime ref_lexer cal (date_text Asctime dn mon y d h mi s) = map_option (\<lambda>v. (v, [])) (cal y m d h mi (min s 59))"
proof -
  have dn: "day_name ref_lexer False (dn @ t) = Some t" for t using day_name_reads [of dn False t] assms(1) by simp
  have y: "digits ref_lexer 4 (print4 y) = Some (y, [])" using four_digits [OF assms(4), of "[]"] by simp
  show ?thesis
    unfolding date_text.simps asctime_def dn
    using assms month_not_digits [OF assms(2)] month_reads [OF assms(2)] asctime_day [OF assms(3)]
    by (simp add: skip_Cons print_time_reads y civil_def del: if_split)
qed

lemma trim_ows_id: "t \<noteq> [] \<Longrightarrow> \<not> is_ascii_whitespace (hd t) \<Longrightarrow> \<not> is_ascii_whitespace (last t) \<Longrightarrow>
   list_all is_ascii_whitespace a \<Longrightarrow> list_all is_ascii_whitespace b \<Longrightarrow> trim_ows (a @ t @ b) = t"
proof -
  assume t: "t \<noteq> []" "\<not> is_ascii_whitespace (hd t)" "\<not> is_ascii_whitespace (last t)"
    and ws: "list_all is_ascii_whitespace a" "list_all is_ascii_whitespace b"
  have drop: "dropWhile is_ascii_whitespace (x @ y) = y"
    if "list_all is_ascii_whitespace x" "y \<noteq> []" "\<not> is_ascii_whitespace (hd y)" for x y
    using that by (induction x) (auto simp: neq_Nil_conv)
  have "dropWhile is_ascii_whitespace (a @ t @ b) = t @ b" using drop [OF ws(1), of "t @ b"] t by simp
  moreover have "dropWhile is_ascii_whitespace (rev b @ rev t) = rev t" using drop [of "rev b" "rev t"] ws(2) t by (simp add: hd_rev)
  ultimately show ?thesis by (simp add: trim_ows_def)
qed

lemma digit_not_space: "is_ascii_digit b \<Longrightarrow> \<not> is_ascii_whitespace b"
  by (auto simp: is_ascii_digit_def is_ascii_whitespace_def)

lemma date_text_ends:
  assumes "form_ok f dn y"
  shows "date_text f dn mon y d h mi s \<noteq> []" "\<not> is_ascii_whitespace (hd (date_text f dn mon y d h mi s))"
    "\<not> is_ascii_whitespace (last (date_text f dn mon y d h mi s))"
proof -
  have n: "dn \<noteq> [] \<and> \<not> is_ascii_whitespace (hd dn)"
    using assms by (auto simp: form_ok_def DAYS_def LONG_DAYS_def is_ascii_whitespace_def byte_val_def split: if_splits)
  then show "date_text f dn mon y d h mi s \<noteq> []" "\<not> is_ascii_whitespace (hd (date_text f dn mon y d h mi s))"
    by (cases f; simp)+
  have "\<not> is_ascii_whitespace (last (print4 y))" using digit_not_space by (simp add: print4_def print2_def)
  then show "\<not> is_ascii_whitespace (last (date_text f dn mon y d h mi s))"
    by (cases f) (simp_all add: is_ascii_whitespace_def byte_val_def)
qed

text \<open>
  An HTTP date in any of the three forms a recipient has to accept, with whitespace around it, is read as
  the second it names: the weekday is not compared with the date, a two-digit year lies between 1970 and 2069, a leap
  second counts as the last second of its minute, and a day the calendar does not have makes it no date.
\<close>

theorem http_date_reads:
  assumes "winnow_ok w" "form_ok f dn y" "(mon, m) \<in> set MONTH_NAMES" "d < 100" "h < 24" "mi < 60" "s \<le> 60"
    and "list_all is_ascii_whitespace before" "list_all is_ascii_whitespace after"
  shows "parse_http_date w cal (before @ date_text f dn mon y d h mi s @ after) = cal y m d h mi (min s 59)"
proof -
  let ?t = "date_text f dn mon y d h mi s" and ?r = "map_option (\<lambda>v. (v, [])) (cal y m d h mi (min s 59)) :: (int \<times> bytes) option"
  have t: "trim_ows (before @ ?t @ after) = ?t" using trim_ows_id [OF date_text_ends [OF assms(2)] assms(8,9)] .
  have "(case imf_fixdate ref_lexer cal ?t of Some x \<Rightarrow> Some x
         | None \<Rightarrow> (case rfc850 ref_lexer cal ?t of Some x \<Rightarrow> Some x | None \<Rightarrow> asctime ref_lexer cal ?t)) = ?r"
  proof (cases f)
    case Imf
    then have dn: "dn \<in> set DAYS" "y < 10000" using assms(2) by (simp_all add: form_ok_def)
    have "rfc850 ref_lexer cal ?t = None" "asctime ref_lexer cal ?t = None" using short_comma_refused [OF dn(1)] Imf by simp_all
    then show ?thesis using imf_reads [OF dn(1) assms(3,4) dn(2) assms(5-7), of cal] Imf by (simp split: option.split)
  next
    case Rfc850
    then have dn: "dn \<in> set LONG_DAYS" "1970 \<le> y" "y < 2070" using assms(2) by (simp_all add: form_ok_def)
    have "imf_fixdate ref_lexer cal ?t = None" "asctime ref_lexer cal ?t = None"
      using imf_refuses_long [OF dn(1)] asctime_refuses_long [OF dn(1)] Rfc850 by simp_all
    then show ?thesis using rfc850_reads [OF dn(1) assms(3,4) dn(2,3) assms(5-7), of cal] Rfc850 by (simp split: option.split)
  next
    case Asctime
    then have dn: "dn \<in> set DAYS" "y < 10000" using assms(2) by (simp_all add: form_ok_def)
    have "imf_fixdate ref_lexer cal ?t = None" "rfc850 ref_lexer cal ?t = None"
      using imf_refuses_asctime [OF dn(1)] rfc850_refuses_short(1) [OF dn(1)] Asctime by simp_all
    then show ?thesis using asctime_reads [OF dn(1) assms(3,4) dn(2) assms(5-7), of cal] Asctime by (simp del: date_text.simps)
  qed
  then show ?thesis unfolding winnow_ok_unique [OF assms(1)] parse_http_date_def t Let_def
    by (cases "cal y m d h mi (min s 59)") simp_all
qed

theorem http_date_reads_witness:
  "parse_http_date ref_lexer (\<lambda>y m d h mi s. if y = 1994 \<and> m = 11 \<and> d = 6 then Some (int s) else None)
     '' Sun, 06 Nov 1994 08:49:60 GMT'' = Some 59"
proof -
  have p: "print2 6 = ''06''" "print2 8 = ''08''" "print2 49 = ''49''" "print2 60 = ''60''" "print4 1994 = ''1994''" by code_simp+
  have o: "form_ok Imf ''Sun'' 1994" "(''Nov'', 11) \<in> set MONTH_NAMES" by (simp_all add: form_ok_def DAYS_def MONTH_NAMES_def)
  have "list_all is_ascii_whitespace '' ''" by code_simp
  from http_date_reads [OF ref_lexer_ok o, of 6 8 49 60 "'' ''" "[]"
      "\<lambda>y m d h mi s. if y = 1994 \<and> m = 11 \<and> d = 6 then Some (int s) else None"] this
  show ?thesis by (simp add: print_time_def p)
qed

end
