(* ===== verification/Http_Cache.thy ===== *)
theory Http_Cache
  imports Cache_Store Cache_Directives Http_Date
begin

text \<open>
  The caching rules of RFC 9111 as \<open>crates/hclient/src/cache/policy.rs\<close> has them, over any \<open>CacheStore\<close>: what a request
  may be answered with, what may be stored, what a \<open>304\<close> changes, and what an unsafe request invalidates.

  What the rules take from other crates is the record \<open>cache_env\<close>: the parser combinators, the calendar, \<open>HeaderValue::to_str\<close>,
  \<open>HeaderValue::from_bytes\<close> and \<open>from_str\<close>, \<open>HeaderName::from_bytes\<close> and \<open>Uri::path_and_query\<close>. A status is its number.
\<close>

section \<open>Data\<close>

record cache_env =
  ce_lexer :: lexer
  ce_grammar :: "cc_directive option grammar"
  ce_calendar :: calendar
  ce_to_str :: "bytes \<Rightarrow> bytes option"
  ce_header_value :: "bytes \<Rightarrow> bool"
  ce_header_str :: "bytes \<Rightarrow> bool"
  ce_header_name :: "bytes \<Rightarrow> bytes option"
  ce_path_and_query :: "http_uri \<Rightarrow> bytes option"

definition CACHEABLE_STATUSES :: "nat list" where
  "CACHEABLE_STATUSES = [200, 203, 204, 300, 301, 302, 307, 308, 404, 405, 410, 414, 501]"

definition NOT_UPDATED_BY_304 :: "bytes list" where
  "NOT_UPDATED_BY_304 = [''content-length'', ''content-encoding'', ''connection'', ''transfer-encoding'', ''te'',
     ''trailer'', ''upgrade'', ''proxy-authenticate'', ''proxy-authorization'']"

text \<open>\<open>Limits::default\<close>: the largest body.\<close>

definition cache_limits_default :: nat where
  "cache_limits_default = 1024 * 1024"

datatype lookup_result =
    Miss
  | Hit stored_response
  | Revalidate cache_key stored_response "(bytes \<times> bytes) list"
  | Unsatisfiable

record response_parts =
  rp_status :: nat
  rp_version :: nat
  rp_headers :: header_map

record storing =
  st_key :: cache_key
  st_status :: nat
  st_version :: nat
  st_headers :: header_map
  st_selector :: selector
  st_requested_at :: system_time
  st_received_at :: system_time
  st_declared_len :: "nat option"
  st_max_body_bytes :: nat

datatype not_stored =
    BadMethod bytes
  | RequestStoodAside
  | RequestNoStore
  | BadStatus nat
  | ResponseNoStore
  | VaryAsterisk
  | NothingToReuseItWith
  | NoKey
  | TooLarge nat nat
  | LengthMismatch nat nat

section \<open>Methods and fields\<close>

definition usable_method :: "bytes \<Rightarrow> bool" where
  "usable_method m \<longleftrightarrow> m = ''GET''"

definition is_safe :: "bytes \<Rightarrow> bool" where
  "is_safe m \<longleftrightarrow> m = ''GET'' \<or> m = ''HEAD'' \<or> m = ''OPTIONS'' \<or> m = ''TRACE''"

definition bypasses :: "header_map \<Rightarrow> bool" where
  "bypasses h \<longleftrightarrow> hm_contains ''if-none-match'' h \<or> hm_contains ''if-modified-since'' h \<or> hm_contains ''range'' h"

definition request_directives_of :: "cache_env \<Rightarrow> header_map \<Rightarrow> request_directives" where
  "request_directives_of env h = request_parse (ce_lexer env) (ce_grammar env) (hm_get_all ''cache-control'' h)"

definition response_directives_of :: "cache_env \<Rightarrow> header_map \<Rightarrow> response_directives" where
  "response_directives_of env h = response_parse (ce_lexer env) (ce_grammar env) (hm_get_all ''cache-control'' h)"

text \<open>The tokens of every \<open>Vary\<close>: a step that fails, or \<open>*\<close>, ends the loops with nothing.\<close>

fun vary_tokens :: "cache_env \<Rightarrow> bytes list \<Rightarrow> bytes list option" where
  "vary_tokens env [] = Some []"
| "vary_tokens env (tok # toks) =
     (if \<not> is_utf8 tok then None else
      let t = trim tok in
      if t = [] then vary_tokens env toks
      else if t = ''*'' then None
      else Option.bind (ce_header_name env t) (\<lambda>n. map_option ((#) n) (vary_tokens env toks)))"

definition vary_names :: "cache_env \<Rightarrow> header_map \<Rightarrow> bytes list option" where
  "vary_names env h = vary_tokens env (concat (map (split_byte (CHR '','')) (hm_get_all ''vary'' h)))"

definition selector_matches :: "cache_env \<Rightarrow> stored_response \<Rightarrow> header_map \<Rightarrow> bool" where
  "selector_matches env e h \<longleftrightarrow> selector_of (ce_header_value env) h (selector_names (sr_selector e)) = sr_selector e"

definition conditions_from :: "header_map \<Rightarrow> (bytes \<times> bytes) list" where
  "conditions_from h =
     (case hm_get ''etag'' h of None \<Rightarrow> [] | Some v \<Rightarrow> [(''if-none-match'', v)]) @
     (case hm_get ''last-modified'' h of None \<Rightarrow> [] | Some v \<Rightarrow> [(''if-modified-since'', v)])"

definition conditions_for :: "stored_response \<Rightarrow> (bytes \<times> bytes) list" where
  "conditions_for e = conditions_from (sr_headers e)"

definition connection_nominated :: "cache_env \<Rightarrow> header_map \<Rightarrow> bytes list" where
  "connection_nominated env h =
     List.map_filter (\<lambda>t. ce_header_name env (trim t))
       (concat (map (split_byte (CHR '','')) (List.map_filter (ce_to_str env) (hm_get_all ''connection'' h))))"

section \<open>Age and freshness\<close>

text \<open>\<open>SystemTime::checked_sub\<close>; seconds are an \<open>i64\<close>.\<close>

definition checked_sub :: "system_time \<Rightarrow> duration \<Rightarrow> system_time option" where
  "checked_sub t d = (if t - int d \<ge> - 9223372036854775808 * 1000000000 then Some (t - int d) else None)"

text \<open>\<open>duration_since(..).unwrap_or(Duration::ZERO)\<close>\<close>

definition since_or_zero :: "system_time \<Rightarrow> system_time \<Rightarrow> duration" where
  "since_or_zero a b = (if b \<le> a then nat (a - b) else 0)"

definition date_from_unix :: "int \<Rightarrow> system_time" where
  "date_from_unix secs =
     (if secs \<ge> 0 then 0 + int (from_secs (nat secs))
      else case checked_sub 0 (from_secs (nat (- secs))) of Some t \<Rightarrow> t | None \<Rightarrow> 0)"

definition date_of :: "cache_env \<Rightarrow> stored_response \<Rightarrow> system_time option" where
  "date_of env e =
     map_option date_from_unix (Option.bind (hm_get ''date'' (sr_headers e)) (parse_http_date (ce_lexer env) (ce_calendar env)))"

definition date_or_received :: "cache_env \<Rightarrow> stored_response \<Rightarrow> system_time" where
  "date_or_received env e = (case date_of env e of None \<Rightarrow> sr_received_at e | Some d \<Rightarrow> d)"

text \<open>A number in a field: \<open>to_str\<close>, \<open>trim\<close>, \<open>parse::<u64>\<close>.\<close>

definition field_u64 :: "cache_env \<Rightarrow> bytes \<Rightarrow> header_map \<Rightarrow> nat option" where
  "field_u64 env n h = Option.bind (Option.bind (hm_get n h) (ce_to_str env)) (\<lambda>v. parse_u64 (trim v))"

definition current_age :: "cache_env \<Rightarrow> stored_response \<Rightarrow> system_time \<Rightarrow> duration" where
  "current_age env e now =
     (let date = date_or_received env e;
          apparent = since_or_zero (sr_received_at e) date;
          age_value = (case field_u64 env ''age'' (sr_headers e) of None \<Rightarrow> 0 | Some s \<Rightarrow> from_secs s);
          response_delay = since_or_zero (sr_received_at e) (sr_requested_at e);
          corrected = duration_saturating_add age_value response_delay;
          initial = max apparent corrected;
          resident = since_or_zero now (sr_received_at e)
      in duration_saturating_add initial resident)"

definition freshness_lifetime :: "cache_env \<Rightarrow> stored_response \<Rightarrow> response_directives \<Rightarrow> duration option" where
  "freshness_lifetime env e resp =
     (case rs_max_age resp of
        Some m \<Rightarrow> Some m
      | None \<Rightarrow>
          (case hm_get ''expires'' (sr_headers e) of
             None \<Rightarrow> None
           | Some x \<Rightarrow>
               (case parse_http_date (ce_lexer env) (ce_calendar env) x of
                  None \<Rightarrow> Some 0
                | Some secs \<Rightarrow> Some (since_or_zero (date_from_unix secs) (date_or_received env e)))))"

definition is_fresh :: "duration \<Rightarrow> duration option \<Rightarrow> request_directives \<Rightarrow> bool" where
  "is_fresh age lifetime req =
     (case lifetime of
        None \<Rightarrow> False
      | Some l \<Rightarrow>
          if l \<le> age then False
          else if (case rq_max_age req of None \<Rightarrow> False | Some m \<Rightarrow> age > m) then False
          else if (case rq_min_fresh req of None \<Rightarrow> False | Some m \<Rightarrow> l - age < m) then False
          else True)"

definition with_age :: "cache_env \<Rightarrow> stored_response \<Rightarrow> duration \<Rightarrow> stored_response" where
  "with_age env e age =
     (let text = dec_bytes (age div nanos_per_sec); value = (if ce_header_str env text then text else ''0'') in
      e\<lparr>sr_headers := hm_insert ''age'' value (sr_headers e)\<rparr>)"

section \<open>The cache\<close>

text \<open>\<open>Iterator::max_by_key\<close>: the last of the greatest elements.\<close>

fun max_by_key :: "('a \<Rightarrow> 'b::linorder) \<Rightarrow> 'a list \<Rightarrow> 'a option" where
  "max_by_key f [] = None"
| "max_by_key f (x # xs) = (case max_by_key f xs of None \<Rightarrow> Some x | Some y \<Rightarrow> if f y < f x then Some x else Some y)"

definition cache_lookup :: "cache_env \<Rightarrow> 's cache_store \<Rightarrow> 's \<Rightarrow> bytes \<Rightarrow> http_uri \<Rightarrow> header_map \<Rightarrow> system_time \<Rightarrow> lookup_result" where
  "cache_lookup env C s method u headers now =
     (let req = request_directives_of env headers;
          miss = (if rq_only_if_cached req then Unsatisfiable else Miss) in
      if \<not> usable_method method \<or> bypasses headers \<or> rq_no_store req then miss
      else case cache_key_new (ce_path_and_query env) method u of
        None \<Rightarrow> miss
      | Some key \<Rightarrow>
          (case max_by_key sr_received_at (filter (\<lambda>e. selector_matches env e headers) (cs_get C s key)) of
             None \<Rightarrow> miss
           | Some stored \<Rightarrow>
               (let resp = response_directives_of env (sr_headers stored);
                    age = current_age env stored now;
                    lifetime = freshness_lifetime env stored resp in
                if \<not> rq_no_cache req \<and> \<not> rs_no_cache resp \<and> is_fresh age lifetime req
                then Hit (with_age env stored age)
                else if \<not> rq_no_cache req \<and> \<not> rs_no_cache resp \<and> \<not> rs_must_revalidate resp \<and>
                  (case (rq_max_stale req, lifetime) of
                     (Some allowance, Some l) \<Rightarrow> (case allowance of None \<Rightarrow> True | Some d \<Rightarrow> age - l \<le> d)
                   | _ \<Rightarrow> False)
                then Hit (with_age env stored age)
                else let conditions = conditions_for stored in
                  if conditions = [] then miss else Revalidate key stored conditions)))"

definition cache_storing ::
  "cache_env \<Rightarrow> nat \<Rightarrow> bytes \<Rightarrow> http_uri \<Rightarrow> header_map \<Rightarrow> response_parts \<Rightarrow> system_time \<Rightarrow> system_time \<Rightarrow> not_stored + storing" where
  "cache_storing env limit method u request_headers parts requested_at received_at =
     (if \<not> usable_method method then Inl (BadMethod method)
      else if bypasses request_headers then Inl RequestStoodAside
      else if rq_no_store (request_directives_of env request_headers) then Inl RequestNoStore
      else if rp_status parts \<notin> set CACHEABLE_STATUSES then Inl (BadStatus (rp_status parts))
      else
        let resp = response_directives_of env (rp_headers parts) in
        if rs_no_store resp then Inl ResponseNoStore
        else case vary_names env (rp_headers parts) of
          None \<Rightarrow> Inl VaryAsterisk
        | Some names \<Rightarrow>
            let has_lifetime = rs_max_age resp \<noteq> None \<or> hm_contains ''expires'' (rp_headers parts);
                has_validator = conditions_from (rp_headers parts) \<noteq> [] in
            if \<not> has_lifetime \<and> \<not> has_validator then Inl NothingToReuseItWith
            else
              let declared_len = field_u64 env ''content-length'' (rp_headers parts) in
              if (case declared_len of None \<Rightarrow> False | Some n \<Rightarrow> n > limit) then Inl (TooLarge (the declared_len) limit)
              else case cache_key_new (ce_path_and_query env) method u of
                None \<Rightarrow> Inl NoKey
              | Some key \<Rightarrow>
                  Inr \<lparr>st_key = key, st_status = rp_status parts, st_version = rp_version parts, st_headers = rp_headers parts,
                    st_selector = selector_of (ce_header_value env) request_headers names, st_requested_at = requested_at,
                    st_received_at = received_at, st_declared_len = declared_len, st_max_body_bytes = limit\<rparr>)"

definition storing_entry :: "storing \<Rightarrow> bytes \<Rightarrow> stored_response" where
  "storing_entry st body = \<lparr>sr_status = st_status st, sr_version = st_version st, sr_headers = st_headers st, sr_body = body,
     sr_selector = st_selector st, sr_requested_at = st_requested_at st, sr_received_at = st_received_at st\<rparr>"

definition cache_commit :: "'s cache_store \<Rightarrow> 's \<Rightarrow> storing \<Rightarrow> bytes \<Rightarrow> (not_stored + unit) \<times> 's" where
  "cache_commit C s st body =
     (let len = length body in
      if len > st_max_body_bytes st then (Inl (TooLarge len (st_max_body_bytes st)), s)
      else if (case st_declared_len st of None \<Rightarrow> False | Some n \<Rightarrow> n \<noteq> len)
      then (Inl (LengthMismatch len (the (st_declared_len st))), s)
      else (Inr (), cs_put C s (st_key st) (storing_entry st body)))"

text \<open>The loop over the fields of a \<open>304\<close>.\<close>

definition update_field :: "header_map \<Rightarrow> header_map \<Rightarrow> bytes \<Rightarrow> header_map" where
  "update_field from h n = foldl (\<lambda>h v. hm_append n v h) (hm_remove n h) (hm_get_all n from)"

definition updated_headers :: "cache_env \<Rightarrow> header_map \<Rightarrow> header_map \<Rightarrow> header_map" where
  "updated_headers env h from =
     (let hop = connection_nominated env from in
      foldl (\<lambda>h n. if n \<in> set NOT_UPDATED_BY_304 \<or> n \<in> set hop then h else update_field from h n) h (hm_keys from))"

definition cache_revalidated ::
  "cache_env \<Rightarrow> 's cache_store \<Rightarrow> 's \<Rightarrow> cache_key \<Rightarrow> stored_response \<Rightarrow> response_parts \<Rightarrow> system_time \<Rightarrow> system_time \<Rightarrow> stored_response \<times> 's" where
  "cache_revalidated env C s key stale parts requested_at received_at =
     (let fresh = freshen (stale\<lparr>sr_headers := updated_headers env (sr_headers stale) (rp_headers parts)\<rparr>) requested_at received_at;
          s' = cs_put C s key fresh;
          age = current_age env fresh received_at
      in (with_age env fresh age, s'))"

definition cache_superseded :: "'s cache_store \<Rightarrow> 's \<Rightarrow> cache_key \<Rightarrow> stored_response \<Rightarrow> 's" where
  "cache_superseded C s key stale = cs_remove C s key (sr_selector stale)"

definition cache_invalidated_by :: "cache_env \<Rightarrow> 's cache_store \<Rightarrow> 's \<Rightarrow> bytes \<Rightarrow> http_uri \<Rightarrow> nat \<Rightarrow> 's" where
  "cache_invalidated_by env C s method u status =
     (if is_safe method \<or> 400 \<le> status \<and> status < 500 \<or> 500 \<le> status \<and> status < 600 then s
      else foldl (\<lambda>s m. case cache_key_new (ce_path_and_query env) m u of None \<Rightarrow> s | Some k \<Rightarrow> cs_invalidate C s k)
             s [''GET'', ''HEAD''])"

section \<open>What a hit means\<close>

lemma max_by_key_greatest: "max_by_key f xs = Some x \<Longrightarrow> x \<in> set xs \<and> (\<forall>y \<in> set xs. f y \<le> f x)"
proof (induction xs arbitrary: x)
  case (Cons z zs)
  show ?case
  proof (cases "max_by_key f zs")
    case None
    then have "zs = []" by (cases zs) (auto split: option.splits if_splits)
    then show ?thesis using Cons.prems by simp
  next
    case (Some w)
    then show ?thesis using Cons.IH [OF Some] Cons.prems by (fastforce split: if_splits)
  qed
qed simp

lemma max_by_key_last: "\<forall>x \<in> set xs. f x \<le> f y \<Longrightarrow> max_by_key f (xs @ [y]) = Some y"
  by (induction xs) auto

text \<open>The response that a lookup looks at: the newest of those whose selector matches.\<close>

definition selected :: "cache_env \<Rightarrow> 's cache_store \<Rightarrow> 's \<Rightarrow> bytes \<Rightarrow> http_uri \<Rightarrow> header_map \<Rightarrow> stored_response option" where
  "selected env C s mth u h =
     Option.bind (cache_key_new (ce_path_and_query env) mth u)
       (\<lambda>key. max_by_key sr_received_at (filter (\<lambda>e. selector_matches env e h) (cs_get C s key)))"

text \<open>Whether what the request and the response say allows a response of this age and this lifetime.\<close>

definition reusable :: "request_directives \<Rightarrow> response_directives \<Rightarrow> duration \<Rightarrow> duration \<Rightarrow> bool" where
  "reusable req resp age lifetime \<longleftrightarrow>
     \<not> rq_no_store req \<and> \<not> rq_no_cache req \<and> \<not> rs_no_cache resp \<and>
     (age < lifetime \<and> pred_option (\<lambda>m. age \<le> m) (rq_max_age req) \<and> pred_option (\<lambda>m. m \<le> lifetime - age) (rq_min_fresh req) \<or>
      \<not> rs_must_revalidate resp \<and> (\<exists>allowance. rq_max_stale req = Some allowance \<and> pred_option (\<lambda>d. age \<le> lifetime + d) allowance))"

lemma is_fresh_iff:
  "is_fresh age lifetime req \<longleftrightarrow> (\<exists>l. lifetime = Some l \<and> age < l \<and> pred_option (\<lambda>m. age \<le> m) (rq_max_age req) \<and>
     pred_option (\<lambda>m. m \<le> l - age) (rq_min_fresh req))"
  by (auto simp: is_fresh_def pred_option_def not_less split: option.splits)

lemma stale_iff:
  "(case (ms, lifetime) of (Some allowance, Some l) \<Rightarrow> (case allowance of None \<Rightarrow> True | Some d \<Rightarrow> age - l \<le> d) | _ \<Rightarrow> False) \<longleftrightarrow>
   (\<exists>l allowance. lifetime = Some l \<and> ms = Some allowance \<and> pred_option (\<lambda>d. age \<le> l + d) allowance)" for age :: nat
  by (auto simp: pred_option_def le_diff_conv add.commute split: option.splits)

lemma lookup_selected:
  fixes now :: system_time
  assumes "mth = ''GET''" "\<not> bypasses h" "\<not> rq_no_store (request_directives_of env h)" "selected env C s mth u h = Some e"
  defines "req \<equiv> request_directives_of env h" and "resp \<equiv> response_directives_of env (sr_headers e)"
    and "age \<equiv> current_age env e now"
  shows "\<exists>l. freshness_lifetime env e resp = Some l \<and> reusable req resp age l \<Longrightarrow>
      cache_lookup env C s mth u h now = Hit (with_age env e age)"
    and "\<nexists>l. freshness_lifetime env e resp = Some l \<and> reusable req resp age l \<Longrightarrow>
      cache_lookup env C s mth u h now =
        (if conditions_for e = [] then if rq_only_if_cached req then Unsatisfiable else Miss
         else Revalidate (the (cache_key_new (ce_path_and_query env) mth u)) e (conditions_for e))"
proof -
  obtain key where key: "cache_key_new (ce_path_and_query env) mth u = Some key"
    "max_by_key sr_received_at (filter (\<lambda>e. selector_matches env e h) (cs_get C s key)) = Some e"
    using assms(4) by (auto simp: selected_def split: bind_splits)
  let ?l = "freshness_lifetime env e resp"
  let ?stale = "case (rq_max_stale req, ?l) of (Some allowance, Some l) \<Rightarrow> (case allowance of None \<Rightarrow> True | Some d \<Rightarrow> age - l \<le> d) | _ \<Rightarrow> False"
  let ?reuse = "(\<not> rq_no_cache req \<and> \<not> rs_no_cache resp \<and> is_fresh age ?l req) \<or>
    (\<not> rq_no_cache req \<and> \<not> rs_no_cache resp \<and> \<not> rs_must_revalidate resp \<and> ?stale)"
  have "cache_lookup env C s mth u h now =
    (if ?reuse then Hit (with_age env e age) else if conditions_for e = [] then if rq_only_if_cached req then Unsatisfiable else Miss
     else Revalidate key e (conditions_for e))"
    unfolding req_def resp_def age_def using assms(1-3) key by (simp add: cache_lookup_def Let_def usable_method_def)
  moreover have "?reuse \<longleftrightarrow> (\<exists>l. ?l = Some l \<and> reusable req resp age l)"
    unfolding stale_iff is_fresh_iff reusable_def using assms(3) unfolding req_def by blast
  ultimately show "\<exists>l. ?l = Some l \<and> reusable req resp age l \<Longrightarrow> cache_lookup env C s mth u h now = Hit (with_age env e age)"
    "\<nexists>l. ?l = Some l \<and> reusable req resp age l \<Longrightarrow> cache_lookup env C s mth u h now =
        (if conditions_for e = [] then if rq_only_if_cached req then Unsatisfiable else Miss
         else Revalidate (the (cache_key_new (ce_path_and_query env) mth u)) e (conditions_for e))"
    using key(1) by simp_all
qed

lemma lookup_unselected:
  "mth \<noteq> ''GET'' \<or> bypasses h \<or> rq_no_store (request_directives_of env h) \<or> selected env C s mth u h = None \<Longrightarrow>
   cache_lookup env C s mth u h now = (if rq_only_if_cached (request_directives_of env h) then Unsatisfiable else Miss)"
  by (auto simp: cache_lookup_def Let_def selected_def usable_method_def split: option.splits)

lemma lookup_hit_iff:
  "cache_lookup env C s mth u h now = Hit r \<longleftrightarrow>
     mth = ''GET'' \<and> \<not> bypasses h \<and>
     (\<exists>e lifetime. selected env C s mth u h = Some e \<and>
        freshness_lifetime env e (response_directives_of env (sr_headers e)) = Some lifetime \<and>
        reusable (request_directives_of env h) (response_directives_of env (sr_headers e)) (current_age env e now) lifetime \<and>
        r = with_age env e (current_age env e now))"
proof (cases "mth = ''GET'' \<and> \<not> bypasses h \<and> \<not> rq_no_store (request_directives_of env h) \<and> selected env C s mth u h \<noteq> None")
  case False
  then show ?thesis using lookup_unselected [of mth h env C s u now] by (auto simp: reusable_def)
next
  case True
  then obtain e where e: "selected env C s mth u h = Some e" by blast
  show ?thesis
    using True e lookup_selected [of mth h env C s u e now]
    by (cases "\<exists>l. freshness_lifetime env e (response_directives_of env (sr_headers e)) = Some l \<and>
      reusable (request_directives_of env h) (response_directives_of env (sr_headers e)) (current_age env e now) l") auto
qed

lemma selected_matches:
  assumes "selected env C s mth u h = Some e"
  shows "\<exists>key. cache_key_new (ce_path_and_query env) mth u = Some key \<and> e \<in> set (cs_get C s key) \<and> selector_matches env e h \<and>
    (\<forall>e' \<in> set (cs_get C s key). selector_matches env e' h \<longrightarrow> sr_received_at e' \<le> sr_received_at e)"
proof -
  obtain key where key: "cache_key_new (ce_path_and_query env) mth u = Some key"
    "max_by_key sr_received_at (filter (\<lambda>e. selector_matches env e h) (cs_get C s key)) = Some e"
    using assms by (auto simp: selected_def split: bind_splits)
  then show ?thesis using max_by_key_greatest [OF key(2)] by auto
qed

text \<open>
  Property C4. Over any store, even one that answers with responses it was never given, a hit is allowed by the request
  and by the response. The request is a \<open>GET\<close> without a condition or a range; neither side says \<open>no-cache\<close> and the request
  does not say \<open>no-store\<close>; the response is the newest of those of the request's key whose selector the request
  matches; and either it is younger than its lifetime, no older than \<open>max-age\<close> and fresh for another \<open>min-fresh\<close>, or
  the request has \<open>max-stale\<close>, the response is past its lifetime by no more than that, and the response does not say \<open>must-revalidate\<close>.
\<close>

theorem cache_hit_allowed:
  assumes "cache_lookup env C s mth u h now = Hit r"
  shows "mth = ''GET'' \<and> \<not> bypasses h \<and>
    (\<exists>key e lifetime. cache_key_new (ce_path_and_query env) mth u = Some key \<and> e \<in> set (cs_get C s key) \<and>
       selector_matches env e h \<and>
       list_all (\<lambda>e'. selector_matches env e' h \<longrightarrow> sr_received_at e' \<le> sr_received_at e) (cs_get C s key) \<and>
       freshness_lifetime env e (response_directives_of env (sr_headers e)) = Some lifetime \<and>
       reusable (request_directives_of env h) (response_directives_of env (sr_headers e)) (current_age env e now) lifetime \<and>
       r = with_age env e (current_age env e now))"
proof -
  obtain e l where g: "mth = ''GET''" "\<not> bypasses h" and e: "selected env C s mth u h = Some e"
    and l: "freshness_lifetime env e (response_directives_of env (sr_headers e)) = Some l"
      "reusable (request_directives_of env h) (response_directives_of env (sr_headers e)) (current_age env e now) l"
      "r = with_age env e (current_age env e now)"
    using assms unfolding lookup_hit_iff by blast
  then show ?thesis using selected_matches [OF e] by (auto simp: list_all_iff)
qed

section \<open>Where a hit comes from\<close>

text \<open>
  Exchanges that were stored: the target, the request fields, the response head and the body. A run of a cache is, for requests with the given targets, any
  interleaving of lookups, commits, revalidations, removals, invalidations and clearings; a revalidation may come
  back long after the lookup that asked for it.
\<close>

type_synonym exchange = "http_uri \<times> header_map \<times> response_parts \<times> bytes"

inductive cache_run ::
  "cache_env \<Rightarrow> nat \<Rightarrow> 's cache_store \<Rightarrow> http_uri set \<Rightarrow> 's \<Rightarrow> exchange list \<Rightarrow> (cache_key \<times> stored_response) list \<Rightarrow> 's \<Rightarrow> bool"
  for env limit C Us s0 where
    Start: "cache_run env limit C Us s0 [] [] s0"
  | Ask: "cache_run env limit C Us s0 L P s \<Longrightarrow> u \<in> Us \<Longrightarrow> cache_lookup env C s mth u h now = Revalidate key stale conditions \<Longrightarrow>
      cache_run env limit C Us s0 L ((key, stale) # P) s"
  | Commit: "cache_run env limit C Us s0 L P s \<Longrightarrow> u \<in> Us \<Longrightarrow> cache_storing env limit mth u h parts t1 t2 = Inr st \<Longrightarrow>
      cache_commit C s st body = (Inr (), s') \<Longrightarrow> cache_run env limit C Us s0 ((u, h, parts, body) # L) P s'"
  | NotModified: "cache_run env limit C Us s0 L P s \<Longrightarrow> (key, stale) \<in> set P \<Longrightarrow>
      cache_revalidated env C s key stale parts t1 t2 = (served, s') \<Longrightarrow> cache_run env limit C Us s0 L P s'"
  | Supersede: "cache_run env limit C Us s0 L P s \<Longrightarrow> (key, stale) \<in> set P \<Longrightarrow>
      cache_run env limit C Us s0 L P (cache_superseded C s key stale)"
  | Invalidate: "cache_run env limit C Us s0 L P s \<Longrightarrow> u \<in> Us \<Longrightarrow>
      cache_run env limit C Us s0 L P (cache_invalidated_by env C s mth u status)"
  | Clear: "cache_run env limit C Us s0 L P s \<Longrightarrow> cache_run env limit C Us s0 L P (cs_clear C s)"

text \<open>A response under a key whose status and body are those of a stored exchange with that key, and whose selector is that of its request.\<close>

definition comes_from :: "cache_env \<Rightarrow> exchange list \<Rightarrow> cache_key \<Rightarrow> stored_response \<Rightarrow> bool" where
  "comes_from env L k e \<longleftrightarrow>
     (\<exists>u h parts body names. (u, h, parts, body) \<in> set L \<and> cache_key_new (ce_path_and_query env) ''GET'' u = Some k \<and>
        vary_names env (rp_headers parts) = Some names \<and> sr_selector e = selector_of (ce_header_value env) h names \<and>
        sr_body e = body \<and> sr_status e = rp_status parts \<and> rp_status parts \<in> set CACHEABLE_STATUSES)"

text \<open>What storing accepts.\<close>

lemma storing_iff:
  "cache_storing env limit mth u h parts t1 t2 = Inr st \<longleftrightarrow>
     mth = ''GET'' \<and> \<not> bypasses h \<and> \<not> rq_no_store (request_directives_of env h) \<and> rp_status parts \<in> set CACHEABLE_STATUSES \<and>
     \<not> rs_no_store (response_directives_of env (rp_headers parts)) \<and>
     (rs_max_age (response_directives_of env (rp_headers parts)) \<noteq> None \<or> hm_contains ''expires'' (rp_headers parts) \<or>
        conditions_from (rp_headers parts) \<noteq> []) \<and>
     pred_option (\<lambda>n. n \<le> limit) (field_u64 env ''content-length'' (rp_headers parts)) \<and>
     (\<exists>names key. vary_names env (rp_headers parts) = Some names \<and> cache_key_new (ce_path_and_query env) mth u = Some key \<and>
       st = \<lparr>st_key = key, st_status = rp_status parts, st_version = rp_version parts, st_headers = rp_headers parts,
              st_selector = selector_of (ce_header_value env) h names, st_requested_at = t1, st_received_at = t2,
              st_declared_len = field_u64 env ''content-length'' (rp_headers parts), st_max_body_bytes = limit\<rparr>)"
  by (auto simp: cache_storing_def Let_def usable_method_def pred_option_def not_less split: option.splits if_splits)

lemma commit_Inr:
  "cache_commit C s st body = (Inr (), s') \<Longrightarrow> s' = cs_put C s (st_key st) (storing_entry st body)"
  by (auto simp: cache_commit_def Let_def split: if_splits)

lemma freshened_origin:
  "cache_revalidated env C s key stale parts t1 t2 = (served, s') \<Longrightarrow>
   \<exists>fresh. s' = cs_put C s key fresh \<and> sr_selector fresh = sr_selector stale \<and> sr_body fresh = sr_body stale \<and> sr_status fresh = sr_status stale \<and>
     served = with_age env fresh (current_age env fresh t2)"
  by (auto simp: cache_revalidated_def Let_def freshen_def)

lemma comes_from_more: "comes_from env L k e \<Longrightarrow> comes_from env (x # L) k e"
  unfolding comes_from_def by fastforce

lemma comes_from_same:
  "comes_from env L k e \<Longrightarrow> sr_selector e' = sr_selector e \<Longrightarrow> sr_body e' = sr_body e \<Longrightarrow> sr_status e' = sr_status e \<Longrightarrow> comes_from env L k e'"
  by (simp add: comes_from_def)

lemma lookup_revalidate:
  assumes "cache_lookup env C s mth u h now = Revalidate key stale conditions"
  shows "mth = ''GET'' \<and> cache_key_new (ce_path_and_query env) mth u = Some key \<and> stale \<in> set (cs_get C s key) \<and> selector_matches env stale h \<and>
    conditions = conditions_for stale \<and> conditions \<noteq> []"
proof -
  have "\<not> (mth \<noteq> ''GET'' \<or> bypasses h \<or> rq_no_store (request_directives_of env h) \<or> selected env C s mth u h = None)"
  proof
    assume "mth \<noteq> ''GET'' \<or> bypasses h \<or> rq_no_store (request_directives_of env h) \<or> selected env C s mth u h = None"
    from lookup_unselected [OF this, of now] assms show False by (simp split: if_splits)
  qed
  then obtain e where g: "mth = ''GET''" "\<not> bypasses h" "\<not> rq_no_store (request_directives_of env h)" and e: "selected env C s mth u h = Some e" by blast
  note l = lookup_selected [OF g e, of now]
  have "cache_lookup env C s mth u h now = Revalidate (the (cache_key_new (ce_path_and_query env) mth u)) e (conditions_for e) \<and> conditions_for e \<noteq> []"
    using l(1) l(2) assms by (metis lookup_result.distinct(7) lookup_result.distinct(9) lookup_result.distinct(11) lookup_result.distinct(3))
  then have eq: "key = the (cache_key_new (ce_path_and_query env) mth u)" "stale = e" "conditions = conditions_for e" "conditions_for e \<noteq> []" using assms by simp_all
  then show ?thesis using selected_matches [OF e] g(1) by (metis option.sel)
qed

context cache_contract
begin

text \<open>Every response that a run holds, or has handed out for revalidation, comes from an exchange of the run.\<close>

definition traced :: "cache_env \<Rightarrow> exchange list \<Rightarrow> (cache_key \<times> stored_response) list \<Rightarrow> 's \<Rightarrow> bool" where
  "traced env L P s \<longleftrightarrow> ok s \<and> (\<forall>k e. kok k \<and> (e \<in> set (cs_get C s k) \<or> (k, e) \<in> set P) \<longrightarrow> comes_from env L k e) \<and>
     (\<forall>(k, e) \<in> set P. kok k)"

text \<open>The store is made for the keys of requests, and for the responses that come from exchanges.\<close>

definition made_for :: "cache_env \<Rightarrow> http_uri set \<Rightarrow> bool" where
  "made_for env Us \<longleftrightarrow> (\<forall>m u k. m \<in> {''GET'', ''HEAD''} \<and> u \<in> Us \<and> cache_key_new (ce_path_and_query env) m u = Some k \<longrightarrow> kok k) \<and>
     (\<forall>L k e. comes_from env L k e \<longrightarrow> eok e)"

lemma traced_put:
  assumes t: "traced env L P s" and e: "comes_from env L' k e" and mono: "\<And>k e. comes_from env L k e \<Longrightarrow> comes_from env L' k e"
    and k: "kok k" "made_for env Us"
  shows "traced env L' P (cs_put C s k e)"
proof -
  have "eok e" using k(2) e unfolding made_for_def by blast
  then have "ok (cs_put C s k e)" using keeps(1) t k(1) unfolding traced_def by blast
  moreover have "comes_from env L' k' x" if "kok k'" "x \<in> set (cs_get C (cs_put C s k e) k')" for k' x
  proof -
    have "k' = k \<and> same_answer x e \<or> x \<in> set (cs_get C s k')"
      using get_put [OF _ k(1) that(1) \<open>eok e\<close> that(2)] t unfolding traced_def by blast
    then show ?thesis using t mono that(1) e comes_from_same unfolding traced_def same_answer_def by metis
  qed
  ultimately show ?thesis using t mono unfolding traced_def by blast
qed

lemma invalidated_less:
  "ok s \<Longrightarrow> made_for env Us \<Longrightarrow> u \<in> Us \<Longrightarrow> ok (cache_invalidated_by env C s mth u status) \<and>
   (\<forall>k. kok k \<longrightarrow> set (cs_get C (cache_invalidated_by env C s mth u status) k) \<subseteq> set (cs_get C s k))"
proof -
  assume s: "ok s" and m: "made_for env Us" and u: "u \<in> Us"
  define f where "f s' m = (case cache_key_new (ce_path_and_query env) m u of None \<Rightarrow> s' | Some k \<Rightarrow> cs_invalidate C s' k)" for s' m
  have one: "ok (f s' m) \<and> (\<forall>k. kok k \<longrightarrow> set (cs_get C (f s' m) k) \<subseteq> set (cs_get C s' k))"
    if "ok s'" "m \<in> {''GET'', ''HEAD''}" for s' m
  proof (cases "cache_key_new (ce_path_and_query env) m u")
    case (Some k)
    then have "kok k" using m u that(2) unfolding made_for_def by blast
    then show ?thesis using keeps(3) [OF that(1)] get_invalidate [OF that(1)] Some by (auto simp: f_def)
  qed (simp add: f_def that(1))
  have two: "ok (f (f s ''GET'') ''HEAD'')" "kok k \<Longrightarrow> set (cs_get C (f (f s ''GET'') ''HEAD'') k) \<subseteq> set (cs_get C s k)" for k
    using one [OF s, of "''GET''"] one [of "f s ''GET''" "''HEAD''"] by blast+
  have "cache_invalidated_by env C s mth u status = s \<or> cache_invalidated_by env C s mth u status = f (f s ''GET'') ''HEAD''"
    by (simp add: cache_invalidated_by_def f_def)
  then show ?thesis using s two by (elim disjE) simp_all
qed

lemma run_traced:
  assumes s0: "ok s0" "\<And>k. kok k \<Longrightarrow> cs_get C s0 k = []" and m: "made_for env Us"
  shows "cache_run env limit C Us s0 L P s \<Longrightarrow> traced env L P s"
proof (induction rule: cache_run.induct)
  case Start
  have "e \<notin> set (cs_get C s0 k)" if "kok k" for k e using s0(2) [OF that] by simp
  then show ?case using s0(1) by (auto simp: traced_def)
next
  case (Ask L P s u mth h now key stale conditions)
  have "stale \<in> set (cs_get C s key)" "mth = ''GET''" "cache_key_new (ce_path_and_query env) mth u = Some key"
    using lookup_revalidate [OF Ask.hyps(3)] by blast+
  then have "stale \<in> set (cs_get C s key)" "kok key" using m Ask.hyps(2) unfolding made_for_def by blast+
  then show ?case using Ask.IH unfolding traced_def by auto
next
  case (Commit L P s u mth h parts t1 t2 st body s')
  have c: "comes_from env ((u, h, parts, body) # L) (st_key st) (storing_entry st body)"
    using Commit.hyps(3) unfolding storing_iff comes_from_def by (fastforce simp: storing_entry_def)
  have "kok (st_key st)" using Commit.hyps(2,3) m unfolding storing_iff made_for_def by fastforce
  from traced_put [OF Commit.IH c comes_from_more this m] show ?case using commit_Inr [OF Commit.hyps(4)] by simp
next
  case (NotModified L P s key stale parts t1 t2 served s')
  have "kok key" "comes_from env L key stale" using NotModified.IH NotModified.hyps(2) unfolding traced_def by blast+
  moreover obtain fresh where f: "s' = cs_put C s key fresh" "sr_selector fresh = sr_selector stale" "sr_body fresh = sr_body stale" "sr_status fresh = sr_status stale"
    using freshened_origin [OF NotModified.hyps(3)] by blast
  ultimately have "comes_from env L key fresh" by (intro comes_from_same [OF _ f(2-4)])
  then show ?case unfolding f(1) using traced_put [OF NotModified.IH _ _ \<open>kok key\<close> m] by blast
next
  case (Supersede L P s key stale)
  then have "kok key" "ok s" unfolding traced_def by blast+
  then have "ok (cache_superseded C s key stale)" "kok k \<Longrightarrow> set (cs_get C (cache_superseded C s key stale) k) \<subseteq> set (cs_get C s k)" for k
    using keeps(2) get_remove unfolding cache_superseded_def by blast+
  then show ?case using Supersede.IH unfolding traced_def by blast
next
  case (Invalidate L P s u mth status)
  then have "ok (cache_invalidated_by env C s mth u status)" "kok k \<Longrightarrow> set (cs_get C (cache_invalidated_by env C s mth u status) k) \<subseteq> set (cs_get C s k)" for k
    using invalidated_less [OF _ m Invalidate.hyps(2)] unfolding traced_def by blast+
  then show ?case using Invalidate.IH unfolding traced_def by blast
next
  case (Clear L P s)
  then show ?case using keeps(4) get_clear unfolding traced_def by blast
qed

lemma hit_provenance:
  assumes s0: "ok s0" "\<And>k. kok k \<Longrightarrow> cs_get C s0 k = []" and m: "made_for env Us" and run: "cache_run env limit C Us s0 L P s"
    and u: "u \<in> Us" and hit: "cache_lookup env C s mth u h now = Hit r"
  shows "\<exists>u0 h0 parts body names. (u0, h0, parts, body) \<in> set L \<and>
    cache_key_new (ce_path_and_query env) ''GET'' u0 = cache_key_new (ce_path_and_query env) ''GET'' u \<and>
    sr_body r = body \<and> sr_status r = rp_status parts \<and> vary_names env (rp_headers parts) = Some names \<and>
    list_all (\<lambda>n. combined (ce_header_value env) h n = combined (ce_header_value env) h0 n) (''authorization'' # names)"
proof -
  obtain e where meth: "mth = ''GET''" and e: "selected env C s mth u h = Some e" and r: "r = with_age env e (current_age env e now)"
    using hit unfolding lookup_hit_iff by blast
  obtain key where k: "cache_key_new (ce_path_and_query env) mth u = Some key" "e \<in> set (cs_get C s key)" "selector_matches env e h"
    using selected_matches [OF e] by blast
  have "kok key" using m u k(1) meth unfolding made_for_def by blast
  then have "comes_from env L key e" using run_traced [OF s0 m run] k(2) unfolding traced_def by blast
  then obtain u0 h0 parts body names where o: "(u0, h0, parts, body) \<in> set L" "cache_key_new (ce_path_and_query env) ''GET'' u0 = Some key"
    "vary_names env (rp_headers parts) = Some names" "sr_selector e = selector_of (ce_header_value env) h0 names"
    "sr_body e = body" "sr_status e = rp_status parts" unfolding comes_from_def by blast
  have "list_all (\<lambda>n. combined (ce_header_value env) h n = combined (ce_header_value env) h0 n) (''authorization'' # names)"
    using k(3) unfolding selector_matches_def o(4) selector_match_agree by (simp add: list_all_iff)
  moreover have "sr_body r = body" "sr_status r = rp_status parts" using o(5,6) r by (simp_all add: with_age_def Let_def)
  moreover have "cache_key_new (ce_path_and_query env) ''GET'' u0 = cache_key_new (ce_path_and_query env) ''GET'' u"
    using o(2) k(1) meth by simp
  ultimately show ?thesis using o(1,3) by (intro exI conjI)
qed

end

text \<open>
  Property C3. Whatever a run of the cache did, a hit answers with the status and the body of a response that was stored
  for the same method and the same normalised target, to a request that had the same value, or the same absence, of
  \<open>Authorization\<close> and of every field that the stored response's \<open>Vary\<close> names: never with one principal's response to another.
\<close>

theorem cache_hit_provenance:
  assumes "cache_run env limit (memory_cache cap) UNIV cm_default L P s"
    and "cache_lookup env (memory_cache cap) s mth u h now = Hit r"
  shows "\<exists>u0 h0 parts body names. (u0, h0, parts, body) \<in> set L \<and>
    cache_key_new (ce_path_and_query env) ''GET'' u0 = cache_key_new (ce_path_and_query env) ''GET'' u \<and>
    sr_body r = body \<and> sr_status r = rp_status parts \<and> vary_names env (rp_headers parts) = Some names \<and>
    list_all (\<lambda>n. combined (ce_header_value env) h n = combined (ce_header_value env) h0 n) (''authorization'' # names)"
proof -
  have "cm_wf cm_default" "\<And>k. cs_get (memory_cache cap) cm_default k = []"
    by (simp_all add: cm_keeps(4)) (simp add: memory_cache_def cm_get_def cm_default_def)
  from mem.hit_provenance [OF this _ assms(1) UNIV_I assms(2)] show ?thesis by (simp add: mem.made_for_def)
qed

section \<open>A worked exchange\<close>

definition demo_cache_env :: cache_env where
  "demo_cache_env = \<lparr>ce_lexer = ref_lexer, ce_grammar = ref_grammar, ce_calendar = (\<lambda>_ _ _ _ _ _. None),
     ce_to_str = (\<lambda>v. if list_all is_ascii v then Some v else None), ce_header_value = (\<lambda>_. True), ce_header_str = (\<lambda>_. True),
     ce_header_name = (\<lambda>n. if n \<noteq> [] \<and> list_all is_tchar n then Some (to_ascii_lowercase n) else None),
     ce_path_and_query = (\<lambda>u. Some (path u))\<rparr>"

definition demo_target :: http_uri where
  "demo_target = \<lparr>scheme_str = Some ''https'', authority = Some ''e.test'', host = Some ''e.test'', port_u16 = None, path = ''/x'', query = None\<rparr>"

definition demo_request :: header_map where
  "demo_request = [(''authorization'', ''t''), (''accept'', ''a'')]"

definition demo_parts :: response_parts where
  "demo_parts = \<lparr>rp_status = 200, rp_version = 11,
     rp_headers = [(''cache-control'', ''max-age=60''), (''vary'', ''Accept''), (''etag'', ''v1'')]\<rparr>"

definition demo_storing :: storing where
  "demo_storing = \<lparr>st_key = demo_key ''x'', st_status = 200, st_version = 11, st_headers = rp_headers demo_parts,
     st_selector = [(''accept'', Some ''a''), (''authorization'', Some ''t'')], st_requested_at = 0, st_received_at = 0,
     st_declared_len = None, st_max_body_bytes = 100\<rparr>"

lemma demo_request_directives: "request_directives_of demo_cache_env demo_request = request_default"
  by (simp add: request_directives_of_def demo_request_def hm_get_all_def request_parse_def for_each_directive_def)

lemma demo_response_directives: "response_directives_of demo_cache_env (rp_headers demo_parts) = response_default\<lparr>rs_max_age := Some (from_secs 60)\<rparr>"
proof -
  have "for_each_directive ref_lexer ref_grammar [''max-age=60''] = [(''max-age'', Some ''60'')]" by code_simp
  then show ?thesis
    by (simp add: response_directives_of_def demo_cache_env_def demo_parts_def hm_get_all_def response_parse_def response_step_def
        seconds_def seconds_of_eq dec_val_def is_ascii_digit_def byte_val_def u64_max_def)
qed

lemma demo_key_new: "cache_key_new (ce_path_and_query demo_cache_env) ''GET'' demo_target = Some (demo_key ''x'')"
  by code_simp

lemma demo_stored: "cache_storing demo_cache_env 100 ''GET'' demo_target demo_request demo_parts 0 0 = Inr demo_storing"
proof -
  have "vary_names demo_cache_env (rp_headers demo_parts) = Some [''accept'']" by code_simp
  moreover have "selector_of (ce_header_value demo_cache_env) demo_request [''accept''] = [(''accept'', Some ''a''), (''authorization'', Some ''t'')]" by code_simp
  moreover have "field_u64 demo_cache_env ''content-length'' (rp_headers demo_parts) = None"
    by (simp add: field_u64_def hm_get_def demo_parts_def)
  ultimately show ?thesis
    unfolding storing_iff demo_key_new demo_request_directives demo_response_directives
    by (simp add: demo_storing_def request_default_def response_default_def bypasses_def hm_contains_def demo_request_def CACHEABLE_STATUSES_def)
      (simp_all add: demo_parts_def)
qed

definition demo_filled :: cache_held where
  "demo_filled = cm_put 8 cm_default (demo_key ''x'') (storing_entry demo_storing ''hello'')"

lemma demo_committed: "cache_commit (memory_cache 8) cm_default demo_storing ''hello'' = (Inr (), demo_filled)"
  by (simp add: cache_commit_def demo_storing_def demo_filled_def memory_cache_def)

lemma demo_run: "cache_run demo_cache_env 100 (memory_cache 8) UNIV cm_default [(demo_target, demo_request, demo_parts, ''hello'')] [] demo_filled"
  using cache_run.Commit [OF cache_run.Start UNIV_I demo_stored demo_committed] .

lemma demo_selected: "selected demo_cache_env (memory_cache 8) demo_filled ''GET'' demo_target demo_request = Some (storing_entry demo_storing ''hello'')"
proof -
  have "selector_matches demo_cache_env (storing_entry demo_storing ''hello'') demo_request" by code_simp
  moreover have "cm_variants demo_filled (demo_key ''x'') (sr_selector (storing_entry demo_storing ''hello'')) = Some (storing_entry demo_storing ''hello'')"
    unfolding demo_filled_def by (simp add: variants_put_new cm_keeps)
  moreover have "cm_get demo_filled (demo_key ''x'') = [storing_entry demo_storing ''hello'']"
    by (simp add: demo_filled_def cm_put_def cm_default_def cm_remove_def evict_room push_entry_def cm_get_def)
  ultimately show ?thesis by (simp add: selected_def demo_key_new memory_cache_def)
qed

lemma demo_times: "sr_received_at (storing_entry demo_storing b) = 0" "sr_requested_at (storing_entry demo_storing b) = 0"
  by (simp_all add: storing_entry_def demo_storing_def)

lemma demo_no_age:
  "date_or_received demo_cache_env (storing_entry demo_storing b) = 0" "field_u64 demo_cache_env ''age'' (sr_headers (storing_entry demo_storing b)) = None"
  by (simp_all add: date_or_received_def date_of_def field_u64_def demo_times)
    (simp_all add: storing_entry_def demo_storing_def demo_parts_def hm_get_def)

lemma demo_hit_when_selected:
  assumes "selected demo_cache_env C s ''GET'' demo_target demo_request = Some (storing_entry demo_storing ''hello'')"
  shows "cache_lookup demo_cache_env C s ''GET'' demo_target demo_request 30000000000 =
     Hit (with_age demo_cache_env (storing_entry demo_storing ''hello'') 30000000000)"
proof -
  let ?e = "storing_entry demo_storing ''hello''"
  have h: "sr_headers ?e = rp_headers demo_parts" by (simp add: storing_entry_def demo_storing_def)
  have "current_age demo_cache_env ?e 30000000000 = min 30000000000 duration_max"
    by (simp add: current_age_def demo_times demo_no_age since_or_zero_def duration_saturating_add_def)
  then have "current_age demo_cache_env ?e 30000000000 = 30000000000"
    by (simp add: duration_max_def u64_max_def nanos_per_sec_def)
  moreover have "freshness_lifetime demo_cache_env ?e (response_directives_of demo_cache_env (sr_headers ?e)) = Some 60000000000"
    by (simp add: h demo_response_directives freshness_lifetime_def from_secs_def nanos_per_sec_def)
  moreover have "\<not> bypasses demo_request" by code_simp
  ultimately show ?thesis
    using lookup_selected(1) [of "''GET''" demo_request demo_cache_env C s demo_target ?e 30000000000] assms
    by (simp add: demo_request_directives reusable_def h demo_response_directives request_default_def response_default_def)
qed

lemmas demo_hit = demo_hit_when_selected [OF demo_selected]

theorem cache_hit_allowed_witness:
  "\<exists>e lifetime. e \<in> set (cs_get (memory_cache 8) demo_filled (demo_key ''x'')) \<and> selector_matches demo_cache_env e demo_request \<and>
     freshness_lifetime demo_cache_env e (response_directives_of demo_cache_env (sr_headers e)) = Some lifetime \<and>
     current_age demo_cache_env e 30000000000 < lifetime"
proof -
  have "rq_max_stale (request_directives_of demo_cache_env demo_request) = None" by (simp add: demo_request_directives request_default_def)
  then show ?thesis using cache_hit_allowed [OF demo_hit] demo_key_new by (auto simp: reusable_def)
qed

theorem cache_hit_provenance_witness:
  "\<exists>r. cache_lookup demo_cache_env (memory_cache 8) demo_filled ''GET'' demo_target demo_request 30000000000 = Hit r \<and> sr_body r = ''hello'' \<and>
     sr_status r = 200"
  using cache_hit_provenance [OF demo_run demo_hit] demo_hit by (auto simp: demo_parts_def)

section \<open>What is refused\<close>

text \<open>The rules of storing, in the order in which they are asked, each with what its violation is reported as.\<close>

definition refusals :: "cache_env \<Rightarrow> nat \<Rightarrow> bytes \<Rightarrow> http_uri \<Rightarrow> header_map \<Rightarrow> response_parts \<Rightarrow> (bool \<times> not_stored) list" where
  "refusals env limit mth u h parts =
     (let resp = response_directives_of env (rp_headers parts); len = field_u64 env ''content-length'' (rp_headers parts) in
      [(mth \<noteq> ''GET'', BadMethod mth),
       (hm_contains ''if-none-match'' h \<or> hm_contains ''if-modified-since'' h \<or> hm_contains ''range'' h, RequestStoodAside),
       (rq_no_store (request_directives_of env h), RequestNoStore),
       (rp_status parts \<notin> {200, 203, 204, 300, 301, 302, 307, 308, 404, 405, 410, 414, 501}, BadStatus (rp_status parts)),
       (rs_no_store resp, ResponseNoStore),
       (vary_names env (rp_headers parts) = None, VaryAsterisk),
       (rs_max_age resp = None \<and> \<not> hm_contains ''expires'' (rp_headers parts) \<and> \<not> hm_contains ''etag'' (rp_headers parts) \<and>
          \<not> hm_contains ''last-modified'' (rp_headers parts), NothingToReuseItWith),
       (\<not> pred_option (\<lambda>n. n \<le> limit) len, TooLarge (the len) limit),
       (cache_key_new (ce_path_and_query env) mth u = None, NoKey)])"

lemma hm_get_contains: "hm_get n h = None \<longleftrightarrow> \<not> hm_contains n h"
  by (simp add: hm_get_def hm_contains_def map_of_eq_None_iff)

lemma conditions_empty: "conditions_from h = [] \<longleftrightarrow> \<not> hm_contains ''etag'' h \<and> \<not> hm_contains ''last-modified'' h"
  by (auto simp: conditions_from_def hm_get_contains [symmetric] split: option.splits)

text \<open>
  Property C31. A response is refused with the first rule that it violates, and is accepted when it violates none: with
  the key of its request, its own head, the selector of its request, and the length that its head declares.
\<close>

theorem storing_first_refusal:
  "cache_storing env limit mth u h parts t1 t2 =
     (case find fst (refusals env limit mth u h parts) of
        Some (_, why) \<Rightarrow> Inl why
      | None \<Rightarrow> Inr \<lparr>st_key = the (cache_key_new (ce_path_and_query env) mth u), st_status = rp_status parts,
          st_version = rp_version parts, st_headers = rp_headers parts,
          st_selector = selector_of (ce_header_value env) h (the (vary_names env (rp_headers parts))),
          st_requested_at = t1, st_received_at = t2,
          st_declared_len = field_u64 env ''content-length'' (rp_headers parts), st_max_body_bytes = limit\<rparr>)"
proof -
  define S :: "nat set" where "S = {200, 203, 204, 300, 301, 302, 307, 308, 404, 405, 410, 414, 501}"
  have s: "rp_status parts \<in> set CACHEABLE_STATUSES \<longleftrightarrow> rp_status parts \<in> S"
    by (simp add: CACHEABLE_STATUSES_def S_def)
  have l: "(case x of None \<Rightarrow> False | Some n \<Rightarrow> n > limit) \<longleftrightarrow> \<not> pred_option (\<lambda>n. n \<le> limit) x" for x
    by (cases x) auto
  show ?thesis
    unfolding cache_storing_def refusals_def Let_def usable_method_def bypasses_def s l conditions_empty S_def [symmetric]
    by (cases "mth = ''GET''"; cases "vary_names env (rp_headers parts)"; cases "cache_key_new (ce_path_and_query env) mth u") simp_all
qed

section \<open>Age\<close>

text \<open>
  Property C32. The age of a response is never understated. While the clock does not run backwards it is the larger of the time
  since the response's \<open>Date\<close> and its \<open>Age\<close> plus the time since the request was sent, up to the largest
  duration; in particular it grows by what passes.
\<close>

theorem current_age_exact:
  assumes "sr_requested_at e \<le> sr_received_at e" "sr_received_at e \<le> now"
  shows "int (current_age env e now) =
    min (int duration_max)
      (max (now - date_or_received env e)
        (int (case field_u64 env ''age'' (sr_headers e) of None \<Rightarrow> 0 | Some n \<Rightarrow> from_secs n) + (now - sr_requested_at e)))"
proof -
  define a where "a = (case field_u64 env ''age'' (sr_headers e) of None \<Rightarrow> 0 | Some n \<Rightarrow> from_secs n)"
  define d where "d = date_or_received env e"
  have eq: "current_age env e now = min (max (since_or_zero (sr_received_at e) d) (min (a + since_or_zero (sr_received_at e) (sr_requested_at e)) duration_max) + since_or_zero now (sr_received_at e)) duration_max"
    by (simp add: current_age_def Let_def a_def d_def duration_saturating_add_def)
  have s: "int (since_or_zero x y) = max 0 (x - y)" for x y by (simp add: since_or_zero_def)
  show ?thesis unfolding eq a_def [symmetric] d_def [symmetric] using assms
    by (simp only: of_nat_min of_nat_max of_nat_add s) (auto simp: min_def max_def)
qed

theorem current_age_exact_witness:
  "int (current_age demo_cache_env (storing_entry demo_storing ''hello'') 90) = min (int duration_max) 90"
  using current_age_exact [of "storing_entry demo_storing ''hello''" 90 demo_cache_env] by (simp add: demo_times demo_no_age)

section \<open>Storing, then asking\<close>

lemma selector_of_storing:
  "cache_storing env limit mth u h parts t1 t2 = Inr st \<Longrightarrow> selector_matches env (storing_entry st body) h"
  unfolding storing_iff by (auto simp: selector_matches_def storing_entry_def selector_of_again)

lemma with_age_same [simp]: "sr_body (with_age env e a) = sr_body e" "sr_status (with_age env e a) = sr_status e"
    "sr_version (with_age env e a) = sr_version e" "sr_selector (with_age env e a) = sr_selector e"
    "sr_received_at (with_age env e a) = sr_received_at e" "sr_requested_at (with_age env e a) = sr_requested_at e"
  by (simp_all add: with_age_def Let_def)

lemma with_age_headers:
  "hm_get_all n (sr_headers (with_age env e a)) =
     (if n = ''age'' then [if ce_header_str env (dec_bytes (a div nanos_per_sec)) then dec_bytes (a div nanos_per_sec) else ''0'']
      else hm_get_all n (sr_headers e))"
  by (simp add: with_age_def Let_def)

lemma cm_default_get [simp]: "cm_get cm_default k = []"
  by (simp add: cm_get_def cm_default_def)

text \<open>
  Property C7. What was stored is found again: over the in-memory store, when a response is accepted, its body has an
  admissible length and nothing of the same key was received later, the same request is answered with it for as long as
  its age and its lifetime allow, with the same status, version and body and the same fields but for \<open>Age\<close>.
\<close>

theorem cache_store_then_hit:
  assumes st: "cache_storing env limit mth u h parts t1 t2 = Inr st"
    and body: "length body \<le> limit" "pred_option (\<lambda>n. n = length body) (field_u64 env ''content-length'' (rp_headers parts))"
    and s: "cm_wf s" "0 < cap" "list_all (\<lambda>e. sr_received_at e \<le> t2) (cm_get s (st_key st))"
    and life: "freshness_lifetime env (storing_entry st body) (response_directives_of env (rp_headers parts)) = Some lifetime"
      "reusable (request_directives_of env h) (response_directives_of env (rp_headers parts)) (current_age env (storing_entry st body) now) lifetime"
  shows "\<exists>s' r. cache_commit (memory_cache cap) s st body = (Inr (), s') \<and>
    cache_lookup env (memory_cache cap) s' mth u h now = Hit r \<and>
    sr_body r = body \<and> sr_status r = rp_status parts \<and> sr_version r = rp_version parts \<and>
    (\<forall>n. n \<noteq> ''age'' \<longrightarrow> hm_get_all n (sr_headers r) = hm_get_all n (rp_headers parts))"
proof -
  let ?e = "storing_entry st body"
  let ?s = "cm_put cap s (st_key st) ?e"
  let ?old = "cm_get (evict_until_room cap (cm_remove s (st_key st) (sr_selector ?e))) (st_key st)"
  have f: "mth = ''GET''" "\<not> bypasses h" "\<not> rq_no_store (request_directives_of env h)"
    "cache_key_new (ce_path_and_query env) mth u = Some (st_key st)" "st_received_at st = t2"
    "st_declared_len st = field_u64 env ''content-length'' (rp_headers parts)" "st_max_body_bytes st = limit"
    "st_headers st = rp_headers parts" "st_status st = rp_status parts" "st_version st = rp_version parts"
    using st unfolding storing_iff by auto
  have c: "cache_commit (memory_cache cap) s st body = (Inr (), ?s)"
    using body by (cases "field_u64 env ''content-length'' (rp_headers parts)") (simp_all add: cache_commit_def f memory_cache_def)
  have g: "cs_get (memory_cache cap) ?s (st_key st) = ?old @ [?e]"
    using cm_put_get [OF s(1,2), of "st_key st" ?e] by (simp add: memory_cache_def)
  have "sr_received_at x \<le> sr_received_at ?e" if "x \<in> set ?old" for x
  proof -
    have "x \<in> set (cm_get (cm_remove s (st_key st) (sr_selector ?e)) (st_key st))"
      using that cm_evict_spec [OF cm_keeps(1) [OF s(1)]] by blast
    then show ?thesis using s(3) by (simp add: cm_get_remove [OF s(1)] list_all_iff storing_entry_def f)
  qed
  then have "max_by_key sr_received_at (filter (\<lambda>e. selector_matches env e h) (?old @ [?e])) = Some ?e"
    using selector_of_storing [OF st, of body] max_by_key_last [of "filter (\<lambda>e. selector_matches env e h) ?old" sr_received_at ?e] by simp
  then have "selected env (memory_cache cap) ?s mth u h = Some ?e" unfolding selected_def f(4) Option.bind.bind_lunit g .
  note sel = lookup_selected(1) [OF f(1-3) this]
  have "sr_headers ?e = rp_headers parts" by (simp add: storing_entry_def f)
  then have "cache_lookup env (memory_cache cap) ?s mth u h now = Hit (with_age env ?e (current_age env ?e now))"
    using life by (intro sel) simp
  then show ?thesis using c by (auto simp: with_age_headers) (auto simp: storing_entry_def f)
qed

theorem cache_store_then_hit_witness:
  "\<exists>s' r. cache_commit (memory_cache 8) cm_default demo_storing ''hello'' = (Inr (), s') \<and>
    cache_lookup demo_cache_env (memory_cache 8) s' ''GET'' demo_target demo_request 30 = Hit r \<and> sr_body r = ''hello''"
proof -
  have r: "field_u64 demo_cache_env ''content-length'' (rp_headers demo_parts) = None" by (simp add: field_u64_def hm_get_def demo_parts_def)
  have "current_age demo_cache_env (storing_entry demo_storing ''hello'') 30 = min 30 duration_max"
    by (simp add: current_age_def demo_times demo_no_age since_or_zero_def duration_saturating_add_def)
  then have "reusable (request_directives_of demo_cache_env demo_request) (response_directives_of demo_cache_env (rp_headers demo_parts))
      (current_age demo_cache_env (storing_entry demo_storing ''hello'') 30) 60000000000"
    by (simp add: reusable_def demo_request_directives demo_response_directives request_default_def response_default_def)
  moreover have "freshness_lifetime demo_cache_env (storing_entry demo_storing ''hello'') (response_directives_of demo_cache_env (rp_headers demo_parts)) = Some 60000000000"
    by (simp add: demo_response_directives freshness_lifetime_def from_secs_def nanos_per_sec_def)
  ultimately show ?thesis
    using cache_store_then_hit [OF demo_stored, of "''hello''" cm_default 8 60000000000 30]
    by (auto simp: r cm_keeps cm_default_get)
qed

section \<open>Revalidation\<close>

lemma update_field_get: "hm_get_all n (update_field from h m) = (if n = m then hm_get_all n from else hm_get_all n h)"
proof -
  have "hm_get_all n (foldl (\<lambda>h v. hm_append m v h) h vs) = hm_get_all n h @ (if n = m then vs else [])" for vs h
    by (induction vs arbitrary: h) simp_all
  then show ?thesis by (simp add: update_field_def)
qed

lemma updated_headers_get:
  "hm_get_all n (updated_headers env h from) =
     (if hm_contains n from \<and> n \<notin> set NOT_UPDATED_BY_304 \<and> n \<notin> set (connection_nominated env from)
      then hm_get_all n from else hm_get_all n h)"
proof -
  define skip where "skip m \<longleftrightarrow> m \<in> set NOT_UPDATED_BY_304 \<or> m \<in> set (connection_nominated env from)" for m
  have "hm_get_all n (foldl (\<lambda>h m. if skip m then h else update_field from h m) h ks) =
      (if n \<in> set ks \<and> \<not> skip n then hm_get_all n from else hm_get_all n h)" for ks h
    by (induction ks arbitrary: h) (auto simp: update_field_get)
  from this [of h "hm_keys from"] show ?thesis by (auto simp: updated_headers_def Let_def skip_def hm_keys_contains)
qed

text \<open>
  Property C34. A \<open>304\<close> refreshes the stored response and serves it: the status, the version, the selector and the body stay, every
  field that the \<open>304\<close> has replaces the stored values of that name, except the fields that describe the stored body or the connection
  and those that the \<open>304\<close>'s own \<open>Connection\<close> nominates, and the times become those of the revalidation. What is
  served is what was put in the store, with its \<open>Age\<close>.
\<close>

theorem revalidated_exact:
  "\<exists>fresh. cache_revalidated env C s key stale parts t1 t2 = (with_age env fresh (current_age env fresh t2), cs_put C s key fresh) \<and>
     sr_status fresh = sr_status stale \<and> sr_version fresh = sr_version stale \<and> sr_body fresh = sr_body stale \<and>
     sr_selector fresh = sr_selector stale \<and> sr_requested_at fresh = t1 \<and> sr_received_at fresh = t2 \<and>
     (\<forall>n. hm_get_all n (sr_headers fresh) =
        (if hm_contains n (rp_headers parts) \<and> n \<notin> set NOT_UPDATED_BY_304 \<and> n \<notin> set (connection_nominated env (rp_headers parts))
         then hm_get_all n (rp_headers parts) else hm_get_all n (sr_headers stale)))"
  by (rule exI [of _ "freshen (stale\<lparr>sr_headers := updated_headers env (sr_headers stale) (rp_headers parts)\<rparr>) t1 t2"])
    (simp add: cache_revalidated_def Let_def freshen_def updated_headers_get)

section \<open>Invalidation\<close>

text \<open>
  Property C36. After an unsafe method with an answer that is not an error, no stored response of that target is left,
  and those of every other target are; a safe method, or an error, changes nothing.
\<close>

theorem invalidation_exact:
  assumes "cm_wf s"
  shows "cm_wf (cache_invalidated_by env (memory_cache cap) s mth u status) \<and>
    cm_variants (cache_invalidated_by env (memory_cache cap) s mth u status) key =
      (if \<not> is_safe mth \<and> \<not> (400 \<le> status \<and> status < 600) \<and>
         (Some key = cache_key_new (ce_path_and_query env) ''GET'' u \<or> Some key = cache_key_new (ce_path_and_query env) ''HEAD'' u)
       then (\<lambda>_. None) else cm_variants s key)"
  using assms
  by (cases "cache_key_new (ce_path_and_query env) ''GET'' u"; cases "cache_key_new (ce_path_and_query env) ''HEAD'' u")
    (auto simp: cache_invalidated_by_def memory_cache_def variants_invalidate cm_keeps)

theorem invalidation_exact_witness:
  "cm_variants (cache_invalidated_by demo_cache_env (memory_cache 8) demo_filled ''POST'' demo_target 201) (demo_key ''x'') = (\<lambda>_. None) \<and>
   cm_variants (cache_invalidated_by demo_cache_env (memory_cache 8) demo_filled ''POST'' demo_target 500) (demo_key ''x'') \<noteq> (\<lambda>_. None)"
proof -
  have wf: "cm_wf demo_filled" unfolding demo_filled_def by (intro cm_keeps)
  have "cm_variants demo_filled (demo_key ''x'') (sr_selector (storing_entry demo_storing ''hello'')) \<noteq> None"
    unfolding demo_filled_def by (simp add: variants_put_new cm_keeps)
  then show ?thesis
    using invalidation_exact [OF wf, of demo_cache_env 8 "''POST''" demo_target 201 "demo_key ''x''"]
      invalidation_exact [OF wf, of demo_cache_env 8 "''POST''" demo_target 500 "demo_key ''x''"] demo_key_new
    by (auto simp: is_safe_def)
qed

end
