(* ===== verification/Cached_Client.thy ===== *)
theory Cached_Client
  imports Http_Cache Redirect
begin

text \<open>
  The cache inside the client: the response body of \<open>crates/hclient/src/cached.rs\<close>, which comes from the store or is copied
  into it while the caller reads it, and the two hooks \<open>cache_before\<close> and \<open>cache_after\<close> around the sending of a hop
  (\<open>crates/hclient/src/client.rs\<close>).

  The transport's body is a state with a function that polls it. A write to the store is finished by a poll when its argument
  \<open>written\<close> says so, as a store that has to wait may take several.
\<close>

section \<open>The body\<close>

datatype body_frame = Data bytes | Trailers header_map

text \<open>What a poll answers; \<open>Ready None\<close> is the end of the stream.\<close>

datatype 'e polled = Pending | Ready "('e + body_frame) option"

record recorder =
  rec_storing :: storing
  rec_buffered :: bytes

record 'b cached =
  c_inner :: "'b option"
  c_stored :: "bytes option"
  c_recorder :: "recorder option"
  c_committing :: "recorder option"

definition live :: "'b \<Rightarrow> 'b cached" where
  "live b = \<lparr>c_inner = Some b, c_stored = None, c_recorder = None, c_committing = None\<rparr>"

definition from_store :: "bytes \<Rightarrow> 'b cached" where
  "from_store bs = \<lparr>c_inner = None, c_stored = Some bs, c_recorder = None, c_committing = None\<rparr>"

definition recorder_new :: "storing \<Rightarrow> recorder" where
  "recorder_new st = \<lparr>rec_storing = st, rec_buffered = []\<rparr>"

definition recording :: "'b \<Rightarrow> recorder \<Rightarrow> 'b cached" where
  "recording b r = \<lparr>c_inner = Some b, c_stored = None, c_recorder = Some r, c_committing = None\<rparr>"

definition recorder_push :: "recorder \<Rightarrow> bytes \<Rightarrow> recorder option" where
  "recorder_push r data =
     (if length (rec_buffered r) + length data > st_max_body_bytes (rec_storing r) then None
      else Some (r\<lparr>rec_buffered := rec_buffered r @ data\<rparr>))"

text \<open>The write of \<open>Recorder::commit\<close>; the store's refusal is dropped.\<close>

definition recorder_commit :: "'s cache_store \<Rightarrow> 's \<Rightarrow> recorder \<Rightarrow> 's" where
  "recorder_commit C s r = snd (cache_commit C s (rec_storing r) (rec_buffered r))"

text \<open>What the answer of the transport's body does to the recording.\<close>

definition note_frame :: "'e polled \<Rightarrow> 'b cached \<Rightarrow> 'b cached" where
  "note_frame answer c =
     (case answer of
        Pending \<Rightarrow> c
      | Ready None \<Rightarrow> (case c_recorder c of None \<Rightarrow> c | Some r \<Rightarrow> c\<lparr>c_recorder := None, c_committing := Some r\<rparr>)
      | Ready (Some (Inl _)) \<Rightarrow> c\<lparr>c_recorder := None\<rparr>
      | Ready (Some (Inr (Trailers _))) \<Rightarrow> c\<lparr>c_recorder := None\<rparr>
      | Ready (Some (Inr (Data d))) \<Rightarrow>
          (case c_recorder c of None \<Rightarrow> c | Some r \<Rightarrow> c\<lparr>c_recorder := recorder_push r d\<rparr>))"

definition finish_write :: "'s cache_store \<Rightarrow> bool \<Rightarrow> 'b cached \<Rightarrow> recorder \<Rightarrow> 's \<Rightarrow> 'e polled \<times> 'b cached \<times> 's" where
  "finish_write C written c r s =
     (if written then (Ready None, c\<lparr>c_committing := None\<rparr>, recorder_commit C s r) else (Pending, c, s))"

definition poll_frame ::
  "('b \<Rightarrow> 'e polled \<times> 'b) \<Rightarrow> 's cache_store \<Rightarrow> bool \<Rightarrow> 'b cached \<Rightarrow> 's \<Rightarrow> 'e polled \<times> 'b cached \<times> 's" where
  "poll_frame poll C written c0 s =
     (let c = c0\<lparr>c_stored := None\<rparr> in
      case c_stored c0 of
        Some (b # bs) \<Rightarrow> (Ready (Some (Inr (Data (b # bs)))), c, s)
      | _ \<Rightarrow>
          (case c_committing c of
             Some r \<Rightarrow> finish_write C written c r s
           | None \<Rightarrow>
               (case c_inner c of
                  None \<Rightarrow> (Ready None, c, s)
                | Some b \<Rightarrow>
                    (case poll b of (answer, b') \<Rightarrow>
                       let c' = note_frame answer (c\<lparr>c_inner := Some b'\<rparr>) in
                       case c_committing c' of
                         Some r \<Rightarrow> finish_write C written c' r s
                       | None \<Rightarrow> (answer, c', s)))))"

text \<open>\<open>is_end_stream\<close>, over that of the transport's body.\<close>

definition is_end_stream :: "('b \<Rightarrow> bool) \<Rightarrow> 'b cached \<Rightarrow> bool" where
  "is_end_stream ended c =
     (if c_stored c \<noteq> None then False else case c_inner c of None \<Rightarrow> True | Some b \<Rightarrow> ended b)"

section \<open>The hooks of the client\<close>

record 'b response =
  r_parts :: response_parts
  r_body :: "'b cached"

definition serve :: "stored_response \<Rightarrow> 'b response" where
  "serve e = \<lparr>r_parts = \<lparr>rp_status = sr_status e, rp_version = sr_version e, rp_headers = sr_headers e\<rparr>,
     r_body = from_store (sr_body e)\<rparr>"

text \<open>\<open>Response::new\<close> has version HTTP/1.1 and no field.\<close>

definition only_if_cached_miss :: "'b response" where
  "only_if_cached_miss = \<lparr>r_parts = \<lparr>rp_status = 504, rp_version = 11, rp_headers = []\<rparr>, r_body = from_store []\<rparr>"

type_synonym plan = "(cache_key \<times> stored_response) option"

datatype 'b before = Break "'b response" | Continue plan

definition cache_before ::
  "cache_env \<Rightarrow> 's cache_store \<Rightarrow> 's option \<Rightarrow> hop_parts \<Rightarrow> bool \<Rightarrow> system_time \<Rightarrow> 'b before \<times> hop_parts" where
  "cache_before env C cache hp caller_owns_the_conditionals now =
     (case cache of
        None \<Rightarrow> (Continue None, hp)
      | Some s \<Rightarrow>
          if caller_owns_the_conditionals then (Continue None, hp)
          else
            let hp' = hp\<lparr>hp_headers := hm_remove ''if-modified-since'' (hm_remove ''if-none-match'' (hp_headers hp))\<rparr> in
            case cache_lookup env C s (hp_method hp') (hp_uri hp') (hp_headers hp') now of
              Miss \<Rightarrow> (Continue None, hp')
            | Hit stored \<Rightarrow> (Break (serve stored), hp')
            | Unsatisfiable \<Rightarrow> (Break only_if_cached_miss, hp')
            | Revalidate key stale conditions \<Rightarrow>
                (Continue (Some (key, stale)),
                 hp'\<lparr>hp_headers := foldl (\<lambda>h (n, v). hm_insert n v h) (hp_headers hp') conditions\<rparr>))"

definition cache_after ::
  "cache_env \<Rightarrow> nat \<Rightarrow> 's cache_store \<Rightarrow> 's option \<Rightarrow> hop_parts \<Rightarrow> plan \<Rightarrow> response_parts \<Rightarrow> 'b \<Rightarrow> system_time \<Rightarrow> system_time \<Rightarrow>
     'b response \<times> 's option" where
  "cache_after env max_body C cache hp plan parts body requested_at received_at =
     (case cache of
        None \<Rightarrow> (\<lparr>r_parts = parts, r_body = live body\<rparr>, None)
      | Some s \<Rightarrow>
          (let answer = (\<lambda>s1.
             let s2 = cache_invalidated_by env C s1 (hp_method hp) (hp_uri hp) (rp_status parts);
                 b = (case cache_storing env max_body (hp_method hp) (hp_uri hp) (hp_headers hp) parts requested_at received_at of
                        Inr st \<Rightarrow> recording body (recorder_new st)
                      | Inl _ \<Rightarrow> live body)
             in (\<lparr>r_parts = parts, r_body = b\<rparr>, Some s2))
           in case plan of
                None \<Rightarrow> answer s
              | Some (key, stale) \<Rightarrow>
                  if rp_status parts = 304 then
                    (case cache_revalidated env C s key stale parts requested_at received_at of
                       (served, s') \<Rightarrow> (serve served, Some s'))
                  else answer (cache_superseded C s key stale)))"

section \<open>Recording does not disturb, and records exactly\<close>

text \<open>A transport's body as the list of its answers, and a reader that polls it a number of times.\<close>

fun poll_script :: "'e polled list \<Rightarrow> 'e polled \<times> 'e polled list" where
  "poll_script [] = (Ready None, [])"
| "poll_script (x # xs) = (x, xs)"

fun drive :: "'s cache_store \<Rightarrow> nat \<Rightarrow> 'e polled list cached \<Rightarrow> 's \<Rightarrow> 'e polled list \<times> 's" where
  "drive C 0 c s = ([], s)"
| "drive C (Suc n) c s =
     (case poll_frame poll_script C True c s of (a, c', s') \<Rightarrow>
        case drive C n c' s' of (as, s'') \<Rightarrow> (a # as, s''))"

text \<open>The body that a list of answers amounts to: all its data when it ends, and nothing when it fails, has trailers, is too long or is not read to the end.\<close>

fun recorded :: "nat \<Rightarrow> bytes \<Rightarrow> 'e polled list \<Rightarrow> bytes option" where
  "recorded m buf [] = None"
| "recorded m buf (Pending # as) = recorded m buf as"
| "recorded m buf (Ready None # as) = Some buf"
| "recorded m buf (Ready (Some (Inr (Data d))) # as) =
     (if length buf + length d > m then None else recorded m (buf @ d) as)"
| "recorded m buf (Ready (Some (Inr (Trailers _))) # as) = None"
| "recorded m buf (Ready (Some (Inl _)) # as) = None"

lemma poll_live: "poll_frame poll C True (live b) s = (case poll b of (a, b') \<Rightarrow> (a, live b', s))"
  by (auto simp: poll_frame_def live_def note_frame_def Let_def split: prod.splits polled.splits option.splits sum.splits body_frame.splits)

lemma poll_recording:
  "poll_frame poll C True (recording b r) s =
     (case poll b of (a, b') \<Rightarrow>
        case a of
          Pending \<Rightarrow> (a, recording b' r, s)
        | Ready None \<Rightarrow> (a, live b', recorder_commit C s r)
        | Ready (Some (Inr (Data d))) \<Rightarrow>
            (a, case recorder_push r d of None \<Rightarrow> live b' | Some r' \<Rightarrow> recording b' r', s)
        | _ \<Rightarrow> (a, live b', s))"
  by (auto simp: poll_frame_def recording_def live_def note_frame_def finish_write_def Let_def
      split: prod.splits polled.splits option.splits sum.splits body_frame.splits)

lemma drive_live: "drive C (length as) (live as) s = (as, s)"
  by (induction as arbitrary: s) (simp_all add: poll_live)

lemma drive_recording:
  "drive C (length as) (recording as r) s =
     (as, case recorded (st_max_body_bytes (rec_storing r)) (rec_buffered r) as of None \<Rightarrow> s | Some b \<Rightarrow> snd (cache_commit C s (rec_storing r) b))"
proof (induction as arbitrary: r)
  case (Cons a as)
  show ?case
  proof (cases a)
    case Pending
    then show ?thesis using Cons.IH by (simp add: poll_recording)
  next
    case (Ready x)
    show ?thesis
    proof (cases x)
      case None
      then show ?thesis by (simp add: Ready poll_recording drive_live recorder_commit_def)
    next
      case (Some y)
      show ?thesis
      proof (cases y)
        case (Inl e)
        then show ?thesis by (simp add: Ready Some poll_recording drive_live)
      next
        case (Inr f)
        then show ?thesis using Cons.IH
          by (cases f) (auto simp: Ready Some poll_recording drive_live recorder_push_def split: option.splits)
      qed
    qed
  qed
qed simp

text \<open>
  Property C33. A response that is being recorded reaches the caller as it came: each poll answers what the transport's
  body answered. When the body is read to its clean end its data, and only its whole data, is handed to the store at
  that poll; a body that fails, has trailers, passes the limit, or is dropped before its end, leaves the store untouched.
\<close>

theorem recording_exact:
  "drive C (length as) (recording as (recorder_new st)) s =
     (as, case recorded (st_max_body_bytes st) [] as of None \<Rightarrow> s | Some b \<Rightarrow> snd (cache_commit C s st b)) \<and>
   pred_option (\<lambda>b. \<exists>pre post. as = pre @ Ready None # post \<and> length b \<le> st_max_body_bytes st \<and>
      b = concat (map (\<lambda>a. case a of Ready (Some (Inr (Data d))) \<Rightarrow> d | _ \<Rightarrow> []) pre) \<and>
      list_all (\<lambda>a. a = Pending \<or> (\<exists>d. a = Ready (Some (Inr (Data d))))) pre)
     (recorded (st_max_body_bytes st) [] as)"
proof
  show "drive C (length as) (recording as (recorder_new st)) s =
     (as, case recorded (st_max_body_bytes st) [] as of None \<Rightarrow> s | Some b \<Rightarrow> snd (cache_commit C s st b))"
    by (simp add: drive_recording recorder_new_def split: option.splits)
  have "\<exists>pre post. as = pre @ Ready None # post \<and> length b \<le> m \<and>
      b = buf @ concat (map (\<lambda>a. case a of Ready (Some (Inr (Data d))) \<Rightarrow> d | _ \<Rightarrow> []) pre) \<and>
      list_all (\<lambda>a. a = Pending \<or> (\<exists>d. a = Ready (Some (Inr (Data d))))) pre"
    if "recorded m buf as = Some b" "length buf \<le> m" for m buf b
    using that
  proof (induction m buf as rule: recorded.induct)
    case (2 m buf as)
    then obtain pre post where p: "as = pre @ Ready None # post" "length b \<le> m"
      "b = buf @ concat (map (\<lambda>a. case a of Ready (Some (Inr (Data d))) \<Rightarrow> d | _ \<Rightarrow> []) pre)"
      "list_all (\<lambda>a. a = Pending \<or> (\<exists>d. a = Ready (Some (Inr (Data d))))) pre" by auto
    then show ?case by (intro exI [of _ "Pending # pre"] exI [of _ post]) simp
  next
    case (3 m buf as)
    then show ?case by (intro exI [of _ "[]"] exI [of _ as]) simp
  next
    case (4 m buf d as)
    then obtain pre post where p: "as = pre @ Ready None # post" "length b \<le> m"
      "b = (buf @ d) @ concat (map (\<lambda>a. case a of Ready (Some (Inr (Data d))) \<Rightarrow> d | _ \<Rightarrow> []) pre)"
      "list_all (\<lambda>a. a = Pending \<or> (\<exists>d. a = Ready (Some (Inr (Data d))))) pre" by (auto split: if_splits)
    then show ?case by (intro exI [of _ "Ready (Some (Inr (Data d))) # pre"] exI [of _ post]) simp
  qed simp_all
  from this [of "st_max_body_bytes st" "[]"] show "pred_option (\<lambda>b. \<exists>pre post. as = pre @ Ready None # post \<and> length b \<le> st_max_body_bytes st \<and>
      b = concat (map (\<lambda>a. case a of Ready (Some (Inr (Data d))) \<Rightarrow> d | _ \<Rightarrow> []) pre) \<and>
      list_all (\<lambda>a. a = Pending \<or> (\<exists>d. a = Ready (Some (Inr (Data d))))) pre)
     (recorded (st_max_body_bytes st) [] as)"
    by (cases "recorded (st_max_body_bytes st) [] as") simp_all
qed

text \<open>
  A body of which the transport says that it has ended, while it is still being recorded: a reader that goes by
  \<open>is_end_stream\<close> does not make the poll that commits it.
\<close>

lemma end_stream_before_commit:
  "is_end_stream ended (recording b r) = ended b \<and> c_recorder (recording b r) = Some r"
  by (simp add: is_end_stream_def recording_def)

section \<open>What goes out, and what is made of the answer\<close>

lemma contains_get: "hm_contains n h \<longleftrightarrow> hm_get n h \<noteq> None"
  by (simp add: hm_get_contains)

lemma conditions_get:
  "hm_get_all n (foldl (\<lambda>h (n, v). hm_insert n v h) h (conditions_from e)) =
     (if n = ''if-none-match'' \<and> hm_contains ''etag'' e then [the (hm_get ''etag'' e)]
      else if n = ''if-modified-since'' \<and> hm_contains ''last-modified'' e then [the (hm_get ''last-modified'' e)]
      else hm_get_all n h)"
  by (cases "hm_get ''etag'' e"; cases "hm_get ''last-modified'' e") (simp_all add: conditions_from_def contains_get)

lemma before_continue:
  assumes "cache_before env C (Some s) hp False now = (Continue plan, hp')"
  shows "hp_method hp' = hp_method hp \<and> hp_uri hp' = hp_uri hp \<and>
    hp_headers hp' = foldl (\<lambda>h (n, v). hm_insert n v h) (hm_remove ''if-modified-since'' (hm_remove ''if-none-match'' (hp_headers hp)))
      (case plan of None \<Rightarrow> [] | Some (_, stale) \<Rightarrow> conditions_for stale) \<and>
    (case plan of None \<Rightarrow> True | Some (key, stale) \<Rightarrow> stale \<in> set (cs_get C s key) \<and> conditions_for stale \<noteq> [])"
  using assms lookup_revalidate [of env C s "hp_method hp" "hp_uri hp" "hm_remove ''if-modified-since'' (hm_remove ''if-none-match'' (hp_headers hp))" now]
  by (auto simp: cache_before_def Let_def split: lookup_result.splits)

text \<open>
  A hop that is sent carries the validators of the response it revalidates and no others: \<open>If-None-Match\<close> is
  the stored \<open>ETag\<close> and \<open>If-Modified-Since\<close> the stored \<open>Last-Modified\<close>, each absent where the stored response has none or
  nothing is revalidated, so that no condition of an earlier hop is left; every other field is as it was.
\<close>

theorem conditions_sent:
  assumes "cache_before env C (Some s) hp False now = (Continue plan, hp')"
  shows "hm_get_all n (hp_headers hp') =
    (if n = ''if-none-match'' then (case plan of None \<Rightarrow> [] | Some (_, stale) \<Rightarrow> take 1 (hm_get_all ''etag'' (sr_headers stale)))
     else if n = ''if-modified-since'' then (case plan of None \<Rightarrow> [] | Some (_, stale) \<Rightarrow> take 1 (hm_get_all ''last-modified'' (sr_headers stale)))
     else hm_get_all n (hp_headers hp))"
proof (cases plan)
  case None
  then show ?thesis using before_continue [OF assms] by simp
next
  case (Some p)
  obtain key stale where p: "p = (key, stale)" by (cases p)
  have t: "take (Suc 0) (hm_get_all m h) = (if hm_contains m h then [the (hm_get m h)] else [])" for m h
    by (auto simp: hm_contains_get_all hm_get_first split: list.splits)
  show ?thesis using before_continue [OF assms] by (simp add: Some p conditions_for_def conditions_get t)
qed

lemma conditioned_bypasses:
  assumes "cache_before env C (Some s) hp False now = (Continue (Some (key, stale)), hp')"
  shows "bypasses (hp_headers hp')"
proof -
  have "hp_headers hp' = foldl (\<lambda>h (n, v). hm_insert n v h) (hm_remove ''if-modified-since'' (hm_remove ''if-none-match'' (hp_headers hp))) (conditions_from (sr_headers stale))"
    "conditions_from (sr_headers stale) \<noteq> []" using before_continue [OF assms] by (simp_all add: conditions_for_def)
  then show ?thesis by (auto simp: bypasses_def hm_contains_get_all conditions_get conditions_empty)
qed

text \<open>
  A full answer to a revalidation takes the stale response out of the store, and is not recorded in its place: the hop carries the conditions
  that \<open>cache_before\<close> added, and \<open>storing\<close> stands aside for a request that carries one.
\<close>

lemma revalidation_answer_not_stored:
  assumes "cache_before env C (Some s) hp False now = (Continue (Some (key, stale)), hp')" "rp_status parts \<noteq> 304"
  shows "r_body (fst (cache_after env max_body C (Some s1) hp' (Some (key, stale)) parts body t1 t2)) = live body"
proof -
  have "\<exists>why. cache_storing env max_body (hp_method hp') (hp_uri hp') (hp_headers hp') parts t1 t2 = Inl why"
    using conditioned_bypasses [OF assms(1)] by (auto simp: cache_storing_def)
  then show ?thesis using assms(2) by (auto simp: cache_after_def Let_def)
qed

text \<open>A request with \<open>only-if-cached\<close> and a stale response with a validator is sent.\<close>

lemma only_if_cached_is_sent:
  assumes "hp_method hp = ''GET''" "\<not> bypasses h" "\<not> rq_no_store (request_directives_of env h)"
    and "h = hm_remove ''if-modified-since'' (hm_remove ''if-none-match'' (hp_headers hp))"
    and "rq_only_if_cached (request_directives_of env h)" "selected env C s ''GET'' (hp_uri hp) h = Some e" "conditions_for e \<noteq> []"
    and "\<nexists>l. freshness_lifetime env e (response_directives_of env (sr_headers e)) = Some l \<and>
      reusable (request_directives_of env h) (response_directives_of env (sr_headers e)) (current_age env e now) l"
  shows "\<exists>key hp'. cache_before env C (Some s) hp False now = (Continue (Some (key, e)), hp')"
  using lookup_selected(2) [OF _ assms(2,3,6,8)] assms(1,7) unfolding assms(4)
  by (simp add: cache_before_def Let_def)

text \<open>
  A scheme that puts its credential on the request between the two hooks makes a response that the same request never finds: it was looked for
  without the credential, and is stored with it.
\<close>

lemma authorized_late_never_matches:
  assumes "cache_storing env max_body method u h' parts t1 t2 = Inr st"
    and "combined (ce_header_value env) h ''authorization'' \<noteq> combined (ce_header_value env) h' ''authorization''"
  shows "\<not> selector_matches env (storing_entry st body) h"
  using assms unfolding storing_iff by (auto simp: selector_matches_def storing_entry_def selector_match_agree)

definition demo_get :: hop_parts where
  "demo_get = \<lparr>hp_method = ''GET'', hp_uri = demo_target, hp_headers = (''if-none-match'', ''v0'') # demo_request, hp_version = 11,
     hp_extensions = (\<lambda>_. None)\<rparr>"

lemma demo_revalidates:
  "\<exists>hp'. cache_before demo_cache_env (memory_cache 8) (Some demo_filled) demo_get False 100000000000 =
     (Continue (Some (demo_key ''x'', storing_entry demo_storing ''hello'')), hp')"
proof -
  let ?e = "storing_entry demo_storing ''hello''"
  have h: "hm_remove ''if-modified-since'' (hm_remove ''if-none-match'' (hp_headers demo_get)) = demo_request" by code_simp
  have e: "sr_headers ?e = rp_headers demo_parts" by (simp add: storing_entry_def demo_storing_def)
  have "current_age demo_cache_env ?e 100000000000 = min 100000000000 duration_max"
    by (simp add: current_age_def demo_times demo_no_age since_or_zero_def duration_saturating_add_def)
  then have a: "current_age demo_cache_env ?e 100000000000 = 100000000000"
    by (simp add: duration_max_def u64_max_def nanos_per_sec_def)
  have "\<nexists>l. freshness_lifetime demo_cache_env ?e (response_directives_of demo_cache_env (sr_headers ?e)) = Some l \<and>
      reusable (request_directives_of demo_cache_env demo_request) (response_directives_of demo_cache_env (sr_headers ?e)) (current_age demo_cache_env ?e 100000000000) l"
    by (simp add: a e demo_response_directives demo_request_directives freshness_lifetime_def reusable_def request_default_def from_secs_def nanos_per_sec_def)
  moreover have "\<not> bypasses demo_request" by code_simp
  moreover have "\<not> rq_no_store (request_directives_of demo_cache_env demo_request)" by (simp add: demo_request_directives request_default_def)
  ultimately have "cache_lookup demo_cache_env (memory_cache 8) demo_filled ''GET'' demo_target demo_request 100000000000 =
    (if conditions_for ?e = [] then if rq_only_if_cached (request_directives_of demo_cache_env demo_request) then Unsatisfiable else Miss
     else Revalidate (demo_key ''x'') ?e (conditions_for ?e))"
    using lookup_selected(2) [OF refl _ _ demo_selected, of 100000000000] demo_key_new by simp
  moreover have "conditions_for ?e \<noteq> []" by (simp add: conditions_for_def e conditions_empty) (simp add: demo_parts_def hm_contains_def)
  ultimately show ?thesis by (simp add: cache_before_def Let_def h) (simp add: demo_get_def)
qed

theorem conditions_sent_witness:
  "\<exists>plan hp'. cache_before demo_cache_env (memory_cache 8) (Some demo_filled) demo_get False 100000000000 = (Continue plan :: unit before, hp') \<and>
     hm_get_all ''if-none-match'' (hp_headers hp') = [''v1''] \<and> hm_get_all ''if-modified-since'' (hp_headers hp') = []"
proof -
  let ?e = "storing_entry demo_storing ''hello''"
  obtain hp' where b: "cache_before demo_cache_env (memory_cache 8) (Some demo_filled) demo_get False 100000000000 = (Continue (Some (demo_key ''x'', ?e)) :: unit before, hp')"
    using demo_revalidates by blast
  have "hm_get_all ''etag'' (sr_headers ?e) = [''v1'']" "hm_get_all ''last-modified'' (sr_headers ?e) = []"
    by (simp_all add: storing_entry_def demo_storing_def demo_parts_def hm_get_all_def)
  then show ?thesis
    using b conditions_sent [OF b, of "''if-none-match''"] conditions_sent [OF b, of "''if-modified-since''"] by auto
qed

end
