(* ===== verification/Client_Loop.thy ===== *)
theory Client_Loop
  imports Cached_Client Hsts Cookie_Jar
begin

text \<open>
  The loop of \<open>Client::run\<close> (\<open>crates/hclient/src/client.rs\<close>) around the redirect arm of \<open>Redirect\<close>: its head, where
  each hop is upgraded by HSTS, given the cookies of the jar, the default headers of the client and the credentials of a
  \<open>.netrc\<close> file (\<open>crates/hclient/src/auth/netrc.rs\<close>), and asked of the cache; the authentication scheme of the operation;
  and the sends of one hop. What is shown is where credentials go over a whole operation.

  The components are those of \<open>Hsts\<close>, \<open>Cookie_Jar\<close> and \<open>Cached_Client\<close>, over any stores. Arguments for what is not
  under \<open>src\<close>, or is a trait object of the caller: Base64 and the checks of \<open>HeaderValue\<close>, the authentication scheme.
\<close>

section \<open>The entries of a netrc file\<close>

record netrc_entry =
  ne_machine :: "bytes option"
  ne_login :: bytes
  ne_password :: bytes
  ne_account :: "bytes option"

definition is_default :: "netrc_entry \<Rightarrow> bool" where
  "is_default e \<longleftrightarrow> ne_machine e = None"

fun lookup_from :: "netrc_entry option \<Rightarrow> netrc_entry list \<Rightarrow> bytes \<Rightarrow> netrc_entry option" where
  "lookup_from fallback [] name = fallback"
| "lookup_from fallback (e # es) name =
     (case ne_machine e of
        Some m \<Rightarrow> if m = name then Some e else lookup_from fallback es name
      | None \<Rightarrow> lookup_from (case fallback of None \<Rightarrow> Some e | Some f \<Rightarrow> Some f) es name)"

definition entries_lookup :: "netrc_entry list \<Rightarrow> bytes \<Rightarrow> netrc_entry option" where
  "entries_lookup es name = lookup_from None es name"

text \<open>The first entry of that name, otherwise the first entry without one.\<close>

lemma entries_lookup_find:
  "entries_lookup es name = (case find (\<lambda>e. ne_machine e = Some name) es of Some e \<Rightarrow> Some e | None \<Rightarrow> find is_default es)"
proof -
  have "lookup_from fallback es name = (case find (\<lambda>e. ne_machine e = Some name) es of Some e \<Rightarrow> Some e
      | None \<Rightarrow> (case fallback of None \<Rightarrow> find is_default es | Some f \<Rightarrow> Some f))" for fallback
    by (induction es arbitrary: fallback) (auto simp: is_default_def split: option.splits)
  from this [of None] show ?thesis by (simp add: entries_lookup_def split: option.split)
qed

section \<open>The client and its stores\<close>

text \<open>What the client is built with. A store is there or not for the life of the client.\<close>

record ('h, 'j, 'c) client =
  cl_hsts_env :: hsts_env
  cl_hsts :: "'h hsts_store"
  cl_keeps_hsts :: bool
  cl_from_bytes :: "bytes \<Rightarrow> bool"
  cl_jar :: "'j store_ops"
  cl_keeps_jar :: bool
  cl_cache_env :: cache_env
  cl_cache :: "'c cache_store"
  cl_keeps_cache :: bool
  cl_default_headers :: header_map
  cl_netrc :: "netrc_entry list option"
  cl_base64 :: "bytes \<Rightarrow> bytes"
  cl_from_str :: "bytes \<Rightarrow> bool"

text \<open>
  The contents of the stores and the clock when the head of the loop comes to each of them: other operations of the client may have changed
  them since.
\<close>

record ('h, 'j, 'c) world =
  w_hsts :: 'h
  w_hsts_now :: system_time
  w_jar :: "'j jar"
  w_jar_now :: system_time
  w_cache :: 'c
  w_cache_now :: system_time

section \<open>The head of the loop\<close>

definition attach_cookies ::
  "(bytes \<Rightarrow> bool) \<Rightarrow> 'j store_ops \<Rightarrow> 'j jar option \<Rightarrow> hop_parts \<Rightarrow> bool \<Rightarrow> system_time \<Rightarrow> hop_parts \<times> 'j jar option" where
  "attach_cookies ok ops cookies hp caller_owns_the_header now =
     (case cookies of
        None \<Rightarrow> (hp, None)
      | Some j \<Rightarrow>
          if caller_owns_the_header then (hp, Some j)
          else
            let h = hm_remove ''cookie'' (hp_headers hp) in
            case cookie_header ok ops j (hp_uri hp) now of
              (None, j') \<Rightarrow> (hp\<lparr>hp_headers := h\<rparr>, Some j')
            | (Some v, j') \<Rightarrow> (hp\<lparr>hp_headers := hm_insert ''cookie'' v h\<rparr>, Some j'))"

definition add_defaults :: "header_map \<Rightarrow> header_map \<Rightarrow> header_map" where
  "add_defaults ds h = foldl (\<lambda>h (n, v). if hm_contains n h then h else hm_append n v h) h ds"

definition netrc_basic :: "(bytes \<Rightarrow> bytes) \<Rightarrow> netrc_entry \<Rightarrow> bytes" where
  "netrc_basic base64 e = ''Basic '' @ base64 (ne_login e @ '':'' @ ne_password e)"

definition fill_netrc ::
  "(bytes \<Rightarrow> bool) \<Rightarrow> (bytes \<Rightarrow> bytes) \<Rightarrow> netrc_entry list option \<Rightarrow> 'a option \<Rightarrow> http_uri \<Rightarrow> header_map \<Rightarrow> header_map" where
  "fill_netrc from_str base64 netrc auth uri h =
     (if \<not> hm_contains ''authorization'' h \<and> Option.is_none auth then
        (case netrc of
           None \<Rightarrow> h
         | Some es \<Rightarrow>
             (case host uri of
                None \<Rightarrow> h
              | Some name \<Rightarrow>
                  (case entries_lookup es name of
                     None \<Rightarrow> h
                   | Some e \<Rightarrow>
                       let v = netrc_basic base64 e in
                       if from_str v then hm_insert ''authorization'' v h else h)))
      else h)"

definition caller_owns_the_cookie_header :: "hop_parts \<Rightarrow> bool" where
  "caller_owns_the_cookie_header hp = hm_contains ''cookie'' (hp_headers hp)"

definition caller_owns_the_conditionals :: "hop_parts \<Rightarrow> bool" where
  "caller_owns_the_conditionals hp \<longleftrightarrow>
     hm_contains ''if-none-match'' (hp_headers hp) \<or> hm_contains ''if-modified-since'' (hp_headers hp)"

text \<open>From the top of the loop to the answer of the cache; \<open>caller\<close> is the request as the caller gave it.\<close>

definition loop_head ::
  "('h, 'j, 'c) client \<Rightarrow> hop_parts \<Rightarrow> ('h, 'j, 'c) world \<Rightarrow> 'a option \<Rightarrow> hop_parts \<Rightarrow> 'b before \<times> hop_parts" where
  "loop_head cl caller w auth hp =
     (let uri = fst (upgrade_scheme (cl_hsts_env cl) (cl_hsts cl) (if cl_keeps_hsts cl then Some (w_hsts w) else None)
                      (hp_uri hp) (w_hsts_now w));
          hp1 = hp\<lparr>hp_uri := uri\<rparr>;
          hp2 = fst (attach_cookies (cl_from_bytes cl) (cl_jar cl) (if cl_keeps_jar cl then Some (w_jar w) else None) hp1
                      (caller_owns_the_cookie_header caller) (w_jar_now w));
          hp3 = hp2\<lparr>hp_headers := fill_netrc (cl_from_str cl) (cl_base64 cl) (cl_netrc cl) auth uri
                      (add_defaults (cl_default_headers cl) (hp_headers hp2))\<rparr>
      in cache_before (cl_cache_env cl) (cl_cache cl) (if cl_keeps_cache cl then Some (w_cache w) else None) hp3
           (caller_owns_the_conditionals caller) (w_cache_now w))"

section \<open>Authentication and the sends of a hop\<close>

datatype body_view = VEmpty | VBytes bytes | VOpaque

fun body_view_of :: "request_body \<Rightarrow> body_view" where
  "body_view_of Empty = VEmpty"
| "body_view_of (Full b) = VBytes b"
| "body_view_of (Rewindable _) = VOpaque"
| "body_view_of (Streaming _) = VOpaque"

definition auth_body :: "request_body option \<Rightarrow> body_view" where
  "auth_body snapshot = (case snapshot of None \<Rightarrow> VOpaque | Some b \<Rightarrow> body_view_of b)"

text \<open>The traits \<open>Auth\<close> and \<open>AuthFlow\<close>: the flow is handed back changed, \<open>True\<close> is \<open>AuthStep::Again\<close>.\<close>

record ('a, 'f) scheme =
  au_start :: "'a \<Rightarrow> 'f"
  au_authorize :: "'f \<Rightarrow> http_method \<Rightarrow> http_uri \<Rightarrow> body_view \<Rightarrow> header_map \<Rightarrow> 'f \<times> header_map"
  au_on_response :: "'f \<Rightarrow> nat \<Rightarrow> header_map \<Rightarrow> 'f \<times> bool"

definition MAX_LEGS :: nat where
  "MAX_LEGS = 4"

definition authorize_hop :: "('a, 'f) scheme \<Rightarrow> 'f \<Rightarrow> request_body option \<Rightarrow> hop_parts \<Rightarrow> 'f \<times> hop_parts" where
  "authorize_hop sch f body hp =
     (case au_authorize sch f (hp_method hp) (hp_uri hp) (auth_body body) (hp_headers hp) of (f', h) \<Rightarrow> (f', hp\<lparr>hp_headers := h\<rparr>))"

definition begin_flow :: "('a, 'f) scheme \<Rightarrow> 'a option \<Rightarrow> request_body option \<Rightarrow> hop_parts \<Rightarrow> 'f option \<times> hop_parts" where
  "begin_flow sch auth replay hp =
     (case auth of
        None \<Rightarrow> (None, hp)
      | Some a \<Rightarrow> (case authorize_hop sch (au_start sch a) replay hp of (f, hp') \<Rightarrow> (Some f, hp')))"

definition outside_early_data :: "hop_parts \<Rightarrow> hop_parts" where
  "outside_early_data hp = hp\<lparr>hp_extensions := (hp_extensions hp)(''AllowEarlyData'' := None)\<rparr>"

text \<open>
  What is sent for one hop, whatever the retry policy and the answers are: the request and, while its body can be sent again, the same for a
  retry, once more outside early data for a \<open>425\<close>, and for each further leg of the authentication the request with what
  the flow writes on it. The last two arguments are the identity of the send and the request; \<open>legs\<close> counts those of the flow
  and \<open>early\<close> is whether no \<open>425\<close> was answered yet.
\<close>

inductive hop_sends ::
  "('a, 'f) scheme \<Rightarrow> request_body option \<Rightarrow> hop_parts \<Rightarrow> 'f option \<Rightarrow> attempt \<Rightarrow> bool \<Rightarrow> nat \<Rightarrow> 'f option \<Rightarrow> attempt \<Rightarrow> hop_parts \<Rightarrow> bool"
  for sch replay hp f0 a0 where
  first: "hop_sends sch replay hp f0 a0 True 1 f0 a0 hp"
| retry: "hop_sends sch replay hp f0 a0 True 1 f0 a r \<Longrightarrow> replay_for_too_early replay = Some b \<Longrightarrow>
    hop_sends sch replay hp f0 a0 True 1 f0 (attempt_resent a) hp"
| too_early: "hop_sends sch replay hp f0 a0 True 1 f0 a r \<Longrightarrow> replay_for_too_early replay = Some b \<Longrightarrow>
    hop_sends sch replay hp f0 a0 False 1 f0 (attempt_resent a) (outside_early_data hp)"
| leg: "hop_sends sch replay hp f0 a0 early legs (Some f) a r \<Longrightarrow> au_on_response sch f code answer = (f1, True) \<Longrightarrow>
    legs + 1 \<le> MAX_LEGS \<Longrightarrow> replay_for_too_early replay = Some b \<Longrightarrow> authorize_hop sch f1 (Some b) hp = (f2, r') \<Longrightarrow>
    hop_sends sch replay hp f0 a0 False (legs + 1) (Some f2) (attempt_resent a) r'"

section \<open>The loop\<close>

text \<open>
  What comes of a hop after its head: answered from the cache, or sent. The identity and the request are those the loop goes on with, which is the
  request of the first send, whatever the last was.
\<close>

inductive hop_done ::
  "('a, 'f) scheme \<Rightarrow> 'a option \<Rightarrow> request_body option \<Rightarrow> attempt \<Rightarrow> 'b before \<times> hop_parts \<Rightarrow> attempt \<Rightarrow> hop_parts \<Rightarrow> bool"
  for sch auth replay a0 where
  answered: "hop_done sch auth replay a0 (Break resp, hp) a0 hp"
| sent: "begin_flow sch auth replay hp = (f0, hp') \<Longrightarrow> hop_sends sch replay hp' f0 a0 early legs f a r \<Longrightarrow>
    hop_done sch auth replay a0 (Continue plan, hp) a hp'"

text \<open>
  What the loop can be at the top of a turn, with the URIs of the hops before it as they were sent or answered from the cache: the head, the sends,
  any answer, and the redirect arm. The stores are in any state at each hop, since the client shares them with other operations.
\<close>

inductive client_loop ::
  "('h, 'j, 'c) client \<Rightarrow> ('a, 'f) scheme \<Rightarrow> (bytes \<Rightarrow> bool) \<Rightarrow> uri_ext \<Rightarrow> redirect_policy \<Rightarrow> hop_parts \<Rightarrow> request_body \<Rightarrow> 'a option \<Rightarrow> nat \<Rightarrow>
     http_uri list \<Rightarrow> 'a chain \<Rightarrow> bool"
  for cl sch hv ext pol caller body auth i where
  entry: "client_loop cl sch hv ext pol caller body auth i [] (chain_start caller body auth i)"
| turn: "client_loop cl sch hv ext pol caller body auth i us st \<Longrightarrow>
    hop_done sch (ch_auth st) (rewind (ch_body st)) (ch_attempt st) (loop_head cl caller w (ch_auth st) (ch_hop st) :: unit before \<times> hop_parts) a hp \<Longrightarrow>
    redirect_arm hv ext pol (st\<lparr>ch_hop := hp, ch_attempt := a\<rparr>) (rewind (ch_body st)) status location = NextHop st' \<Longrightarrow>
    client_loop cl sch hv ext pol caller body auth i (us @ [hp_uri hp]) st'"

text \<open>So every bound of \<open>Redirect\<close> on a chain is one on the loop.\<close>

lemma client_loop_steps:
  "client_loop cl sch hv ext pol caller body auth i us st \<Longrightarrow> hop_steps hv ext pol (chain_start caller body auth i) st"
  by (induction rule: client_loop.induct) (blast intro: hop_step.hop rtranclp.rtrancl_into_rtrancl)+

section \<open>What the head of the loop changes\<close>

text \<open>An HSTS upgrade leaves the host, and gives the scheme and the port it documents.\<close>

definition upgraded_from :: "http_uri \<Rightarrow> http_uri \<Rightarrow> bool" where
  "upgraded_from v u \<longleftrightarrow> same_host u v \<and> scheme_str v = Some ''http'' \<and> scheme_str u = Some ''https'' \<and>
     port_of u = (if port_of v = Some 80 then Some 443 else port_of v)"

lemma upgrade_scheme_cases:
  assumes "uri_build_ok env uri" "has_authority uri"
  shows "fst (upgrade_scheme env S hsts uri now) = uri \<or> upgraded_from uri (fst (upgrade_scheme env S hsts uri now))"
proof (cases hsts)
  case (Some s)
  have "upgraded_from uri u" if "fst (hsts_upgrade env S s uri now) = Some u" for u
    using upgrade_cases [OF assms, of S s now] that
    by (auto simp: upgraded_from_def same_host_def eq_ignore_ascii_case_def port_of_def upgraded_port_def split: option.splits)
  then show ?thesis by (auto simp: upgrade_scheme_def Some split: prod.splits option.splits)
qed (simp add: upgrade_scheme_def)

lemma attach_cookies_keeps:
  "hp_method (fst (attach_cookies ok ops cookies hp own now)) = hp_method hp"
  "hp_uri (fst (attach_cookies ok ops cookies hp own now)) = hp_uri hp"
  "hp_extensions (fst (attach_cookies ok ops cookies hp own now)) = hp_extensions hp"
  by (auto simp: attach_cookies_def Let_def split: option.splits prod.splits)

lemma attach_cookies_values:
  "hm_get_all n (hp_headers (fst (attach_cookies ok ops cookies hp own now))) =
     (case cookies of
        Some j \<Rightarrow> if n = ''cookie'' \<and> \<not> own then (case fst (cookie_header ok ops j (hp_uri hp) now) of None \<Rightarrow> [] | Some v \<Rightarrow> [v])
          else hm_get_all n (hp_headers hp)
      | None \<Rightarrow> hm_get_all n (hp_headers hp))"
  by (auto simp: attach_cookies_def Let_def split: option.splits prod.splits)

lemma add_defaults_values:
  "set (hm_get_all n (add_defaults ds h)) \<subseteq> set (hm_get_all n h) \<union> {v. (n, v) \<in> set ds}"
proof -
  have "set (hm_get_all n (foldl (\<lambda>h (n, v). if hm_contains n h then h else hm_append n v h) h ds)) \<subseteq> set (hm_get_all n h) \<union> {v. (n, v) \<in> set ds}"
    by (induction ds arbitrary: h) (fastforce split: if_splits)+
  then show ?thesis by (simp add: add_defaults_def)
qed

lemma add_defaults_caller_wins:
  "hm_contains n h \<Longrightarrow> hm_get_all n (add_defaults ds h) = hm_get_all n h"
proof -
  have "hm_contains n h \<Longrightarrow> hm_get_all n (foldl (\<lambda>h (n, v). if hm_contains n h then h else hm_append n v h) h ds) = hm_get_all n h"
    by (induction ds arbitrary: h) (auto simp: hm_contains_get_all)
  then show "hm_contains n h \<Longrightarrow> hm_get_all n (add_defaults ds h) = hm_get_all n h" by (simp add: add_defaults_def)
qed

text \<open>The credentials of a netrc file for a host of that name, in any case of its letters.\<close>

definition netrc_credential :: "('h, 'j, 'c) client \<Rightarrow> http_uri \<Rightarrow> bytes \<Rightarrow> bool" where
  "netrc_credential cl uri v \<longleftrightarrow>
     (\<exists>es x name e. cl_netrc cl = Some es \<and> host uri = Some x \<and> eq_ignore_ascii_case x name \<and> entries_lookup es name = Some e \<and>
        v = netrc_basic (cl_base64 cl) e)"

lemma fill_netrc_values:
  "set (hm_get_all n (fill_netrc (cl_from_str cl) (cl_base64 cl) (cl_netrc cl) auth uri h)) \<subseteq>
     set (hm_get_all n h) \<union> {v. n = ''authorization'' \<and> netrc_credential cl uri v}"
  by (auto simp: fill_netrc_def Let_def netrc_credential_def eq_ignore_ascii_case_def split: if_splits option.splits)

lemma before_keeps:
  assumes "cache_before env C cache hp own now = (bf, hp')"
  shows "hp_method hp' = hp_method hp \<and> hp_uri hp' = hp_uri hp \<and> hp_extensions hp' = hp_extensions hp \<and>
    (n \<noteq> ''if-none-match'' \<longrightarrow> n \<noteq> ''if-modified-since'' \<longrightarrow> hm_get_all n (hp_headers hp') = hm_get_all n (hp_headers hp))"
proof (cases cache)
  case (Some s)
  show ?thesis
  proof (cases own)
    case False
    let ?h = "hm_remove ''if-modified-since'' (hm_remove ''if-none-match'' (hp_headers hp))"
    have c: "hp_method hp' = hp_method hp \<and> hp_uri hp' = hp_uri hp \<and> hp_extensions hp' = hp_extensions hp \<and>
        (hp_headers hp' = ?h \<or> (\<exists>e. hp_headers hp' = foldl (\<lambda>h (n, v). hm_insert n v h) ?h (conditions_from e)))"
      using assms False lookup_revalidate [of env C s "hp_method hp" "hp_uri hp" ?h now]
      by (auto simp: Some cache_before_def Let_def conditions_for_def split: lookup_result.splits)
    then show ?thesis by (auto simp: conditions_get)
  qed (use assms Some in \<open>simp add: cache_before_def\<close>)
qed (use assms in \<open>simp add: cache_before_def\<close>)

text \<open>The client's own values of a header: its default, and for \<open>Authorization\<close> the entry of its netrc file.\<close>

definition own_values :: "('h, 'j, 'c) client \<Rightarrow> http_uri \<Rightarrow> bytes \<Rightarrow> bytes set" where
  "own_values cl uri n = {v. (n, v) \<in> set (cl_default_headers cl) \<or> n = ''authorization'' \<and> netrc_credential cl uri v}"

definition jar_attaches :: "('h, 'j, 'c) client \<Rightarrow> hop_parts \<Rightarrow> bool" where
  "jar_attaches cl caller \<longleftrightarrow> cl_keeps_jar cl \<and> \<not> caller_owns_the_cookie_header caller"

definition jar_value :: "('h, 'j, 'c) client \<Rightarrow> ('h, 'j, 'c) world \<Rightarrow> http_uri \<Rightarrow> bytes option" where
  "jar_value cl w uri = fst (cookie_header (cl_from_bytes cl) (cl_jar cl) (w_jar w) uri (w_jar_now w))"

lemma subset_union_trans: "xs = ys \<Longrightarrow> set ys \<subseteq> H \<union> C \<Longrightarrow> H \<subseteq> X \<Longrightarrow> set xs \<subseteq> C \<union> X"
  by blast

lemma loop_head_keeps:
  assumes "loop_head cl caller w auth hp = (bf, hp')"
  shows "hp_extensions hp' = hp_extensions hp"
    "uri_build_ok (cl_hsts_env cl) (hp_uri hp) \<Longrightarrow> has_authority (hp_uri hp) \<Longrightarrow> hp_uri hp' = hp_uri hp \<or> upgraded_from (hp_uri hp) (hp_uri hp')"
    "n \<in> set SENSITIVE_HEADERS \<Longrightarrow> set (hm_get_all n (hp_headers hp')) \<subseteq> own_values cl (hp_uri hp') n \<union>
       (if n = ''cookie'' \<and> jar_attaches cl caller then {v. jar_value cl w (hp_uri hp') = Some v} else set (hm_get_all n (hp_headers hp)))"
proof -
  define uri where "uri = fst (upgrade_scheme (cl_hsts_env cl) (cl_hsts cl) (if cl_keeps_hsts cl then Some (w_hsts w) else None) (hp_uri hp) (w_hsts_now w))"
  define hp2 where "hp2 = fst (attach_cookies (cl_from_bytes cl) (cl_jar cl) (if cl_keeps_jar cl then Some (w_jar w) else None) (hp\<lparr>hp_uri := uri\<rparr>)
      (caller_owns_the_cookie_header caller) (w_jar_now w))"
  define h3 where "h3 = fill_netrc (cl_from_str cl) (cl_base64 cl) (cl_netrc cl) auth uri (add_defaults (cl_default_headers cl) (hp_headers hp2))"
  have "cache_before (cl_cache_env cl) (cl_cache cl) (if cl_keeps_cache cl then Some (w_cache w) else None) (hp2\<lparr>hp_headers := h3\<rparr>)
      (caller_owns_the_conditionals caller) (w_cache_now w) = (bf, hp')"
    using assms unfolding loop_head_def Let_def uri_def [symmetric] hp2_def [symmetric] h3_def [symmetric] .
  note k = before_keeps [OF this, simplified]
  have u: "hp_uri hp' = uri" using k [of "''x''"] by (simp add: hp2_def attach_cookies_keeps)
  show "hp_extensions hp' = hp_extensions hp" using k [of "''x''"] by (simp add: hp2_def attach_cookies_keeps)
  show "hp_uri hp' = hp_uri hp \<or> upgraded_from (hp_uri hp) (hp_uri hp')" if "uri_build_ok (cl_hsts_env cl) (hp_uri hp)" "has_authority (hp_uri hp)"
    unfolding u uri_def by (rule upgrade_scheme_cases [OF that])
  assume "n \<in> set SENSITIVE_HEADERS"
  then have "hm_get_all n (hp_headers hp') = hm_get_all n h3" using k [of n] by (auto simp: SENSITIVE_HEADERS_def)
  moreover have "set (hm_get_all n h3) \<subseteq> set (hm_get_all n (hp_headers hp2)) \<union> own_values cl uri n"
    using fill_netrc_values [of n cl auth uri "add_defaults (cl_default_headers cl) (hp_headers hp2)"]
      add_defaults_values [of n "cl_default_headers cl" "hp_headers hp2"] by (auto simp: h3_def own_values_def)
  moreover have "set (hm_get_all n (hp_headers hp2)) \<subseteq>
      (if n = ''cookie'' \<and> jar_attaches cl caller then {v. jar_value cl w uri = Some v} else set (hm_get_all n (hp_headers hp)))"
    by (auto simp: hp2_def attach_cookies_values jar_attaches_def jar_value_def split: option.splits)
  ultimately show "set (hm_get_all n (hp_headers hp')) \<subseteq> own_values cl (hp_uri hp') n \<union>
       (if n = ''cookie'' \<and> jar_attaches cl caller then {v. jar_value cl w (hp_uri hp') = Some v} else set (hm_get_all n (hp_headers hp)))"
    unfolding u by (rule subset_union_trans)
qed

text \<open>A flow writes fields only, and with no scheme every send of a hop is its request, with or without the mark of early data.\<close>

lemma authorize_hop_keeps:
  "authorize_hop sch f body hp = (f', hp') \<Longrightarrow> hp_uri hp' = hp_uri hp \<and> hp_extensions hp' = hp_extensions hp"
  by (auto simp: authorize_hop_def split: prod.splits)

lemma begin_flow_keeps:
  "begin_flow sch auth replay hp = (f, hp') \<Longrightarrow> hp_uri hp' = hp_uri hp \<and> hp_extensions hp' = hp_extensions hp \<and> (auth = None \<longrightarrow> f = None \<and> hp' = hp)"
  by (auto simp: begin_flow_def split: option.splits prod.splits dest: authorize_hop_keeps)

lemma hop_sends_uri: "hop_sends sch replay hp f0 a0 early legs f a r \<Longrightarrow> hp_uri r = hp_uri hp"
proof (induction rule: hop_sends.induct)
  case (leg early legs f a r status answer f1 b f2 r')
  then show ?case by (auto dest: authorize_hop_keeps)
qed (simp_all add: outside_early_data_def)

lemma hop_sends_no_scheme:
  "hop_sends sch replay hp f0 a0 early legs f a r \<Longrightarrow> f0 = None \<Longrightarrow> f = None \<and> (r = hp \<or> r = outside_early_data hp)"
  by (induction rule: hop_sends.induct) simp_all

lemma hop_done_keeps:
  assumes "hop_done sch auth replay a0 (bf, hp) a hp'"
  shows "hp_uri hp' = hp_uri hp \<and> hp_extensions hp' = hp_extensions hp \<and> (auth = None \<longrightarrow> hp' = hp)"
  using assms by (cases rule: hop_done.cases) (auto dest: begin_flow_keeps)

section \<open>Where credentials go\<close>

text \<open>The origin the caller addressed, or what an HSTS upgrade makes of it.\<close>

definition at_home :: "http_uri \<Rightarrow> http_uri \<Rightarrow> bool" where
  "at_home home u \<longleftrightarrow> \<not> crosses_origin u home \<or> upgraded_from home u"

lemma at_home_upgrade: "at_home home u \<Longrightarrow> v = u \<or> upgraded_from u v \<Longrightarrow> at_home home v"
  by (auto simp: at_home_def upgraded_from_def crosses_origin_def same_host_def eq_ignore_ascii_case_def split: option.splits)

lemma at_home_same: "at_home home u \<Longrightarrow> \<not> crosses_origin v u \<Longrightarrow> at_home home v"
  by (auto simp: at_home_def upgraded_from_def crosses_origin_def same_host_def eq_ignore_ascii_case_def split: option.splits)

lemma own_values_host:
  assumes "same_host v u"
  shows "own_values cl v n = own_values cl u n"
proof -
  have "netrc_credential cl v x = netrc_credential cl u x" for x
    using assms unfolding netrc_credential_def same_host_def eq_ignore_ascii_case_def by (auto split: option.splits)
  then show ?thesis by (simp add: own_values_def)
qed

lemma own_values_origin: "\<not> crosses_origin v u \<Longrightarrow> own_values cl v n = own_values cl u n"
  by (rule own_values_host) (simp add: crosses_origin_def)

lemma own_values_upgrade: "v = u \<or> upgraded_from u v \<Longrightarrow> own_values cl v n = own_values cl u n"
  using own_values_host [of v u cl n] by (auto simp: upgraded_from_def)

text \<open>The request carries nothing of the caller; where the jar attaches, the \<open>Cookie\<close> field is about to be replaced.\<close>

definition bare :: "('h, 'j, 'c) client \<Rightarrow> hop_parts \<Rightarrow> hop_parts \<Rightarrow> bool" where
  "bare cl caller hp \<longleftrightarrow> hp_extensions hp ''AllowEarlyData'' = None \<and>
     (\<forall>n \<in> set SENSITIVE_HEADERS. n = ''cookie'' \<and> jar_attaches cl caller \<or> set (hm_get_all n (hp_headers hp)) \<subseteq> own_values cl (hp_uri hp) n)"

definition confined :: "('h, 'j, 'c) client \<Rightarrow> hop_parts \<Rightarrow> http_uri list \<Rightarrow> 'a chain \<Rightarrow> bool" where
  "confined cl caller us st \<longleftrightarrow>
     (\<forall>u \<in> set us. at_home (hp_uri caller) u) \<and> at_home (hp_uri caller) (hp_uri (ch_hop st)) \<or> ch_auth st = None \<and> bare cl caller (ch_hop st)"

lemma bare_head:
  assumes "loop_head cl caller w auth hp = (bf, hp')" "bare cl caller hp" "uri_build_ok (cl_hsts_env cl) (hp_uri hp)" "has_authority (hp_uri hp)"
  shows "bare cl caller hp'" "n \<in> set SENSITIVE_HEADERS \<Longrightarrow> v \<in> set (hm_get_all n (hp_headers hp')) \<Longrightarrow>
    v \<in> own_values cl (hp_uri hp') n \<or> n = ''cookie'' \<and> jar_attaches cl caller \<and> jar_value cl w (hp_uri hp') = Some v"
proof -
  have same: "own_values cl (hp_uri hp') m = own_values cl (hp_uri hp) m" for m
    by (rule own_values_upgrade [OF loop_head_keeps(2) [OF assms(1,3,4)]])
  have v: "set (hm_get_all m (hp_headers hp')) \<subseteq> own_values cl (hp_uri hp') m \<union>
      (if m = ''cookie'' \<and> jar_attaches cl caller then {v. jar_value cl w (hp_uri hp') = Some v} else {})"
    if "m \<in> set SENSITIVE_HEADERS" for m
    using loop_head_keeps(3) [OF assms(1) that] assms(2) that by (fastforce simp: bare_def same split: if_splits)
  show "bare cl caller hp'" using assms(2) v loop_head_keeps(1) [OF assms(1)] by (fastforce simp: bare_def split: if_splits)
  show "n \<in> set SENSITIVE_HEADERS \<Longrightarrow> v \<in> set (hm_get_all n (hp_headers hp')) \<Longrightarrow>
    v \<in> own_values cl (hp_uri hp') n \<or> n = ''cookie'' \<and> jar_attaches cl caller \<and> jar_value cl w (hp_uri hp') = Some v"
    using v [of n] by (auto split: if_splits)
qed

lemma arm_confined:
  assumes arm: "redirect_arm hv ext pol st replay status location = NextHop st'"
    and keep: "\<forall>p al. pol p = VFollow al \<longrightarrow> \<not> keep_credentials al"
    and u: "hp_uri (ch_hop st) \<in> set us" and c: "confined cl caller us st"
  shows "confined cl caller us st'"
proof -
  obtain f where f: "decide hv ext pol (ch_hops st) (hp_uri (ch_hop st)) (hp_method (ch_hop st)) status location (ch_visited st) = RFollow f"
    "next_hop (ch_hop st) replay f = Some (ch_hop st', ch_body st')" "ch_auth st' = (if strip_sensitive f then None else ch_auth st)"
    by (rule redirect_arm_next [OF arm])
  have s: "strip_sensitive f = crosses_origin (f_uri f) (hp_uri (ch_hop st))"
    by (rule decide_follow [OF f(1)]) (use keep in blast)
  note n = next_hop_some(2,5) [OF f(2)] next_hop_values [OF f(2)]
  show ?thesis
  proof (cases "strip_sensitive f")
    case True
    then show ?thesis using f(3) n by (simp add: confined_def bare_def)
  next
    case False
    then have o: "\<not> crosses_origin (hp_uri (ch_hop st')) (hp_uri (ch_hop st))" using s n(1) by simp
    from c show ?thesis unfolding confined_def
    proof (elim disjE conjE)
      assume "\<forall>u \<in> set us. at_home (hp_uri caller) u" "at_home (hp_uri caller) (hp_uri (ch_hop st))"
      with o show "(\<forall>u \<in> set us. at_home (hp_uri caller) u) \<and> at_home (hp_uri caller) (hp_uri (ch_hop st')) \<or> ch_auth st' = None \<and> bare cl caller (ch_hop st')"
        by (auto intro: at_home_same)
    next
      assume "ch_auth st = None" "bare cl caller (ch_hop st)"
      then have "ch_auth st' = None \<and> bare cl caller (ch_hop st')" using False f(3) n own_values_origin [OF o, of cl] by (auto simp: bare_def)
      then show "(\<forall>u \<in> set us. at_home (hp_uri caller) u) \<and> at_home (hp_uri caller) (hp_uri (ch_hop st')) \<or> ch_auth st' = None \<and> bare cl caller (ch_hop st')" ..
    qed
  qed
qed

lemma head_confined:
  assumes "loop_head cl caller w (ch_auth st) (ch_hop st) = (bf, hp)" "hop_done sch (ch_auth st) replay a0 (bf, hp) a hp'" "confined cl caller us st"
    "uri_build_ok (cl_hsts_env cl) (hp_uri (ch_hop st))" "has_authority (hp_uri (ch_hop st))"
  shows "confined cl caller (us @ [hp_uri hp']) (st\<lparr>ch_hop := hp', ch_attempt := a\<rparr>)"
proof -
  note k = hop_done_keeps [OF assms(2)]
  from assms(3) show ?thesis unfolding confined_def
  proof (elim disjE conjE)
    assume "\<forall>u \<in> set us. at_home (hp_uri caller) u" "at_home (hp_uri caller) (hp_uri (ch_hop st))"
    moreover from this(2) loop_head_keeps(2) [OF assms(1,4,5)] have "at_home (hp_uri caller) (hp_uri hp)" by (rule at_home_upgrade)
    ultimately show "(\<forall>u \<in> set (us @ [hp_uri hp']). at_home (hp_uri caller) u) \<and> at_home (hp_uri caller) (hp_uri (ch_hop (st\<lparr>ch_hop := hp', ch_attempt := a\<rparr>))) \<or>
        ch_auth (st\<lparr>ch_hop := hp', ch_attempt := a\<rparr>) = None \<and> bare cl caller (ch_hop (st\<lparr>ch_hop := hp', ch_attempt := a\<rparr>))" using k by simp
  next
    assume "ch_auth st = None" "bare cl caller (ch_hop st)"
    then show "(\<forall>u \<in> set (us @ [hp_uri hp']). at_home (hp_uri caller) u) \<and> at_home (hp_uri caller) (hp_uri (ch_hop (st\<lparr>ch_hop := hp', ch_attempt := a\<rparr>))) \<or>
        ch_auth (st\<lparr>ch_hop := hp', ch_attempt := a\<rparr>) = None \<and> bare cl caller (ch_hop (st\<lparr>ch_hop := hp', ch_attempt := a\<rparr>))"
      using bare_head(1) [OF assms(1) _ assms(4,5)] k by simp
  qed
qed

lemma client_loop_visited: "client_loop cl sch hv ext pol caller body auth i us st \<Longrightarrow> hp_uri (ch_hop st) \<in> set (ch_visited st)"
proof (induction rule: client_loop.induct)
  case (turn us st w a hp status location st')
  from turn.hyps(3) obtain f where "next_hop hp (rewind (ch_body st)) f = Some (ch_hop st', ch_body st')" "ch_visited st' = ch_visited st @ [f_uri f]"
    by (rule redirect_arm_next) simp
  then show ?case by (simp add: next_hop_some(2))
qed (simp add: chain_start_def)

lemma client_loop_confined:
  assumes "client_loop cl sch hv ext pol caller body auth i us st" "\<forall>p al. pol p = VFollow al \<longrightarrow> \<not> keep_credentials al"
    "\<forall>u \<in> set (ch_visited st). uri_build_ok (cl_hsts_env cl) u \<and> has_authority u"
  shows "confined cl caller us st"
  using assms(1,3)
proof (induction rule: client_loop.induct)
  case entry
  show ?case by (simp add: confined_def chain_start_def at_home_def crosses_origin_def same_host_def eq_ignore_ascii_case_def split: option.splits)
next
  case (turn us st w a hp status location st')
  obtain bf hp0 where h: "loop_head cl caller w (ch_auth st) (ch_hop st) = (bf :: unit before, hp0)" by (cases "loop_head cl caller w (ch_auth st) (ch_hop st) :: unit before \<times> hop_parts")
  from turn.hyps(3) obtain f :: follow where "ch_visited st' = ch_visited st @ [f_uri f]" by (rule redirect_arm_next) simp
  then have v: "\<forall>u \<in> set (ch_visited st). uri_build_ok (cl_hsts_env cl) u \<and> has_authority u" using turn.prems by simp
  have "confined cl caller (us @ [hp_uri hp]) (st\<lparr>ch_hop := hp, ch_attempt := a\<rparr>)"
    using head_confined [OF h turn.hyps(2) [unfolded h] turn.IH [OF v]] v client_loop_visited [OF turn.hyps(1)] by blast
  from arm_confined [OF turn.hyps(3) assms(2) _ this] show ?case by simp
qed

section \<open>Properties\<close>

text \<open>A client with a netrc file, a default header and an authentication scheme, and a redirect to another host.\<close>

definition demo_client :: "(system_time namespaces, held, cache_held) client" where
  "demo_client = \<lparr>cl_hsts_env = Hsts.demo_env, cl_hsts = in_memory, cl_keeps_hsts = False, cl_from_bytes = (\<lambda>_. True),
     cl_jar = memory_ops \<lparr>max_cookies = 10, max_per_domain = 5\<rparr>, cl_keeps_jar = False, cl_cache_env = demo_cache_env, cl_cache = memory_cache 2, cl_keeps_cache = False,
     cl_default_headers = [(''proxy-authorization'', ''p''), (''accept'', ''a''), (''accept'', ''b'')],
     cl_netrc = Some [\<lparr>ne_machine = Some ''b'', ne_login = ''u'', ne_password = ''w'', ne_account = None\<rparr>],
     cl_base64 = (\<lambda>b. b), cl_from_str = (\<lambda>_. True)\<rparr>"

definition demo_world :: "(system_time namespaces, held, cache_held) world" where
  "demo_world = \<lparr>w_hsts = memory_new, w_hsts_now = 0, w_jar = \<lparr>jar_store = held_default, next_seq = 0\<rparr>, w_jar_now = 0, w_cache = cm_default, w_cache_now = 0\<rparr>"

definition demo_scheme :: "(bytes, bytes) scheme" where
  "demo_scheme = \<lparr>au_start = (\<lambda>a. a), au_authorize = (\<lambda>f _ _ _ h. (f, hm_insert ''authorization'' f h)), au_on_response = (\<lambda>f _ _. (f, False))\<rparr>"

definition demo_target_b :: http_uri where
  "demo_target_b = \<lparr>scheme_str = Some ''https'', authority = Some ''b'', host = Some ''b'', port_u16 = None, path = ''/c'', query = None\<rparr>"

definition demo_head :: "bytes option \<Rightarrow> hop_parts \<Rightarrow> hop_parts" where
  "demo_head auth hp = snd (loop_head demo_client demo_hop demo_world auth hp :: unit before \<times> hop_parts)"

lemma demo_head: "loop_head demo_client demo_hop demo_world auth hp = (Continue None, demo_head auth hp)"
  by (simp add: demo_head_def loop_head_def cache_before_def demo_client_def Let_def)

lemma demo_turn:
  obtains st where "client_loop demo_client demo_scheme (\<lambda>_. True) ref_ext (limit 3) demo_hop Empty (Some ''k'') 7 [Redirect.demo_uri] st"
    "ch_visited st = [Redirect.demo_uri, demo_target_b]" "ch_auth st = None" "hp_uri (demo_head None (ch_hop st)) = demo_target_b"
    "hp_headers (demo_head None (ch_hop st)) = [(''accept'', ''a''), (''proxy-authorization'', ''p''), (''authorization'', ''Basic u:w'')]"
proof -
  let ?s0 = "chain_start demo_hop Empty (Some ''k'') 7"
  let ?hp = "snd (begin_flow demo_scheme (Some ''k'') (Some Empty) (demo_head (Some ''k'') demo_hop))"
  have "case redirect_arm (\<lambda>_. True) ref_ext (limit 3) (?s0\<lparr>ch_hop := ?hp\<rparr>) (Some Empty) 302 (Some ''https://b/c'') of
     NextHop st \<Rightarrow> ch_visited st = [Redirect.demo_uri, demo_target_b] \<and> ch_auth st = None \<and> hp_uri (demo_head None (ch_hop st)) = demo_target_b \<and>
       hp_headers (demo_head None (ch_hop st)) = [(''accept'', ''a''), (''proxy-authorization'', ''p''), (''authorization'', ''Basic u:w'')] | _ \<Rightarrow> False"
    by code_simp
  then obtain st where st: "redirect_arm (\<lambda>_. True) ref_ext (limit 3) (?s0\<lparr>ch_hop := ?hp\<rparr>) (Some Empty) 302 (Some ''https://b/c'') = NextHop st"
    "ch_visited st = [Redirect.demo_uri, demo_target_b]" "ch_auth st = None" "hp_uri (demo_head None (ch_hop st)) = demo_target_b"
    "hp_headers (demo_head None (ch_hop st)) = [(''accept'', ''a''), (''proxy-authorization'', ''p''), (''authorization'', ''Basic u:w'')]"
    by (auto split: arm_outcome.splits)
  have start: "ch_hop ?s0 = demo_hop" "ch_auth ?s0 = Some ''k''" "rewind (ch_body ?s0) = Some Empty" by (simp_all add: chain_start_def)
  obtain f0 where "begin_flow demo_scheme (Some ''k'') (Some Empty) (demo_head (Some ''k'') demo_hop) = (f0, ?hp)" by (metis prod.collapse)
  then have "hop_done demo_scheme (Some ''k'') (Some Empty) (ch_attempt ?s0) (Continue None, demo_head (Some ''k'') demo_hop) (ch_attempt ?s0) ?hp"
    by (rule hop_done.sent [OF _ hop_sends.first])
  then have d: "hop_done demo_scheme (ch_auth ?s0) (rewind (ch_body ?s0)) (ch_attempt ?s0)
      (loop_head demo_client demo_hop demo_world (ch_auth ?s0) (ch_hop ?s0) :: unit before \<times> hop_parts) (ch_attempt ?s0) ?hp"
    by (simp only: start demo_head)
  have arm: "redirect_arm (\<lambda>_. True) ref_ext (limit 3) (?s0\<lparr>ch_hop := ?hp, ch_attempt := ch_attempt ?s0\<rparr>) (rewind (ch_body ?s0)) 302 (Some ''https://b/c'') = NextHop st"
    using st(1) by (simp add: chain_start_def)
  have "hp_uri ?hp = Redirect.demo_uri" by code_simp
  with client_loop.turn [OF client_loop.entry d arm] have "client_loop demo_client demo_scheme (\<lambda>_. True) ref_ext (limit 3) demo_hop Empty (Some ''k'') 7 [Redirect.demo_uri] st" by simp
  then show ?thesis using that st by blast
qed

lemma demo_uris_ok: "uri_build_ok (cl_hsts_env demo_client) u \<and> has_authority u" if "u \<in> {Redirect.demo_uri, demo_target_b}" for u
proof -
  have "split_once (CHR '':'') ''a'' = None" "split_once (CHR '':'') ''b'' = None" by code_simp+
  with that show ?thesis
    by (auto simp: demo_client_def uri_build_ok_def Hsts.demo_env_def Redirect.demo_uri_def demo_target_b_def rebuilt_authority_def upgraded_port_def path_query_def
        query_suffix_def has_authority_def)
qed

text \<open>
  Property C1. Credentials do not leave the origin the caller addressed. Under a policy that does not grant \<open>keep_credentials\<close>,
  whatever the servers answer and whatever other operations do to the stores meanwhile: once a hop was, or is about to be, sent to a URI that is neither of the origin of the
  caller's (scheme, host and port) nor of what an HSTS upgrade makes of that, every request from then on, its replays included, is sent with no
  authentication scheme and no early-data mark, and every \<open>Authorization\<close>, \<open>Cookie\<close> and \<open>Proxy-Authorization\<close> value on it is the client's own: a default header, the
  netrc entry of a host of the name it goes to, or what the jar gives for this very URI, and the jar only if the caller wrote no \<open>Cookie\<close>. This
  assumes of the \<open>http\<close> crate that the URIs visited can be built again from their parts.
\<close>

theorem credentials_stay_on_origin:
  assumes "client_loop cl sch hv ext pol caller body auth i us st" "\<forall>p al. pol p = VFollow al \<longrightarrow> \<not> keep_credentials al"
    "\<forall>u \<in> set (ch_visited st). uri_build_ok (cl_hsts_env cl) u \<and> has_authority u"
    "loop_head cl caller w (ch_auth st) (ch_hop st) = (Continue plan, hp)"
    "begin_flow sch (ch_auth st) (rewind (ch_body st)) hp = (f0, hp')" "hop_sends sch (rewind (ch_body st)) hp' f0 (ch_attempt st) early legs f a r"
    "u \<in> set us \<or> u = hp_uri r" "origin u \<noteq> origin (hp_uri caller)" "\<not> upgraded_from (hp_uri caller) u"
  shows "f = None \<and> hp_extensions r ''AllowEarlyData'' = None \<and>
    (\<forall>n \<in> {''authorization'', ''cookie'', ''proxy-authorization''}. \<forall>v \<in> set (hm_get_all n (hp_headers r)).
       (n, v) \<in> set (cl_default_headers cl) \<or> n = ''authorization'' \<and> netrc_credential cl (hp_uri r) v \<or>
       n = ''cookie'' \<and> cl_keeps_jar cl \<and> \<not> caller_owns_the_cookie_header caller \<and>
         fst (cookie_header (cl_from_bytes cl) (cl_jar cl) (w_jar w) (hp_uri r) (w_jar_now w)) = Some v)"
proof -
  have ok: "uri_build_ok (cl_hsts_env cl) (hp_uri (ch_hop st))" "has_authority (hp_uri (ch_hop st))"
    using assms(3) client_loop_visited [OF assms(1)] by blast+
  have c: "confined cl caller us st" by (rule client_loop_confined [OF assms(1-3)])
  have uri: "hp_uri r = hp_uri hp" using hop_sends_uri [OF assms(6)] begin_flow_keeps [OF assms(5)] by simp
  have "\<not> ((\<forall>u \<in> set us. at_home (hp_uri caller) u) \<and> at_home (hp_uri caller) (hp_uri (ch_hop st)))"
    using at_home_upgrade [OF _ loop_head_keeps(2) [OF assms(4) ok]] assms(7-9) uri by (auto simp: at_home_def crosses_origin_iff)
  then have b: "ch_auth st = None" "bare cl caller (ch_hop st)" using c by (auto simp: confined_def)
  from begin_flow_keeps [OF assms(5)] b(1) have "f0 = None" "hp' = hp" by simp_all
  then have r: "f = None" "r = hp \<or> r = outside_early_data hp" using hop_sends_no_scheme [OF assms(6)] by simp_all
  note h = bare_head [OF assms(4) b(2) ok]
  have "hp_extensions r ''AllowEarlyData'' = None" "hp_headers r = hp_headers hp" using r(2) h(1) by (auto simp: bare_def outside_early_data_def)
  then show ?thesis using r(1) h(2) uri by (simp add: SENSITIVE_HEADERS_def own_values_def jar_attaches_def jar_value_def)
qed

theorem credentials_stay_on_origin_witness:
  "\<exists>st hp. client_loop demo_client demo_scheme (\<lambda>_. True) ref_ext (limit 3) demo_hop Empty (Some ''k'') 7 [Redirect.demo_uri] st \<and>
     loop_head demo_client demo_hop demo_world (ch_auth st) (ch_hop st) = (Continue None :: unit before, hp) \<and>
     hp_uri hp = demo_target_b \<and> hm_get_all ''authorization'' (hp_headers hp) = [''Basic u:w''] \<and> netrc_credential demo_client demo_target_b ''Basic u:w'' \<and>
     hp_extensions hp ''AllowEarlyData'' = None"
proof -
  obtain st where st: "client_loop demo_client demo_scheme (\<lambda>_. True) ref_ext (limit 3) demo_hop Empty (Some ''k'') 7 [Redirect.demo_uri] st"
    "ch_visited st = [Redirect.demo_uri, demo_target_b]" "ch_auth st = None" "hp_uri (demo_head None (ch_hop st)) = demo_target_b"
    "hp_headers (demo_head None (ch_hop st)) = [(''accept'', ''a''), (''proxy-authorization'', ''p''), (''authorization'', ''Basic u:w'')]" by (rule demo_turn)
  let ?hp = "demo_head None (ch_hop st)"
  have g: "\<forall>p al. limit 3 p = VFollow al \<longrightarrow> \<not> keep_credentials al"
    by (auto simp: limit_def verdict_follow_def allow_default_def split: if_splits)
  have ok: "\<forall>u \<in> set (ch_visited st). uri_build_ok (cl_hsts_env demo_client) u \<and> has_authority u" using demo_uris_ok st(2) by simp
  have h: "loop_head demo_client demo_hop demo_world (ch_auth st) (ch_hop st) = (Continue None :: unit before, ?hp)" using st(3) by (simp add: demo_head)
  have bf: "begin_flow demo_scheme (ch_auth st) (rewind (ch_body st)) ?hp = (None, ?hp)" using st(3) by (simp add: begin_flow_def)
  have o: "origin demo_target_b \<noteq> origin (hp_uri demo_hop)" "\<not> upgraded_from (hp_uri demo_hop) demo_target_b" by code_simp+
  note c = credentials_stay_on_origin [OF st(1) g ok h bf hop_sends.first disjI2 [OF refl], unfolded st(4), OF o]
  then have "hp_extensions ?hp ''AllowEarlyData'' = None" by blast
  moreover from c have "\<forall>v \<in> set (hm_get_all ''authorization'' (hp_headers ?hp)). (''authorization'', v) \<in> set (cl_default_headers demo_client) \<or> netrc_credential demo_client demo_target_b v"
    by simp
  then have "netrc_credential demo_client demo_target_b ''Basic u:w''" by (simp add: st(5) hm_get_all_def demo_client_def)
  ultimately show ?thesis using st h by (auto simp: hm_get_all_def)
qed

text \<open>Under \<open>HttpsOnly\<close> an operation that begins on https stays there, whatever the servers answer.\<close>

lemma upgrade_leaves_https: "scheme_str uri = Some ''https'' \<Longrightarrow> fst (upgrade_scheme env S hsts uri now) = uri"
  by (auto simp: upgrade_scheme_def hsts_upgrade_def split: option.splits prod.splits)

lemma loop_head_https:
  assumes "loop_head cl caller w auth hp = (bf, hp')" "scheme_str (hp_uri hp) = Some ''https''"
  shows "hp_uri hp' = hp_uri hp"
proof -
  from assms obtain hp3 where "cache_before (cl_cache_env cl) (cl_cache cl) (if cl_keeps_cache cl then Some (w_cache w) else None) hp3
      (caller_owns_the_conditionals caller) (w_cache_now w) = (bf, hp')" "hp_uri hp3 = hp_uri hp"
    by (auto simp: loop_head_def Let_def attach_cookies_keeps upgrade_leaves_https)
  then show ?thesis using before_keeps by fastforce
qed

lemma client_loop_https:
  assumes "client_loop cl sch hv ext (policy_all ps) caller body auth i us st" "https_only \<in> set ps" "scheme_str (hp_uri caller) = Some ''https''"
  shows "(\<forall>u \<in> set us. scheme_str u = Some ''https'') \<and> scheme_str (hp_uri (ch_hop st)) = Some ''https''"
  using assms(1)
proof (induction rule: client_loop.induct)
  case (turn us st w a hp status location st')
  obtain bf hp0 where h: "loop_head cl caller w (ch_auth st) (ch_hop st) = (bf :: unit before, hp0)" by (cases "loop_head cl caller w (ch_auth st) (ch_hop st) :: unit before \<times> hop_parts")
  have u: "scheme_str (hp_uri hp) = Some ''https''"
    using loop_head_https [OF h] hop_done_keeps [OF turn.hyps(2) [unfolded h]] turn.IH by simp
  from turn.hyps(3) obtain f where f: "decide hv ext (policy_all ps) (ch_hops st) (hp_uri hp) (hp_method hp) status location (ch_visited st) = RFollow f"
    "next_hop hp (rewind (ch_body st)) f = Some (ch_hop st', ch_body st')" by (rule redirect_arm_next) simp
  have "scheme_str (f_uri f) = Some ''https''"
    by (rule decide_follow [OF f(1)]) (use keeps_https_all [OF assms(2)] u in \<open>fastforce simp: keeps_https_def\<close>)
  then show ?case using u turn.IH next_hop_some(2) [OF f(2)] by simp
qed (simp add: chain_start_def assms(3))

section \<open>Where the comments and the code part\<close>

text \<open>
  The comment at the netrc block says that nothing travels from the previous hop. Under a policy that grants \<open>keep_credentials\<close>
  the credentials of one host's entry go on to another, whose own entry is then not looked at.
\<close>

lemma netrc_entry_travels:
  "case redirect_arm (\<lambda>_. True) ref_ext (\<lambda>_. VFollow allow_everything)
      (chain_start (demo_head None (demo_hop\<lparr>hp_uri := demo_target_b, hp_headers := []\<rparr>)) Empty (None :: bytes option) 7) (Some Empty) 302 (Some ''https://other/'') of
     NextHop st \<Rightarrow> host (hp_uri (demo_head None (ch_hop st))) = Some ''other'' \<and>
       hm_get_all ''authorization'' (hp_headers (demo_head None (ch_hop st))) = [''Basic u:w'']
   | _ \<Rightarrow> False"
  by code_simp

text \<open>Of the values of a default header only the first is sent: the second finds the name already there.\<close>

lemma default_header_first_value_only:
  "hm_get_all ''accept'' (cl_default_headers demo_client) = [''a'', ''b'']" "hm_get_all ''accept'' (hp_headers (demo_head None demo_hop)) = [''a'']"
  by code_simp+

end
