(* ===== verification/Byte_Codec.thy ===== *)
theory Byte_Codec
  imports Hsts_Store
begin

text \<open>
  What the encodings of \<open>crates/hclient/src/cache/kv.rs\<close> and \<open>crates/hclient/src/cookie/kv.rs\<close> share: numbers of a fixed
  number of bytes, the lengths before the parts they count, and the cursor \<open>Reader\<close> that reads them back or refuses.
  Each reader is characterised by the bytes it accepts.
\<close>

section \<open>Writing\<close>

text \<open>\<open>uN::try_from(n).ok()?.to_le_bytes()\<close> for a number of \<open>k\<close> bytes, and the parts of an encoding one after the other, none of which may fail.\<close>

definition put_uint :: "nat \<Rightarrow> nat \<Rightarrow> bytes option" where
  "put_uint k n = (if n < 256 ^ k then Some (to_le_bytes k n) else None)"

primrec put_all :: "bytes option list \<Rightarrow> bytes option" where
  "put_all [] = Some []"
| "put_all (x # xs) = Option.bind x (\<lambda>a. map_option (\<lambda>r. a @ r) (put_all xs))"

section \<open>Reading\<close>

text \<open>The cursor \<open>Reader\<close>.\<close>

type_synonym 'a cursor = "bytes \<Rightarrow> ('a \<times> bytes) option"

definition rd_take :: "nat \<Rightarrow> bytes cursor" where
  "rd_take n bs = (if n \<le> length bs then Some (take n bs, drop n bs) else None)"

definition rd_uint :: "nat \<Rightarrow> nat cursor" where
  "rd_uint k bs = map_option (\<lambda>(h, r). (from_le_bytes h, r)) (rd_take k bs)"

definition rd_blob :: "nat \<Rightarrow> bytes cursor" where
  "rd_blob k bs = Option.bind (rd_uint k bs) (\<lambda>(n, r). rd_take n r)"

definition rd_time :: "system_time cursor" where
  "rd_time bs = Option.bind (rd_uint 8 bs) (\<lambda>(n, r). map_option (\<lambda>t. (t, r)) (at_epoch_plus n))"

section \<open>What is written is read\<close>

lemma rd_take_append [simp]: "rd_take (length a) (a @ r) = Some (a, r)"
  by (simp add: rd_take_def)

lemma rd_uint_put [simp]: "n < 256 ^ k \<Longrightarrow> rd_uint k (to_le_bytes k n @ r) = Some (n, r)"
  using rd_take_append [of "to_le_bytes k n" r] by (simp add: rd_uint_def from_to_le_bytes)

lemma put_uint_Some: "put_uint k n = Some b \<longleftrightarrow> n < 256 ^ k \<and> b = to_le_bytes k n"
  by (auto simp: put_uint_def)

lemma rd_blob_put: "length x < 256 ^ k \<Longrightarrow> rd_blob k (to_le_bytes k (length x) @ x @ r) = Some (x, r)"
  by (simp add: rd_blob_def)

lemma put_all_Cons: "put_all (x # xs) = Some b \<longleftrightarrow> (\<exists>a r. x = Some a \<and> put_all xs = Some r \<and> b = a @ r)"
  by (auto simp: bind_eq_Some_conv)

lemma put_all_append: "put_all (xs @ ys) = Some b \<longleftrightarrow> (\<exists>a r. put_all xs = Some a \<and> put_all ys = Some r \<and> b = a @ r)"
  by (induction xs arbitrary: b) (auto simp: bind_eq_Some_conv)

lemmas put_all_iff = put_all_Cons put_all_append put_uint_Some

declare put_all.simps(2) [simp del]

lemma rd_byte: "rd_uint (Suc 0) (char_of n # r) = Some (n mod 256, r)"
  by (simp add: rd_uint_def rd_take_def byte_val_char_of)

lemma rd_time_any: "rd_time (to_le_bytes 8 n @ r) = map_option (\<lambda>t. (t, r)) (at_epoch_plus (n mod 256 ^ 8))"
  using rd_take_append [of "to_le_bytes 8 n" r] by (simp add: rd_time_def rd_uint_def from_to_le_bytes)

lemma at_epoch_secs:
  assumes "t \<le> systime_max"
  shows "at_epoch_plus (expiry_secs t mod 256 ^ 8) = Some (int (expiry_secs t) * 1000000000)"
proof -
  have "expiry_secs t \<le> 9223372036854775807" using expiry_secs_bound assms by blast
  then show ?thesis by (simp add: at_epoch_plus_def checked_add_def from_secs_def nanos_per_sec_def systime_max_def)
qed

section \<open>Lists and separators\<close>

lemma split_at_sep: "x \<notin> set a \<Longrightarrow> x \<notin> set b \<Longrightarrow> a @ x # r = b @ x # r' \<longleftrightarrow> a = b \<and> r = r'"
proof (induction a arbitrary: b)
  case Nil
  then show ?case by (cases b) auto
next
  case (Cons y a)
  then show ?case by (cases b) auto
qed

section \<open>What is read was written\<close>

lemma rd_take_Some: "rd_take n bs = Some (a, r) \<longleftrightarrow> bs = a @ r \<and> length a = n"
  by (auto simp: rd_take_def split: if_splits)

lemma from_le_bytes_less: "from_le_bytes bs < 256 ^ length bs"
proof (induction bs)
  case (Cons b bs)
  have "byte_val b < 256" by (simp add: byte_val_def)
  then show ?case using Cons by simp
qed simp

lemma rd_uint_Some: "rd_uint k bs = Some (n, r) \<longleftrightarrow> bs = to_le_bytes k n @ r \<and> n < 256 ^ k"
proof
  assume "rd_uint k bs = Some (n, r)"
  then obtain a where a: "bs = a @ r" "length a = k" "n = from_le_bytes a"
    by (auto simp: rd_uint_def rd_take_Some)
  then show "bs = to_le_bytes k n @ r \<and> n < 256 ^ k" using to_from_le_bytes [of a] from_le_bytes_less [of a] by simp
qed simp

lemma rd_blob_Some: "rd_blob k bs = Some (x, r) \<longleftrightarrow> bs = to_le_bytes k (length x) @ x @ r \<and> length x < 256 ^ k"
  by (auto simp: rd_blob_def bind_eq_Some_conv rd_uint_Some rd_take_Some)

lemma at_epoch_Some: "at_epoch_plus n = Some t \<longleftrightarrow> n \<le> 9223372036854775807 \<and> t = int n * 1000000000"
  by (auto simp: at_epoch_plus_def checked_add_def from_secs_def nanos_per_sec_def systime_max_def)

text \<open>A time in whole seconds that the clock can show, and the cut of a time to one.\<close>

definition whole_sec :: "system_time \<Rightarrow> system_time" where
  "whole_sec t = int (expiry_secs t) * 1000000000"

definition sec_ok :: "system_time \<Rightarrow> bool" where
  "sec_ok t \<longleftrightarrow> 0 \<le> t \<and> t \<le> systime_max \<and> whole_sec t = t"

lemma whole_sec_of: "expiry_secs (int n * 1000000000) = n"
  by (simp add: expiry_secs_def)

lemma sec_ok_iff: "sec_ok t \<longleftrightarrow> (\<exists>n \<le> 9223372036854775807. t = int n * 1000000000)"
proof
  assume "sec_ok t"
  then show "\<exists>n \<le> 9223372036854775807. t = int n * 1000000000"
    using expiry_secs_bound [of t] by (intro exI [of _ "expiry_secs t"]) (auto simp: sec_ok_def whole_sec_def)
next
  assume "\<exists>n \<le> 9223372036854775807. t = int n * 1000000000"
  then obtain n where "n \<le> 9223372036854775807" "t = int n * 1000000000" by blast
  then show "sec_ok t" by (simp add: sec_ok_def whole_sec_def whole_sec_of systime_max_def)
qed

lemma sec_ok_whole: "t \<le> systime_max \<Longrightarrow> sec_ok (whole_sec t)"
  using expiry_secs_bound [of t] unfolding sec_ok_iff whole_sec_def by blast

lemma rd_time_Some: "rd_time bs = Some (t, r) \<longleftrightarrow> sec_ok t \<and> bs = to_le_bytes 8 (expiry_secs t) @ r"
proof -
  have "rd_time bs = Some (t, r) \<longleftrightarrow> (\<exists>n. bs = to_le_bytes 8 n @ r \<and> n < 256 ^ 8 \<and> n \<le> 9223372036854775807 \<and> t = int n * 1000000000)"
    by (auto simp: rd_time_def bind_eq_Some_conv rd_uint_Some at_epoch_Some simp del: power_numeral)
  also have "\<dots> \<longleftrightarrow> sec_ok t \<and> bs = to_le_bytes 8 (expiry_secs t) @ r"
    unfolding sec_ok_iff by (auto simp: whole_sec_of)
  finally show ?thesis .
qed

lemma expiry_secs_whole [simp]: "expiry_secs (whole_sec t) = expiry_secs t"
  by (simp add: whole_sec_def whole_sec_of)

end
