(* ===== verification/Cache_Kv.thy ===== *)
theory Cache_Kv
  imports Http_Cache Byte_Codec "HOL-Library.Word"
begin

unbundle bit_operations_syntax

text \<open>
  The response cache over a byte store, \<open>crates/hclient/src/cache/kv.rs\<close>: the keys of variants with the digest of
  their selector, the encoding of a stored response, and \<open>KvStore\<close>, whose count of variants is a 64-bit counter
  beside the byte store.

  The codec takes from the \<open>http\<close> crate \<open>hn\<close>, \<open>HeaderName::from_bytes\<close>; \<open>hv\<close>, whether \<open>HeaderValue::from_bytes\<close> accepts the bytes;
  and \<open>sc\<close>, whether \<open>StatusCode::from_u16\<close> accepts the number. A version is its number times ten.
\<close>

section \<open>Keys\<close>

definition CACHE_NS :: bytes where
  "CACHE_NS = ''cache''"

definition prefix_for :: "cache_key \<Rightarrow> bytes" where
  "prefix_for k = k_method k @ [CHR 0x01] @ k_target k @ [CHR 0x01]"

definition fnv_eat :: "64 word \<Rightarrow> byte \<Rightarrow> 64 word" where
  "fnv_eat h b = (h XOR of_nat (byte_val b)) * 0x100000001b3"

definition eat :: "64 word \<Rightarrow> bytes \<Rightarrow> 64 word" where
  "eat h bs = foldl fnv_eat h bs"

definition digest :: "selector \<Rightarrow> 64 word" where
  "digest sel =
     foldl (\<lambda>h (n, v).
       let h = eat (eat h n) [CHR 0x00];
           h = (case v of Some x \<Rightarrow> eat (eat h [CHR 0x01]) x | None \<Rightarrow> eat h [CHR 0x02])
       in eat h [CHR 0x00]) 0xcbf29ce484222325 sel"

text \<open>\<open>{:016x}\<close>\<close>

definition hex_digit :: "nat \<Rightarrow> byte" where
  "hex_digit d = char_of (if d < 10 then 48 + d else 87 + d)"

primrec hex_bytes :: "nat \<Rightarrow> nat \<Rightarrow> bytes" where
  "hex_bytes 0 n = []"
| "hex_bytes (Suc k) n = hex_bytes k (n div 16) @ [hex_digit (n mod 16)]"

definition key_for :: "cache_key \<Rightarrow> selector \<Rightarrow> bytes" where
  "key_for k sel = prefix_for k @ hex_bytes 16 (unat (digest sel))"

section \<open>Encoding\<close>

definition version_tag :: "nat \<Rightarrow> nat option" where
  "version_tag v = map_of [(9, 0), (10, 1), (11, 2), (20, 3), (30, 4)] v"

definition version_of :: "nat \<Rightarrow> nat option" where
  "version_of t = map_of [(0, 9), (1, 10), (2, 11), (3, 20), (4, 30)] t"

definition put_header :: "bytes \<times> bytes \<Rightarrow> bytes option" where
  "put_header p = (case p of (n, v) \<Rightarrow> put_all [put_uint 2 (length n), Some n, put_uint 4 (length v), Some v])"

definition put_field :: "bytes \<times> bytes option \<Rightarrow> bytes option" where
  "put_field p = (case p of (n, v) \<Rightarrow>
     put_all ([put_uint 2 (length n), Some n] @
       (case v of Some x \<Rightarrow> [Some [CHR 0x01], put_uint 4 (length x), Some x] | None \<Rightarrow> [Some [CHR 0x00]])))"

definition response_encode :: "stored_response \<Rightarrow> bytes option" where
  "response_encode e =
     put_all ([Some (to_le_bytes 2 (sr_status e)), map_option (\<lambda>t. [char_of t]) (version_tag (sr_version e)),
       Some (to_le_bytes 8 (expiry_secs (sr_requested_at e))), Some (to_le_bytes 8 (expiry_secs (sr_received_at e))),
       put_uint 4 (length (sr_headers e))] @ map put_header (sr_headers e) @
      [put_uint 4 (length (sr_selector e))] @ map put_field (sr_selector e) @
      [put_uint 8 (length (sr_body e)), Some (sr_body e)])"

section \<open>Decoding\<close>

definition rd_name :: "(bytes \<Rightarrow> bytes option) \<Rightarrow> bytes cursor" where
  "rd_name hn bs = Option.bind (rd_blob 2 bs) (\<lambda>(x, r). map_option (\<lambda>n. (n, r)) (hn x))"

definition rd_value :: "(bytes \<Rightarrow> bool) \<Rightarrow> bytes cursor" where
  "rd_value hv bs = Option.bind (rd_blob 4 bs) (\<lambda>(x, r). if hv x then Some (x, r) else None)"

definition rd_header :: "(bytes \<Rightarrow> bytes option) \<Rightarrow> (bytes \<Rightarrow> bool) \<Rightarrow> (bytes \<times> bytes) cursor" where
  "rd_header hn hv bs = Option.bind (rd_name hn bs) (\<lambda>(n, r). map_option (\<lambda>(v, r'). ((n, v), r')) (rd_value hv r))"

definition rd_field :: "(bytes \<Rightarrow> bytes option) \<Rightarrow> (bytes \<Rightarrow> bool) \<Rightarrow> (bytes \<times> bytes option) cursor" where
  "rd_field hn hv bs =
     Option.bind (rd_name hn bs) (\<lambda>(n, r). Option.bind (rd_uint 1 r) (\<lambda>(t, r').
       if t = 0 then Some ((n, None), r')
       else if t = 1 then map_option (\<lambda>(v, r''). ((n, Some v), r'')) (rd_value hv r')
       else None))"

primrec rd_times :: "nat \<Rightarrow> 'a cursor \<Rightarrow> 'a list cursor" where
  "rd_times 0 p bs = Some ([], bs)"
| "rd_times (Suc n) p bs = Option.bind (p bs) (\<lambda>(x, r). map_option (\<lambda>(xs, r'). (x # xs, r')) (rd_times n p r))"

definition rd_counted :: "'a cursor \<Rightarrow> 'a list cursor" where
  "rd_counted p bs = Option.bind (rd_uint 4 bs) (\<lambda>(n, r). rd_times n p r)"

definition response_decode :: "(bytes \<Rightarrow> bytes option) \<Rightarrow> (bytes \<Rightarrow> bool) \<Rightarrow> (nat \<Rightarrow> bool) \<Rightarrow> bytes \<Rightarrow> stored_response option" where
  "response_decode hn hv sc bs =
     Option.bind (rd_uint 2 bs) (\<lambda>(status, r1). if \<not> sc status then None else
     Option.bind (rd_uint 1 r1) (\<lambda>(t, r2). Option.bind (version_of t) (\<lambda>version.
     Option.bind (rd_time r2) (\<lambda>(requested_at, r3).
     Option.bind (rd_time r3) (\<lambda>(received_at, r4).
     Option.bind (rd_counted (rd_header hn hv) r4) (\<lambda>(headers, r5).
     Option.bind (rd_counted (rd_field hn hv) r5) (\<lambda>(flds, r6).
     Option.bind (rd_blob 8 r6) (\<lambda>(body, r7).
       if r7 \<noteq> [] then None
       else Some \<lparr>sr_status = status, sr_version = version, sr_headers = headers, sr_body = body,
         sr_selector = selector_from_fields flds, sr_requested_at = requested_at, sr_received_at = received_at\<rparr>))))))))"

definition received_at_of :: "bytes \<Rightarrow> nat option" where
  "received_at_of bs = Option.bind (rd_take (2 + 1 + 8) bs) (\<lambda>(_, r). map_option fst (rd_uint 8 r))"

section \<open>The store\<close>

text \<open>The byte store and the counter \<open>held\<close>, an \<open>AtomicUsize\<close>, which wraps.\<close>

record 's kv_cache =
  kc_kv :: 's
  kc_held :: "64 word"

datatype kc_step = StRemove bytes | StPut bytes bytes | StRemovePrefix bytes

definition start :: "'s key_value_store \<Rightarrow> 's \<Rightarrow> kc_step \<Rightarrow> 's" where
  "start K s st =
     (case st of
        StRemove k \<Rightarrow> kv_remove K s CACHE_NS k
      | StPut k v \<Rightarrow> kv_put K s CACHE_NS k v None 0
      | StRemovePrefix p \<Rightarrow> kv_remove_prefix K s CACHE_NS p)"

definition kc_get :: "(bytes \<Rightarrow> bytes option) \<Rightarrow> (bytes \<Rightarrow> bool) \<Rightarrow> (nat \<Rightarrow> bool) \<Rightarrow> 's key_value_store \<Rightarrow> 's kv_cache \<Rightarrow> cache_key \<Rightarrow> stored_response list" where
  "kc_get hn hv sc K c key =
     List.map_filter (\<lambda>(_, v). response_decode hn hv sc v) (kv_scan K (kc_kv c) CACHE_NS (prefix_for key) 0)"

text \<open>The oldest of what the scan found, as many as leave room for one.\<close>

definition kc_victims :: "nat \<Rightarrow> (bytes \<times> bytes) list \<Rightarrow> bytes list" where
  "kc_victims capacity found =
     (let victims = sort_key fst (List.map_filter (\<lambda>(k, v). map_option (\<lambda>t. (t, k)) (received_at_of v)) found) in
      map snd (take (length found - (capacity - 1)) victims))"

definition kc_put :: "'s key_value_store \<Rightarrow> nat \<Rightarrow> 's kv_cache \<Rightarrow> cache_key \<Rightarrow> stored_response \<Rightarrow> 's kv_cache" where
  "kc_put K capacity c key e =
     (case response_encode e of
        None \<Rightarrow> c
      | Some value \<Rightarrow>
          if capacity = 0 then c
          else
            let k = key_for key (sr_selector e);
                held = kc_held c + 1 in
            if unat held > capacity then
              let vs = kc_victims capacity (kv_scan K (kc_kv c) CACHE_NS [] 0) in
              \<lparr>kc_kv = foldl (start K) (kc_kv c) (rev (map StRemove vs) @ [StRemove k, StPut k value]),
               kc_held = held - of_nat (length vs)\<rparr>
            else \<lparr>kc_kv = foldl (start K) (kc_kv c) [StRemove k, StPut k value], kc_held = held\<rparr>)"

definition kc_remove :: "'s key_value_store \<Rightarrow> 's kv_cache \<Rightarrow> cache_key \<Rightarrow> selector \<Rightarrow> 's kv_cache" where
  "kc_remove K c key sel = \<lparr>kc_kv = start K (kc_kv c) (StRemove (key_for key sel)), kc_held = kc_held c - 1\<rparr>"

definition kc_invalidate :: "'s key_value_store \<Rightarrow> 's kv_cache \<Rightarrow> cache_key \<Rightarrow> 's kv_cache" where
  "kc_invalidate K c key = c\<lparr>kc_kv := start K (kc_kv c) (StRemovePrefix (prefix_for key))\<rparr>"

definition kc_len :: "'s key_value_store \<Rightarrow> 's kv_cache \<Rightarrow> nat" where
  "kc_len K c = length (kv_scan K (kc_kv c) CACHE_NS [] 0)"

definition kc_clear :: "'s key_value_store \<Rightarrow> 's kv_cache \<Rightarrow> 's kv_cache" where
  "kc_clear K c = \<lparr>kc_kv = kv_clear K (kc_kv c) CACHE_NS, kc_held = 0\<rparr>"

definition kc_new :: "'s \<Rightarrow> 's kv_cache" where
  "kc_new s = \<lparr>kc_kv = s, kc_held = 0\<rparr>"

definition kv_cache_store ::
  "(bytes \<Rightarrow> bytes option) \<Rightarrow> (bytes \<Rightarrow> bool) \<Rightarrow> (nat \<Rightarrow> bool) \<Rightarrow> 's key_value_store \<Rightarrow> nat \<Rightarrow> 's kv_cache cache_store" where
  "kv_cache_store hn hv sc K capacity = \<lparr>cs_get = kc_get hn hv sc K, cs_put = kc_put K capacity, cs_remove = kc_remove K,
     cs_invalidate = kc_invalidate K, cs_len = kc_len K, cs_clear = kc_clear K\<rparr>"

section \<open>The codec\<close>

text \<open>What reading back makes of a field: its name may be another, and it may be refused.\<close>

definition norm_header :: "(bytes \<Rightarrow> bytes option) \<Rightarrow> (bytes \<Rightarrow> bool) \<Rightarrow> bytes \<times> bytes \<Rightarrow> (bytes \<times> bytes) option" where
  "norm_header hn hv p = (case p of (n, v) \<Rightarrow> Option.bind (hn n) (\<lambda>m. if hv v then Some (m, v) else None))"

definition norm_field :: "(bytes \<Rightarrow> bytes option) \<Rightarrow> (bytes \<Rightarrow> bool) \<Rightarrow> bytes \<times> bytes option \<Rightarrow> (bytes \<times> bytes option) option" where
  "norm_field hn hv p =
     (case p of (n, v) \<Rightarrow> Option.bind (hn n) (\<lambda>m. if pred_option hv v then Some (m, v) else None))"

lemma rd_header_put: "put_header p = Some b \<Longrightarrow> rd_header hn hv (b @ r) = map_option (\<lambda>q. (q, r)) (norm_header hn hv p)"
proof -
  assume b: "put_header p = Some b"
  obtain n v where p: "p = (n, v)" by (cases p)
  have e: "b @ r = to_le_bytes 2 (length n) @ n @ to_le_bytes 4 (length v) @ v @ r" "length n < 256 ^ 2" "length v < 256 ^ 4"
    using b by (auto simp: put_header_def p put_all_iff)
  show ?thesis unfolding e(1) rd_header_def rd_name_def rd_value_def rd_blob_put [OF e(2)]
    by (cases "hn n") (simp_all add: rd_blob_put [OF e(3)] p norm_header_def)
qed

lemma rd_field_put: "put_field p = Some b \<Longrightarrow> rd_field hn hv (b @ r) = map_option (\<lambda>q. (q, r)) (norm_field hn hv p)"
proof -
  assume b: "put_field p = Some b"
  obtain n v where p: "p = (n, v)" by (cases p)
  have len: "length n < 256 ^ 2" using b by (auto simp: put_field_def p put_all_iff)
  have byte: "rd_uint (Suc 0) (CHR 0x00 # r) = Some (0, r)" "rd_uint (Suc 0) (CHR 0x01 # r) = Some (1, r)" for r
    by (simp_all add: rd_uint_def rd_take_def byte_val_def)
  show ?thesis
  proof (cases v)
    case None
    have e: "b @ r = to_le_bytes 2 (length n) @ n @ CHR 0x00 # r"
      using b by (auto simp: put_field_def p None put_all_iff)
    show ?thesis unfolding e(1) rd_field_def rd_name_def rd_blob_put [OF len]
      by (cases "hn n") (simp_all add: byte p None norm_field_def)
  next
    case (Some x)
    have e: "b @ r = to_le_bytes 2 (length n) @ n @ CHR 0x01 # to_le_bytes 4 (length x) @ x @ r" "length x < 256 ^ 4"
      using b by (auto simp: put_field_def p Some put_all_iff)
    show ?thesis unfolding e(1) rd_field_def rd_name_def rd_blob_put [OF len]
      by (cases "hn n") (simp_all add: byte p Some norm_field_def rd_value_def rd_blob_put [OF e(2)])
  qed
qed

lemma rd_times_put:
  assumes "\<And>x b r. wr x = Some b \<Longrightarrow> rd (b @ r) = map_option (\<lambda>q. (q, r)) (norm x)"
  shows "put_all (map wr xs) = Some b \<Longrightarrow> rd_times (length xs) rd (b @ r) = map_option (\<lambda>qs. (qs, r)) (those (map norm xs))"
proof (induction xs arbitrary: b)
  case (Cons x xs)
  then obtain a c where b: "wr x = Some a" "put_all (map wr xs) = Some c" "b = a @ c" by (auto simp: put_all_iff)
  show ?case using assms [OF b(1), of "c @ r"] Cons.IH [OF b(2)] b(3)
    by (cases "norm x"; cases "those (map norm xs)") auto
qed simp

text \<open>What is left of the times: whole seconds since the epoch.\<close>

definition cut :: "stored_response \<Rightarrow> stored_response" where
  "cut e = e\<lparr>sr_requested_at := int (expiry_secs (sr_requested_at e)) * 1000000000,
             sr_received_at := int (expiry_secs (sr_received_at e)) * 1000000000\<rparr>"

lemma version_tags: "version_tag v = Some t \<Longrightarrow> version_of t = Some v \<and> t < 256"
  by (auto simp: version_tag_def version_of_def split: if_splits)

lemma encode_parts:
  assumes "response_encode e = Some bs"
  obtains t hs fs where "version_tag (sr_version e) = Some t" "put_all (map put_header (sr_headers e)) = Some hs"
    "put_all (map put_field (sr_selector e)) = Some fs"
    "length (sr_headers e) < 256 ^ 4" "length (sr_selector e) < 256 ^ 4" "length (sr_body e) < 256 ^ 8"
    "bs = to_le_bytes 2 (sr_status e) @ char_of t # to_le_bytes 8 (expiry_secs (sr_requested_at e)) @
       to_le_bytes 8 (expiry_secs (sr_received_at e)) @ to_le_bytes 4 (length (sr_headers e)) @ hs @
       to_le_bytes 4 (length (sr_selector e)) @ fs @ to_le_bytes 8 (length (sr_body e)) @ sr_body e"
  using assms by (auto simp: response_encode_def put_all_iff simp del: append_assoc)

text \<open>Reading what was written, for any times: only these, the names and the values can make it fail.\<close>

lemma decode_encoded:
  assumes enc: "response_encode e = Some bs" and st: "sr_status e < 65536"
  shows "response_decode hn hv sc bs =
    (if sc (sr_status e) then
       Option.bind (at_epoch_plus (expiry_secs (sr_requested_at e) mod 256 ^ 8)) (\<lambda>t1.
       Option.bind (at_epoch_plus (expiry_secs (sr_received_at e) mod 256 ^ 8)) (\<lambda>t2.
       Option.bind (those (map (norm_header hn hv) (sr_headers e))) (\<lambda>hs.
       map_option (\<lambda>fs. e\<lparr>sr_requested_at := t1, sr_received_at := t2, sr_headers := hs, sr_selector := selector_from_fields fs\<rparr>)
         (those (map (norm_field hn hv) (sr_selector e))))))
     else None)"
proof -
  obtain tg hs fs where p: "version_tag (sr_version e) = Some tg" "put_all (map put_header (sr_headers e)) = Some hs"
    "put_all (map put_field (sr_selector e)) = Some fs"
    "length (sr_headers e) < 256 ^ 4" "length (sr_selector e) < 256 ^ 4" "length (sr_body e) < 256 ^ 8"
    and bs: "bs = to_le_bytes 2 (sr_status e) @ char_of tg # to_le_bytes 8 (expiry_secs (sr_requested_at e)) @
       to_le_bytes 8 (expiry_secs (sr_received_at e)) @ to_le_bytes 4 (length (sr_headers e)) @ hs @
       to_le_bytes 4 (length (sr_selector e)) @ fs @ to_le_bytes 8 (length (sr_body e)) @ sr_body e"
    by (rule encode_parts [OF enc])
  have v: "version_of tg = Some (sr_version e)" "tg mod 256 = tg" using version_tags [OF p(1)] by simp_all
  have st2: "sr_status e < 256 ^ 2" using st by simp
  have h: "rd_times (length (sr_headers e)) (rd_header hn hv) (hs @ r) = map_option (\<lambda>qs. (qs, r)) (those (map (norm_header hn hv) (sr_headers e)))" for r
    by (rule rd_times_put [OF rd_header_put p(2)])
  have f: "rd_times (length (sr_selector e)) (rd_field hn hv) (fs @ r) = map_option (\<lambda>qs. (qs, r)) (those (map (norm_field hn hv) (sr_selector e)))" for r
    by (rule rd_times_put [OF rd_field_put p(3)])
  have b: "rd_blob 8 (to_le_bytes 8 (length (sr_body e)) @ sr_body e) = Some (sr_body e, [])" using rd_blob_put [OF p(6), of "[]"] by simp
  show ?thesis
    unfolding response_decode_def bs rd_uint_put [OF st2]
    by (cases "at_epoch_plus (expiry_secs (sr_requested_at e) mod 256 ^ 8)"; cases "at_epoch_plus (expiry_secs (sr_received_at e) mod 256 ^ 8)";
        cases "those (map (norm_header hn hv) (sr_headers e))"; cases "those (map (norm_field hn hv) (sr_selector e))")
      (simp_all add: rd_byte v rd_time_any rd_counted_def rd_uint_put [OF p(4)] rd_uint_put [OF p(5)] h f b)
qed

lemma decode_encode_response:
  assumes "response_encode e = Some bs" "sr_status e < 65536" "sr_requested_at e \<le> systime_max" "sr_received_at e \<le> systime_max"
  shows "response_decode hn hv sc bs =
    (if sc (sr_status e) then
       Option.bind (those (map (norm_header hn hv) (sr_headers e))) (\<lambda>hs.
       map_option (\<lambda>fs. (cut e)\<lparr>sr_headers := hs, sr_selector := selector_from_fields fs\<rparr>)
         (those (map (norm_field hn hv) (sr_selector e))))
     else None)"
  unfolding decode_encoded [OF assms(1,2)] at_epoch_secs [OF assms(3)] at_epoch_secs [OF assms(4)] by (simp add: cut_def)

text \<open>The responses that the encoding is made for: what an \<open>http\<close> response can hold, with a selector as requests build it.\<close>

definition name_fits :: "(bytes \<Rightarrow> bytes option) \<Rightarrow> bytes \<Rightarrow> bool" where
  "name_fits hn n \<longleftrightarrow> hn n = Some n \<and> length n < 65536"

definition value_fits :: "(bytes \<Rightarrow> bool) \<Rightarrow> bytes \<Rightarrow> bool" where
  "value_fits hv v \<longleftrightarrow> hv v \<and> length v < 4294967296"

definition response_fine :: "(bytes \<Rightarrow> bytes option) \<Rightarrow> (bytes \<Rightarrow> bool) \<Rightarrow> (nat \<Rightarrow> bool) \<Rightarrow> stored_response \<Rightarrow> bool" where
  "response_fine hn hv sc e \<longleftrightarrow> sc (sr_status e) \<and> sr_status e < 65536 \<and> sr_version e \<in> {9, 10, 11, 20, 30} \<and>
     sr_requested_at e \<le> systime_max \<and> sr_received_at e \<le> systime_max \<and>
     length (sr_headers e) < 4294967296 \<and> list_all (\<lambda>(n, v). name_fits hn n \<and> value_fits hv v) (sr_headers e) \<and>
     length (sr_selector e) < 4294967296 \<and> list_all (\<lambda>(n, v). name_fits hn n \<and> pred_option (value_fits hv) v) (sr_selector e) \<and>
     selector_from_fields (sr_selector e) = sr_selector e \<and> length (sr_body e) < 18446744073709551616"

lemma put_all_each: "list_all (\<lambda>x. f x \<noteq> None) xs \<Longrightarrow> \<exists>b. put_all (map f xs) = Some b"
  by (induction xs) (auto simp: put_all.simps(2))

lemma those_id: "list_all (\<lambda>x. f x = Some x) xs \<Longrightarrow> those (map f xs) = Some xs"
  by (induction xs) auto

lemma put_header_fits: "name_fits hn n \<Longrightarrow> value_fits hv v \<Longrightarrow> put_header (n, v) \<noteq> None \<and> norm_header hn hv (n, v) = Some (n, v)"
  by (simp add: name_fits_def value_fits_def put_header_def put_all.simps(2) put_uint_def norm_header_def)

lemma put_field_fits: "name_fits hn n \<Longrightarrow> pred_option (value_fits hv) v \<Longrightarrow> put_field (n, v) \<noteq> None \<and> norm_field hn hv (n, v) = Some (n, v)"
  by (cases v) (simp_all add: name_fits_def value_fits_def put_field_def put_all.simps(2) put_uint_def norm_field_def)

lemma received_at_put:
  assumes "response_encode e = Some bs" "sr_received_at e \<le> systime_max"
  shows "received_at_of bs = Some (expiry_secs (sr_received_at e))"
proof -
  obtain t hs fs where p: "version_tag (sr_version e) = Some t" "put_all (map put_header (sr_headers e)) = Some hs"
    "put_all (map put_field (sr_selector e)) = Some fs"
    "length (sr_headers e) < 256 ^ 4" "length (sr_selector e) < 256 ^ 4" "length (sr_body e) < 256 ^ 8"
    and bs: "bs = to_le_bytes 2 (sr_status e) @ char_of t # to_le_bytes 8 (expiry_secs (sr_requested_at e)) @
       to_le_bytes 8 (expiry_secs (sr_received_at e)) @ to_le_bytes 4 (length (sr_headers e)) @ hs @
       to_le_bytes 4 (length (sr_selector e)) @ fs @ to_le_bytes 8 (length (sr_body e)) @ sr_body e"
    by (rule encode_parts [OF assms(1)])
  let ?r = "to_le_bytes 4 (length (sr_headers e)) @ hs @ to_le_bytes 4 (length (sr_selector e)) @ fs @ to_le_bytes 8 (length (sr_body e)) @ sr_body e"
  let ?h = "to_le_bytes 2 (sr_status e) @ char_of t # to_le_bytes 8 (expiry_secs (sr_requested_at e))"
  have "rd_take 11 (?h @ to_le_bytes 8 (expiry_secs (sr_received_at e)) @ ?r) = Some (?h, to_le_bytes 8 (expiry_secs (sr_received_at e)) @ ?r)"
    using rd_take_append [of ?h] by simp
  moreover have "expiry_secs (sr_received_at e) < 256 ^ 8" using expiry_secs_bound [OF assms(2)] by simp
  ultimately show ?thesis by (simp add: received_at_of_def bs)
qed

lemma fine_decodes:
  assumes "response_fine hn hv sc e"
  shows "\<exists>bs. response_encode e = Some bs \<and> response_decode hn hv sc bs = Some (cut e)"
proof -
  have h: "list_all (\<lambda>p. put_header p \<noteq> None \<and> norm_header hn hv p = Some p) (sr_headers e)"
    and f: "list_all (\<lambda>p. put_field p \<noteq> None \<and> norm_field hn hv p = Some p) (sr_selector e)"
    using assms put_header_fits put_field_fits unfolding response_fine_def list_all_iff by fast+
  obtain hs where hs: "put_all (map put_header (sr_headers e)) = Some hs" using put_all_each [of put_header] h by (auto simp: list_all_iff)
  obtain fs where fs: "put_all (map put_field (sr_selector e)) = Some fs" using put_all_each [of put_field] f by (auto simp: list_all_iff)
  have "\<exists>t. version_tag (sr_version e) = Some t" using assms by (auto simp: response_fine_def version_tag_def)
  moreover have "length (sr_headers e) < 256 ^ 4" "length (sr_selector e) < 256 ^ 4" "length (sr_body e) < 256 ^ 8"
    using assms by (simp_all add: response_fine_def)
  ultimately obtain bs where bs: "response_encode e = Some bs"
    using hs fs by (auto simp: response_encode_def put_all_iff put_all.simps(1))
  have "those (map (norm_header hn hv) (sr_headers e)) = Some (sr_headers e)" "those (map (norm_field hn hv) (sr_selector e)) = Some (sr_selector e)"
    using h f by (auto intro!: those_id simp: list_all_iff)
  then have "response_decode hn hv sc bs = Some (cut e)"
    using assms decode_encode_response [OF bs, of hn hv sc] by (simp add: response_fine_def cut_def)
  then show ?thesis using bs by blast
qed

text \<open>The worked response, whose names and values are fine.\<close>

abbreviation demo_hn :: "bytes \<Rightarrow> bytes option" where
  "demo_hn \<equiv> ce_header_name demo_cache_env"

abbreviation demo_hv :: "bytes \<Rightarrow> bool" where
  "demo_hv \<equiv> ce_header_value demo_cache_env"

abbreviation demo_status :: "nat \<Rightarrow> bool" where
  "demo_status \<equiv> \<lambda>n. 100 \<le> n \<and> n < 1000"

lemma demo_fine: "response_fine demo_hn demo_hv demo_status (storing_entry demo_storing ''hello'')"
proof -
  have "list_all (\<lambda>(n, v). demo_hn n = Some n) (sr_headers (storing_entry demo_storing ''hello''))" by code_simp
  moreover have "list_all (\<lambda>(n, v). demo_hn n = Some n) (sr_selector (storing_entry demo_storing ''hello''))" by code_simp
  moreover have "selector_from_fields (sr_selector (storing_entry demo_storing ''hello'')) = sr_selector (storing_entry demo_storing ''hello'')" by code_simp
  ultimately show ?thesis
    by (auto simp: response_fine_def name_fits_def value_fits_def storing_entry_def demo_storing_def demo_parts_def systime_max_def demo_cache_env_def)
qed

lemma demo_cut: "cut (storing_entry demo_storing ''hello'') = storing_entry demo_storing ''hello''"
  by (simp add: cut_def storing_entry_def demo_storing_def expiry_secs_def)

text \<open>
  Property C40. The encoding of a stored response loses nothing but fractions of seconds: every response that an \<open>http\<close> response can
  be is written, is read back with its status, version, fields in order and with repetitions, selector and body, and with its times
  cut to the second; and the time by which the store evicts is read from the bytes as it was written.
\<close>

theorem response_codec_roundtrip:
  assumes "response_fine hn hv sc e"
  shows "\<exists>bs. response_encode e = Some bs \<and> response_decode hn hv sc bs = Some (cut e) \<and>
    received_at_of bs = Some (expiry_secs (sr_received_at e))"
  using fine_decodes [OF assms] received_at_put assms unfolding response_fine_def by blast

theorem response_codec_roundtrip_witness:
  "\<exists>bs. response_encode (storing_entry demo_storing ''hello'') = Some bs \<and>
     response_decode demo_hn demo_hv demo_status bs = Some (storing_entry demo_storing ''hello'')"
  using response_codec_roundtrip [OF demo_fine] unfolding demo_cut by blast

section \<open>The store keeps the contract of the cache\<close>

text \<open>Keys without the separator: a method is a token and a target is a URI, and neither holds a control byte.\<close>

definition key_plain :: "cache_key \<Rightarrow> bool" where
  "key_plain k \<longleftrightarrow> CHR 0x01 \<notin> set (k_method k) \<and> CHR 0x01 \<notin> set (k_target k)"

lemma key_for_prefix: "key_plain k \<Longrightarrow> key_plain k' \<Longrightarrow> starts_with (key_for k sel) (prefix_for k') \<longleftrightarrow> k = k'"
proof
  assume p: "key_plain k" "key_plain k'" and "starts_with (key_for k sel) (prefix_for k')"
  then obtain r where "key_for k sel = prefix_for k' @ r" unfolding starts_with_def by (metis append_take_drop_id)
  then show "k = k'" using p by (cases k; cases k') (simp add: key_for_def prefix_for_def key_plain_def split_at_sep)
qed (simp add: starts_with_def key_for_def)

lemma key_for_other: "key_plain k \<Longrightarrow> key_plain k' \<Longrightarrow> key_for k sel = key_for k' sel' \<Longrightarrow> k = k'"
  using key_for_prefix [of k k' sel] key_for_prefix [of k' k' sel'] by simp

text \<open>What reading back gives a caller of the cache, whatever the times are: the status, the body and the selector.\<close>

lemma decode_answer:
  assumes enc: "response_encode e = Some bs" and st: "sr_status e < 65536" and dec: "response_decode hn hv sc bs = Some x"
  shows "sr_status x = sr_status e \<and> sr_body x = sr_body e \<and>
    (\<exists>fs. those (map (norm_field hn hv) (sr_selector e)) = Some fs \<and> sr_selector x = selector_from_fields fs)"
  using dec unfolding decode_encoded [OF enc st] by (auto simp: bind_eq_Some_conv split: if_splits)

text \<open>
  A state in which every value that can be read lies under the key of its own selector; a response whose selector is read
  back as it is; and one that a put does write.
\<close>

definition kc_ok ::
  "(bytes \<Rightarrow> bytes option) \<Rightarrow> (bytes \<Rightarrow> bool) \<Rightarrow> (nat \<Rightarrow> bool) \<Rightarrow> 's key_value_store \<Rightarrow> ('s \<Rightarrow> bool) \<Rightarrow> 's kv_cache \<Rightarrow> bool" where
  "kc_ok hn hv sc K I c \<longleftrightarrow> I (kc_kv c) \<and>
     (\<forall>q v x. v \<in> set (kv_get K (kc_kv c) CACHE_NS q 0) \<longrightarrow> response_decode hn hv sc v = Some x \<longrightarrow>
        (\<exists>k. key_plain k \<and> q = key_for k (sr_selector x)))"

definition kc_eok :: "(bytes \<Rightarrow> bytes option) \<Rightarrow> (bytes \<Rightarrow> bool) \<Rightarrow> stored_response \<Rightarrow> bool" where
  "kc_eok hn hv e \<longleftrightarrow> sr_status e < 65536 \<and>
     pred_option (\<lambda>fs. selector_from_fields fs = sr_selector e) (those (map (norm_field hn hv) (sr_selector e)))"

definition kc_fits :: "nat \<Rightarrow> stored_response \<Rightarrow> bool" where
  "kc_fits cap e \<longleftrightarrow> response_encode e \<noteq> None \<and> cap \<noteq> 0"

lemma decode_same_answer:
  "response_encode e = Some bs \<Longrightarrow> kc_eok hn hv e \<Longrightarrow> response_decode hn hv sc bs = Some x \<Longrightarrow> same_answer x e"
  using decode_answer [of e bs hn hv sc x] by (auto simp: kc_eok_def same_answer_def)

context kv_store
begin

text \<open>Removals, then the replacement of one key: what the byte store holds after them.\<close>

lemma removals:
  "inv s \<Longrightarrow> inv (foldl (start K) s (map StRemove vs)) \<and>
   kv_get K (foldl (start K) s (map StRemove vs)) CACHE_NS q t = (if q \<in> set vs then [] else kv_get K s CACHE_NS q t)"
  by (induction vs arbitrary: s) (auto simp: start_def remove_law remove_inv)

lemma replaced:
  assumes "inv s"
  shows "inv (foldl (start K) s (map StRemove vs @ [StRemove k, StPut k v]))"
    "kv_get K (foldl (start K) s (map StRemove vs @ [StRemove k, StPut k v])) CACHE_NS q 0 =
      (if q = k then [v] else if q \<in> set vs then [] else kv_get K s CACHE_NS q 0)"
  using removals [OF assms, of vs] replace_get [of _ 0 0 CACHE_NS k v CACHE_NS q] by (auto simp: start_def inv_intros)

text \<open>A put writes its value under its key and removes others, or does nothing.\<close>

lemma kc_put_state:
  assumes "kc_ok hn hv sc K inv c"
  obtains (refused) "\<not> kc_fits cap e" "kc_put K cap c k e = c"
  | (written) bs vs where "kc_fits cap e" "response_encode e = Some bs" "inv (kc_kv (kc_put K cap c k e))"
      "\<And>q. kv_get K (kc_kv (kc_put K cap c k e)) CACHE_NS q 0 =
        (if q = key_for k (sr_selector e) then [bs] else if q \<in> set vs then [] else kv_get K (kc_kv c) CACHE_NS q 0)"
proof (cases "kc_fits cap e")
  case False
  then show ?thesis using that(1) by (auto simp: kc_fits_def kc_put_def split: option.splits)
next
  case True
  then obtain bs where bs: "response_encode e = Some bs" "cap \<noteq> 0" by (auto simp: kc_fits_def)
  have "\<exists>vs. kc_kv (kc_put K cap c k e) =
      foldl (start K) (kc_kv c) (map StRemove vs @ [StRemove (key_for k (sr_selector e)), StPut (key_for k (sr_selector e)) bs])"
    using bs by (cases "unat (kc_held c + 1) > cap")
      (auto simp: kc_put_def Let_def rev_map simp del: foldl_append intro: exI [of _ "[]"])
  then show ?thesis using that(2) [OF True bs(1)] replaced [of "kc_kv c"] assms by (auto simp: kc_ok_def)
qed

lemma kc_get_set:
  assumes "kc_ok hn hv sc K inv c" "key_plain k"
  shows "x \<in> set (kc_get hn hv sc K c k) \<longleftrightarrow>
    (\<exists>v \<in> set (kv_get K (kc_kv c) CACHE_NS (key_for k (sr_selector x)) 0). response_decode hn hv sc v = Some x)"
proof -
  have "x \<in> set (kc_get hn hv sc K c k) \<longleftrightarrow>
    (\<exists>q v. starts_with q (prefix_for k) \<and> v \<in> set (kv_get K (kc_kv c) CACHE_NS q 0) \<and> response_decode hn hv sc v = Some x)"
  proof -
    have "inv (kc_kv c)" using assms(1) by (simp add: kc_ok_def)
    moreover have "x \<in> set (kc_get hn hv sc K c k) \<longleftrightarrow>
      (\<exists>q v. (q, v) \<in> set (kv_scan K (kc_kv c) CACHE_NS (prefix_for k) 0) \<and> response_decode hn hv sc v = Some x)"
      unfolding kc_get_def in_map_filter by (metis (mono_tags, lifting) case_prod_conv surj_pair)
    ultimately show ?thesis by (simp add: set_scan conj_assoc)
  qed
  moreover have "q = key_for k (sr_selector x)"
    if "starts_with q (prefix_for k)" "v \<in> set (kv_get K (kc_kv c) CACHE_NS q 0)" "response_decode hn hv sc v = Some x" for q v
  proof -
    have "\<exists>k'. key_plain k' \<and> q = key_for k' (sr_selector x)" using assms(1) that(2,3) unfolding kc_ok_def by blast
    then obtain k' where "key_plain k'" "q = key_for k' (sr_selector x)" by blast
    moreover from this have "k' = k" using key_for_prefix [OF _ assms(2)] that(1) by simp
    ultimately show ?thesis by simp
  qed
  moreover have "starts_with (key_for k (sr_selector x)) (prefix_for k)" using key_for_prefix [OF assms(2,2)] by simp
  ultimately show ?thesis by metis
qed

end

lemma kc_ok_less:
  assumes "kc_ok hn hv sc K I c" "I (kc_kv c')"
    and "\<And>q. set (kv_get K (kc_kv c') CACHE_NS q 0) \<subseteq> set (kv_get K (kc_kv c) CACHE_NS q 0)"
  shows "kc_ok hn hv sc K I c'"
  using assms unfolding kc_ok_def by blast

context kv_store
begin

lemma kc_put_ok:
  assumes "kc_ok hn hv sc K inv c" "key_plain k" "kc_eok hn hv e"
  shows "kc_ok hn hv sc K inv (kc_put K cap c k e)"
  using assms(1)
proof (cases rule: kc_put_state [consumes 1, where cap = cap and e = e and k = k])
  case refused
  then show ?thesis using assms(1) by simp
next
  case (written bs vs)
  have "\<exists>k'. key_plain k' \<and> q = key_for k' (sr_selector x)"
    if v: "v \<in> set (kv_get K (kc_kv (kc_put K cap c k e)) CACHE_NS q 0)" "response_decode hn hv sc v = Some x" for q v x
  proof (cases "q = key_for k (sr_selector e)")
    case True
    then have "v = bs" using v(1) written(4) by simp
    then have "same_answer x e" using decode_same_answer [OF written(2) assms(3)] v(2) by simp
    then show ?thesis using True assms(2) by (auto simp: same_answer_def)
  next
    case False
    then have "v \<in> set (kv_get K (kc_kv c) CACHE_NS q 0)" using v(1) by (simp add: written(4) split: if_splits)
    then show ?thesis using assms(1) v(2) unfolding kc_ok_def by blast
  qed
  then show ?thesis using written(3) unfolding kc_ok_def by blast
qed

lemma kc_get_put:
  assumes "kc_ok hn hv sc K inv c" "key_plain k" "key_plain k'" "kc_eok hn hv e" "x \<in> set (kc_get hn hv sc K (kc_put K cap c k e) k')"
  shows "k' = k \<and> same_answer x e \<or> x \<in> set (kc_get hn hv sc K c k') \<and> \<not> (kc_fits cap e \<and> k' = k \<and> sr_selector x = sr_selector e)"
  using assms(1)
proof (cases rule: kc_put_state [consumes 1, where cap = cap and e = e and k = k])
  case refused
  then show ?thesis using assms(5) by simp
next
  case (written bs vs)
  obtain v where v: "v \<in> set (kv_get K (kc_kv (kc_put K cap c k e)) CACHE_NS (key_for k' (sr_selector x)) 0)" "response_decode hn hv sc v = Some x"
    using assms(5) unfolding kc_get_set [OF kc_put_ok [OF assms(1,2,4)] assms(3)] by blast
  show ?thesis
  proof (cases "key_for k' (sr_selector x) = key_for k (sr_selector e)")
    case True
    then have "k' = k" using key_for_other assms(2,3) by blast
    moreover have "v = bs" using v(1) True written(4) by simp
    ultimately show ?thesis using decode_same_answer [OF written(2) assms(4)] v(2) by simp
  next
    case False
    then have "v \<in> set (kv_get K (kc_kv c) CACHE_NS (key_for k' (sr_selector x)) 0)" using v(1) by (simp add: written(4) split: if_splits)
    then show ?thesis using v(2) False unfolding kc_get_set [OF assms(1,3)] by auto
  qed
qed

text \<open>Removing a variant, the variants of a key, or everything.\<close>

lemma kc_removals:
  assumes "kc_ok hn hv sc K inv c"
  shows "kc_ok hn hv sc K inv (kc_remove K c k sel)" "kc_ok hn hv sc K inv (kc_invalidate K c k)" "kc_ok hn hv sc K inv (kc_clear K c)"
    "kv_get K (kc_kv (kc_remove K c k sel)) CACHE_NS q 0 = (if q = key_for k sel then [] else kv_get K (kc_kv c) CACHE_NS q 0)"
    "kv_get K (kc_kv (kc_invalidate K c k)) CACHE_NS q 0 = (if starts_with q (prefix_for k) then [] else kv_get K (kc_kv c) CACHE_NS q 0)"
    "kv_get K (kc_kv (kc_clear K c)) CACHE_NS q 0 = []"
proof -
  have i: "inv (kc_kv c)" using assms by (simp add: kc_ok_def)
  have g: "kv_get K (kc_kv (kc_remove K c k sel)) CACHE_NS q 0 = (if q = key_for k sel then [] else kv_get K (kc_kv c) CACHE_NS q 0)"
    "kv_get K (kc_kv (kc_invalidate K c k)) CACHE_NS q 0 = (if starts_with q (prefix_for k) then [] else kv_get K (kc_kv c) CACHE_NS q 0)"
    "kv_get K (kc_kv (kc_clear K c)) CACHE_NS q 0 = []" for q
    using remove_law [OF i] remove_prefix_law [OF i] clear_law [OF i] by (simp_all add: kc_remove_def kc_invalidate_def kc_clear_def start_def)
  show "kv_get K (kc_kv (kc_remove K c k sel)) CACHE_NS q 0 = (if q = key_for k sel then [] else kv_get K (kc_kv c) CACHE_NS q 0)"
    "kv_get K (kc_kv (kc_invalidate K c k)) CACHE_NS q 0 = (if starts_with q (prefix_for k) then [] else kv_get K (kc_kv c) CACHE_NS q 0)"
    "kv_get K (kc_kv (kc_clear K c)) CACHE_NS q 0 = []" by (rule g)+
  show "kc_ok hn hv sc K inv (kc_remove K c k sel)" "kc_ok hn hv sc K inv (kc_invalidate K c k)" "kc_ok hn hv sc K inv (kc_clear K c)"
    by (rule kc_ok_less [OF assms], simp add: kc_remove_def kc_invalidate_def kc_clear_def start_def inv_intros i, simp add: g)+
qed

end

sublocale kv_store \<subseteq> kcs: cache_contract "kv_cache_store hn hv sc K cap" "kc_ok hn hv sc K inv" key_plain "kc_eok hn hv" "kc_fits cap"
  for hn hv sc cap
proof unfold_locales
  fix c k k' e x sel
  assume ok: "kc_ok hn hv sc K inv c"
  show "kc_ok hn hv sc K inv (cs_clear (kv_cache_store hn hv sc K cap) c)"
    "kc_ok hn hv sc K inv (cs_remove (kv_cache_store hn hv sc K cap) c k sel)"
    "kc_ok hn hv sc K inv (cs_invalidate (kv_cache_store hn hv sc K cap) c k)"
    by (simp_all add: kv_cache_store_def kc_removals [OF ok])
  show "x \<notin> set (cs_get (kv_cache_store hn hv sc K cap) (cs_clear (kv_cache_store hn hv sc K cap) c) k)" if "key_plain k"
    using kc_get_set [OF kc_removals(3) [OF ok] that] kc_removals(6) [OF ok] by (simp add: kv_cache_store_def)
  assume k: "key_plain k"
  show "kc_ok hn hv sc K inv (cs_put (kv_cache_store hn hv sc K cap) c k e)" if "kc_eok hn hv e"
    using kc_put_ok [OF ok k that] by (simp add: kv_cache_store_def)
  show "same_answer x e" if "kc_eok hn hv e" "kc_fits cap e" "sr_selector x = sr_selector e"
    "x \<in> set (cs_get (kv_cache_store hn hv sc K cap) (cs_put (kv_cache_store hn hv sc K cap) c k e) k)"
    using kc_get_put [OF ok k k that(1)] that(2-) by (auto simp: kv_cache_store_def)
  assume k': "key_plain k'"
  show "k' = k \<and> same_answer x e \<or> x \<in> set (cs_get (kv_cache_store hn hv sc K cap) c k')"
    if "kc_eok hn hv e" "x \<in> set (cs_get (kv_cache_store hn hv sc K cap) (cs_put (kv_cache_store hn hv sc K cap) c k e) k')"
    using kc_get_put [OF ok k k' that(1)] that(2) by (auto simp: kv_cache_store_def)
  show "x \<in> set (cs_get (kv_cache_store hn hv sc K cap) c k') \<and> \<not> (k' = k \<and> sr_selector x = sel)"
    if "x \<in> set (cs_get (kv_cache_store hn hv sc K cap) (cs_remove (kv_cache_store hn hv sc K cap) c k sel) k')"
    using that unfolding kv_cache_store_def by (auto simp: kc_get_set [OF kc_removals(1) [OF ok] k'] kc_get_set [OF ok k'] kc_removals(4) [OF ok] split: if_splits)
  show "x \<in> set (cs_get (kv_cache_store hn hv sc K cap) c k') \<and> k' \<noteq> k"
    if "x \<in> set (cs_get (kv_cache_store hn hv sc K cap) (cs_invalidate (kv_cache_store hn hv sc K cap) c k) k')"
    using that unfolding kv_cache_store_def
    by (auto simp: kc_get_set [OF kc_removals(2) [OF ok] k'] kc_get_set [OF ok k'] kc_removals(5) [OF ok] key_for_prefix [OF k' k] split: if_splits)
qed

section \<open>Hits from a byte store\<close>

text \<open>What the \<open>http\<close> crate promises: a name is read back as itself, and a target holds no control byte.\<close>

definition names_stable :: "(bytes \<Rightarrow> bytes option) \<Rightarrow> bool" where
  "names_stable hn \<longleftrightarrow> hn ''authorization'' = Some ''authorization'' \<and> (\<forall>n m. hn n = Some m \<longrightarrow> hn m = Some m)"

definition target_plain :: "cache_env \<Rightarrow> http_uri \<Rightarrow> bool" where
  "target_plain env u \<longleftrightarrow> pred_option (\<lambda>k. CHR 0x01 \<notin> set (k_target k)) (cache_key_new (ce_path_and_query env) ''GET'' u)"

lemma target_plain_key:
  assumes "target_plain env u" "m \<in> {''GET'', ''HEAD''}" "cache_key_new (ce_path_and_query env) m u = Some k"
  shows "key_plain k"
  using assms by (auto simp: target_plain_def key_plain_def cache_key_new_def Let_def split: option.splits)

lemma those_norm_field:
  "list_all (\<lambda>n. hn n = Some n) (map fst sel) \<Longrightarrow> those (map (norm_field hn hv) sel) = Some fs \<Longrightarrow> fs = sel"
  by (induction sel arbitrary: fs) (auto simp: norm_field_def split: if_splits)

lemma vary_tokens_names: "vary_tokens env toks = Some names \<Longrightarrow> n \<in> set names \<Longrightarrow> \<exists>t. ce_header_name env t = Some n"
  by (induction toks arbitrary: names) (auto simp: Let_def bind_eq_Some_conv split: if_splits)

lemma comes_from_eok:
  assumes st: "names_stable (ce_header_name env)" and c: "comes_from env L k e"
  shows "kc_eok (ce_header_name env) (ce_header_value env) e"
proof -
  obtain u h parts body names where o: "(u, h, parts, body) \<in> set L" "cache_key_new (ce_path_and_query env) ''GET'' u = Some k"
    "vary_names env (rp_headers parts) = Some names" "sr_selector e = selector_of (ce_header_value env) h names"
    "sr_body e = body" "sr_status e = rp_status parts" "rp_status parts \<in> set CACHEABLE_STATUSES" using c unfolding comes_from_def by blast
  have "ce_header_name env n = Some n" if "n \<in> set (nominated names)" for n
  proof -
    have "n = ''authorization'' \<or> n \<in> set names" using that unfolding nominated_def by (simp del: sorted_list_of_set_insert_remove)
    then show ?thesis using st vary_tokens_names [OF o(3) [unfolded vary_names_def], of n] unfolding names_stable_def by blast
  qed
  moreover have "map fst (sr_selector e) = nominated names" unfolding o(4) using selector_names_of by (simp only: selector_names_def)
  ultimately have "list_all (\<lambda>n. ce_header_name env n = Some n) (map fst (sr_selector e))" by (simp only: list_all_iff) blast
  from those_norm_field [OF this] have "fs = sr_selector e"
    if "those (map (norm_field (ce_header_name env) (ce_header_value env)) (sr_selector e)) = Some fs" for fs using that by blast
  moreover have "selector_from_fields (sr_selector e) = sr_selector e" unfolding o(4) by (rule from_fields_rows) simp
  moreover have "sr_status e < 65536" using o(7) unfolding o(6) by (auto simp: CACHEABLE_STATUSES_def)
  ultimately show ?thesis by (auto simp: kc_eok_def pred_option_def)
qed

context kv_store
begin

lemma kv_hit_provenance:
  assumes "inv s0" "\<forall>q. kv_get K s0 CACHE_NS q 0 = []"
    and "names_stable (ce_header_name env)" "\<forall>v \<in> Us. target_plain env v"
    and "cache_run env limit (kv_cache_store (ce_header_name env) (ce_header_value env) sc K cap) Us (kc_new s0) L P s"
    and "u \<in> Us" "cache_lookup env (kv_cache_store (ce_header_name env) (ce_header_value env) sc K cap) s mth u h now = Hit r"
  shows "\<exists>u0 h0 parts body names. (u0, h0, parts, body) \<in> set L \<and>
    cache_key_new (ce_path_and_query env) ''GET'' u0 = cache_key_new (ce_path_and_query env) ''GET'' u \<and>
    sr_body r = body \<and> sr_status r = rp_status parts \<and> vary_names env (rp_headers parts) = Some names \<and>
    list_all (\<lambda>n. combined (ce_header_value env) h n = combined (ce_header_value env) h0 n) (''authorization'' # names)"
proof (rule kcs.hit_provenance [OF _ _ _ assms(5-7)])
  let ?hn = "ce_header_name env" and ?hv = "ce_header_value env"
  show ok: "kc_ok ?hn ?hv sc K inv (kc_new s0)" using assms(1,2) by (simp add: kc_ok_def kc_new_def)
  show "cs_get (kv_cache_store ?hn ?hv sc K cap) (kc_new s0) k = []" if "key_plain k" for k
  proof -
    have "x \<notin> set (kc_get ?hn ?hv sc K (kc_new s0) k)" for x
      using kc_get_set [OF ok that] assms(2) by (simp add: kc_new_def)
    then have "set (kc_get ?hn ?hv sc K (kc_new s0) k) = {}" by (simp only: set_eq_iff empty_iff simp_thms)
    then show ?thesis by (simp add: kv_cache_store_def)
  qed
  show "kcs.made_for ?hn ?hv env Us"
    using assms(3,4) target_plain_key comes_from_eok unfolding kcs.made_for_def by metis
qed

end

text \<open>
  Property C6. The same over any byte store that keeps the laws of the seam, holding nothing under the cache's namespace at
  first: whatever a run of the cache did, with the responses written as bytes, evicted by the counter and read back, a hit answers
  with the status and the body of a response that was stored for the same target, to a request with the same \<open>Authorization\<close>
  and the same fields of the stored \<open>Vary\<close>.
\<close>

theorem kv_cache_hit_provenance:
  fixes K :: "'s key_value_store"
  assumes "kv_store K I" "I s0" "\<forall>q. kv_get K s0 CACHE_NS q 0 = []"
    and "names_stable (ce_header_name env)" "\<forall>v \<in> Us. target_plain env v"
    and "cache_run env limit (kv_cache_store (ce_header_name env) (ce_header_value env) sc K cap) Us (kc_new s0) L P s"
    and "u \<in> Us" "cache_lookup env (kv_cache_store (ce_header_name env) (ce_header_value env) sc K cap) s mth u h now = Hit r"
  shows "\<exists>u0 h0 parts body names. (u0, h0, parts, body) \<in> set L \<and>
    cache_key_new (ce_path_and_query env) ''GET'' u0 = cache_key_new (ce_path_and_query env) ''GET'' u \<and>
    sr_body r = body \<and> sr_status r = rp_status parts \<and> vary_names env (rp_headers parts) = Some names \<and>
    list_all (\<lambda>n. combined (ce_header_value env) h n = combined (ce_header_value env) h0 n) (''authorization'' # names)"
  by (rule kv_store.kv_hit_provenance [OF assms])

text \<open>The worked exchange, over the in-memory byte store.\<close>

abbreviation demo_kv_store :: "system_time namespaces kv_cache cache_store" where
  "demo_kv_store \<equiv> kv_cache_store demo_hn demo_hv demo_status memory_kv 8"

definition demo_kv_filled :: "system_time namespaces kv_cache" where
  "demo_kv_filled = kc_put memory_kv 8 (kc_new memory_new) (demo_key ''x'') (storing_entry demo_storing ''hello'')"

lemma demo_kv_run: "cache_run demo_cache_env 100 demo_kv_store {demo_target} (kc_new memory_new) [(demo_target, demo_request, demo_parts, ''hello'')] [] demo_kv_filled"
proof -
  have "cache_commit demo_kv_store (kc_new memory_new) demo_storing ''hello'' = (Inr (), demo_kv_filled)"
    by (simp add: cache_commit_def demo_storing_def demo_kv_filled_def kv_cache_store_def)
  then show ?thesis by (rule cache_run.Commit [OF cache_run.Start singletonI demo_stored])
qed

lemma demo_kv_get: "kc_get demo_hn demo_hv demo_status memory_kv demo_kv_filled (demo_key ''x'') = [storing_entry demo_storing ''hello'']"
proof -
  obtain bs where bs: "response_encode (storing_entry demo_storing ''hello'') = Some bs"
    "response_decode demo_hn demo_hv demo_status bs = Some (storing_entry demo_storing ''hello'')"
    using fine_decodes [OF demo_fine] unfolding demo_cut by blast
  have p: "starts_with (key_for k sel) (prefix_for k)" for k sel by (simp add: starts_with_def key_for_def)
  show ?thesis
    by (simp add: demo_kv_filled_def kc_get_def kc_put_def bs Let_def kc_new_def start_def memory_kv_def memory_put_def memory_remove_def memory_new_def
        memory_scan_def scan_where_def p or_default_def is_live_def map_filter_simps)
qed

lemma demo_kv_selected: "selected demo_cache_env demo_kv_store demo_kv_filled ''GET'' demo_target demo_request = Some (storing_entry demo_storing ''hello'')"
proof -
  have "selector_matches demo_cache_env (storing_entry demo_storing ''hello'') demo_request" by code_simp
  then show ?thesis using demo_kv_get by (simp add: selected_def demo_key_new kv_cache_store_def)
qed

lemma demo_names_stable: "names_stable demo_hn"
proof -
  have "demo_hn ''authorization'' = Some ''authorization''" by code_simp
  moreover have "is_tchar (lower_byte c)" if "is_tchar c" for c
    using that lower_byte_cases [of c] by (auto simp: is_tchar_def is_ascii_alphanumeric_def is_ascii_alphabetic_def)
  then have "demo_hn m = Some m" if "demo_hn n = Some m" for n m
    using that by (auto simp: demo_cache_env_def to_ascii_lowercase_def list_all_iff split: if_splits)
  ultimately show ?thesis by (simp add: names_stable_def)
qed

theorem kv_cache_hit_provenance_witness:
  "\<exists>r. cache_lookup demo_cache_env demo_kv_store demo_kv_filled ''GET'' demo_target demo_request 30000000000 = Hit r \<and>
     sr_body r = ''hello'' \<and> sr_status r = 200"
proof -
  have e: "kv_wf memory_new" "\<forall>q. kv_get memory_kv memory_new CACHE_NS q 0 = []"
    by (simp_all add: kv_wf_def memory_new_def memory_kv_def memory_get_def read_one_def)
  have t: "\<forall>v \<in> {demo_target}. target_plain demo_cache_env v"
    using demo_key_new by (simp add: target_plain_def demo_key_def)
  show ?thesis
    using kv_cache_hit_provenance [OF memory.kv_store_axioms e demo_names_stable t demo_kv_run singletonI demo_hit_when_selected [OF demo_kv_selected]]
      demo_hit_when_selected [OF demo_kv_selected] by (auto simp: demo_parts_def)
qed

text \<open>
  Removing a variant that is not held takes one from the counter all the same; at zero it wraps, and a store made for one
  variant then holds two. (With overflow checks the first write after it panics instead, at \<open>+ 1\<close>.)
\<close>

lemma absent_removal_undercounts:
  "kc_len memory_kv
     (kc_put memory_kv 1 (kc_put memory_kv 1 (kc_remove memory_kv (kc_new memory_new) (demo_key ''x'') [])
       (demo_key ''x'') (storing_entry demo_storing ''hello'')) (demo_key ''y'') (storing_entry demo_storing ''hello'')) = 2"
proof -
  obtain bs where bs: "response_encode (storing_entry demo_storing ''hello'') = Some bs" using fine_decodes [OF demo_fine] by blast
  have "key_plain (demo_key ''x'')" "key_plain (demo_key ''y'')" by code_simp+
  moreover have "demo_key ''x'' \<noteq> demo_key ''y''" by (simp add: demo_key_def)
  ultimately have ne: "key_for (demo_key ''x'') sel \<noteq> key_for (demo_key ''y'') sel'" for sel sel' using key_for_other by blast
  show ?thesis
    by (simp add: kc_len_def kc_put_def kc_remove_def bs Let_def kc_new_def start_def memory_kv_def memory_put_def memory_remove_def memory_new_def
        memory_scan_def scan_where_def starts_with_def or_default_def is_live_def ne ne [symmetric])
qed

end
