(* ===== verification/Cookie_Kv.thy ===== *)
theory Cookie_Kv
  imports Byte_Codec Cookie_Jar "HOL-Library.Word"
begin

unbundle bit_operations_syntax

text \<open>
  The cookies of a jar over a byte store: \<open>crates/hclient/src/cookie/kv.rs\<close>. A cookie is one value under a key that spells
  its whole replacement key behind the reversed domain; the count of cookies is a 64-bit counter beside the byte store. The
  reversal of a domain is the one of \<open>hsts/kv.rs\<close>, which has the same text.

  The store is related to a partial map from keys to cookies, over every byte store that keeps the laws of the seam.
\<close>

section \<open>Keys\<close>

definition COOKIE_NS :: bytes where
  "COOKIE_NS = ''cookie''"

definition cookie_prefix :: "bytes \<Rightarrow> bytes" where
  "cookie_prefix d = reverse_labels d @ [CHR 0x01]"

definition cookie_key_for :: "cookie_key \<Rightarrow> bytes" where
  "cookie_key_for k =
     cookie_prefix (key_domain k) @ key_name k @ [CHR 0x01] @ key_path k @ [CHR 0x01] @ (if key_host_only k then ''1'' else ''0'')"

section \<open>The encoding\<close>

definition NO_EXPIRY :: nat where
  "NO_EXPIRY = 2 ^ 64 - 1"

definition same_site_tag :: "same_site option \<Rightarrow> nat" where
  "same_site_tag s = (case s of None \<Rightarrow> 0 | Some SameSite_Strict \<Rightarrow> 1 | Some SameSite_Lax \<Rightarrow> 2 | Some SameSite_None \<Rightarrow> 3)"

datatype same_site_of = Absent | SetTo same_site | Unknown

definition same_site_of_tag :: "nat \<Rightarrow> same_site_of" where
  "same_site_of_tag t =
     (if t = 0 then Absent else if t = 1 then SetTo SameSite_Strict else if t = 2 then SetTo SameSite_Lax
      else if t = 3 then SetTo SameSite_None else Unknown)"

definition flags_of :: "cookie \<Rightarrow> nat" where
  "flags_of c = of_bool (ck_host_only c) OR push_bit 1 (of_bool (ck_persistent c)) OR
     push_bit 2 (of_bool (ck_secure c)) OR push_bit 3 (of_bool (ck_http_only c))"

definition cookie_encode :: "cookie \<Rightarrow> bytes option" where
  "cookie_encode c =
     put_all [Some (to_le_bytes 8 (case ck_expires c of None \<Rightarrow> NO_EXPIRY | Some e \<Rightarrow> expiry_secs e)),
       Some (to_le_bytes 8 (expiry_secs (ck_creation c))), Some (to_le_bytes 8 (expiry_secs (ck_last_access c))),
       Some (to_le_bytes 8 (ck_seq c)), Some [char_of (flags_of c)], Some [char_of (same_site_tag (ck_same_site c))],
       put_uint 2 (length (ck_name c)), Some (ck_name c), put_uint 4 (length (ck_value c)), Some (ck_value c),
       put_uint 2 (length (ck_domain c)), Some (ck_domain c), put_uint 2 (length (ck_path c)), Some (ck_path c)]"

definition rd_str :: "nat \<Rightarrow> bytes cursor" where
  "rd_str k bs = Option.bind (rd_blob k bs) (\<lambda>(x, r). if is_utf8 x then Some (x, r) else None)"

definition cookie_decode :: "bytes \<Rightarrow> cookie option" where
  "cookie_decode bs =
     Option.bind (rd_uint 8 bs) (\<lambda>(e, r1).
     Option.bind (if e = NO_EXPIRY then Some None else map_option Some (at_epoch_plus e)) (\<lambda>expires.
     Option.bind (rd_time r1) (\<lambda>(creation, r2).
     Option.bind (rd_time r2) (\<lambda>(last_access, r3).
     Option.bind (rd_uint 8 r3) (\<lambda>(sq, r4).
     Option.bind (rd_uint 1 r4) (\<lambda>(flags, r5).
       if drop_bit 4 flags \<noteq> 0 then None else
     Option.bind (rd_uint 1 r5) (\<lambda>(tag, r6).
     Option.bind (case same_site_of_tag tag of Absent \<Rightarrow> Some None | SetTo v \<Rightarrow> Some (Some v) | Unknown \<Rightarrow> None) (\<lambda>site.
     Option.bind (rd_str 2 r6) (\<lambda>(name, r7).
     Option.bind (rd_str 4 r7) (\<lambda>(val, r8).
     Option.bind (rd_str 2 r8) (\<lambda>(domain, r9).
     Option.bind (rd_str 2 r9) (\<lambda>(path, r10).
       if r10 \<noteq> [] then None
       else Some \<lparr>ck_name = name, ck_value = val, ck_domain = domain, ck_path = path, ck_expires = expires, ck_creation = creation,
         ck_last_access = last_access, ck_seq = sq, ck_host_only = bit flags 0, ck_persistent = bit flags 1,
         ck_secure = bit flags 2, ck_http_only = bit flags 3, ck_same_site = site\<rparr>))))))))))))"

section \<open>The store\<close>

text \<open>The byte store and the counter \<open>held\<close>, an \<open>AtomicUsize\<close>, which wraps.\<close>

record 's kv_cookies =
  kvc_kv :: 's
  kvc_held :: "64 word"

definition kvc_new :: "'s \<Rightarrow> 's kv_cookies" where
  "kvc_new s = \<lparr>kvc_kv = s, kvc_held = 0\<rparr>"

datatype kvc_step = Forget bytes | Write bytes bytes

definition kvc_start :: "'s key_value_store \<Rightarrow> 's \<Rightarrow> kvc_step \<Rightarrow> 's" where
  "kvc_start K s st =
     (case st of
        Forget k \<Rightarrow> kv_remove K s COOKIE_NS k
      | Write k v \<Rightarrow> kv_put K s COOKIE_NS k v None 0)"

text \<open>The poll of \<open>Get\<close>: what can be decoded, in the order of arrival.\<close>

definition decode_found :: "(bytes \<times> bytes) list \<Rightarrow> cookie list" where
  "decode_found found = sort_key ck_seq (List.map_filter (\<lambda>(_, v). cookie_decode v) found)"

definition kvc_get :: "'s key_value_store \<Rightarrow> 's kv_cookies \<Rightarrow> bytes list \<Rightarrow> cookie list" where
  "kvc_get K c domains = decode_found (kv_scan_many K (kvc_kv c) COOKIE_NS (map cookie_prefix domains) 0)"

definition kvc_all :: "'s key_value_store \<Rightarrow> 's kv_cookies \<Rightarrow> cookie list" where
  "kvc_all K c = decode_found (kv_scan K (kvc_kv c) COOKIE_NS [] 0)"

definition kvc_len :: "'s key_value_store \<Rightarrow> 's kv_cookies \<Rightarrow> nat" where
  "kvc_len K c = length (kv_scan K (kvc_kv c) COOKIE_NS [] 0)"

text \<open>The keys of the least recently used of what was read, as many as are over the bound.\<close>

definition kvc_victims :: "nat \<Rightarrow> (bytes \<times> bytes) list \<Rightarrow> bytes list" where
  "kvc_victims bound found =
     (let victims = sort_key (\<lambda>(t, q, _). (t, q))
        (List.map_filter (\<lambda>(k, v). map_option (\<lambda>c. (ck_last_access c, ck_seq c, k)) (cookie_decode v)) found) in
      map (\<lambda>(_, _, k). k) (take (length found - bound) victims))"

definition kvc_touch_steps :: "bytes list \<Rightarrow> system_time \<Rightarrow> (bytes \<times> bytes) list \<Rightarrow> kvc_step list" where
  "kvc_touch_steps keys now found =
     concat (map (\<lambda>(k, v).
       if k \<notin> set keys then []
       else case cookie_decode v of
           None \<Rightarrow> []
         | Some c \<Rightarrow> (case cookie_encode (c\<lparr>ck_last_access := now\<rparr>) of None \<Rightarrow> [] | Some v' \<Rightarrow> [Forget k, Write k v'])) found)"

definition kvc_put :: "'s key_value_store \<Rightarrow> capacity \<Rightarrow> 's kv_cookies \<Rightarrow> cookie \<Rightarrow> system_time \<Rightarrow> 's kv_cookies" where
  "kvc_put K cap s c now =
     (let k = cookie_key_for (key_of c); domain_prefix = cookie_prefix (ck_domain c) in
      case cookie_encode c of
        None \<Rightarrow> s
      | Some v \<Rightarrow>
          let held = kvc_held s + 1; rest = [Forget k, Write k v] in
          if unat held > max_cookies cap then
            let vs = kvc_victims (max_cookies cap - 1) (kv_scan K (kvc_kv s) COOKIE_NS [] 0) in
            \<lparr>kvc_kv = foldl (kvc_start K) (kvc_kv s) (rev (map Forget vs) @ rest), kvc_held = held - of_nat (length vs)\<rparr>
          else
            let vs = kvc_victims (max_per_domain cap - 1) (kv_scan K (kvc_kv s) COOKIE_NS domain_prefix 0) in
            \<lparr>kvc_kv = foldl (kvc_start K) (kvc_kv s) (rev (map Forget vs) @ rest), kvc_held = held\<rparr>)"

definition kvc_remove :: "'s key_value_store \<Rightarrow> 's kv_cookies \<Rightarrow> cookie_key \<Rightarrow> 's kv_cookies" where
  "kvc_remove K s k = \<lparr>kvc_kv = kv_remove K (kvc_kv s) COOKIE_NS (cookie_key_for k), kvc_held = kvc_held s - 1\<rparr>"

definition kvc_touch :: "'s key_value_store \<Rightarrow> 's kv_cookies \<Rightarrow> cookie_key list \<Rightarrow> system_time \<Rightarrow> 's kv_cookies" where
  "kvc_touch K s keys now =
     (if keys = [] then s
      else
        let prefixes = remdups_adj (sort (map (cookie_prefix \<circ> key_domain) keys));
            found = kv_scan_many K (kvc_kv s) COOKIE_NS prefixes 0 in
        s\<lparr>kvc_kv := foldl (kvc_start K) (kvc_kv s) (kvc_touch_steps (map cookie_key_for keys) now found)\<rparr>)"

definition kvc_clear :: "'s key_value_store \<Rightarrow> 's kv_cookies \<Rightarrow> 's kv_cookies" where
  "kvc_clear K s = \<lparr>kvc_kv = kv_clear K (kvc_kv s) COOKIE_NS, kvc_held = 0\<rparr>"

definition kvc_ops :: "'s key_value_store \<Rightarrow> capacity \<Rightarrow> 's kv_cookies store_ops" where
  "kvc_ops K cap = \<lparr>op_get = kvc_get K, op_put = kvc_put K cap, op_touch = kvc_touch K\<rparr>"

section \<open>The codec\<close>

text \<open>A cookie that its encoding tells in full: times in whole seconds, a number that fits, strings.\<close>

definition tellable :: "cookie \<Rightarrow> bool" where
  "tellable c \<longleftrightarrow> pred_option sec_ok (ck_expires c) \<and> sec_ok (ck_creation c) \<and> sec_ok (ck_last_access c) \<and> ck_seq c < 2 ^ 64 \<and>
     is_utf8 (ck_name c) \<and> is_utf8 (ck_value c) \<and> is_utf8 (ck_domain c) \<and> is_utf8 (ck_path c)"

lemma flags_bits:
  "flags_of c = of_bool (ck_host_only c) + 2 * of_bool (ck_persistent c) + 4 * of_bool (ck_secure c) + 8 * of_bool (ck_http_only c)"
  unfolding flags_of_def by (cases "ck_host_only c"; cases "ck_persistent c"; cases "ck_secure c"; cases "ck_http_only c") simp_all

lemma rd_byte_Some: "rd_uint (Suc 0) bs = Some (n, r) \<longleftrightarrow> n < 256 \<and> bs = char_of n # r"
  by (auto simp: rd_uint_Some [of "Suc 0"])

lemma rd_str_Some: "rd_str k bs = Some (x, r) \<longleftrightarrow> is_utf8 x \<and> length x < 256 ^ k \<and> bs = to_le_bytes k (length x) @ x @ r"
  by (auto simp: rd_str_def bind_eq_Some_conv rd_blob_Some)

lemma read_expiry:
  "(if e = NO_EXPIRY then Some None else map_option Some (at_epoch_plus e)) = Some x \<longleftrightarrow>
    pred_option sec_ok x \<and> e = (case x of None \<Rightarrow> NO_EXPIRY | Some t \<Rightarrow> expiry_secs t)"
proof (cases x)
  case (Some t)
  have "at_epoch_plus e = Some t \<longleftrightarrow> sec_ok t \<and> e = expiry_secs t"
    unfolding at_epoch_Some sec_ok_iff by (auto simp: whole_sec_of)
  moreover have "sec_ok t \<Longrightarrow> expiry_secs t \<noteq> NO_EXPIRY" by (auto simp: sec_ok_iff whole_sec_of NO_EXPIRY_def)
  ultimately show ?thesis using Some by auto
qed simp

lemma read_site:
  "(case same_site_of_tag t of Absent \<Rightarrow> Some None | SetTo v \<Rightarrow> Some (Some v) | Unknown \<Rightarrow> None) = Some s \<longleftrightarrow> t = same_site_tag s"
  by (auto simp: same_site_of_tag_def same_site_tag_def split: option.splits same_site.splits)

lemma read_flags:
  assumes "drop_bit 4 n = 0"
  shows "(n::nat) = of_bool (bit n 0) + 2 * of_bool (bit n 1) + 4 * of_bool (bit n 2) + 8 * of_bool (bit n 3)"
proof -
  have "n div 16 = 0" using assms by (simp add: drop_bit_eq_div)
  moreover have "n div 2 div 2 = n div 4" "n div 4 div 2 = n div 8" "n div 8 div 2 = n div 16" by (simp_all add: div_mult2_eq [symmetric])
  ultimately have "n = n mod 2 + 2 * (n div 2 mod 2) + 4 * (n div 4 mod 2) + 8 * (n div 8 mod 2)"
    using mult_div_mod_eq [of 2 n] mult_div_mod_eq [of 2 "n div 2"] mult_div_mod_eq [of 2 "n div 4"] mult_div_mod_eq [of 2 "n div 8"] by linarith
  moreover have "of_bool (bit n 0) = n mod 2" "of_bool (bit n 1) = n div 2 mod 2" "of_bool (bit n 2) = n div 4 mod 2" "of_bool (bit n 3) = n div 8 mod 2"
    by (simp_all add: bit_iff_odd flip: of_bool_odd_eq_mod_2)
  ultimately show ?thesis by (simp only:)
qed

lemma form_bits:
  fixes a b d e :: bool
  defines "n \<equiv> of_bool a + 2 * of_bool b + 4 * of_bool d + 8 * of_bool e :: nat"
  shows "n < 16 \<and> bit n 0 = a \<and> bit n 1 = b \<and> bit n 2 = d \<and> bit n 3 = e"
  unfolding n_def by (cases a; cases b; cases d; cases e) (simp_all add: bit_iff_odd)

lemma flags_form: "n < 256 \<and> drop_bit 4 n = 0 \<and> bit n 0 = a \<and> bit n 1 = b \<and> bit n 2 = d \<and> bit n 3 = e \<longleftrightarrow>
    n = of_bool a + 2 * of_bool b + 4 * of_bool d + 8 * of_bool e" for n :: nat
proof
  assume "n < 256 \<and> drop_bit 4 n = 0 \<and> bit n 0 = a \<and> bit n 1 = b \<and> bit n 2 = d \<and> bit n 3 = e"
  then show "n = of_bool a + 2 * of_bool b + 4 * of_bool d + 8 * of_bool e" using read_flags [of n] by simp
next
  assume n: "n = of_bool a + 2 * of_bool b + 4 * of_bool d + 8 * of_bool e"
  have f: "n < 16" "bit n 0 = a" "bit n 1 = b" "bit n 2 = d" "bit n 3 = e" using form_bits [of a b d e, folded n] by blast+
  then have "drop_bit 4 n = 0" "n < 256" by (simp_all add: drop_bit_eq_div)
  then show "n < 256 \<and> drop_bit 4 n = 0 \<and> bit n 0 = a \<and> bit n 1 = b \<and> bit n 2 = d \<and> bit n 3 = e" using f by blast
qed

lemma flags_read:
  "flags_of c < 256" "drop_bit 4 (flags_of c) = 0" "bit (flags_of c) 0 = ck_host_only c" "bit (flags_of c) 1 = ck_persistent c"
  "bit (flags_of c) 2 = ck_secure c" "bit (flags_of c) 3 = ck_http_only c"
  using flags_form [THEN iffD2, OF flags_bits [of c]] by simp_all

lemma encode_Some:
  "cookie_encode c = Some bs \<longleftrightarrow>
    length (ck_name c) < 256 ^ 2 \<and> length (ck_value c) < 256 ^ 4 \<and> length (ck_domain c) < 256 ^ 2 \<and> length (ck_path c) < 256 ^ 2 \<and>
    bs = to_le_bytes 8 (case ck_expires c of None \<Rightarrow> NO_EXPIRY | Some e \<Rightarrow> expiry_secs e) @
      to_le_bytes 8 (expiry_secs (ck_creation c)) @ to_le_bytes 8 (expiry_secs (ck_last_access c)) @ to_le_bytes 8 (ck_seq c) @
      char_of (flags_of c) # char_of (same_site_tag (ck_same_site c)) #
      to_le_bytes 2 (length (ck_name c)) @ ck_name c @ to_le_bytes 4 (length (ck_value c)) @ ck_value c @
      to_le_bytes 2 (length (ck_domain c)) @ ck_domain c @ to_le_bytes 2 (length (ck_path c)) @ ck_path c"
  by (auto simp: cookie_encode_def put_all_iff simp del: power_numeral)

lemma expiry_fits: "tellable c \<Longrightarrow> (case ck_expires c of None \<Rightarrow> NO_EXPIRY | Some e \<Rightarrow> expiry_secs e) < 256 ^ 8"
  by (auto simp: tellable_def NO_EXPIRY_def sec_ok_iff whole_sec_of pred_option_def split: option.splits)

lemma same_site_tag_less: "same_site_tag s < 256"
  by (simp add: same_site_tag_def split: option.split same_site.split)

lemma refuse_Some: "(if P then None else y) = Some c \<longleftrightarrow> \<not> P \<and> y = Some c"
  by simp

lemma rd_time_put: "sec_ok t \<Longrightarrow> rd_time (to_le_bytes 8 (expiry_secs t) @ r) = Some (t, r)"
  by (simp add: rd_time_Some)

lemma rd_str_put: "is_utf8 x \<Longrightarrow> length x < 256 ^ k \<Longrightarrow> rd_str k (to_le_bytes k (length x) @ x @ r) = Some (x, r)"
  by (simp add: rd_str_Some)

lemma decode_iff:
  "cookie_decode bs = Some c \<longleftrightarrow> cookie_encode c = Some bs \<and> tellable c"
proof
  let ?e = "case ck_expires c of None \<Rightarrow> NO_EXPIRY | Some e \<Rightarrow> expiry_secs e"
  let ?lens = "length (ck_name c) < 256 ^ 2 \<and> length (ck_value c) < 256 ^ 4 \<and> length (ck_domain c) < 256 ^ 2 \<and> length (ck_path c) < 256 ^ 2"
  let ?bytes = "\<lambda>flags. to_le_bytes 8 ?e @ to_le_bytes 8 (expiry_secs (ck_creation c)) @ to_le_bytes 8 (expiry_secs (ck_last_access c)) @
      to_le_bytes 8 (ck_seq c) @ char_of (flags :: nat) # char_of (same_site_tag (ck_same_site c)) #
      to_le_bytes 2 (length (ck_name c)) @ ck_name c @ to_le_bytes 4 (length (ck_value c)) @ ck_value c @
      to_le_bytes 2 (length (ck_domain c)) @ ck_domain c @ to_le_bytes 2 (length (ck_path c)) @ ck_path c"
  {
    assume "cookie_decode bs = Some c"
    then have "\<exists>flags. (flags < 256 \<and> drop_bit 4 flags = 0 \<and> bit flags 0 = ck_host_only c \<and> bit flags 1 = ck_persistent c \<and>
         bit flags 2 = ck_secure c \<and> bit flags 3 = ck_http_only c) \<and> bs = ?bytes flags \<and> ?lens \<and> tellable c"
      by (cases c, simp only: cookie_decode_def bind_eq_Some_conv split_paired_Ex prod.case refuse_Some read_expiry read_site
          rd_uint_Some rd_time_Some rd_str_Some option.inject) (auto simp: tellable_def)
    then show "cookie_encode c = Some bs \<and> tellable c" unfolding flags_form flags_bits [symmetric] encode_Some by blast
  next
    assume a: "cookie_encode c = Some bs \<and> tellable c"
    then have bs: "bs = ?bytes (flags_of c)" "?lens" by (simp_all add: encode_Some)
    have t: "sec_ok (ck_creation c)" "sec_ok (ck_last_access c)" "ck_seq c < 256 ^ 8" "is_utf8 (ck_name c)" "is_utf8 (ck_value c)"
        "is_utf8 (ck_domain c)" "is_utf8 (ck_path c)" using a by (simp_all add: tellable_def)
    have e: "?e < 256 ^ 8" using a expiry_fits by blast
    have x: "(if ?e = NO_EXPIRY then Some None else map_option Some (at_epoch_plus ?e)) = Some (ck_expires c)"
      unfolding read_expiry using a by (simp add: tellable_def)
    have s: "(case same_site_of_tag (same_site_tag (ck_same_site c)) of Absent \<Rightarrow> Some None | SetTo v \<Rightarrow> Some (Some v) | Unknown \<Rightarrow> None) =
        Some (ck_same_site c)" unfolding read_site ..
    have b: "rd_uint 1 (char_of (flags_of c) # r) = Some (flags_of c, r)"
      "rd_uint 1 (char_of (same_site_tag (ck_same_site c)) # r) = Some (same_site_tag (ck_same_site c), r)" for r
      using flags_read [of c] same_site_tag_less [of "ck_same_site c"] by (simp_all add: rd_byte)
    have p: "rd_str 2 (to_le_bytes 2 (length (ck_path c)) @ ck_path c) = Some (ck_path c, [])"
      using rd_str_put [OF t(7), of 2 "[]"] bs(2) by simp
    show "cookie_decode bs = Some c"
      unfolding cookie_decode_def bs(1) rd_uint_put [OF e]
      by (simp only: Option.bind.simps prod.case x rd_time_put [OF t(1)] rd_time_put [OF t(2)] rd_uint_put [OF t(3)] b
          flags_read s rd_str_put t p bs(2) simp_thms if_False not_False_eq_True) simp
  }
qed

text \<open>What is left of a cookie: its times cut to seconds.\<close>

definition whole :: "cookie \<Rightarrow> cookie" where
  "whole c = c\<lparr>ck_expires := map_option whole_sec (ck_expires c), ck_creation := whole_sec (ck_creation c),
     ck_last_access := whole_sec (ck_last_access c)\<rparr>"

definition encodable :: "cookie \<Rightarrow> bool" where
  "encodable c \<longleftrightarrow> length (ck_name c) < 256 ^ 2 \<and> length (ck_value c) < 256 ^ 4 \<and> length (ck_domain c) < 256 ^ 2 \<and> length (ck_path c) < 256 ^ 2 \<and>
     pred_option (\<lambda>e. e \<le> systime_max) (ck_expires c) \<and> ck_creation c \<le> systime_max \<and> ck_last_access c \<le> systime_max \<and> ck_seq c < 2 ^ 64 \<and>
     is_utf8 (ck_name c) \<and> is_utf8 (ck_value c) \<and> is_utf8 (ck_domain c) \<and> is_utf8 (ck_path c)"

lemma encode_whole: "cookie_encode (whole c) = cookie_encode c"
  by (simp add: cookie_encode_def whole_def flags_of_def option.case_eq_if option.map_sel)

lemma whole_simps [simp]:
  "key_of (whole c) = key_of c" "ck_domain (whole c) = ck_domain c" "ck_value (whole c) = ck_value c" "ck_seq (whole c) = ck_seq c"
  "ck_last_access (whole c) = whole_sec (ck_last_access c)"
  by (simp_all add: whole_def key_of_def)

lemma encodable_tellable: "encodable c \<Longrightarrow> tellable (whole c)"
  by (auto simp: encodable_def tellable_def whole_def sec_ok_whole pred_option_def)

lemma encodable_encode: "encodable c \<Longrightarrow> \<exists>bs. cookie_encode c = Some bs \<and> cookie_decode bs = Some (whole c)"
  using encodable_tellable [of c] by (simp add: decode_iff encode_whole) (simp add: encode_Some encodable_def)

text \<open>
  Property C28. The stored form of a cookie is canonical: the decoder accepts exactly the bytes the encoder writes for a
  cookie whose times are whole seconds the clock can show and whose strings are UTF-8, and answers that cookie; anything
  else (cut short, followed by more, an unknown flag or \<open>SameSite\<close> byte, a time beyond the clock) is refused. A cookie
  with finer times is written as the one with its times cut to seconds.
\<close>

theorem cookie_codec_exact:
  "(cookie_decode bs = Some c \<longleftrightarrow> cookie_encode c = Some bs \<and> tellable c) \<and> cookie_encode (whole c) = cookie_encode c"
  using decode_iff encode_whole by blast

section \<open>Keys are not confused\<close>

text \<open>A key without the separator, whose domain is a name that does not end in a dot.\<close>

definition ckey_plain :: "cookie_key \<Rightarrow> bool" where
  "ckey_plain k \<longleftrightarrow> name_ok (key_domain k) \<and> CHR 0x01 \<notin> set (key_domain k) \<and> CHR 0x01 \<notin> set (key_name k) \<and> CHR 0x01 \<notin> set (key_path k)"

lemma reverse_labels_bytes:
  assumes "b \<noteq> CHR ''.''" "b \<notin> set d"
  shows "b \<notin> set (reverse_labels d)"
proof -
  have "set (foldl push_label out ls) \<subseteq> set out \<union> {CHR ''.''} \<union> \<Union> (set ` set ls)" for out ls
    by (induction ls arbitrary: out) (fastforce simp: push_label_def split: if_splits)+
  from this [of "[]" "rev (split_byte (CHR ''.'') d)"] show ?thesis
    using assms set_split_byte [of "CHR ''.''" d b] by (auto simp: reverse_labels_def)
qed

lemma cookie_prefix_inj:
  assumes "name_ok d" "name_ok d'" "CHR 0x01 \<notin> set d" "CHR 0x01 \<notin> set d'"
  shows "starts_with (cookie_prefix d @ r) (cookie_prefix d') \<longleftrightarrow> d = d'"
proof
  assume "starts_with (cookie_prefix d @ r) (cookie_prefix d')"
  then obtain r' where "cookie_prefix d @ r = cookie_prefix d' @ r'" unfolding starts_with_def by (metis append_take_drop_id)
  then have "reverse_labels d = reverse_labels d'"
    using reverse_labels_bytes [of "CHR 0x01"] assms(3,4) by (simp add: cookie_prefix_def split_at_sep)
  then show "d = d'" using reverse_labels_inj assms(1,2) by blast
qed (simp add: starts_with_def)

lemma cookie_key_prefix:
  "ckey_plain k \<Longrightarrow> name_ok d \<Longrightarrow> CHR 0x01 \<notin> set d \<Longrightarrow> starts_with (cookie_key_for k) (cookie_prefix d) \<longleftrightarrow> key_domain k = d"
  by (simp add: cookie_key_for_def ckey_plain_def cookie_prefix_inj)

lemma cookie_key_inj:
  assumes "ckey_plain k" "ckey_plain k'" "cookie_key_for k = cookie_key_for k'"
  shows "k = k'"
proof -
  have d: "key_domain k = key_domain k'"
    using cookie_key_prefix [OF assms(1), of "key_domain k'"] cookie_key_prefix [OF assms(2), of "key_domain k'"] assms
    by (simp add: ckey_plain_def)
  then have "key_name k @ CHR 0x01 # key_path k @ CHR 0x01 # (if key_host_only k then ''1'' else ''0'') =
      key_name k' @ CHR 0x01 # key_path k' @ CHR 0x01 # (if key_host_only k' then ''1'' else ''0'')"
    using assms(3) by (simp add: cookie_key_for_def)
  then show ?thesis using assms(1,2) d by (cases k; cases k') (simp add: ckey_plain_def split_at_sep split: if_splits)
qed

section \<open>The map of cookies that the byte store holds\<close>

definition kvc_look :: "'s key_value_store \<Rightarrow> 's kv_cookies \<Rightarrow> cookie_key \<Rightarrow> cookie option" where
  "kvc_look K s k =
     (case kv_get K (kvc_kv s) COOKIE_NS (cookie_key_for k) 0 of
        [v] \<Rightarrow> Option.bind (cookie_decode v) (\<lambda>c. if key_of c = k then Some c else None)
      | _ \<Rightarrow> None)"

text \<open>Every value under the namespace is alone, can be decoded, and lies under the key of its cookie.\<close>

definition kvc_ok :: "'s key_value_store \<Rightarrow> ('s \<Rightarrow> bool) \<Rightarrow> 's kv_cookies \<Rightarrow> bool" where
  "kvc_ok K I s \<longleftrightarrow> I (kvc_kv s) \<and>
     (\<forall>q. kv_get K (kvc_kv s) COOKIE_NS q 0 = [] \<or>
        (\<exists>v c. kv_get K (kvc_kv s) COOKIE_NS q 0 = [v] \<and> cookie_decode v = Some c \<and> ckey_plain (key_of c) \<and> q = cookie_key_for (key_of c)))"

lemma kvc_look_Some:
  assumes "kvc_ok K I s"
  shows "kvc_look K s k = Some c \<longleftrightarrow>
    key_of c = k \<and> (\<exists>v. kv_get K (kvc_kv s) COOKIE_NS (cookie_key_for k) 0 = [v] \<and> cookie_decode v = Some c)"
  by (auto simp: kvc_look_def bind_eq_Some_conv split: list.splits if_splits)

lemma kvc_look_plain:
  assumes "kvc_ok K I s" "kvc_look K s k = Some c"
  shows "ckey_plain k"
proof -
  obtain v where v: "key_of c = k" "kv_get K (kvc_kv s) COOKIE_NS (cookie_key_for k) 0 = [v]" "cookie_decode v = Some c"
    using assms by (auto simp: kvc_look_Some)
  from assms(1) have "kv_get K (kvc_kv s) COOKIE_NS (cookie_key_for k) 0 = [] \<or>
      (\<exists>v c. kv_get K (kvc_kv s) COOKIE_NS (cookie_key_for k) 0 = [v] \<and> cookie_decode v = Some c \<and> ckey_plain (key_of c))"
    unfolding kvc_ok_def by blast
  then show ?thesis using v by auto
qed

text \<open>A value found under any key is the cookie that is looked up.\<close>

lemma kvc_found:
  assumes "kvc_ok K I s" "v \<in> set (kv_get K (kvc_kv s) COOKIE_NS q 0)"
  obtains c where "cookie_decode v = Some c" "ckey_plain (key_of c)" "q = cookie_key_for (key_of c)"
    "kvc_look K s (key_of c) = Some c" "kv_get K (kvc_kv s) COOKIE_NS q 0 = [v]"
proof -
  have ne: "kv_get K (kvc_kv s) COOKIE_NS q 0 \<noteq> []" using assms(2) by auto
  then obtain v' c where c: "kv_get K (kvc_kv s) COOKIE_NS q 0 = [v']" "cookie_decode v' = Some c" "ckey_plain (key_of c)"
    "q = cookie_key_for (key_of c)" using assms(1) unfolding kvc_ok_def by blast
  then have "v' = v" using assms(2) by simp
  then show thesis using that [of c] c kvc_look_Some [OF assms(1), of "key_of c" c] by auto
qed

text \<open>The map of a state is told by what it holds: how to show that a state holds a map.\<close>

lemma kvc_lookI:
  assumes "kvc_ok K I s"
    and "\<And>k. ckey_plain k \<Longrightarrow> kv_get K (kvc_kv s) COOKIE_NS (cookie_key_for k) 0 =
      (case m k of None \<Rightarrow> [] | Some c \<Rightarrow> [the (cookie_encode c)])"
    and "\<And>k c. m k = Some c \<Longrightarrow> key_of c = k \<and> ckey_plain k \<and> cookie_encode c \<noteq> None \<and> tellable c"
  shows "kvc_look K s = m"
proof
  fix k
  have d: "cookie_decode (the (cookie_encode c)) = Some c" if "m k = Some c" for c
    using assms(3) [OF that] decode_iff by auto
  show "kvc_look K s k = m k"
  proof (cases "ckey_plain k")
    case True
    then show ?thesis using assms(2) [OF True] assms(3) [of k] d by (auto simp: kvc_look_def split: option.splits)
  next
    case False
    then have "kvc_look K s k = None" using kvc_look_plain [OF assms(1)] by (cases "kvc_look K s k") auto
    moreover have "m k = None" using False assms(3) by (cases "m k") auto
    ultimately show ?thesis by simp
  qed
qed

lemma kvc_get_plain:
  assumes "kvc_ok K I s" "ckey_plain k"
  shows "kv_get K (kvc_kv s) COOKIE_NS (cookie_key_for k) 0 = (case kvc_look K s k of None \<Rightarrow> [] | Some c \<Rightarrow> [the (cookie_encode c)])"
proof (cases "kv_get K (kvc_kv s) COOKIE_NS (cookie_key_for k) 0")
  case Nil
  then show ?thesis by (simp add: kvc_look_def)
next
  case (Cons v vs)
  then have "v \<in> set (kv_get K (kvc_kv s) COOKIE_NS (cookie_key_for k) 0)" by simp
  then obtain c where c: "cookie_decode v = Some c" "ckey_plain (key_of c)" "cookie_key_for k = cookie_key_for (key_of c)"
    "kvc_look K s (key_of c) = Some c" "kv_get K (kvc_kv s) COOKIE_NS (cookie_key_for k) 0 = [v]"
    by (rule kvc_found [OF assms(1)])
  then have "k = key_of c" using cookie_key_inj assms(2) by blast
  then show ?thesis using c decode_iff by auto
qed

lemma map_of_single: "(\<And>w w'. (q, w) \<in> set xs \<Longrightarrow> (q, w') \<in> set xs \<Longrightarrow> w = w') \<Longrightarrow> map_of xs q = Some w \<longleftrightarrow> (q, w) \<in> set xs"
proof (induction xs)
  case (Cons x xs)
  obtain a b where x: "x = (a, b)" by force
  show ?case
  proof (cases "a = q")
    case True
    then show ?thesis using Cons.prems [of b w] x by auto
  next
    case False
    have "w = w'" if "(q, w) \<in> set xs" "(q, w') \<in> set xs" for w w' using Cons.prems [of w w'] that by simp
    then show ?thesis using Cons.IH False x by auto
  qed
qed simp

abbreviation replacements :: "(bytes \<times> bytes) list \<Rightarrow> kvc_step list" where
  "replacements rs \<equiv> concat (map (\<lambda>(k, v). [Forget k, Write k v]) rs)"

text \<open>The values that a touch writes.\<close>

definition rewritten :: "bytes list \<Rightarrow> system_time \<Rightarrow> (bytes \<times> bytes) list \<Rightarrow> (bytes \<times> bytes) list" where
  "rewritten keys now found =
     List.map_filter (\<lambda>(k, v). if k \<in> set keys then
       Option.bind (cookie_decode v) (\<lambda>c. map_option (Pair k) (cookie_encode (c\<lparr>ck_last_access := now\<rparr>))) else None) found"

lemma touch_steps: "kvc_touch_steps keys now found = replacements (rewritten keys now found)"
proof (induction found)
  case (Cons p found)
  obtain k v where p: "p = (k, v)" by force
  show ?case using Cons
    by (cases "cookie_decode v"; cases "cookie_encode ((the (cookie_decode v))\<lparr>ck_last_access := now\<rparr>)")
      (simp_all add: p kvc_touch_steps_def rewritten_def map_filter_simps)
qed (simp add: kvc_touch_steps_def rewritten_def map_filter_simps)

lemma kvc_start_simps [simp]:
  "kvc_start K s (Forget k) = kv_remove K s COOKIE_NS k" "kvc_start K s (Write k v) = kv_put K s COOKIE_NS k v None 0"
  by (simp_all add: kvc_start_def)

lemma key_starts: "starts_with (cookie_key_for k) (cookie_prefix (key_domain k))"
  by (simp add: starts_with_def cookie_key_for_def)

context kv_store
begin

lemma set_scan_many: "inv s \<Longrightarrow> (k, v) \<in> set (kv_scan_many K s ns ps now) \<longleftrightarrow> list_ex (starts_with k) ps \<and> v \<in> set (kv_get K s ns k now)"
proof -
  assume "inv s"
  have "(k, v) \<in> set xs \<longleftrightarrow> v \<in> set (map snd (filter (\<lambda>(k', _). k' = k) xs))" for xs by force
  from this [of "kv_scan_many K s ns ps now"] show ?thesis unfolding scan_many_law [OF \<open>inv s\<close>] by simp
qed

lemma forgets:
  "inv s \<Longrightarrow> inv (foldl (kvc_start K) s (map Forget vs)) \<and>
   kv_get K (foldl (kvc_start K) s (map Forget vs)) COOKIE_NS q t = (if q \<in> set vs then [] else kv_get K s COOKIE_NS q t)"
  by (induction vs arbitrary: s) (auto simp: remove_law remove_inv)

lemma replacing:
  "inv s \<Longrightarrow> inv (foldl (kvc_start K) s (replacements rs)) \<and>
   kv_get K (foldl (kvc_start K) s (replacements rs)) COOKIE_NS q 0 =
     (case map_of (rev rs) q of Some v \<Rightarrow> [v] | None \<Rightarrow> kv_get K s COOKIE_NS q 0)"
proof (induction rs rule: rev_induct)
  case (snoc r rs)
  obtain k v where r: "r = (k, v)" by force
  show ?case using snoc replace_get [of "foldl (kvc_start K) s (replacements rs)" 0 0 COOKIE_NS k v COOKIE_NS q]
    by (simp add: r inv_intros)
qed simp

lemma kvc_get_set:
  assumes "kvc_ok K inv s" "\<And>d. d \<in> set ds \<Longrightarrow> name_ok d \<and> CHR 0x01 \<notin> set d"
  shows "c \<in> set (kvc_get K s ds) \<longleftrightarrow> kvc_look K s (key_of c) = Some c \<and> ck_domain c \<in> set ds"
proof -
  have i: "inv (kvc_kv s)" using assms(1) by (simp add: kvc_ok_def)
  have "c \<in> set (kvc_get K s ds) \<longleftrightarrow>
      (\<exists>q v. (q, v) \<in> set (kv_scan_many K (kvc_kv s) COOKIE_NS (map cookie_prefix ds) 0) \<and> cookie_decode v = Some c)"
    by (simp add: kvc_get_def decode_found_def in_map_filter) (metis (mono_tags, lifting) case_prod_conv surj_pair)
  also have "\<dots> \<longleftrightarrow> (\<exists>q v d. d \<in> set ds \<and> starts_with q (cookie_prefix d) \<and> v \<in> set (kv_get K (kvc_kv s) COOKIE_NS q 0) \<and> cookie_decode v = Some c)"
    unfolding set_scan_many [OF i] by (auto simp: list_ex_iff)
  also have "\<dots> \<longleftrightarrow> kvc_look K s (key_of c) = Some c \<and> ck_domain c \<in> set ds"
  proof
    assume "\<exists>q v d. d \<in> set ds \<and> starts_with q (cookie_prefix d) \<and> v \<in> set (kv_get K (kvc_kv s) COOKIE_NS q 0) \<and> cookie_decode v = Some c"
    then obtain q v d where q: "d \<in> set ds" "starts_with q (cookie_prefix d)" "v \<in> set (kv_get K (kvc_kv s) COOKIE_NS q 0)" "cookie_decode v = Some c" by blast
    from kvc_found [OF assms(1) q(3)] q(4) have c: "ckey_plain (key_of c)" "q = cookie_key_for (key_of c)" "kvc_look K s (key_of c) = Some c" by force+
    then have "ck_domain c = d" using cookie_key_prefix [OF c(1), of d] assms(2) [OF q(1)] q(2) by simp
    then show "kvc_look K s (key_of c) = Some c \<and> ck_domain c \<in> set ds" using c(3) q(1) by simp
  next
    assume a: "kvc_look K s (key_of c) = Some c \<and> ck_domain c \<in> set ds"
    then obtain v where "kv_get K (kvc_kv s) COOKIE_NS (cookie_key_for (key_of c)) 0 = [v]" "cookie_decode v = Some c"
      using kvc_look_Some [OF assms(1)] by blast
    moreover have "starts_with (cookie_key_for (key_of c)) (cookie_prefix (ck_domain c))" using key_starts [of "key_of c"] by simp
    ultimately show "\<exists>q v d. d \<in> set ds \<and> starts_with q (cookie_prefix d) \<and> v \<in> set (kv_get K (kvc_kv s) COOKIE_NS q 0) \<and> cookie_decode v = Some c"
      using a by (metis list.set_intros(1))
  qed
  finally show ?thesis .
qed

lemma kvc_remove_spec:
  assumes "kvc_ok K inv s" "ckey_plain k"
  shows "kvc_ok K inv (kvc_remove K s k) \<and> kvc_look K (kvc_remove K s k) = (kvc_look K s)(k := None)"
proof -
  have i: "inv (kvc_kv s)" using assms(1) by (simp add: kvc_ok_def)
  have g: "kv_get K (kvc_kv (kvc_remove K s k)) COOKIE_NS q 0 = (if q = cookie_key_for k then [] else kv_get K (kvc_kv s) COOKIE_NS q 0)" for q
    by (simp add: kvc_remove_def remove_law [OF i])
  have ok: "kvc_ok K inv (kvc_remove K s k)"
    using assms(1) unfolding kvc_ok_def g by (auto simp: kvc_remove_def inv_intros)
  have "kvc_look K (kvc_remove K s k) x = ((kvc_look K s)(k := None)) x" for x
  proof (cases "ckey_plain x")
    case True
    then have "cookie_key_for x = cookie_key_for k \<longleftrightarrow> x = k" using cookie_key_inj assms(2) by blast
    then show ?thesis by (simp add: kvc_look_def g)
  next
    case False
    then have "kvc_look K s x = None" "kvc_look K (kvc_remove K s k) x = None" using kvc_look_plain [OF assms(1)] kvc_look_plain [OF ok] by fastforce+
    then show ?thesis by simp
  qed
  then show ?thesis using ok by blast
qed

lemma kvc_clear_spec:
  assumes "kvc_ok K inv s"
  shows "kvc_ok K inv (kvc_clear K s) \<and> kvc_look K (kvc_clear K s) = Map.empty"
  using assms by (simp add: kvc_ok_def kvc_look_def fun_eq_iff kvc_clear_def clear_law inv_intros)

lemma kvc_touch_spec:
  assumes ok: "kvc_ok K inv s" and ks: "\<And>k. k \<in> set ks \<Longrightarrow> ckey_plain k" and now: "now \<le> systime_max"
  shows "kvc_ok K inv (kvc_touch K s ks now) \<and> kvc_look K (kvc_touch K s ks now) = map_option (touched ks (whole_sec now)) \<circ> kvc_look K s"
proof (cases "ks = []")
  case True
  then show ?thesis using ok by (auto simp: kvc_touch_def touched_def fun_eq_iff map_option_case split: option.split)
next
  case False
  let ?keys = "map cookie_key_for ks" and ?t = "touched ks (whole_sec now)"
  define found where "found = kv_scan_many K (kvc_kv s) COOKIE_NS (remdups_adj (sort (map (cookie_prefix \<circ> key_domain) ks))) 0"
  define rs where "rs = rewritten ?keys now found"
  have i: "inv (kvc_kv s)" using ok by (simp add: kvc_ok_def)
  have st: "kvc_touch K s ks now = s\<lparr>kvc_kv := foldl (kvc_start K) (kvc_kv s) (replacements rs)\<rparr>"
    using False by (simp add: kvc_touch_def Let_def touch_steps rs_def found_def)
  have upd: "cookie_encode (c\<lparr>ck_last_access := now\<rparr>) = cookie_encode (c\<lparr>ck_last_access := whole_sec now\<rparr>)" for c
    by (simp add: cookie_encode_def flags_of_def)
  have enc: "\<exists>w. cookie_encode (c\<lparr>ck_last_access := whole_sec now\<rparr>) = Some w \<and> tellable (c\<lparr>ck_last_access := whole_sec now\<rparr>)"
    if "tellable c" "cookie_encode c = Some v" for c v
    using that sec_ok_whole [OF now] by (simp add: encode_Some tellable_def)
  have starts: "list_ex (starts_with (cookie_key_for k)) (remdups_adj (sort (map (cookie_prefix \<circ> key_domain) ks)))" if "k \<in> set ks" for k
    using that key_starts [of k] by (auto simp: list_ex_iff)
  have rs_iff: "(q, w) \<in> set rs \<longleftrightarrow> (\<exists>k c. k \<in> set ks \<and> q = cookie_key_for k \<and> kvc_look K s k = Some c \<and>
      cookie_encode (c\<lparr>ck_last_access := whole_sec now\<rparr>) = Some w)" for q w
  proof
    assume "(q, w) \<in> set rs"
    then obtain v c where v: "q \<in> set ?keys" "(q, v) \<in> set found" "cookie_decode v = Some c" "cookie_encode (c\<lparr>ck_last_access := now\<rparr>) = Some w"
      by (auto simp: rs_def rewritten_def in_map_filter bind_eq_Some_conv split: if_splits)
    have "v \<in> set (kv_get K (kvc_kv s) COOKIE_NS q 0)" using v(2) set_scan_many [OF i] by (simp add: found_def)
    from kvc_found [OF ok this] v(3) have c: "ckey_plain (key_of c)" "q = cookie_key_for (key_of c)" "kvc_look K s (key_of c) = Some c" by force+
    obtain k where k: "k \<in> set ks" "q = cookie_key_for k" using v(1) by auto
    have "k = key_of c" by (rule cookie_key_inj [OF ks [OF k(1)] c(1) trans [OF k(2) [symmetric] c(2)]])
    then show "\<exists>k c. k \<in> set ks \<and> q = cookie_key_for k \<and> kvc_look K s k = Some c \<and> cookie_encode (c\<lparr>ck_last_access := whole_sec now\<rparr>) = Some w"
      using k c(3) v(4) unfolding upd by blast
  next
    assume "\<exists>k c. k \<in> set ks \<and> q = cookie_key_for k \<and> kvc_look K s k = Some c \<and> cookie_encode (c\<lparr>ck_last_access := whole_sec now\<rparr>) = Some w"
    then obtain k c where k: "k \<in> set ks" "q = cookie_key_for k" "kvc_look K s k = Some c" "cookie_encode (c\<lparr>ck_last_access := now\<rparr>) = Some w"
      unfolding upd by blast
    then obtain v where v: "kv_get K (kvc_kv s) COOKIE_NS q 0 = [v]" "cookie_decode v = Some c" using kvc_look_Some [OF ok] by blast
    then have "(q, v) \<in> set found" using set_scan_many [OF i] starts [OF k(1)] k(2) by (simp add: found_def)
    then show "(q, w) \<in> set rs" using k v(2) by (force simp: rs_def rewritten_def in_map_filter)
  qed
  have single: "w = w'" if "(q, w) \<in> set (rev rs)" "(q, w') \<in> set (rev rs)" for q w w'
    using that ks cookie_key_inj unfolding set_rev rs_iff by (metis option.inject)
  have g: "kv_get K (kvc_kv (kvc_touch K s ks now)) COOKIE_NS (cookie_key_for k) 0 =
      (case (map_option ?t \<circ> kvc_look K s) k of None \<Rightarrow> [] | Some c \<Rightarrow> [the (cookie_encode c)])" if k: "ckey_plain k" for k
  proof (cases "kvc_look K s k")
    case None
    then have "map_of (rev rs) (cookie_key_for k) = None"
      using k ks cookie_key_inj by (auto simp: map_of_eq_None_iff image_iff rs_iff) (metis option.distinct(1))
    then show ?thesis using replacing [OF i, of rs "cookie_key_for k"] kvc_get_plain [OF ok k] None by (simp add: st)
  next
    case (Some c)
    then obtain v where v: "cookie_decode v = Some c" "key_of c = k" using kvc_look_Some [OF ok] by blast
    then have t: "tellable c" "cookie_encode c = Some v" using decode_iff by auto
    obtain w where w: "cookie_encode (c\<lparr>ck_last_access := whole_sec now\<rparr>) = Some w" using enc [OF t] by blast
    show ?thesis
    proof (cases "k \<in> set ks")
      case True
      then have "(cookie_key_for k, w) \<in> set (rev rs)" using Some w unfolding set_rev rs_iff by blast
      then have "map_of (rev rs) (cookie_key_for k) = Some w" using map_of_single [of "cookie_key_for k" "rev rs" w] single by blast
      then show ?thesis using replacing [OF i, of rs "cookie_key_for k"] Some w True v(2) by (simp add: st touched_def)
    next
      case False
      have "k' = k" if "k' \<in> set ks" "cookie_key_for k = cookie_key_for k'" for k'
        by (rule cookie_key_inj [OF ks [OF that(1)] k that(2) [symmetric]])
      then have "map_of (rev rs) (cookie_key_for k) = None"
        using False by (auto simp: map_of_eq_None_iff image_iff rs_iff)
      then show ?thesis using replacing [OF i, of rs "cookie_key_for k"] kvc_get_plain [OF ok k] Some False v(2) by (simp add: st touched_def)
    qed
  qed
  have told: "key_of c = k \<and> ckey_plain k \<and> cookie_encode c \<noteq> None \<and> tellable c" if c: "(map_option ?t \<circ> kvc_look K s) k = Some c" for k c
  proof -
    obtain c0 where c0: "kvc_look K s k = Some c0" "c = ?t c0" using c by auto
    then obtain v where v: "cookie_decode v = Some c0" "key_of c0 = k" using kvc_look_Some [OF ok] by blast
    then have t: "tellable c0" "cookie_encode c0 = Some v" using decode_iff by auto
    show ?thesis using enc [OF t] t v(2) kvc_look_plain [OF ok c0(1)] c0(2) by (auto simp: touched_def)
  qed
  have "kvc_ok K inv (kvc_touch K s ks now)"
    unfolding kvc_ok_def
  proof (intro conjI allI)
    show "inv (kvc_kv (kvc_touch K s ks now))" using replacing [OF i] by (simp add: st)
    fix q
    let ?g = "kv_get K (kvc_kv (kvc_touch K s ks now)) COOKIE_NS q 0"
    show "?g = [] \<or> (\<exists>v c. ?g = [v] \<and> cookie_decode v = Some c \<and> ckey_plain (key_of c) \<and> q = cookie_key_for (key_of c))"
    proof (cases "\<exists>k. ckey_plain k \<and> q = cookie_key_for k")
      case True
      then obtain k where k: "ckey_plain k" "q = cookie_key_for k" by blast
      show ?thesis
      proof (cases "(map_option ?t \<circ> kvc_look K s) k")
        case (Some c)
        then show ?thesis using g [OF k(1)] told [OF Some] k decode_iff by auto
      qed (use g [OF k(1)] k in simp)
    next
      case False
      then have "q \<noteq> cookie_key_for k" if "k \<in> set ks" for k using ks [OF that] by blast
      then have "(q, w) \<notin> set rs" for w unfolding rs_iff by blast
      then have "map_of (rev rs) q = None" by (force simp: map_of_eq_None_iff)
      then show ?thesis using ok replacing [OF i, of rs q] unfolding kvc_ok_def by (simp add: st)
    qed
  qed
  then show ?thesis using kvc_lookI [OF _ g told] by blast
qed

text \<open>What a put takes away, and the rest of it.\<close>

definition kvc_lost :: "capacity \<Rightarrow> 's kv_cookies \<Rightarrow> cookie \<Rightarrow> bytes list" where
  "kvc_lost cap s c =
     (if unat (kvc_held s + 1) > max_cookies cap then kvc_victims (max_cookies cap - 1) (kv_scan K (kvc_kv s) COOKIE_NS [] 0)
      else kvc_victims (max_per_domain cap - 1) (kv_scan K (kvc_kv s) COOKIE_NS (cookie_prefix (ck_domain c)) 0))"

lemma kvc_put_get:
  assumes "inv (kvc_kv s)" "cookie_encode c = Some v"
  shows "inv (kvc_kv (kvc_put K cap s c now))"
    "kv_get K (kvc_kv (kvc_put K cap s c now)) COOKIE_NS q 0 =
      (if q = cookie_key_for (key_of c) then [v] else if q \<in> set (kvc_lost cap s c) then [] else kv_get K (kvc_kv s) COOKIE_NS q 0)"
proof -
  let ?k = "cookie_key_for (key_of c)"
  have "kvc_kv (kvc_put K cap s c now) = foldl (kvc_start K) (kvc_kv s) (map Forget (rev (kvc_lost cap s c)) @ replacements [(?k, v)])"
    using assms(2) by (simp add: kvc_put_def kvc_lost_def Let_def rev_map)
  then show "inv (kvc_kv (kvc_put K cap s c now))"
    "kv_get K (kvc_kv (kvc_put K cap s c now)) COOKIE_NS q 0 =
      (if q = ?k then [v] else if q \<in> set (kvc_lost cap s c) then [] else kv_get K (kvc_kv s) COOKIE_NS q 0)"
    using forgets [OF assms(1), of "rev (kvc_lost cap s c)"]
      replacing [of "foldl (kvc_start K) (kvc_kv s) (map Forget (rev (kvc_lost cap s c)))" "[(?k, v)]" q]
    by (auto simp del: concat.simps split: if_splits)
qed

lemma kvc_put_spec:
  assumes ok: "kvc_ok K inv s" and c: "ckey_plain (key_of c)" "encodable c"
  shows "kvc_ok K inv (kvc_put K cap s c now) \<and>
    kvc_look K (kvc_put K cap s c now) =
      (\<lambda>k. if cookie_key_for k \<in> set (kvc_lost cap s c) then None else kvc_look K s k)(key_of c \<mapsto> whole c)"
proof -
  let ?m = "(\<lambda>k. if cookie_key_for k \<in> set (kvc_lost cap s c) then None else kvc_look K s k)(key_of c \<mapsto> whole c)"
  obtain v where v: "cookie_encode c = Some v" "cookie_decode v = Some (whole c)" using encodable_encode [OF c(2)] by blast
  have i: "inv (kvc_kv s)" using ok by (simp add: kvc_ok_def)
  note p = kvc_put_get [OF i v(1), of cap now]
  have ok': "kvc_ok K inv (kvc_put K cap s c now)"
    unfolding kvc_ok_def
  proof (intro conjI allI)
    fix q
    let ?g = "kv_get K (kvc_kv (kvc_put K cap s c now)) COOKIE_NS q 0"
    show "?g = [] \<or> (\<exists>v c. ?g = [v] \<and> cookie_decode v = Some c \<and> ckey_plain (key_of c) \<and> q = cookie_key_for (key_of c))"
    proof (cases "q = cookie_key_for (key_of c)")
      case True
      then show ?thesis using v(2) c(1) unfolding p(2) by (intro disjI2 exI [of _ v] exI [of _ "whole c"]) simp
    qed (use ok in \<open>simp add: p(2) kvc_ok_def\<close>)
  qed (rule p(1))
  moreover have "kvc_look K (kvc_put K cap s c now) = ?m"
  proof (rule kvc_lookI [OF ok'])
    fix k assume k: "ckey_plain k"
    then have "cookie_key_for k = cookie_key_for (key_of c) \<longleftrightarrow> k = key_of c" using cookie_key_inj c(1) by blast
    then show "kv_get K (kvc_kv (kvc_put K cap s c now)) COOKIE_NS (cookie_key_for k) 0 = (case ?m k of None \<Rightarrow> [] | Some c \<Rightarrow> [the (cookie_encode c)])"
      using v kvc_get_plain [OF ok k] by (simp add: p(2) encode_whole)
  next
    fix k x assume x: "?m k = Some x"
    show "key_of x = k \<and> ckey_plain k \<and> cookie_encode x \<noteq> None \<and> tellable x"
    proof (cases "k = key_of c")
      case True
      then show ?thesis using x v c(1) encodable_tellable [OF c(2)] by (auto simp: encode_whole)
    next
      case False
      then have l: "kvc_look K s k = Some x" using x by (simp split: if_splits)
      then show ?thesis using kvc_look_plain [OF ok l] decode_iff unfolding kvc_look_Some [OF ok] by auto
    qed
  qed
  ultimately show ?thesis by blast
qed

text \<open>Nothing is lost while there is room.\<close>

lemma kvc_lost_none:
  assumes "unat (kvc_held s + 1) \<le> max_cookies cap" "length (kv_scan K (kvc_kv s) COOKIE_NS (cookie_prefix (ck_domain c)) 0) < max_per_domain cap"
  shows "kvc_lost cap s c = []"
  using assms by (simp add: kvc_lost_def kvc_victims_def)

end

section \<open>The bound on all cookies\<close>

abbreviation victim_rank :: "system_time \<times> nat \<times> bytes \<Rightarrow> system_time \<times> nat" where
  "victim_rank \<equiv> \<lambda>(t, q, _). (t, q)"

definition ranked :: "(bytes \<times> bytes) list \<Rightarrow> (system_time \<times> nat \<times> bytes) list" where
  "ranked found = List.map_filter (\<lambda>(k, v). map_option (\<lambda>c. (ck_last_access c, ck_seq c, k)) (cookie_decode v)) found"

lemma victims_ranked: "kvc_victims bound found = map (\<lambda>(_, _, k). k) (take (length found - bound) (sort_key victim_rank (ranked found)))"
  by (simp add: kvc_victims_def ranked_def)

lemma in_ranked: "(t, q, k) \<in> set (ranked found) \<longleftrightarrow> (\<exists>v c. (k, v) \<in> set found \<and> cookie_decode v = Some c \<and> t = ck_last_access c \<and> q = ck_seq c)"
  by (force simp: ranked_def in_map_filter)

lemma take_sorted_le:
  fixes f :: "'a \<Rightarrow> 'b :: linorder"
  assumes "x \<in> set (take n (sort_key f xs))" "y \<in> set (drop n (sort_key f xs))"
  shows "f x \<le> f y"
proof -
  have "sorted (map f (take n (sort_key f xs)) @ map f (drop n (sort_key f xs)))" by (simp flip: map_append)
  then show ?thesis using assms by (simp add: sorted_append)
qed

text \<open>The victims are those used least recently.\<close>

lemma victims_lru:
  assumes "k \<in> set (kvc_victims bound found)"
  shows "\<exists>v c. (k, v) \<in> set found \<and> cookie_decode v = Some c \<and>
    (\<forall>k' v' c'. (k', v') \<in> set found \<longrightarrow> cookie_decode v' = Some c' \<longrightarrow> k' \<notin> set (kvc_victims bound found) \<longrightarrow> \<not> lru_before c' c)"
proof -
  let ?S = "sort_key victim_rank (ranked found)" and ?n = "length found - bound"
  obtain t q where x: "(t, q, k) \<in> set (take ?n ?S)" using assms by (force simp: victims_ranked)
  then have "(t, q, k) \<in> set (ranked found)" using in_set_takeD by fastforce
  then obtain v c where v: "(k, v) \<in> set found" "cookie_decode v = Some c" "t = ck_last_access c" "q = ck_seq c"
    unfolding in_ranked by blast
  have "\<not> lru_before c' c" if y: "(k', v') \<in> set found" "cookie_decode v' = Some c'" "k' \<notin> set (kvc_victims bound found)" for k' v' c'
  proof -
    let ?y = "(ck_last_access c', ck_seq c', k')"
    have "?y \<in> set (take ?n ?S @ drop ?n ?S)" using y(1,2) unfolding append_take_drop_id set_sort in_ranked by blast
    moreover have "?y \<notin> set (take ?n ?S)" using y(3) by (force simp: victims_ranked)
    ultimately have "?y \<in> set (drop ?n ?S)" unfolding set_append by blast
    from take_sorted_le [OF x this] show ?thesis using v(3,4) by (auto simp: lru_before_def less_eq_prod_def)
  qed
  then show ?thesis using v by blast
qed

lemma ranked_all: "\<forall>(k, v) \<in> set found. cookie_decode v \<noteq> None \<Longrightarrow> length (ranked found) = length found \<and> map (\<lambda>(_, _, k). k) (ranked found) = map fst found"
  by (induction found) (auto simp: ranked_def map_filter_simps)

lemma distinct_single: "(\<And>k. length (filter (\<lambda>(k', _). k' = k) xs) \<le> 1) \<Longrightarrow> distinct (map fst xs)"
proof (induction xs)
  case (Cons p xs)
  obtain a b where p: "p = (a, b)" by force
  have "length (filter (\<lambda>(k', _). k' = k) xs) \<le> 1" for k using Cons.prems [of k] by (simp add: p split: if_splits)
  moreover have "filter (\<lambda>(k', _). k' = a) xs = []" using Cons.prems [of a] by (simp add: p)
  then have "a \<notin> fst ` set xs" by (auto simp: filter_empty_conv)
  ultimately show ?case using Cons.IH p by auto
qed simp

lemma victims_count:
  assumes "\<forall>(k, v) \<in> set found. cookie_decode v \<noteq> None" "distinct (map fst found)"
  shows "length (kvc_victims bound found) = length found - bound \<and> distinct (kvc_victims bound found) \<and>
    set (kvc_victims bound found) \<subseteq> fst ` set found"
proof -
  let ?S = "sort_key victim_rank (ranked found)" and ?k = "\<lambda>(_, _, k). k"
  note r = ranked_all [OF assms(1)]
  have "mset (map ?k ?S) = mset (map ?k (ranked found))" by (simp add: mset_map)
  then have m: "mset (map ?k ?S) = mset (map fst found)" using r by simp
  have "distinct (map ?k ?S)" using assms(2) mset_eq_imp_distinct_iff [OF m] by simp
  moreover have "set (map ?k ?S) = fst ` set found" using mset_eq_setD [OF m] by simp
  ultimately have "distinct (take n (map ?k ?S))" "set (take n (map ?k ?S)) \<subseteq> fst ` set found" for n
    using set_take_subset [of n "map ?k ?S"] by (simp_all del: set_map)
  moreover have "length (take (length found - bound) ?S) = length found - bound" using r by simp
  ultimately show ?thesis unfolding victims_ranked by (simp add: take_map)
qed

context kv_store
begin

lemma scan_distinct:
  assumes "kvc_ok K inv s"
  shows "distinct (map fst (kv_scan K (kvc_kv s) COOKIE_NS p 0))"
proof (rule distinct_single)
  fix k
  have "length (map snd (filter (\<lambda>(k', _). k' = k) (kv_scan K (kvc_kv s) COOKIE_NS p 0))) \<le> 1"
    using assms unfolding kvc_ok_def by (subst scan_law) (auto, metis One_nat_def le_numeral_extra(4) length_Cons list.size(3) nle_le not_less_eq_eq)
  then show "length (filter (\<lambda>(k', _). k' = k) (kv_scan K (kvc_kv s) COOKIE_NS p 0)) \<le> 1" by simp
qed

lemma scan_found:
  assumes "kvc_ok K inv s"
  shows "(q, v) \<in> set (kv_scan K (kvc_kv s) COOKIE_NS p 0) \<longleftrightarrow>
    starts_with q p \<and> (\<exists>c. kvc_look K s (key_of c) = Some c \<and> cookie_decode v = Some c \<and> q = cookie_key_for (key_of c))"
proof -
  have i: "inv (kvc_kv s)" using assms by (simp add: kvc_ok_def)
  have "v \<in> set (kv_get K (kvc_kv s) COOKIE_NS q 0) \<longleftrightarrow>
      (\<exists>c. kvc_look K s (key_of c) = Some c \<and> cookie_decode v = Some c \<and> q = cookie_key_for (key_of c))"
  proof
    assume "v \<in> set (kv_get K (kvc_kv s) COOKIE_NS q 0)"
    from kvc_found [OF assms this] show "\<exists>c. kvc_look K s (key_of c) = Some c \<and> cookie_decode v = Some c \<and> q = cookie_key_for (key_of c)" by blast
  next
    assume "\<exists>c. kvc_look K s (key_of c) = Some c \<and> cookie_decode v = Some c \<and> q = cookie_key_for (key_of c)"
    then show "v \<in> set (kv_get K (kvc_kv s) COOKIE_NS q 0)"
      using kvc_look_Some [OF assms] decode_iff by (metis list.set_intros(1) option.inject)
  qed
  then show ?thesis unfolding set_scan [OF i] by blast
qed

lemma keys_inj: "kvc_ok K inv s \<Longrightarrow> inj_on cookie_key_for (dom (kvc_look K s))"
  using kvc_look_plain cookie_key_inj by (auto simp: inj_on_def) blast

lemma kvc_len_dom:
  assumes "kvc_ok K inv s"
  shows "kvc_len K s = card (dom (kvc_look K s)) \<and> finite (dom (kvc_look K s)) \<and>
    fst ` set (kv_scan K (kvc_kv s) COOKIE_NS [] 0) = cookie_key_for ` dom (kvc_look K s)"
proof -
  let ?f = "kv_scan K (kvc_kv s) COOKIE_NS [] 0"
  have img: "fst ` set ?f = cookie_key_for ` dom (kvc_look K s)"
  proof (intro equalityI subsetI)
    fix q assume "q \<in> fst ` set ?f"
    then obtain v where "(q, v) \<in> set ?f" by force
    then show "q \<in> cookie_key_for ` dom (kvc_look K s)" unfolding scan_found [OF assms] by blast
  next
    fix q assume "q \<in> cookie_key_for ` dom (kvc_look K s)"
    then obtain k c where k: "kvc_look K s k = Some c" "q = cookie_key_for k" by blast
    then obtain v where "key_of c = k" "cookie_decode v = Some c" using kvc_look_Some [OF assms] by blast
    then have "(q, v) \<in> set ?f" unfolding scan_found [OF assms] using k by (auto simp: starts_with_def)
    then show "q \<in> fst ` set ?f" by force
  qed
  have "kvc_len K s = card (fst ` set ?f)"
    using distinct_card [OF scan_distinct [OF assms, of "[]"]] by (simp add: kvc_len_def)
  also have "\<dots> = card (dom (kvc_look K s))" unfolding img by (rule card_image [OF keys_inj [OF assms]])
  finally show ?thesis using img finite_imageD [OF _ keys_inj [OF assms]] by (metis finite_imageI finite_set)
qed

end

text \<open>
  What a jar of one process does to its store, that is, puts, touches and clearing, and removals of cookies that are held. The number is
  that of the puts.
\<close>

inductive kvc_run :: "'s key_value_store \<Rightarrow> capacity \<Rightarrow> 's \<Rightarrow> nat \<Rightarrow> 's kv_cookies \<Rightarrow> bool" for K cap s0 where
  Start: "kvc_run K cap s0 0 (kvc_new s0)"
| Put: "kvc_run K cap s0 n s \<Longrightarrow> ckey_plain (key_of c) \<Longrightarrow> encodable c \<Longrightarrow> kvc_run K cap s0 (Suc n) (kvc_put K cap s c now)"
| Refused: "kvc_run K cap s0 n s \<Longrightarrow> cookie_encode c = None \<Longrightarrow> kvc_run K cap s0 n (kvc_put K cap s c now)"
| Touch: "kvc_run K cap s0 n s \<Longrightarrow> \<forall>k \<in> set ks. ckey_plain k \<Longrightarrow> now \<le> systime_max \<Longrightarrow> kvc_run K cap s0 n (kvc_touch K s ks now)"
| Remove: "kvc_run K cap s0 n s \<Longrightarrow> kvc_look K s k = Some x \<Longrightarrow> kvc_run K cap s0 n (kvc_remove K s k)"
| Clear: "kvc_run K cap s0 n s \<Longrightarrow> kvc_run K cap s0 n (kvc_clear K s)"

context kv_store
begin

lemma room_counts: "a \<le> b - (b - (m - 1)) + 1 \<Longrightarrow> b \<le> h \<Longrightarrow> n = h + 1 - (b - (m - 1)) \<Longrightarrow> a \<le> n \<and> n \<le> h + 1 \<and> a \<le> max 1 m"
  for a b h m n :: nat
  by linarith

lemma kvc_put_counts:
  assumes ok: "kvc_ok K inv s" and c: "ckey_plain (key_of c)" "encodable c" and room: "unat (kvc_held s) + 1 < 2 ^ 64"
    and held: "kvc_len K s \<le> unat (kvc_held s)"
  shows "kvc_len K (kvc_put K cap s c now) \<le> unat (kvc_held (kvc_put K cap s c now)) \<and>
    unat (kvc_held (kvc_put K cap s c now)) \<le> unat (kvc_held s) + 1 \<and> kvc_len K (kvc_put K cap s c now) \<le> max 1 (max_cookies cap)"
proof -
  let ?s = "kvc_put K cap s c now" and ?lost = "kvc_lost cap s c"
  let ?L = "{k \<in> dom (kvc_look K s). cookie_key_for k \<in> set ?lost}"
  obtain v where v: "cookie_encode c = Some v" using encodable_encode [OF c(2)] by blast
  note sp = kvc_put_spec [OF ok c, of cap now]
  note len = kvc_len_dom [OF ok] kvc_len_dom [OF conjunct1 [OF sp]]
  have dom: "dom (kvc_look K ?s) \<subseteq> insert (key_of c) (dom (kvc_look K s) - ?L)" using sp by (auto split: if_splits)
  have plus: "unat (kvc_held s + 1) = unat (kvc_held s) + 1" using room by (simp add: unat_word_ariths)
  have "kvc_len K ?s \<le> card (insert (key_of c) (dom (kvc_look K s) - ?L))"
    using card_mono [OF _ dom] len by simp
  also have "\<dots> \<le> card (dom (kvc_look K s) - ?L) + 1" using len by (simp add: card_insert_if)
  also have "card (dom (kvc_look K s) - ?L) = kvc_len K s - card ?L" using len by (simp add: card_Diff_subset)
  finally have up: "kvc_len K ?s \<le> kvc_len K s - card ?L + 1" .
  show ?thesis
  proof (cases "unat (kvc_held s + 1) > max_cookies cap")
    case False
    then have h: "kvc_held ?s = kvc_held s + 1" using v by (simp add: kvc_put_def Let_def)
    have "kvc_len K ?s \<le> kvc_len K s + 1" using up by linarith
    then show ?thesis using plus held False unfolding h by simp
  next
    case True
    let ?f = "kv_scan K (kvc_kv s) COOKIE_NS [] 0"
    have vs: "?lost = kvc_victims (max_cookies cap - 1) ?f" using True by (simp add: kvc_lost_def)
    have "\<forall>(k, v) \<in> set ?f. cookie_decode v \<noteq> None" using scan_found [OF ok, of _ _ "[]"] by fastforce
    then have n: "length ?lost = kvc_len K s - (max_cookies cap - 1)" "distinct ?lost" "set ?lost \<subseteq> fst ` set ?f"
      using victims_count scan_distinct [OF ok] unfolding vs kvc_len_def by blast+
    have "set ?lost \<subseteq> cookie_key_for ` dom (kvc_look K s)" using n(3) len(1) by simp
    then have "cookie_key_for ` ?L = set ?lost" by blast
    moreover have "inj_on cookie_key_for ?L" by (rule inj_on_subset [OF keys_inj [OF ok]]) auto
    ultimately have L: "card ?L = length ?lost" using distinct_card [OF n(2)] card_image [of cookie_key_for ?L] by simp
    have h: "kvc_held ?s = kvc_held s + 1 - of_nat (length ?lost)" using v True by (simp add: kvc_put_def Let_def vs)
    have "length ?lost \<le> unat (kvc_held s) + 1" using n(1) held by simp
    moreover from this have "unat (of_nat (length ?lost) :: 64 word) = length ?lost" using room by (simp add: unat_of_nat)
    ultimately have "unat (kvc_held ?s) = unat (kvc_held s) + 1 - length ?lost"
      unfolding h using plus by (simp add: unat_sub word_le_nat_alt)
    moreover have "kvc_len K ?s \<le> kvc_len K s - length ?lost + 1" using up unfolding L .
    ultimately show ?thesis using room_counts [OF _ held] unfolding n(1) by blast
  qed
qed

lemma kvc_run_counts:
  assumes "inv s0" "\<forall>q. kv_get K s0 COOKIE_NS q 0 = []"
  shows "kvc_run K cap s0 n s \<Longrightarrow> n < 2 ^ 64 \<Longrightarrow>
    kvc_ok K inv s \<and> kvc_len K s \<le> unat (kvc_held s) \<and> unat (kvc_held s) \<le> n \<and> kvc_len K s \<le> max 1 (max_cookies cap)"
proof (induction rule: kvc_run.induct)
  case Start
  have "kvc_ok K inv (kvc_new s0)" using assms by (simp add: kvc_ok_def kvc_new_def)
  moreover from kvc_len_dom [OF this] have "kvc_len K (kvc_new s0) = 0"
    using assms(2) by (simp add: kvc_look_def kvc_new_def dom_def)
  ultimately show ?case by (simp add: kvc_new_def)
next
  case (Put n s c now)
  then have p: "kvc_ok K inv s" "kvc_len K s \<le> unat (kvc_held s)" "unat (kvc_held s) \<le> n" by auto
  have "unat (kvc_held s) + 1 < 2 ^ 64" using p(3) Put.prems by simp
  from kvc_put_counts [OF p(1) Put.hyps(2,3) this p(2), of cap now] show ?case
    using kvc_put_spec [OF p(1) Put.hyps(2,3)] p(3) by auto
next
  case (Refused n s c now)
  then have "kvc_put K cap s c now = s" by (simp add: kvc_put_def Let_def)
  then show ?case using Refused by simp
next
  case (Touch n s ks now)
  then have t: "kvc_ok K inv s" "kvc_ok K inv (kvc_touch K s ks now)"
    "kvc_look K (kvc_touch K s ks now) = map_option (touched ks (whole_sec now)) \<circ> kvc_look K s"
    using kvc_touch_spec [of s ks now] by auto
  then have "dom (kvc_look K (kvc_touch K s ks now)) = dom (kvc_look K s)" by auto
  then have "kvc_len K (kvc_touch K s ks now) = kvc_len K s" using kvc_len_dom [OF t(1)] kvc_len_dom [OF t(2)] by simp
  moreover have "kvc_held (kvc_touch K s ks now) = kvc_held s" by (simp add: kvc_touch_def Let_def)
  ultimately show ?case using Touch t(2) by simp
next
  case (Remove n s k x)
  then have ok: "kvc_ok K inv s" by simp
  note sp = kvc_remove_spec [OF ok kvc_look_plain [OF ok Remove.hyps(2)]]
  have kd: "k \<in> dom (kvc_look K s)" using Remove.hyps(2) by blast
  have "dom (kvc_look K (kvc_remove K s k)) = dom (kvc_look K s) - {k}" using sp by simp
  then have "kvc_len K (kvc_remove K s k) = card (dom (kvc_look K s) - {k})" using kvc_len_dom [OF conjunct1 [OF sp]] by simp
  then have len: "kvc_len K (kvc_remove K s k) = kvc_len K s - 1" using kvc_len_dom [OF ok] kd by (simp add: card_Diff_singleton)
  have "kvc_len K s \<noteq> 0" using kvc_len_dom [OF ok] kd card_0_eq [of "dom (kvc_look K s)"] by (metis (no_types) empty_iff)
  then have "0 < unat (kvc_held s)" using Remove by simp
  then have "unat (kvc_held s - 1) = unat (kvc_held s) - 1" by (simp add: unat_sub word_le_nat_alt)
  then have "unat (kvc_held (kvc_remove K s k)) = unat (kvc_held s) - 1" by (simp add: kvc_remove_def)
  then show ?case using Remove len sp by auto
next
  case (Clear n s)
  then have ok: "kvc_ok K inv s" by simp
  note sp = kvc_clear_spec [OF ok]
  have "kvc_len K (kvc_clear K s) = 0" using kvc_len_dom [OF conjunct1 [OF sp]] sp by simp
  then show ?case using sp by (simp add: kvc_clear_def)
qed

end

section \<open>The refinement\<close>

context kv_store
begin

text \<open>The scan that a put evicts from: the whole namespace once the counter is past the bound on all cookies, and the domain otherwise.\<close>

definition put_prefix :: "capacity \<Rightarrow> 's kv_cookies \<Rightarrow> cookie \<Rightarrow> bytes" where
  "put_prefix cap s c = (if unat (kvc_held s + 1) > max_cookies cap then [] else cookie_prefix (ck_domain c))"

definition put_bound :: "capacity \<Rightarrow> 's kv_cookies \<Rightarrow> nat" where
  "put_bound cap s = (if unat (kvc_held s + 1) > max_cookies cap then max_cookies cap - 1 else max_per_domain cap - 1)"

lemma lost_scan: "kvc_lost cap s c = kvc_victims (put_bound cap s) (kv_scan K (kvc_kv s) COOKIE_NS (put_prefix cap s c) 0)"
  by (simp add: kvc_lost_def put_prefix_def put_bound_def)

lemma in_put_prefix:
  assumes "ckey_plain (key_of x)" "ckey_plain (key_of c)"
  shows "starts_with (cookie_key_for (key_of x)) (put_prefix cap s c) \<longleftrightarrow> unat (kvc_held s + 1) > max_cookies cap \<or> ck_domain x = ck_domain c"
  using cookie_key_prefix [OF assms(1), of "ck_domain c"] assms(2) by (auto simp: put_prefix_def ckey_plain_def starts_with_def)

lemma kvc_put_lru:
  assumes ok: "kvc_ok K inv s" and c: "ckey_plain (key_of c)" "encodable c"
    and x: "kvc_look K s (key_of x) = Some x" "key_of x \<noteq> key_of c" "kvc_look K (kvc_put K cap s c now) (key_of x) = None"
  shows "unat (kvc_held s + 1) > max_cookies cap \<or> ck_domain x = ck_domain c"
    "kvc_look K (kvc_put K cap s c now) (key_of y) = Some y \<Longrightarrow> key_of y \<noteq> key_of c \<Longrightarrow>
      unat (kvc_held s + 1) > max_cookies cap \<or> ck_domain y = ck_domain x \<Longrightarrow> \<not> lru_before y x"
proof -
  note sp = conjunct2 [OF kvc_put_spec [OF ok c, of cap now]]
  let ?f = "kv_scan K (kvc_kv s) COOKIE_NS (put_prefix cap s c) 0" and ?b = "put_bound cap s"
  have lost: "cookie_key_for (key_of x) \<in> set (kvc_victims ?b ?f)" using x sp lost_scan [of cap s c] by (auto split: if_splits)
  from victims_lru [OF this] obtain v x' where v: "(cookie_key_for (key_of x), v) \<in> set ?f" "cookie_decode v = Some x'"
    "\<And>k' v' c'. (k', v') \<in> set ?f \<Longrightarrow> cookie_decode v' = Some c' \<Longrightarrow> k' \<notin> set (kvc_victims ?b ?f) \<Longrightarrow> \<not> lru_before c' x'" by blast
  have px: "ckey_plain (key_of x)" using kvc_look_plain [OF ok x(1)] .
  obtain z where z: "starts_with (cookie_key_for (key_of x)) (put_prefix cap s c)" "kvc_look K s (key_of z) = Some z" "cookie_decode v = Some z"
    "cookie_key_for (key_of x) = cookie_key_for (key_of z)" using v(1) unfolding scan_found [OF ok] by blast
  have "z = x'" using z(3) v(2) by simp
  note sx = z(1,2,4) [unfolded this]
  have kk: "key_of x' = key_of x" by (rule cookie_key_inj [OF px kvc_look_plain [OF ok sx(2)] sx(3), symmetric])
  from sx(2) have "kvc_look K s (key_of x) = Some x'" unfolding kk .
  from trans [OF this [symmetric] x(1)] have xx: "x' = x" by simp
  show d: "unat (kvc_held s + 1) > max_cookies cap \<or> ck_domain x = ck_domain c" using sx(1) in_put_prefix [OF px c(1)] by blast
  show "\<not> lru_before y x" if y: "kvc_look K (kvc_put K cap s c now) (key_of y) = Some y" "key_of y \<noteq> key_of c"
    "unat (kvc_held s + 1) > max_cookies cap \<or> ck_domain y = ck_domain x"
  proof -
    have ly: "kvc_look K s (key_of y) = Some y" "cookie_key_for (key_of y) \<notin> set (kvc_victims ?b ?f)"
      using y(1,2) sp lost_scan [of cap s c] by (simp_all split: if_splits)
    obtain w where w: "cookie_decode w = Some y" using ly(1) kvc_look_Some [OF ok] by blast
    have "starts_with (cookie_key_for (key_of y)) (put_prefix cap s c)"
      using in_put_prefix [OF kvc_look_plain [OF ok ly(1)] c(1)] y(3) d by auto
    then have "(cookie_key_for (key_of y), w) \<in> set ?f" unfolding scan_found [OF ok] using ly(1) w by blast
    from v(3) [OF this w ly(2)] show ?thesis unfolding xx .
  qed
qed

text \<open>And no more go than are over the bound.\<close>

lemma kvc_put_loses:
  assumes ok: "kvc_ok K inv s" and c: "ckey_plain (key_of c)" "encodable c"
  shows "card {k. k \<noteq> key_of c \<and> kvc_look K s k \<noteq> None \<and> kvc_look K (kvc_put K cap s c now) k = None} \<le>
    length (kv_scan K (kvc_kv s) COOKIE_NS (put_prefix cap s c) 0) - put_bound cap s"
proof -
  let ?L = "{k. k \<noteq> key_of c \<and> kvc_look K s k \<noteq> None \<and> kvc_look K (kvc_put K cap s c now) k = None}"
  let ?f = "kv_scan K (kvc_kv s) COOKIE_NS (put_prefix cap s c) 0"
  have "\<forall>(k, v) \<in> set ?f. cookie_decode v \<noteq> None" using scan_found [OF ok] by fastforce
  then have n: "length (kvc_lost cap s c) = length ?f - put_bound cap s"
    using victims_count [OF _ scan_distinct [OF ok]] unfolding lost_scan by blast
  have "cookie_key_for ` ?L \<subseteq> set (kvc_lost cap s c)"
    using kvc_put_spec [OF ok c, of cap now] by (auto split: if_splits)
  then have "card (cookie_key_for ` ?L) \<le> length (kvc_lost cap s c)" by (meson card_length card_mono finite_set le_trans)
  moreover have "inj_on cookie_key_for ?L" by (rule inj_on_subset [OF keys_inj [OF ok]]) auto
  ultimately show ?thesis using n card_image [of cookie_key_for ?L] by simp
qed

lemma kvc_refines:
  assumes ok: "kvc_ok K inv s" and c: "ckey_plain (key_of c)" "encodable c" and k: "ckey_plain k"
    and ks: "\<forall>k \<in> set ks. ckey_plain k" and t: "t \<le> systime_max" and ds: "\<forall>d \<in> set ds. name_ok d \<and> CHR 0x01 \<notin> set d"
  shows "kvc_ok K inv (kvc_put K cap s c now) \<and> kvc_ok K inv (kvc_remove K s k) \<and> kvc_ok K inv (kvc_touch K s ks t) \<and> kvc_ok K inv (kvc_clear K s) \<and>
    set (kvc_get K s ds) = {x. kvc_look K s (key_of x) = Some x \<and> ck_domain x \<in> set ds} \<and> sorted (map ck_seq (kvc_get K s ds)) \<and>
    kvc_look K (kvc_remove K s k) = (kvc_look K s)(k := None) \<and>
    kvc_look K (kvc_touch K s ks t) = map_option (touched ks (whole_sec t)) \<circ> kvc_look K s \<and>
    kvc_look K (kvc_clear K s) = Map.empty \<and>
    kvc_look K (kvc_put K cap s c now) \<subseteq>\<^sub>m (kvc_look K s)(key_of c \<mapsto> whole c) \<and>
    kvc_look K (kvc_put K cap s c now) (key_of c) = Some (whole c) \<and>
    (unat (kvc_held s + 1) \<le> max_cookies cap \<and> length (kv_scan K (kvc_kv s) COOKIE_NS (cookie_prefix (ck_domain c)) 0) < max_per_domain cap \<longrightarrow>
      kvc_look K (kvc_put K cap s c now) = (kvc_look K s)(key_of c \<mapsto> whole c)) \<and>
    (\<forall>x. kvc_look K s (key_of x) = Some x \<and> key_of x \<noteq> key_of c \<and> kvc_look K (kvc_put K cap s c now) (key_of x) = None \<longrightarrow>
      (unat (kvc_held s + 1) > max_cookies cap \<or> ck_domain x = ck_domain c) \<and>
      (\<forall>y. kvc_look K (kvc_put K cap s c now) (key_of y) = Some y \<and> key_of y \<noteq> key_of c \<and>
        (unat (kvc_held s + 1) > max_cookies cap \<or> ck_domain y = ck_domain x) \<longrightarrow> \<not> lru_before y x)) \<and>
    card {k. k \<noteq> key_of c \<and> kvc_look K s k \<noteq> None \<and> kvc_look K (kvc_put K cap s c now) k = None} \<le>
      (if unat (kvc_held s + 1) > max_cookies cap then kvc_len K s - (max_cookies cap - 1)
       else length (kv_scan K (kvc_kv s) COOKIE_NS (cookie_prefix (ck_domain c)) 0) - (max_per_domain cap - 1))"
proof -
  note sp = kvc_put_spec [OF ok c, of cap now]
  have "set (kvc_get K s ds) = {x. kvc_look K s (key_of x) = Some x \<and> ck_domain x \<in> set ds}"
    using kvc_get_set [OF ok, of ds] ds by blast
  moreover have "sorted (map ck_seq (kvc_get K s ds))" by (simp add: kvc_get_def decode_found_def)
  moreover have "kvc_look K (kvc_put K cap s c now) \<subseteq>\<^sub>m (kvc_look K s)(key_of c \<mapsto> whole c)"
    using sp by (auto simp: map_le_def split: if_splits)
  moreover have "kvc_look K (kvc_put K cap s c now) = (kvc_look K s)(key_of c \<mapsto> whole c)"
    if "unat (kvc_held s + 1) \<le> max_cookies cap \<and> length (kv_scan K (kvc_kv s) COOKIE_NS (cookie_prefix (ck_domain c)) 0) < max_per_domain cap"
    using sp kvc_lost_none [of s cap c] that by simp
  moreover have "kvc_look K (kvc_put K cap s c now) (key_of c) = Some (whole c)" using sp by simp
  moreover note kvc_put_lru [OF ok c, of _ cap now]
  moreover have "card {k. k \<noteq> key_of c \<and> kvc_look K s k \<noteq> None \<and> kvc_look K (kvc_put K cap s c now) k = None} \<le>
      (if unat (kvc_held s + 1) > max_cookies cap then kvc_len K s - (max_cookies cap - 1)
       else length (kv_scan K (kvc_kv s) COOKIE_NS (cookie_prefix (ck_domain c)) 0) - (max_per_domain cap - 1))"
    using kvc_put_loses [OF ok c, of cap now]
    by (cases "unat (kvc_held s + 1) > max_cookies cap") (simp_all add: put_prefix_def put_bound_def kvc_len_def)
  ultimately show ?thesis
    using sp kvc_remove_spec [OF ok k] kvc_touch_spec [OF ok _ t, of ks] ks kvc_clear_spec [OF ok] by (intro conjI) blast+
qed

end

text \<open>
  Property C17. Over any byte store that keeps the laws of the seam, the cookies are a map from replacement keys: \<open>get\<close>
  answers exactly the cookies of the domains it is asked for, in the order of arrival; \<open>remove\<close> forgets one key, \<open>touch\<close>
  changes the access times of the named cookies only, \<open>clear\<close> empties it, and \<open>put\<close> binds the key of the cookie to it, with its
  times cut to seconds, and loses nothing while there is room. Otherwise it loses no more than are over the bound, and what was used least
  recently: of all the cookies once the counter with this one is past \<open>max_cookies\<close>, and of the domain of the cookie, and none of another, before. The keys have
  to be free of the separator, their domains not to end in a dot, and the cookie to fit its length fields.
\<close>

theorem cookie_kv_refines:
  fixes K :: "'s key_value_store"
  assumes "kv_store K I" "kvc_ok K I s" "ckey_plain (key_of c)" "encodable c" "ckey_plain k"
    and "\<forall>k \<in> set ks. ckey_plain k" "t \<le> systime_max" "\<forall>d \<in> set ds. name_ok d \<and> CHR 0x01 \<notin> set d"
  shows "kvc_ok K I (kvc_put K cap s c now) \<and> kvc_ok K I (kvc_remove K s k) \<and> kvc_ok K I (kvc_touch K s ks t) \<and> kvc_ok K I (kvc_clear K s) \<and>
    set (kvc_get K s ds) = {x. kvc_look K s (key_of x) = Some x \<and> ck_domain x \<in> set ds} \<and> sorted (map ck_seq (kvc_get K s ds)) \<and>
    kvc_look K (kvc_remove K s k) = (kvc_look K s)(k := None) \<and>
    kvc_look K (kvc_touch K s ks t) = map_option (touched ks (whole_sec t)) \<circ> kvc_look K s \<and>
    kvc_look K (kvc_clear K s) = Map.empty \<and>
    kvc_look K (kvc_put K cap s c now) \<subseteq>\<^sub>m (kvc_look K s)(key_of c \<mapsto> whole c) \<and>
    kvc_look K (kvc_put K cap s c now) (key_of c) = Some (whole c) \<and>
    (unat (kvc_held s + 1) \<le> max_cookies cap \<and> length (kv_scan K (kvc_kv s) COOKIE_NS (cookie_prefix (ck_domain c)) 0) < max_per_domain cap \<longrightarrow>
      kvc_look K (kvc_put K cap s c now) = (kvc_look K s)(key_of c \<mapsto> whole c)) \<and>
    (\<forall>x. kvc_look K s (key_of x) = Some x \<and> key_of x \<noteq> key_of c \<and> kvc_look K (kvc_put K cap s c now) (key_of x) = None \<longrightarrow>
      (unat (kvc_held s + 1) > max_cookies cap \<or> ck_domain x = ck_domain c) \<and>
      (\<forall>y. kvc_look K (kvc_put K cap s c now) (key_of y) = Some y \<and> key_of y \<noteq> key_of c \<and>
        (unat (kvc_held s + 1) > max_cookies cap \<or> ck_domain y = ck_domain x) \<longrightarrow> \<not> lru_before y x)) \<and>
    card {k. k \<noteq> key_of c \<and> kvc_look K s k \<noteq> None \<and> kvc_look K (kvc_put K cap s c now) k = None} \<le>
      (if unat (kvc_held s + 1) > max_cookies cap then kvc_len K s - (max_cookies cap - 1)
       else length (kv_scan K (kvc_kv s) COOKIE_NS (cookie_prefix (ck_domain c)) 0) - (max_per_domain cap - 1))"
  by (rule kv_store.kvc_refines [OF assms])

definition demo_kvc :: "bytes \<Rightarrow> nat \<Rightarrow> cookie" where
  "demo_kvc n q = demo_cookie n ''x.org'' 5000000000 q"

lemma demo_kvc_fine: "ckey_plain (key_of (demo_kvc ''a'' q))" "ckey_plain (key_of (demo_kvc ''b'' q))"
    "q < 2 ^ 64 \<Longrightarrow> encodable (demo_kvc ''a'' q)" "q < 2 ^ 64 \<Longrightarrow> encodable (demo_kvc ''b'' q)" "whole (demo_kvc n q) = demo_kvc n q"
proof -
  have u: "is_utf8 ''a''" "is_utf8 ''b''" "is_utf8 ''v''" "is_utf8 ''x.org''" "is_utf8 ''/''" by code_simp+
  show "q < 2 ^ 64 \<Longrightarrow> encodable (demo_kvc ''a'' q)" "q < 2 ^ 64 \<Longrightarrow> encodable (demo_kvc ''b'' q)"
    by (simp_all add: encodable_def demo_kvc_def demo_cookie_def u systime_max_def del: is_utf8.simps)
  show "ckey_plain (key_of (demo_kvc ''a'' q))" "ckey_plain (key_of (demo_kvc ''b'' q))"
    by (simp_all add: ckey_plain_def key_of_def demo_kvc_def demo_cookie_def name_ok_def)
  show "whole (demo_kvc n q) = demo_kvc n q"
    by (simp add: whole_def demo_kvc_def demo_cookie_def whole_sec_def expiry_secs_def)
qed

lemma demo_kvc_start: "kvc_ok memory_kv kv_wf (kvc_new memory_new)"
  by (simp add: kvc_ok_def kvc_new_def new_wf) (simp add: memory_kv_def memory_get_def read_one_def memory_new_def)

theorem cookie_kv_refines_witness:
  "kvc_look memory_kv (kvc_put memory_kv capacity_default (kvc_new memory_new) (demo_kvc ''a'' 0) 5) (key_of (demo_kvc ''a'' 0)) = Some (demo_kvc ''a'' 0)"
proof -
  have e: "encodable (demo_kvc ''a'' 0)" by (rule demo_kvc_fine(3)) simp
  have t: "(0::system_time) \<le> systime_max" by (simp add: systime_max_def)
  show ?thesis
    using cookie_kv_refines [OF memory.kv_store_axioms demo_kvc_start demo_kvc_fine(1) e demo_kvc_fine(1), of "[]" 0 "[]" capacity_default 5] t
    by (simp add: demo_kvc_fine(5))
qed



section \<open>What the counter does to the bound per domain\<close>

text \<open>
  A replacement counts like a new cookie, and only a victim is taken off the counter again. Once it has passed
  \<open>max_cookies\<close>, every put looks at the bound on all cookies only: here one cookie is set twice, and then a second one
  of the same domain is kept beside it in a store that allows one per domain.
\<close>

lemma replacements_lift_domain_bound:
  "kvc_len memory_kv
     (kvc_put memory_kv \<lparr>max_cookies = 2, max_per_domain = 1\<rparr>
       (kvc_put memory_kv \<lparr>max_cookies = 2, max_per_domain = 1\<rparr>
         (kvc_put memory_kv \<lparr>max_cookies = 2, max_per_domain = 1\<rparr> (kvc_new memory_new) (demo_kvc ''a'' 0) 5) (demo_kvc ''a'' 0) 5)
       (demo_kvc ''b'' 7) 6) = 2"
proof -
  let ?a = "demo_kvc ''a'' 0" and ?b = "demo_kvc ''b'' 7"
  have e: "encodable ?a" "encodable ?b" using demo_kvc_fine(3,4) by simp_all
  obtain va vb where v: "cookie_encode ?a = Some va" "cookie_decode va = Some ?a" "cookie_encode ?b = Some vb"
    using encodable_encode [OF e(1)] encodable_encode [OF e(2)] demo_kvc_fine(5) by metis
  have d: "ck_domain ?a = ''x.org''" "ck_domain ?b = ''x.org''" by (simp_all add: demo_kvc_def demo_cookie_def)
  have ne: "cookie_key_for (key_of ?b) \<noteq> cookie_key_for (key_of ?a)"
    using cookie_key_inj [OF demo_kvc_fine(2,1)] by (force simp: key_of_def demo_kvc_def demo_cookie_def)
  have p: "starts_with (cookie_key_for (key_of ?a)) (cookie_prefix ''x.org'')" using key_starts [of "key_of ?a"] d by simp
  show ?thesis
    by (simp add: kvc_len_def kvc_put_def kvc_new_def v d Let_def kvc_victims_def map_filter_simps memory_kv_def memory_put_def memory_remove_def
        memory_new_def memory_scan_def scan_where_def or_default_def is_live_def p ne ne [symmetric] starts_with_def [of _ "[]"])
qed

text \<open>Removing what is not held takes one off the counter all the same; at zero it wraps.\<close>

lemma absent_cookie_removal_undercounts:
  "kvc_held (kvc_remove memory_kv (kvc_new memory_new) k) = - 1"
  by (simp add: kvc_remove_def kvc_new_def)

section \<open>A jar over a byte store\<close>

lemma candidates_named:
  assumes "name_ok h" "CHR 0x01 \<notin> set h" "d \<in> set (candidate_domains h)"
  shows "name_ok d \<and> CHR 0x01 \<notin> set d"
proof -
  have "domain_matches h d" using assms(3) by (simp add: candidate_domains_set)
  then consider "d = h" | q where "h = q @ ''.'' @ d" unfolding domain_matches_iff by blast
  then show ?thesis
  proof cases
    case 2
    then have "d \<noteq> []" using assms(1) by (auto simp: name_ok_def)
    then show ?thesis using 2 assms(1,2) by (auto simp: name_ok_def)
  qed (use assms in simp)
qed

context kv_store
begin

lemma kvc_find:
  assumes "kvc_ok K inv s" "ckey_plain k"
  shows "find (\<lambda>x. key_of x = k) (kvc_get K s [key_domain k]) = kvc_look K s k"
proof -
  have g: "x \<in> set (kvc_get K s [key_domain k]) \<longleftrightarrow> kvc_look K s (key_of x) = Some x \<and> ck_domain x = key_domain k" for x
    using kvc_get_set [OF assms(1), of "[key_domain k]" x] assms(2) by (simp add: ckey_plain_def)
  show ?thesis
  proof (cases "kvc_look K s k")
    case None
    then show ?thesis by (auto simp: find_None_iff g)
  next
    case (Some c)
    have k: "key_of c = k" using Some kvc_look_Some [OF assms(1)] by blast
    have "ck_domain c = key_domain k" by (simp flip: k)
    then have "c \<in> set (kvc_get K s [key_domain k])" unfolding g k using Some by blast
    then obtain d where d: "find (\<lambda>x. key_of x = k) (kvc_get K s [key_domain k]) = Some d"
      using k by (metis (mono_tags, lifting) find_None_iff not_None_eq)
    then have m: "d \<in> set (kvc_get K s [key_domain k])" and kd: "key_of d = k" by (auto simp: find_Some_iff)
    from m have "kvc_look K s k = Some d" unfolding g kd by blast
    then show ?thesis using d by simp
  qed
qed

text \<open>What the jar writes for an arriving cookie can be written.\<close>

lemma kvc_jar_insert:
  assumes ok: "kvc_ok K inv (jar_store j)" and c: "ckey_plain (key_of c)" "encodable c" and q: "next_seq j < 2 ^ 64"
  obtains t n where "jar_store (jar_insert (kvc_ops K cap) j c now arr) = kvc_put K cap (jar_store j) (c\<lparr>ck_creation := t, ck_seq := n\<rparr>) now"
    "encodable (c\<lparr>ck_creation := t, ck_seq := n\<rparr>)"
proof -
  have f: "find (\<lambda>x. key_of x = key_of c) (kvc_get K (jar_store j) [ck_domain c]) = kvc_look K (jar_store j) (key_of c)"
    using kvc_find [OF ok c(1)] by simp
  have o: "op_get (kvc_ops K cap) = kvc_get K" "op_put (kvc_ops K cap) = kvc_put K cap" by (simp_all add: kvc_ops_def)
  have same: "c\<lparr>ck_creation := ck_creation c, ck_seq := n\<rparr> = c\<lparr>ck_seq := n\<rparr>" for n by (cases c) simp
  show thesis
  proof (cases "kvc_look K (jar_store j) (key_of c)")
    case None
    then have "jar_store (jar_insert (kvc_ops K cap) j c now arr) = kvc_put K cap (jar_store j) (c\<lparr>ck_creation := ck_creation c, ck_seq := next_seq j\<rparr>) now"
      unfolding same by (simp add: jar_insert_def o f)
    moreover have "encodable (c\<lparr>ck_creation := ck_creation c, ck_seq := next_seq j\<rparr>)" using c(2) q by (simp add: encodable_def)
    ultimately show thesis by (rule that)
  next
    case (Some old)
    then obtain v where "cookie_decode v = Some old" using kvc_look_Some [OF ok] by blast
    then have "tellable old" using decode_iff by blast
    then have t: "ck_creation old \<le> systime_max" "ck_seq old < 2 ^ 64" by (simp_all add: tellable_def sec_ok_def)
    define t' where "t' = (if arr = SetCookieArrival then ck_creation old else ck_creation c)"
    have "jar_store (jar_insert (kvc_ops K cap) j c now arr) = kvc_put K cap (jar_store j) (c\<lparr>ck_creation := t', ck_seq := ck_seq old\<rparr>) now"
      using Some by (cases "arr = SetCookieArrival") (simp_all add: jar_insert_def o f t'_def same)
    moreover have "encodable (c\<lparr>ck_creation := t', ck_seq := ck_seq old\<rparr>)" using c(2) t by (simp add: encodable_def t'_def)
    ultimately show thesis by (rule that)
  qed
qed

lemma kvc_stored_then_matched:
  assumes ok: "kvc_ok K inv (jar_store j)" and q: "next_seq j < 2 ^ 64"
    and c: "prepare env uri header now = Inr c" "ckey_plain (key_of c)" "encodable c"
    and h: "\<forall>h. canonical_host uri = Some h \<longrightarrow> name_ok h \<and> CHR 0x01 \<notin> set h"
    and e: "\<not> is_expired (whole c) now" "path_matches (request_path uri) (ck_path c)"
  shows "kvc_ok K inv (jar_store (jar_insert (kvc_ops K cap) j c now arr)) \<and>
    (\<exists>c'. c' \<in> set (matching (kvc_ops K cap) (jar_store (jar_insert (kvc_ops K cap) j c now arr)) uri now) \<and>
       key_of c' = key_of c \<and> ck_value c' = ck_value c)"
proof -
  obtain t n where i: "jar_store (jar_insert (kvc_ops K cap) j c now arr) = kvc_put K cap (jar_store j) (c\<lparr>ck_creation := t, ck_seq := n\<rparr>) now"
    "encodable (c\<lparr>ck_creation := t, ck_seq := n\<rparr>)" using kvc_jar_insert [OF ok c(2,3) q] by blast
  let ?c = "c\<lparr>ck_creation := t, ck_seq := n\<rparr>"
  have k: "key_of ?c = key_of c" by (simp add: key_of_def)
  note sp = kvc_put_spec [OF ok, of ?c cap now, unfolded k, OF c(2) i(2)]
  from c(1) obtain g where g: "canonical_host uri = Some g" "ck_secure c \<longrightarrow> is_secure_request uri"
    "if ck_host_only c then ck_domain c = g else domain_matches g (ck_domain c)"
    by (rule prepare_parts) (auto dest: scope_domain_ok split: if_splits)
  have "applies g (request_path uri) (is_secure_request uri) now (whole ?c)"
    using g e by (auto simp: applies_def is_expired_def whole_def)
  moreover have "whole ?c \<in> set (kvc_get K (kvc_put K cap (jar_store j) ?c now) (candidate_domains g))"
  proof -
    have d: "name_ok d \<and> CHR 0x01 \<notin> set d" if "d \<in> set (candidate_domains g)" for d
      using candidates_named [OF _ _ that] h g(1) by blast
    have "ck_domain c \<in> set (candidate_domains g)" using g(3) by (auto simp: candidate_domains_set domain_matches_iff split: if_splits)
    moreover have "kvc_look K (kvc_put K cap (jar_store j) ?c now) (key_of (whole ?c)) = Some (whole ?c)" using sp by (simp add: k)
    ultimately show ?thesis using kvc_get_set [OF conjunct1 [OF sp], of "candidate_domains g" "whole ?c"] d by simp
  qed
  ultimately have "whole ?c \<in> set (matching (kvc_ops K cap) (kvc_put K cap (jar_store j) ?c now) uri now)"
    by (simp add: matching_def kvc_ops_def g(1))
  then show ?thesis using sp unfolding i(1) by (intro conjI exI [of _ "whole ?c"]) (simp_all add: k)
qed

end

text \<open>
  Property C18. The jar and its byte store together: a cookie that was accepted from a response, written as bytes under its key,
  comes back to the same request, with the value it had, if it has not ended (to the second) and its path covers the
  request. The strings have to fit their length fields, the key to be free of the separator, and the host not to end in a dot.
\<close>

theorem kv_jar_store_then_match:
  fixes K :: "'s key_value_store"
  assumes "kv_store K I" "kvc_ok K I (jar_store j)" "next_seq j < 2 ^ 64"
    and "jar_store_header (kvc_ops K cap) env j uri header now = (Inr (), j')"
    and "prepare env uri header now = Inr c" "ckey_plain (key_of c)" "encodable c"
    and "\<forall>h. canonical_host uri = Some h \<longrightarrow> name_ok h \<and> CHR 0x01 \<notin> set h"
    and "\<not> is_expired (whole c) now" "path_matches (request_path uri) (ck_path c)"
  shows "kvc_ok K I (jar_store j') \<and>
    (\<exists>c'. c' \<in> set (matching (kvc_ops K cap) (jar_store j') uri now) \<and> key_of c' = key_of c \<and> ck_value c' = ck_value c)"
proof -
  have "j' = jar_insert (kvc_ops K cap) j c now SetCookieArrival" using assms(4,5) by (simp add: jar_store_header_def)
  then show ?thesis using kv_store.kvc_stored_then_matched [OF assms(1-3) assms(5-10)] by simp
qed

theorem kv_jar_store_then_match_witness:
  "\<exists>j' c'. jar_store_header (kvc_ops memory_kv capacity_default) demo_env \<lparr>jar_store = kvc_new memory_new, next_seq = 0\<rparr>
      (demo_uri ''https'' ''www.BBC.co.uk'' ''/x'') ''sid=1; Domain=bbc.co.uk; Path=/; Secure'' 5 = (Inr (), j') \<and>
     c' \<in> set (matching (kvc_ops memory_kv capacity_default) (jar_store j') (demo_uri ''https'' ''www.BBC.co.uk'' ''/x'') 5) \<and>
     ck_value c' = ''1''"
proof -
  let ?j = "\<lparr>jar_store = kvc_new memory_new, next_seq = 0\<rparr>" and ?o = "kvc_ops memory_kv capacity_default"
  let ?u = "demo_uri ''https'' ''www.BBC.co.uk'' ''/x''"
  have r: "jar_store_header ?o demo_env ?j ?u ''sid=1; Domain=bbc.co.uk; Path=/; Secure'' 5 = (Inr (), jar_insert ?o ?j demo_stored 5 SetCookieArrival)"
    by (simp add: jar_store_header_def demo_prepare)
  have ok: "kvc_ok memory_kv kv_wf (jar_store ?j)" "next_seq ?j < 2 ^ 64" by (simp_all add: demo_kvc_start)
  have k: "ckey_plain (key_of demo_stored)" by (simp add: ckey_plain_def key_of_def demo_stored_eq name_ok_def)
  have "is_utf8 ''sid''" "is_utf8 ''1''" "is_utf8 ''bbc.co.uk''" "is_utf8 ''/''" by code_simp+
  then have e: "encodable demo_stored" by (simp add: encodable_def demo_stored_eq systime_max_def del: is_utf8.simps)
  have "canonical_host ?u = Some ''www.bbc.co.uk''" by code_simp
  then have h: "\<forall>h. canonical_host ?u = Some h \<longrightarrow> name_ok h \<and> CHR 0x01 \<notin> set h" by (simp add: name_ok_def)
  have x: "\<not> is_expired (whole demo_stored) 5" by (simp add: is_expired_def whole_def demo_stored_eq)
  from kv_jar_store_then_match [OF memory.kv_store_axioms ok r demo_prepare k e h x demo_path] r show ?thesis
    by (auto simp: demo_stored_eq)
qed

end
