(* ===== verification/Spec2Isabelle.thy ===== *)
theory Spec2Isabelle
  imports Sse_Decoder Redirect Retry Happy_Eyeballs Socks Http_Connect Cookie_Persist Hsts Cached_Client Client_Loop Cache_Kv Cookie_Kv
begin

text \<open>
  A verification development for \<open>hclient\<close>, an HTTP client library in Rust: a workspace of crates around a
  transport-independent client (\<open>crates/hclient\<close>), the seams it is built on (\<open>crates/hclient-core\<close>) and the
  backends that move bytes. What decides about security and correctness is written without I/O, and that is
  what is modelled here: each theory translates one such component, and states what makes it correct.

  \<^bold>\<open>The parts and how they interact.\<close> A request is resolved to a URI, upgraded by HSTS, given cookies, answered by
  the response cache or sent, with the conditions the cache adds,
  by a backend over a connection that Happy Eyeballs and possibly a proxy handshake established; the response
  is noted by HSTS and the jar, is recorded into the cache, may be retried after a backoff or redirected (which starts the next hop with
  its own URI, headers and credentials), and its body may be a stream of server-sent events.

  \<^bold>\<open>Theories, in the order they build on each other.\<close>

    \<^item> \<open>Prelude\<close>: bytes and strings, durations and clock values, generic lemmas.
    \<^item> \<open>Std_Text\<close>: what the components use of Rust's standard library on text: ASCII classes, searching and
      splitting, decimal integers with their overflow, UTF-8 validation and lossy decoding, IP addresses.
    \<^item> \<open>Winnow\<close>: the token parsers and combinators of the \<open>winnow\<close> crate as parameters, their documented laws and
      an instance of them.
    \<^item> \<open>Header_Map\<close>, \<open>Multimap\<close>, \<open>Field_List\<close>: what is used of \<open>http::HeaderMap\<close>; the \<open>HashMap\<close> of groups that the cookie store and the
      cache store keep; the list syntax of header fields (\<open>sansio/field.rs\<close>).
    \<^item> \<open>Line_Splitter\<close> (\<open>sansio/sse/lines.rs\<close>): the incremental line splitter, its buffer, scan position, BOM state and
      the operations \<open>push\<close>, \<open>next_line\<close>, \<open>take_unterminated\<close>. How the bytes are cut into pushes does not
      matter, and every byte is accounted for.
    \<^item> \<open>Sse_Decoder\<close> (\<open>sansio/sse/decode.rs\<close>): fields, dispatch and the size limit. Chunking does not matter, a
      stream within the limit is decoded and one beyond it is refused, memory is bounded, and a block of lines
      is dispatched as the events specification says.
    \<^item> \<open>Uri_Resolve\<close> (\<open>sansio/uri.rs\<close>): splitting, merging, dot segments, recomposition and the conversion of a
      string to ASCII. Dot-segment removal equals a stack of segments; a relative reference cannot leave the authority
      of its base.
    \<^item> \<open>Policy_Meet\<close>: the locale of policies that are combined by a meet; interpreted by \<open>Redirect\<close> and \<open>Retry\<close>.
    \<^item> \<open>Redirect\<close> (\<open>sansio/redirect.rs\<close>, \<open>stages/redirect.rs\<close>, the redirect arm of \<open>client.rs\<close>): verdicts and their
      composition, the decision, and the chain of hops as a step relation, whatever is made of the request of a hop between two redirects.
      A limit bounds the chain.
    \<^item> \<open>Backoff\<close> (\<open>sansio/backoff.rs\<close>) and \<open>Retry\<close> (\<open>sansio/retry.rs\<close>): the delay with its overflow and its jitter in
      floating point, and the decision whether to send again.
    \<^item> \<open>Happy_Eyeballs\<close> (\<open>hclient-proto/src/happy_eyeballs.rs\<close>): the scheduler of connection attempts as a state machine that is
      polled: each address is started once, attempts are spaced, and the schedule ends.
    \<^item> \<open>Handshake\<close> (\<open>hclient-proxy/src/drive.rs\<close>): the interface of a proxy handshake as a locale, and the driver, with
      fuel: more rounds than there are writes left and reads to come suffice, which the locale shows.
      \<open>Socks\<close> (\<open>socks4.rs\<close>, \<open>socks5.rs\<close>) interprets it: a tunnel is reported exactly when the proxy granted one, how
      its answer is cut does not matter, and the bytes after the reply are left for the tunnel.
    \<^item> \<open>Response_Head\<close> (\<open>hclient-proto/src/head.rs\<close>): the head of a response over input that is still arriving; it accepts the grammar and nothing
      else, wherever the reads cut it. \<open>Http_Connect\<close> (\<open>connect.rs\<close>) keeps the contract of \<open>Handshake\<close> for streams within its bound of 64 KiB.
    \<^item> \<open>Cookie_Match\<close>, \<open>Cookie_Parse\<close>, \<open>Cookie_Store\<close>, \<open>Memory_Store\<close>, \<open>Cookie_Jar\<close> (\<open>cookie/\<close>): matching rules, the
      \<open>Set-Cookie\<close> parser with its dates, the in-memory store with expiry and eviction, and the jar's rules. The
      store's contract is the locale \<open>cookie_store\<close>, the jar over it the locale \<open>cookie_jar\<close>, both interpreted on the code's
      store.
    \<^item> \<open>Kv_Store\<close> (\<open>hclient-core/src/kv.rs\<close>): the byte seam under the stores. The trait is a record of operations, its laws are the
      locale \<open>kv_store\<close>, and the in-memory store is an interpretation of it and refines a map.
    \<^item> \<open>Hsts_Store\<close>, \<open>Hsts_Directives\<close>, \<open>Hsts\<close> (\<open>hsts/\<close>, \<open>sansio/field.rs\<close>, the two call sites of \<open>client.rs\<close>): the policy
      store over any byte store (a \<open>sublocale\<close> of \<open>kv_store\<close> in \<open>hsts_contract\<close>), the header field, and the rules. A
      host that asserted a policy is protected until the policy ends.
    \<^item> \<open>Http_Date\<close>, \<open>Cache_Directives\<close> (\<open>cache/date.rs\<close>, \<open>cache/directives.rs\<close>): the three date forms and \<open>Cache-Control\<close>, each read as what
      was written.
    \<^item> \<open>Cache_Store\<close> (\<open>cache/store.rs\<close>): keys, selectors, stored responses and the in-memory store, which refines a bounded map. What the rules
      need of a store is the locale \<open>cache_contract\<close>.
    \<^item> \<open>Http_Cache\<close> (\<open>cache/policy.rs\<close>): lookup, storing, age and freshness, revalidation and invalidation over any store of the contract. A hit is
      allowed by both sides' directives and has the body of an exchange that the request may share.
    \<^item> \<open>Cache_Kv\<close> (\<open>cache/kv.rs\<close>): the cache over a byte store: keys with the digest of the selector, the encoding of a response and the count of
      variants as a 64-bit word. Every \<open>kv_store\<close> gives a \<open>cache_contract\<close> (a \<open>sublocale\<close>), so the rules hold over bytes too.
    \<^item> \<open>Byte_Codec\<close>: what the byte stores share to encode records: UTF-8, little-endian words and length prefixes, each read back as written.
    \<^item> \<open>Cookie_Persist\<close> (\<open>cookie/persist.rs\<close>): the records a jar is saved as and what is accepted when they are read. What a jar can become, by
      responses, requests, restoring and clearing, is the inductive predicate \<open>reachable\<close>. A saved jar comes back.
    \<^item> \<open>Cookie_Kv\<close> (\<open>cookie/kv.rs\<close>): cookies over a byte store: keys, the canonical encoding, eviction by last use and the 64-bit count of a
      domain. Over every \<open>kv_store\<close> it refines a map of cookies, and the jar runs over the bytes.
    \<^item> \<open>Cached_Client\<close> (\<open>cached.rs\<close>, the two cache hooks of \<open>client.rs\<close>): the body that is served or recorded, and the hop around it.
    \<^item> \<open>Client_Loop\<close> (\<open>Client::run\<close> of \<open>client.rs\<close>, \<open>auth/netrc.rs\<close>): the loop that puts the components together. Its head upgrades a hop, attaches cookies,
      adds default headers and netrc credentials and asks the cache; then come the sends of the hop and the redirect arm. The stores are in any state at each
      hop, as other operations share them. The caller's credentials stay on the origin it addressed, and under \<open>HttpsOnly\<close> HTTPS is never left.

  \<^bold>\<open>Conventions.\<close> A method that changes \<open>self\<close> takes and returns a record; an \<open>await\<close> is a call, so that operations
  are sequences, and a \<open>Mutex\<close> disappears; an error is a value of a sum or option type. A \<open>HashMap\<close> is a list of pairs whose
  order stands for the order of iteration. Lengths held in memory are \<open>nat\<close>; integers whose width matters (hop counters, 64-bit ages,
  little-endian fields, durations) keep their bounds. A \<open>SystemTime\<close> is an integer of nanoseconds with the range it has on Unix.

  \<^bold>\<open>Parameters.\<close> Code of other packages is an argument, with what is relied on as a named hypothesis and a concrete
  instance for it: URI parsing, percent-encoding and IDN (\<open>uri_ext\<close>, \<open>ext_ascii\<close>), rebuilding a URI (\<open>hsts_env\<close>, \<open>uri_build_ok\<close>), the
  \<open>winnow\<close> parsers (\<open>lexer\<close>, \<open>grammar\<close>), the calendar of \<open>jiff\<close>, the public suffix list and the validation of header values, Base64, and an authentication scheme, a trait object
  of the caller.

  \<^bold>\<open>Not modelled.\<close> The backends (HTTP/1 to 3, connection pool, TLS, DNS, browser, WASI and operating-system stacks), the
  runtimes and their glue, which are I/O or call other packages; the configuration surface of the client; and, for now,
  authentication schemes (Digest, of which only the traits and the legs are modelled) and the parsing of a netrc file, proxy selection, multipart bodies,
  decompression and \<open>Link\<close> headers.
\<close>

end
